(* ===== verification/CBase.thy ===== *)
theory CBase
  imports Main "HOL-Library.Word" "HOL-Library.Signed_Division"
begin

text \<open>
  The prelude of the development: the machine types of the RV32 target, the named collections the
  component theories fill, and the generic facts on words, lists and options they share.

  The compiler is gcc for RV32 with \<^verbatim>\<open>-O0\<close>: \<open>char\<close> is an unsigned byte, \<open>int\<close> and
  \<open>long\<close> are 32-bit two's complement values that wrap on overflow, a pointer is a 32-bit address.
  An \<open>int\<close> is kept as its bit pattern: \<open>sint\<close> reads it, \<open><s\<close> and \<open>\<le>s\<close> compare it.
\<close>

unbundle bit_operations_syntax

type_synonym u8 = "8 word"
type_synonym u32 = "32 word"
type_synonym u64 = "64 word"
type_synonym i32 = "32 word"

named_theorems mem_simps \<open>loads after stores\<close>
named_theorems arith_defs \<open>definitions of the software arithmetic routines\<close>

section \<open>Words\<close>

lemma unat_of_nat_32: "n < 2 ^ 32 \<Longrightarrow> unat (of_nat n :: 32 word) = n"
  by (simp add: unat_of_nat take_bit_nat_eq_self_iff)

lemma unat_lt_32 [simp]: "unat (w :: 32 word) < 4294967296"
  using unsigned_less [of w, where ?'a = nat] by simp

lemma unat_lt_8 [simp]: "unat (w :: 8 word) < 256"
  using unsigned_less [of w, where ?'a = nat] by simp

lemma unat_le_8 [simp]: "unat (w :: 8 word) \<le> 255"
  using unat_lt_8 [of w] by linarith

text \<open>The successor of a word that is below another word does not wrap.\<close>

lemma unat_Suc_less:
  fixes i n :: "'a::len word"
  assumes "i < n"
  shows "unat (i + 1) = Suc (unat i)"
proof -
  have "unat i < unat n" using assms by (simp add: word_less_nat_alt)
  then have "Suc (unat i) < 2 ^ LENGTH('a)"
    using unsigned_less [of n, where ?'a = nat] by linarith
  then show ?thesis by (simp add: unat_word_ariths)
qed

lemma unat_plus_1:
  "i < n \<Longrightarrow> unat n - unat (i + 1) < unat n - unat (i :: 'a::len word)"
  by (simp add: unat_Suc_less word_less_nat_alt diff_less_mono2)

lemma unat_add_of_nat:
  "unat (a :: 'a::len word) + n < 2 ^ LENGTH('a) \<Longrightarrow> unat (a + of_nat n) = unat a + n"
  by (simp add: unat_word_ariths unat_of_nat)

lemma drop_bit_1_less:
  fixes a :: "'a::len word"
  assumes "a \<noteq> 0"
  shows "unat (drop_bit (Suc 0) a) < unat a"
proof -
  have "0 < unat a" using assms by (simp add: unat_gt_0)
  then show ?thesis by (simp add: drop_bit_eq_div unat_div)
qed

text \<open>The signed reading of a 32-bit word.\<close>

lemma sint_lt_32: "sint (w :: 32 word) < 2147483648"
  using sint_lt [of w] by simp

lemma sint_ge_32: "- 2147483648 \<le> sint (w :: 32 word)"
  using sint_ge [of w] by simp

lemma sint_of_int_32:
  "- 2147483648 \<le> k \<Longrightarrow> k < 2147483648 \<Longrightarrow> sint (word_of_int k :: 32 word) = k"
  by (simp add: signed_of_int signed_take_bit_int_eq_self)

lemma sint_of_nat_32: "n < 2 ^ 31 \<Longrightarrow> sint (of_nat n :: 32 word) = int n"
  using sint_of_int_32 [of "int n"] by simp

lemma uint_lt_32 [simp]: "uint (w :: 32 word) < 4294967296"
  using uint_lt2p [of w] by simp

lemma unat_less_uint: "unat (w :: 'a::len word) < n \<longleftrightarrow> uint w < int n"
  by (metis nat_uint_eq uint_ge_0 zless_nat_eq_int_zless nat_less_iff)

lemma sint_uint_32:
  "sint (w :: 32 word) = (if uint w < 2147483648 then uint w else uint w - 4294967296)"
proof -
  define k where "k = uint w"
  have b: "0 \<le> k" "k < 4294967296" by (simp_all add: k_def)
  have s: "sint w = signed_take_bit 31 k" by (simp add: k_def sint_uint)
  show ?thesis
  proof (cases "k < 2147483648")
    case True
    then have "signed_take_bit 31 k = k" using b by (simp add: signed_take_bit_int_eq_self)
    then show ?thesis using True s by (simp add: k_def)
  next
    case False
    have "signed_take_bit 31 k = signed_take_bit 31 (k - 4294967296)"
      by (simp add: signed_take_bit_eq_iff_take_bit_eq take_bit_eq_mod)
    also have "\<dots> = k - 4294967296"
      using False b by (simp add: signed_take_bit_int_eq_self)
    finally show ?thesis using False s by (simp add: k_def)
  qed
qed

lemma sint_nonneg_uint:
  "0 \<le> sint (w :: 32 word) \<Longrightarrow> sint w = uint w"
  using uint_lt_32 [of w] by (simp add: sint_uint_32 del: uint_lt_32 split: if_splits)

lemma sint_neg_uint:
  "sint (w :: 32 word) < 0 \<Longrightarrow> sint w = uint w - 4294967296"
  by (auto simp: sint_uint_32 split: if_splits)

lemma sint_add_32:
  "- 2147483648 \<le> sint a + sint b \<Longrightarrow> sint a + sint b < 2147483648 \<Longrightarrow>
   sint (a + b :: 32 word) = sint a + sint b"
  by (simp add: sint_word_add signed_take_bit_int_eq_self)

lemma sint_succ_less: "sint i < sint (n :: 32 word) \<Longrightarrow> sint (i + 1 :: 32 word) = sint i + 1"
  using sint_ge_32 [of i] sint_lt_32 [of n] by (subst sint_add_32) auto

lemma sint_diff_32:
  "- 2147483648 \<le> sint a - sint b \<Longrightarrow> sint a - sint b < 2147483648 \<Longrightarrow>
   sint (a - b :: 32 word) = sint a - sint b"
  by (simp add: sint_word_diff signed_take_bit_int_eq_self)

lemma sint_minus_32:
  "sint a \<noteq> - 2147483648 \<Longrightarrow> sint (- a :: 32 word) = - sint a"
  using sint_ge_32 [of a] sint_lt_32 [of a]
  by (simp add: sint_word_minus signed_take_bit_int_eq_self)

lemma sint_mult_32:
  "- 2147483648 \<le> sint a * sint b \<Longrightarrow> sint a * sint b < 2147483648 \<Longrightarrow>
   sint (a * b :: 32 word) = sint a * sint b"
  by (simp add: sint_word_mult signed_take_bit_int_eq_self)

lemma sint_inject_32: "sint (a :: 32 word) = sint b \<Longrightarrow> a = b"
  by (metis signed_word_eqI)

end
