(* ===== verification/Arith.thy ===== *)
theory Arith
  imports CBase
begin

text \<open>
  The software arithmetic of the core, which has no multiply or divide instruction:
  \<^verbatim>\<open>gcc/utils.c\<close> (\<open>abs\<close>, \<open>multiply\<close>, \<open>divide\<close>, \<open>modulo\<close>, \<open>count_digits\<close> and the
  libgcc entry points \<open>__mulsi3\<close>, \<open>__divsi3\<close>, \<open>__udivsi3\<close>, \<open>__modsi3\<close>), the copies of the
  latter four in \<^verbatim>\<open>gcc/stdlib.c\<close>, and the 32-step \<open>multiply\<close> of \<^verbatim>\<open>gcc/multiply.c\<close>.
  A loop that can run forever is a \<^theory_text>\<open>partial_function (option)\<close>: \<open>None\<close> is "does not
  return".
\<close>

section \<open>The routines of utils.c\<close>

definition abs_int :: "i32 \<Rightarrow> i32" where
  "abs_int i = (if i <s 0 then - i else i)"

function multiply_loop :: "u32 \<Rightarrow> u32 \<Rightarrow> u32 \<Rightarrow> u32" where
  "multiply_loop a b r =
     (if a = 0 then r
      else multiply_loop (drop_bit 1 a) (push_bit 1 b) (if a AND 1 \<noteq> 0 then r + b else r))"
  by pat_completeness auto
termination
  by (relation "measure (\<lambda>(a, b, r). unat a)") (auto simp: drop_bit_1_less)

declare multiply_loop.simps [simp del]

definition multiply :: "u32 \<Rightarrow> u32 \<Rightarrow> u32" where
  "multiply a b = multiply_loop a b 0"

text \<open>\<open>while (y <= x) { y <<= 1; mask <<= 1; }\<close>, on signed \<open>x\<close> and \<open>y\<close>.\<close>

partial_function (option) scale_up :: "i32 \<Rightarrow> i32 \<Rightarrow> u32 \<Rightarrow> (i32 \<times> u32) option" where
  "scale_up x y msk =
     (if y \<le>s x then scale_up x (push_bit 1 y) (push_bit 1 msk) else Some (y, msk))"

text \<open>The subtracting loop of \<open>divide\<close>; \<open>y >>= 1\<close> is the arithmetic shift of an \<open>int\<close>.\<close>

function divide_loop :: "i32 \<Rightarrow> i32 \<Rightarrow> u32 \<Rightarrow> u32 \<Rightarrow> i32 \<times> u32" where
  "divide_loop x y msk quot =
     (if 1 < msk
      then let y = signed_drop_bit 1 y; msk = drop_bit 1 msk
           in if y \<le>s x then divide_loop (x - y) y msk (quot OR msk)
              else divide_loop x y msk quot
      else (x, quot))"
  by pat_completeness auto
termination
  by (relation "measure (\<lambda>(x, y, msk, q). unat msk)")
    (auto intro!: drop_bit_1_less)

declare divide_loop.simps [simp del]

definition divide :: "i32 \<Rightarrow> i32 \<Rightarrow> i32 option" where
  "divide x y =
     (if y = 0 then Some 0
      else let sign = (if multiply x y <s 0 then - 1 else 1);
               x = abs_int x; y = abs_int y
           in case scale_up x y 1 of
                None \<Rightarrow> None
              | Some (y, msk) \<Rightarrow> Some (multiply sign (snd (divide_loop x y msk 0))))"

function modulo_loop :: "i32 \<Rightarrow> i32 \<Rightarrow> u32 \<Rightarrow> i32" where
  "modulo_loop x y msk =
     (if 1 < msk
      then let y = signed_drop_bit 1 y; msk = drop_bit 1 msk
           in if y \<le>s x then modulo_loop (x - y) y msk else modulo_loop x y msk
      else x)"
  by pat_completeness auto
termination
  by (relation "measure (\<lambda>(x, y, msk). unat msk)") (auto intro!: drop_bit_1_less)

declare modulo_loop.simps [simp del]

definition modulo :: "i32 \<Rightarrow> i32 \<Rightarrow> i32 option" where
  "modulo x y =
     (if y = 0 then Some 0
      else let sign = (if x <s 0 then - 1 else 1);
               x = abs_int x; y = abs_int y
           in case scale_up x y 1 of
                None \<Rightarrow> None
              | Some (y, msk) \<Rightarrow> Some (multiply sign (modulo_loop x y msk)))"

partial_function (option) count_digits_loop :: "i32 \<Rightarrow> i32 \<Rightarrow> i32 option" where
  "count_digits_loop n count =
     (if n \<noteq> 0
      then Option.bind (divide n 10) (\<lambda>n. count_digits_loop n (count + 1))
      else Some count)"

definition count_digits :: "i32 \<Rightarrow> i32 option" where
  "count_digits n = count_digits_loop n 0"

text \<open>\<open>for (i = 0; i < b; i++) product += a;\<close>\<close>

function mulsi3_loop :: "i32 \<Rightarrow> i32 \<Rightarrow> i32 \<Rightarrow> i32 \<Rightarrow> i32" where
  "mulsi3_loop a b i product =
     (if i <s b then mulsi3_loop a b (i + 1) (product + a) else product)"
  by pat_completeness auto
termination
proof (relation "measure (\<lambda>(a, b, i, p). nat (sint b - sint i))", simp)
  fix a b i p :: "32 word"
  assume "i <s b"
  then have l: "sint i < sint b" by (simp add: word_sless_alt)
  moreover from l have "sint (i + 1) = sint i + 1"
    using sint_ge_32 [of i] sint_lt_32 [of b] by (subst sint_add_32) auto
  ultimately show "((a, b, i + 1, p + a), a, b, i, p)
      \<in> measure (\<lambda>(a, b, i, p). nat (sint b - sint i))" by simp
qed

declare mulsi3_loop.simps [simp del]

definition mulsi3 :: "i32 \<Rightarrow> i32 \<Rightarrow> i32" where
  "mulsi3 a b =
     (let (a, b) = (if b <s 0 then (0 - a, 0 - b) else (a, b)) in mulsi3_loop a b 0 0)"

partial_function (option) divsi3_loop :: "i32 \<Rightarrow> i32 \<Rightarrow> i32 \<Rightarrow> i32 option" where
  "divsi3_loop a b cnt = (if a <s b then Some cnt else divsi3_loop (a - b) b (cnt + 1))"

definition divsi3 :: "i32 \<Rightarrow> i32 \<Rightarrow> i32 option" where
  "divsi3 a b = divsi3_loop a b 0"

text \<open>\<open>__udivsi3\<close> is declared over \<open>int\<close>, so it compares signed as \<open>__divsi3\<close> does.\<close>

partial_function (option) udivsi3_loop :: "i32 \<Rightarrow> i32 \<Rightarrow> i32 \<Rightarrow> i32 option" where
  "udivsi3_loop a b cnt = (if a <s b then Some cnt else udivsi3_loop (a - b) b (cnt + 1))"

definition udivsi3 :: "i32 \<Rightarrow> i32 \<Rightarrow> i32 option" where
  "udivsi3 a b = udivsi3_loop a b 0"

partial_function (option) modsi3 :: "i32 \<Rightarrow> i32 \<Rightarrow> i32 option" where
  "modsi3 a b = (if a <s b then Some a else modsi3 (a - b) b)"

text \<open>The copies in \<^verbatim>\<open>gcc/stdlib.c\<close> have the same text.\<close>

definition stdlib_mulsi3 :: "i32 \<Rightarrow> i32 \<Rightarrow> i32" where
  "stdlib_mulsi3 = mulsi3"

definition stdlib_divsi3 :: "i32 \<Rightarrow> i32 \<Rightarrow> i32 option" where
  "stdlib_divsi3 = divsi3"

definition stdlib_udivsi3 :: "i32 \<Rightarrow> i32 \<Rightarrow> i32 option" where
  "stdlib_udivsi3 = udivsi3"

definition stdlib_modsi3 :: "i32 \<Rightarrow> i32 \<Rightarrow> i32 option" where
  "stdlib_modsi3 = modsi3"

section \<open>The multiply benchmark\<close>

text \<open>
  \<^verbatim>\<open>gcc/multiply.c\<close>: 32 rounds on signed operands; \<open>x >> 1\<close> is arithmetic, so the sign
  bit is copied down and all 32 bits of \<open>x\<close> are tested.
\<close>

fun multiply32_loop :: "nat \<Rightarrow> i32 \<Rightarrow> i32 \<Rightarrow> i32 \<Rightarrow> i32" where
  "multiply32_loop 0 x y result = result"
| "multiply32_loop (Suc n) x y result =
     multiply32_loop n (signed_drop_bit 1 x) (push_bit 1 y)
       (if x AND 1 = 1 then result + y else result)"

definition multiply32 :: "i32 \<Rightarrow> i32 \<Rightarrow> i32" where
  "multiply32 x y = multiply32_loop 32 x y 0"

section \<open>Multiplication\<close>

text \<open>A word is twice its shifted half plus its lowest bit.\<close>

lemma half_and_bit:
  "(a :: 'a::len word) = 2 * (a div 2) + (if a AND 1 = 0 then 0 else 1)"
proof -
  have "2 * (a div 2) + a mod 2 = a" by (rule mult_div_mod_eq)
  moreover have "a mod 2 = (if a AND 1 = 0 then 0 else 1)"
    by (simp add: and_one_eq mod_2_eq_odd)
  ultimately show ?thesis by simp
qed

lemma multiply_loop_eq: "multiply_loop a b r = r + a * b"
proof (induction a b r rule: multiply_loop.induct)
  case (1 a b r)
  show ?case
  proof (cases "a = 0")
    case True
    then show ?thesis by (subst multiply_loop.simps) simp
  next
    case False
    define h where "h = a div 2"
    define d :: u32 where "d = (if a AND 1 = 0 then 0 else 1)"
    have a: "a = 2 * h + d" unfolding h_def d_def by (rule half_and_bit)
    have "multiply_loop a b r = multiply_loop h (push_bit 1 b) (r + d * b)"
      using False by (subst multiply_loop.simps) (simp add: h_def d_def drop_bit_Suc)
    also have "\<dots> = r + d * b + h * (2 * b)"
      using "1.IH" [OF False] by (simp add: h_def d_def push_bit_eq_mult drop_bit_Suc mult.commute split: if_splits)
    also have "\<dots> = r + a * b" unfolding a by (simp add: algebra_simps)
    finally show ?thesis .
  qed
qed

lemma multiply_eq [arith_defs]: "multiply a b = a * b"
  by (simp add: multiply_def multiply_loop_eq)

text \<open>
  The signed shift of \<open>multiply32\<close> halves the signed reading (towards minus infinity), and after
  32 halvings the rest is 0 or -1, whose product with \<open>y\<close> shifted out of the word is 0.
\<close>

lemma sint_sdrop_1 [simp]: "sint (signed_drop_bit (Suc 0) x :: 32 word) = sint x div 2"
  by (simp add: sint_signed_drop_bit_eq drop_bit_Suc)

lemma sdrop_1_of_int: "signed_drop_bit (Suc 0) x = (word_of_int (sint x div 2) :: 32 word)"
  by (rule sint_inject_32, subst sint_of_int_32)
    (use sint_ge_32 [of x] sint_lt_32 [of x] in auto)

lemma and_one_signed: "(x :: 32 word) AND 1 = word_of_int (sint x mod 2)"
proof -
  have "odd x \<longleftrightarrow> odd (sint x)"
    by (simp add: bit_sint_iff flip: bit_0)
  then show ?thesis by (auto simp: and_one_eq odd_iff_mod_2_eq_one even_iff_mod_2_eq_zero)
qed

lemma sdrop_half: "(x :: 32 word) = 2 * signed_drop_bit (Suc 0) x + (x AND 1)"
proof -
  have "x = word_of_int (sint x)" by simp
  also have "sint x = 2 * (sint x div 2) + sint x mod 2" by simp
  finally show ?thesis
    unfolding sdrop_1_of_int and_one_signed by (simp only: of_int_add of_int_mult of_int_numeral)
qed

lemma multiply32_loop_eq:
  "multiply32_loop n x y r = r + y * x - y * 2 ^ n * word_of_int (sint x div 2 ^ n)"
proof (induction n arbitrary: x y r)
  case 0
  then show ?case by simp
next
  case (Suc n)
  define h where "h = signed_drop_bit (Suc 0) x"
  define d :: i32 where "d = x AND 1"
  have x: "x = 2 * h + d" unfolding h_def d_def by (rule sdrop_half)
  have d: "d = 0 \<or> d = 1" by (simp add: d_def and_one_eq mod_2_eq_odd)
  have h: "sint h div 2 ^ n = sint x div 2 ^ Suc n"
    by (simp add: h_def zdiv_zmult2_eq)
  have "multiply32_loop (Suc n) x y r = multiply32_loop n h (2 * y) (r + d * y)"
    using d by (auto simp: h_def d_def push_bit_eq_mult mult.commute)
  also have "\<dots> = r + d * y + 2 * y * h - 2 * y * 2 ^ n * word_of_int (sint x div 2 ^ Suc n)"
    by (simp add: Suc.IH h)
  also have "\<dots> = r + y * (2 * h + d) - y * 2 ^ Suc n * word_of_int (sint x div 2 ^ Suc n)"
    by (simp add: algebra_simps)
  finally show ?case unfolding x [symmetric] .
qed

lemma multiply32_eq: "multiply32 x y = x * y"
proof -
  have "(2 :: i32) ^ 32 = 0" by simp
  then show ?thesis by (simp only: multiply32_def multiply32_loop_eq) (simp add: mult.commute)
qed

text \<open>\<open>__mulsi3\<close> adds \<open>a\<close> as many times as the signed reading of \<open>b\<close> says.\<close>

lemma mulsi3_loop_eq:
  "sint i \<le> sint b \<Longrightarrow> mulsi3_loop a b i p = p + a * word_of_int (sint b - sint i)"
proof (induction a b i p rule: mulsi3_loop.induct)
  case (1 a b i p)
  show ?case
  proof (cases "i <s b")
    case True
    then have l: "sint i < sint b" by (simp add: word_sless_alt)
    have s: "sint (i + 1) = sint i + 1"
      using l sint_ge_32 [of i] sint_lt_32 [of b] by (subst sint_add_32) auto
    have "mulsi3_loop a b i p = mulsi3_loop a b (i + 1) (p + a)"
      using True by (subst mulsi3_loop.simps) simp
    also have "\<dots> = p + a + a * word_of_int (sint b - (sint i + 1))"
      using "1.IH" [OF True] l s by simp
    finally show ?thesis by (simp add: algebra_simps)
  next
    case False
    then have "sint b \<le> sint i" by (simp add: word_sless_alt)
    then show ?thesis using False "1.prems" by (subst mulsi3_loop.simps) simp
  qed
qed

lemma mulsi3_eq: "sint b \<noteq> - 2147483648 \<Longrightarrow> mulsi3 a b = a * b"
proof (cases "b <s 0")
  case True
  assume b: "sint b \<noteq> - 2147483648"
  have "sint (- b) = - sint b" using b by (rule sint_minus_32)
  moreover have "sint b < 0" using True by (simp add: word_sless_alt)
  ultimately show ?thesis
    using True by (simp add: mulsi3_def mulsi3_loop_eq)
next
  case False
  then have "0 \<le> sint b" by (simp add: word_sless_alt)
  then show ?thesis using False by (simp add: mulsi3_def mulsi3_loop_eq)
qed

section \<open>Division by shifting\<close>

lemma sint_abs_int: "sint x \<noteq> - 2147483648 \<Longrightarrow> sint (abs_int x) = \<bar>sint x\<bar>"
  by (auto simp: abs_int_def word_sless_alt sint_minus_32)

text \<open>
  The scaling loop stops at the first \<open>y * 2 ^ k\<close> above \<open>x\<close>. The bound on \<open>x\<close> keeps every
  \<open>y * 2 ^ k\<close> it reaches below the sign bit; without it the loop need not stop.
\<close>

lemma scale_up_Some:
  assumes "0 \<le> X" "X < 2 ^ 30" "0 < Y" "Y * 2 ^ j < 2 ^ 31" "j \<le> 30"
  shows "\<exists>k\<ge>j. k \<le> 30 \<and> X < Y * 2 ^ k \<and> Y * 2 ^ k < 2 ^ 31 \<and>
    scale_up (word_of_int X) (word_of_int (Y * 2 ^ j)) (2 ^ j) =
      Some (word_of_int (Y * 2 ^ k), 2 ^ k)"
  using assms
proof (induction "nat (X + 1 - Y * 2 ^ j)" arbitrary: j rule: less_induct)
  case less
  have sX: "sint (word_of_int X :: i32) = X" using less.prems by (intro sint_of_int_32) auto
  have pos: "0 < Y * 2 ^ j" using less.prems by simp
  have sY: "sint (word_of_int (Y * 2 ^ j) :: i32) = Y * 2 ^ j"
  proof (rule sint_of_int_32)
    show "- 2147483648 \<le> Y * 2 ^ j" using pos by linarith
    show "Y * 2 ^ j < 2147483648" using less.prems by simp
  qed
  show ?case
  proof (cases "Y * 2 ^ j \<le> X")
    case True
    have p2: "Y * 2 ^ Suc j < 2 ^ 31" using True less.prems by simp
    have "1 * (2::int) ^ j \<le> Y * 2 ^ j" using less.prems by (intro mult_right_mono) auto
    then have "(2::int) ^ j < 2 ^ 30" using True less.prems by linarith
    then have "j < 30" by (rule power_less_imp_less_exp [rotated]) simp
    then have j: "Suc j \<le> 30" by simp
    have "nat (X + 1 - Y * 2 ^ Suc j) < nat (X + 1 - Y * 2 ^ j)" using True pos by simp
    from less.hyps [OF this] less.prems p2 j obtain k where
      k: "k \<ge> Suc j" "k \<le> 30" "X < Y * 2 ^ k" "Y * 2 ^ k < 2 ^ 31"
        "scale_up (word_of_int X) (word_of_int (Y * 2 ^ Suc j)) (2 ^ Suc j) =
          Some (word_of_int (Y * 2 ^ k), 2 ^ k)" by blast
    have "scale_up (word_of_int X) (word_of_int (Y * 2 ^ j)) (2 ^ j) =
        scale_up (word_of_int X) (word_of_int (Y * 2 ^ Suc j)) (2 ^ Suc j)"
      using True sX sY
      by (subst scale_up.simps) (simp add: word_sle_eq push_bit_eq_mult mult.commute mult.left_commute)
    then show ?thesis using k by (intro exI [of _ k]) simp
  next
    case False
    then show ?thesis using sX sY less.prems
      by (intro exI [of _ j]) (simp add: scale_up.simps word_sle_eq)
  qed
qed

lemma or_disjoint_bit:
  "word_of_int (Q * 2 ^ Suc k) OR 2 ^ k = (word_of_int ((2 * Q + 1) * 2 ^ k) :: 'a::len word)"
proof -
  define q :: "'a word" where "q = push_bit (Suc k) (word_of_int Q)"
  have q: "word_of_int (Q * 2 ^ Suc k) = q" by (simp add: q_def push_bit_eq_mult)
  have "q AND 2 ^ k = 0"
    by (rule bit_word_eqI) (auto simp: q_def bit_simps bit_exp_iff simp del: push_bit_Suc)
  then have "q OR 2 ^ k = q + 2 ^ k"
    using word_plus_and_or [of q "2 ^ k"] by simp
  then show ?thesis unfolding q by (simp add: q_def push_bit_eq_mult algebra_simps)
qed

text \<open>
  One round of the subtracting loop, shared by \<open>divide\<close> and \<open>modulo\<close>: halving the scaled
  divisor and the mask.
\<close>

lemma sdrop_scaled:
  assumes "0 < Y" "Y * 2 ^ Suc k < 2 ^ 31"
  shows "signed_drop_bit 1 (word_of_int (Y * 2 ^ Suc k) :: i32) = word_of_int (Y * 2 ^ k)"
proof -
  have "0 < Y * 2 ^ Suc k" using assms by simp
  then have "sint (word_of_int (Y * 2 ^ Suc k) :: i32) = Y * 2 ^ Suc k"
    using assms by (intro sint_of_int_32) (linarith, simp)
  then show ?thesis by (simp add: sdrop_1_of_int)
qed

lemma drop_mask: "Suc k < 32 \<Longrightarrow> drop_bit 1 (2 ^ Suc k :: u32) = 2 ^ k"
  by (subst drop_bit_exp_eq) (simp del: power_Suc)

lemma unat_exp_32: "k < 32 \<Longrightarrow> unat (2 ^ k :: u32) = 2 ^ k"
  using unat_of_nat [of "2 ^ k", where 'a = 32] power_strict_increasing [of k 32 "2 :: nat"] by simp

lemma one_less_mask: "Suc k < 32 \<Longrightarrow> 1 < (2 ^ Suc k :: u32)"
  by (subst word_less_nat_alt, subst unat_exp_32, assumption)
    (use one_less_power [of "2 :: nat" "Suc k"] in simp)

lemma divide_loop_eq:
  assumes "0 \<le> X" "X < Y * 2 ^ k" "0 < Y" "Y * 2 ^ k < 2 ^ 31" "k < 32"
  shows "divide_loop (word_of_int X) (word_of_int (Y * 2 ^ k)) (2 ^ k) (word_of_int (Q * 2 ^ k)) =
    (word_of_int (X mod Y), word_of_int (Q * 2 ^ k + X div Y))"
  using assms
proof (induction k arbitrary: X Q)
  case 0
  then show ?case by (subst divide_loop.simps) simp
next
  case (Suc k)
  have pos: "0 < Y * 2 ^ k" using Suc.prems by simp
  have b: "Y * 2 ^ k < 2 ^ 31" "k < 32" using Suc.prems pos by simp_all
  have sX: "sint (word_of_int X :: i32) = X"
    using Suc.prems by (intro sint_of_int_32) simp_all
  have sY: "sint (word_of_int (Y * 2 ^ k) :: i32) = Y * 2 ^ k"
    using pos b by (intro sint_of_int_32) (linarith, simp)
  have step: "divide_loop (word_of_int X) (word_of_int (Y * 2 ^ Suc k)) (2 ^ Suc k) q =
     (if Y * 2 ^ k \<le> X
      then divide_loop (word_of_int (X - Y * 2 ^ k)) (word_of_int (Y * 2 ^ k)) (2 ^ k) (q OR 2 ^ k)
      else divide_loop (word_of_int X) (word_of_int (Y * 2 ^ k)) (2 ^ k) q)" for q
    by (subst divide_loop.simps, simp only: one_less_mask [OF Suc.prems(5)] if_True
        sdrop_scaled [OF Suc.prems(3,4)] drop_mask [OF Suc.prems(5)] Let_def)
      (simp only: word_sle_eq sX sY of_int_diff)
  show ?case
  proof (cases "Y * 2 ^ k \<le> X")
    case True
    have e: "(X - Y * 2 ^ k) mod Y = X mod Y" "(X - Y * 2 ^ k) div Y = X div Y - 2 ^ k"
      using Suc.prems(3) by (simp_all add: mod_diff_eq [symmetric] div_diff)
        (metis add.commute add_diff_cancel_right' diff_add_cancel div_mult_self4 less_numeral_extra(3))
    have "divide_loop (word_of_int X) (word_of_int (Y * 2 ^ Suc k)) (2 ^ Suc k)
          (word_of_int (Q * 2 ^ Suc k)) =
        divide_loop (word_of_int (X - Y * 2 ^ k)) (word_of_int (Y * 2 ^ k)) (2 ^ k)
          (word_of_int ((2 * Q + 1) * 2 ^ k))"
      using True by (simp only: step if_True or_disjoint_bit)
    also have "\<dots> = (word_of_int (X mod Y), word_of_int ((2 * Q + 1) * 2 ^ k + (X div Y - 2 ^ k)))"
      using Suc.prems True b by (subst Suc.IH) (simp_all add: e)
    also have "(2 * Q + 1) * 2 ^ k + (X div Y - 2 ^ k) = Q * 2 ^ Suc k + X div Y"
      by (simp add: algebra_simps)
    finally show ?thesis .
  next
    case False
    have q: "Q * 2 ^ Suc k = (2 * Q) * 2 ^ k" by simp
    show ?thesis
      unfolding step if_not_P [OF False] q using Suc.prems False b by (intro Suc.IH) simp_all
  qed
qed

text \<open>\<open>modulo\<close> runs the same rounds without the quotient.\<close>

lemma modulo_loop_fst: "modulo_loop x y m = fst (divide_loop x y m q)"
proof (induction x y m arbitrary: q rule: modulo_loop.induct)
  case (1 x y m)
  then show ?case
    by (subst modulo_loop.simps, subst divide_loop.simps) (simp add: Let_def)
qed

text \<open>What the two loops compute together, on the absolute values.\<close>

lemma scaled_division:
  assumes x: "\<bar>sint x\<bar> < 2 ^ 30" and y: "y \<noteq> 0" "sint y \<noteq> - 2147483648"
  obtains s m where "scale_up (abs_int x) (abs_int y) 1 = Some (s, m)"
    and "divide_loop (abs_int x) s m 0 =
      (word_of_int (\<bar>sint x\<bar> mod \<bar>sint y\<bar>), word_of_int (\<bar>sint x\<bar> div \<bar>sint y\<bar>))"
proof -
  define X Y where "X = \<bar>sint x\<bar>" and "Y = \<bar>sint y\<bar>"
  have "sint x \<noteq> - 2147483648" using x by auto
  then have aX: "abs_int x = word_of_int X"
    by (metis X_def of_int_sint scast_id sint_abs_int)
  have aY: "abs_int y = word_of_int Y"
    by (metis Y_def of_int_sint scast_id sint_abs_int y(2))
  have Y: "0 < Y" "Y < 2 ^ 31"
    using y sint_ge_32 [of y] sint_lt_32 [of y] unfolding Y_def
    by (auto simp: abs_less_iff) (metis sint_0 sint_inject_32)
  obtain k where k: "k \<le> 30" "X < Y * 2 ^ k" "Y * 2 ^ k < 2 ^ 31"
    "scale_up (word_of_int X) (word_of_int Y) 1 = Some (word_of_int (Y * 2 ^ k), 2 ^ k)"
    using scale_up_Some [of X Y 0] x Y by (auto simp: X_def)
  have "divide_loop (word_of_int X) (word_of_int (Y * 2 ^ k)) (2 ^ k) 0 =
      (word_of_int (X mod Y), word_of_int (X div Y))"
    using divide_loop_eq [of X Y k 0] k Y by (simp add: X_def)
  with k(4) show thesis using that by (simp add: aX aY X_def Y_def)
qed

lemma divide_in_range:
  assumes x: "\<bar>sint x\<bar> < 2 ^ 30" and y: "y \<noteq> 0" "sint y \<noteq> - 2147483648"
    and xy: "- (2 ^ 31) \<le> sint x * sint y" "sint x * sint y < 2 ^ 31"
  shows "divide x y = Some (word_of_int (sint x sdiv sint y))"
proof -
  have p: "sint (x * y) = sint x * sint y" using xy by (intro sint_mult_32) simp_all
  obtain s m where "scale_up (abs_int x) (abs_int y) 1 = Some (s, m)"
    "divide_loop (abs_int x) s m 0 =
      (word_of_int (\<bar>sint x\<bar> mod \<bar>sint y\<bar>), word_of_int (\<bar>sint x\<bar> div \<bar>sint y\<bar>))"
    using scaled_division [OF x y] .
  then show ?thesis
    using y p
    by (auto simp: divide_def multiply_eq Let_def word_sless_alt signed_divide_int_def sgn_if
        mult_less_0_iff zero_less_mult_iff sint_inject_32)
qed

lemma modulo_in_range:
  assumes x: "\<bar>sint x\<bar> < 2 ^ 30" and y: "y \<noteq> 0" "sint y \<noteq> - 2147483648"
  shows "modulo x y = Some (word_of_int (sint x smod sint y))"
proof -
  obtain s m where "scale_up (abs_int x) (abs_int y) 1 = Some (s, m)"
    "divide_loop (abs_int x) s m 0 =
      (word_of_int (\<bar>sint x\<bar> mod \<bar>sint y\<bar>), word_of_int (\<bar>sint x\<bar> div \<bar>sint y\<bar>))"
    using scaled_division [OF x y] .
  then show ?thesis
    using y
    by (auto simp: modulo_def multiply_eq Let_def word_sless_alt smod_int_alt_def sgn_if
        modulo_loop_fst [where q = 0])
qed

text \<open>
  Outside that range the scaling loop may never stop: once \<open>y <<= 1\<close> has passed the sign bit the
  signed test \<open>y <= x\<close> stays true. Every shift of 1 is at most \<open>2 ^ 30\<close> as a signed value.
\<close>

lemma sint_shifted_one: "sint (push_bit j 1 :: i32) \<le> 2 ^ 30"
proof -
  consider "j \<le> 30" | "j = 31" | "32 \<le> j" by linarith
  then show ?thesis
  proof cases
    case 1
    have "sint (word_of_int (2 ^ j) :: i32) = 2 ^ j"
    proof (rule sint_of_int_32)
      have "(0 :: int) \<le> 2 ^ j" by simp
      then show "- 2147483648 \<le> (2 :: int) ^ j" by linarith
      show "(2 :: int) ^ j < 2147483648" using 1 power_increasing [of j 30 "2 :: int"] by simp
    qed
    then show ?thesis using 1 power_increasing [of j 30 "2 :: int"] by (simp add: push_bit_eq_mult)
  next
    case 2
    then show ?thesis by (simp add: push_bit_eq_mult)
  next
    case 3
    then have "push_bit j 1 = (0 :: i32)" by (intro bit_word_eqI) (simp add: bit_simps)
    then have "sint (push_bit j 1 :: i32) = 0" by (simp only: sint_0)
    moreover have "(0 :: int) \<le> 2 ^ 30" by simp
    ultimately show ?thesis by (simp only:)
  qed
qed

lemmas scale_up_ind = scale_up.raw_induct [of _ "((x, y), m)" for x y m, unfolded prod.case]

lemma scale_up_returns:
  assumes "scale_up x y m = Some r"
  shows "\<not> (2 ^ 30 \<le> sint x \<and> (\<exists>j. y = push_bit j 1))"
proof (rule scale_up_ind
    [where P = "\<lambda>x y m r. \<not> (2 ^ 30 \<le> sint x \<and> (\<exists>j. y = push_bit j 1))", OF _ assms])
  fix f and x y :: i32 and m :: u32 and r
  assume IH: "\<And>x y m r. f x y m = Some r \<Longrightarrow> \<not> (2 ^ 30 \<le> sint x \<and> (\<exists>j. y = push_bit j 1))"
    and eq: "(if y \<le>s x then f x (push_bit 1 y) (push_bit 1 m) else Some (y, m)) = Some r"
  show "\<not> (2 ^ 30 \<le> sint x \<and> (\<exists>j. y = push_bit j 1))"
  proof (rule notI, elim conjE exE)
    fix j assume x: "2 ^ 30 \<le> sint x" and y: "y = push_bit j 1"
    have "y \<le>s x" using x sint_shifted_one [of j] by (simp add: y word_sle_eq)
    with eq have "f x (push_bit 1 y) (push_bit 1 m) = Some r" by simp
    moreover have "push_bit 1 y = push_bit (Suc j) 1" by (simp only: y push_bit_push_bit) simp
    ultimately show False using IH x by blast
  qed
qed

lemma divide_diverges:
  assumes "2 ^ 30 \<le> sint x"
  shows "divide x 1 = None" "modulo x 1 = None"
proof -
  have x: "abs_int x = x" "abs_int 1 = 1" using assms by (auto simp: abs_int_def word_sless_alt)
  have "scale_up x (push_bit 0 1) 1 = None"
    using scale_up_returns [of x "push_bit 0 1" 1] assms by (metis not_Some_eq)
  then show "divide x 1 = None" "modulo x 1 = None"
    by (simp_all add: divide_def modulo_def x)
qed

section \<open>Digits\<close>

text \<open>
  \<open>count_digits\<close> divides by 10 until nothing is left; the bound keeps \<open>n * 10\<close>, whose sign
  \<open>divide\<close> looks at, inside an \<open>int\<close>.
\<close>

lemma count_digits_loop_eq:
  assumes "0 \<le> sint n" "sint n * 10 < 2 ^ 31"
  shows "\<exists>c. count_digits_loop n k = Some (k + of_nat c) \<and>
    sint n < 10 ^ c \<and> (sint n \<noteq> 0 \<longrightarrow> 0 < c \<and> 10 ^ (c - 1) \<le> sint n) \<and> (sint n = 0 \<longrightarrow> c = 0)"
  using assms
proof (induction "nat (sint n)" arbitrary: n k rule: less_induct)
  case less
  show ?case
  proof (cases "n = 0")
    case True
    then show ?thesis by (intro exI [of _ 0]) (simp add: count_digits_loop.simps)
  next
    case False
    then have n: "0 < sint n"
      using less.prems sint_inject_32 [of n 0] by (cases "sint n = 0") auto
    define m where "m = (word_of_int (sint n div 10) :: i32)"
    have m: "sint m = sint n div 10"
      unfolding m_def using n sint_lt_32 [of n] by (intro sint_of_int_32) auto
    have "divide n 10 = Some (word_of_int (sint n sdiv sint (10 :: i32)))"
      using less.prems by (intro divide_in_range) auto
    also have "sint n sdiv sint (10 :: i32) = sint n div 10"
      using n by (simp add: signed_divide_int_def)
    finally have d: "divide n 10 = Some m" by (simp add: m_def)
    have "nat (sint m) < nat (sint n)" "0 \<le> sint m" "sint m * 10 < 2 ^ 31"
      using n less.prems by (auto simp: m)
    from less.hyps [OF this, of "k + 1"] obtain c where
      c: "count_digits_loop m (k + 1) = Some (k + 1 + of_nat c)" "sint m < 10 ^ c"
        "sint m \<noteq> 0 \<longrightarrow> 0 < c \<and> 10 ^ (c - 1) \<le> sint m" "sint m = 0 \<longrightarrow> c = 0" by blast
    have "count_digits_loop n k = Some (k + of_nat (Suc c))"
      using False d c(1) by (simp add: count_digits_loop.simps [of n] add_ac)
    moreover have "sint n < 10 ^ Suc c" using c(2) by (simp add: m)
    moreover have "10 ^ c \<le> sint n"
    proof (cases c)
      case 0
      then show ?thesis using n by simp
    next
      case (Suc c')
      then have "10 ^ c' \<le> sint n div 10" using c by (cases "sint m = 0") (auto simp: m)
      then show ?thesis using Suc by simp
    qed
    ultimately show ?thesis using n by (intro exI [of _ "Suc c"]) auto
  qed
qed

section \<open>Division by repeated subtraction\<close>

lemma divsi3_loop_eq:
  assumes "0 \<le> sint a" "0 < sint b"
  shows "divsi3_loop a b c = Some (c + word_of_int (sint a div sint b)) \<and>
    modsi3 a b = Some (word_of_int (sint a mod sint b))"
  using assms
proof (induction "nat (sint a)" arbitrary: a c rule: less_induct)
  case less
  show ?case
  proof (cases "sint a < sint b")
    case True
    then show ?thesis
      using less.prems by (simp add: divsi3_loop.simps modsi3.simps word_sless_alt)
  next
    case False
    have s: "sint (a - b) = sint a - sint b"
      using False less.prems sint_lt_32 [of a] by (intro sint_diff_32) auto
    have lt: "nat (sint (a - b)) < nat (sint a)" "0 \<le> sint (a - b)"
      using False less.prems s by auto
    have "sint a div sint b = 1 + (sint a - sint b) div sint b"
      using less.prems by (simp add: div_pos_geq False leI)
    moreover have "sint a mod sint b = (sint a - sint b) mod sint b" by simp
    ultimately show ?thesis
      using less.hyps [OF lt(1) lt(2) less.prems(2), of "c + 1"] False
      by (simp add: divsi3_loop.simps [of a] modsi3.simps [of a] word_sless_alt s add_ac)
  qed
qed

text \<open>A dividend below the divisor, any negative one included, gives quotient 0.\<close>

lemma divsi3_small: "sint a < sint b \<Longrightarrow> divsi3 a b = Some 0 \<and> modsi3 a b = Some a"
  by (simp add: divsi3_def divsi3_loop.simps modsi3.simps word_sless_alt)

text \<open>By zero neither returns for a nonnegative dividend: the dividend never changes.\<close>

lemma divsi3_loop_returns:
  assumes "divsi3_loop a b c = Some r"
  shows "\<not> (b = 0 \<and> 0 \<le> sint a)"
proof (rule divsi3_loop.raw_induct [where P = "\<lambda>a b c r. \<not> (b = 0 \<and> 0 \<le> sint a)", OF _ assms])
  fix f and a b c r :: i32
  assume "\<And>a b c r. f a b c = Some r \<Longrightarrow> \<not> (b = 0 \<and> 0 \<le> sint a)"
    and "(if a <s b then Some c else f (a - b) b (c + 1)) = Some r"
  then show "\<not> (b = 0 \<and> 0 \<le> sint a)" by (fastforce simp: word_sless_alt)
qed

lemma modsi3_returns:
  assumes "modsi3 a b = Some r"
  shows "\<not> (b = 0 \<and> 0 \<le> sint a)"
proof (rule modsi3.raw_induct [where P = "\<lambda>a b r. \<not> (b = 0 \<and> 0 \<le> sint a)", OF _ assms])
  fix f and a b r :: i32
  assume "\<And>a b r. f a b = Some r \<Longrightarrow> \<not> (b = 0 \<and> 0 \<le> sint a)"
    and "(if a <s b then Some a else f (a - b) b) = Some r"
  then show "\<not> (b = 0 \<and> 0 \<le> sint a)" by (fastforce simp: word_sless_alt)
qed

lemma divsi3_by_zero: "0 \<le> sint a \<Longrightarrow> divsi3 a 0 = None \<and> modsi3 a 0 = None"
  using divsi3_loop_returns [of a 0 0] modsi3_returns [of a 0]
  by (auto simp: divsi3_def intro: option.exhaust)

text \<open>\<open>__udivsi3\<close> computes what \<open>__divsi3\<close> computes, negative dividends included.\<close>

lemma udivsi3_loop_to: "udivsi3_loop a b c = Some r \<Longrightarrow> divsi3_loop a b c = Some r"
proof (rule udivsi3_loop.raw_induct [where P = "\<lambda>a b c r. divsi3_loop a b c = Some r"])
  fix f and a b c r :: i32
  assume "\<And>a b c r. f a b c = Some r \<Longrightarrow> divsi3_loop a b c = Some r"
    and "(if a <s b then Some c else f (a - b) b (c + 1)) = Some r"
  then show "divsi3_loop a b c = Some r" by (subst divsi3_loop.simps) (auto split: if_splits)
qed

lemma udivsi3_loop_from: "divsi3_loop a b c = Some r \<Longrightarrow> udivsi3_loop a b c = Some r"
proof (rule divsi3_loop.raw_induct [where P = "\<lambda>a b c r. udivsi3_loop a b c = Some r"])
  fix f and a b c r :: i32
  assume "\<And>a b c r. f a b c = Some r \<Longrightarrow> udivsi3_loop a b c = Some r"
    and "(if a <s b then Some c else f (a - b) b (c + 1)) = Some r"
  then show "udivsi3_loop a b c = Some r" by (subst udivsi3_loop.simps) (auto split: if_splits)
qed

lemma udivsi3_eq: "udivsi3 a b = divsi3 a b"
  using udivsi3_loop_to [of a b 0] udivsi3_loop_from [of a b 0]
  by (cases "divsi3_loop a b 0"; cases "udivsi3_loop a b 0") (auto simp: udivsi3_def divsi3_def)

section \<open>Properties\<close>

text \<open>C36: the shift-and-add multiplications give the product modulo \<open>2 ^ 32\<close> for all operands, and
  so does the one by repeated addition unless the multiplier is the least integer, whose
  negation overflows: then it gives 0.\<close>

theorem multiplications_exact:
  "multiply a b = a * b \<and> multiply32 a b = a * b \<and>
   (sint b \<noteq> - (2 ^ 31) \<longrightarrow> mulsi3 a b = a * b \<and> stdlib_mulsi3 a b = a * b) \<and>
   (sint b = - (2 ^ 31) \<longrightarrow> mulsi3 a b = 0)"
proof -
  have "mulsi3 a b = 0" if "sint b = - (2 ^ 31)"
  proof -
    have b: "b = 0x80000000" using that sint_inject_32 [of b "0x80000000"] by simp
    show ?thesis unfolding b mulsi3_def by (simp add: Let_def mulsi3_loop.simps word_sless_alt)
  qed
  then show ?thesis by (simp add: multiply_eq multiply32_eq mulsi3_eq stdlib_mulsi3_def)
qed

text \<open>\<open>divide\<close> and \<open>modulo\<close> return the quotient truncated to zero and the remainder with the
  sign of the dividend, as C's operators do, while the dividend is below \<open>2 ^ 30\<close> in size and, for
  \<open>divide\<close>, the product of the operands, whose sign it looks at, does not overflow.\<close>

theorem divide_modulo_correct:
  assumes "\<bar>sint x\<bar> < 2 ^ 30" "y \<noteq> 0" "sint y \<noteq> - (2 ^ 31)"
  shows "modulo x y = Some (word_of_int (sint x smod sint y)) \<and>
    (\<bar>sint x * sint y\<bar> < 2 ^ 31 \<longrightarrow> divide x y = Some (word_of_int (sint x sdiv sint y)))"
proof (intro conjI impI)
  show "modulo x y = Some (word_of_int (sint x smod sint y))"
    using assms by (intro modulo_in_range) simp_all
  assume "\<bar>sint x * sint y\<bar> < 2 ^ 31"
  then show "divide x y = Some (word_of_int (sint x sdiv sint y))"
    using assms by (intro divide_in_range) (auto simp: abs_less_iff)
qed

text \<open>outside those bounds they fail: from \<open>2 ^ 30\<close> on a division by one never returns, because
  the shifted divisor overflows before it exceeds the dividend, and where the product of the
  operands overflows into the sign bit \<open>divide\<close> gives a quotient of the wrong sign.\<close>

theorem divide_outside_bounds:
  "(2 ^ 30 \<le> sint x \<longrightarrow> divide x 1 = None \<and> modulo x 1 = None) \<and> divide 65536 32768 = Some (- 2)"
proof (intro conjI impI)
  obtain s m where sm: "scale_up (abs_int 65536) (abs_int 32768) 1 = Some (s, m)"
    "divide_loop (abs_int 65536) s m 0 =
      (word_of_int (\<bar>sint (65536 :: i32)\<bar> mod \<bar>sint (32768 :: i32)\<bar>),
       word_of_int (\<bar>sint (65536 :: i32)\<bar> div \<bar>sint (32768 :: i32)\<bar>))"
    by (rule scaled_division [of 65536 32768]) simp_all
  have "multiply 65536 32768 <s 0" by (simp add: multiply_eq word_sless_alt)
  then show "divide 65536 32768 = Some (- 2)"
    using sm by (simp add: divide_def multiply_eq [of "- 1"] Let_def)
qed (use divide_diverges in auto)

text \<open>\<open>count_digits\<close> returns the number of decimal digits of a number that is not negative and
  small enough for \<open>divide\<close>; it counts no digit of 0.\<close>

theorem count_digits_correct:
  assumes "0 \<le> sint n" "sint n * 10 < 2 ^ 31"
  shows "\<exists>c. count_digits n = Some (of_nat c) \<and> sint n < 10 ^ c \<and>
    (n \<noteq> 0 \<longrightarrow> 0 < c \<and> 10 ^ (c - 1) \<le> sint n) \<and> (n = 0 \<longrightarrow> c = 0)"
  using count_digits_loop_eq [OF assms, of 0] sint_inject_32 [of n 0]
  by (fastforce simp: count_digits_def)

text \<open>division by repeated subtraction returns quotient and remainder for a dividend that is
  not negative and a positive divisor; it never returns when the dividend is not negative and the divisor 0; and, as the
  unsigned routine compares signed too, a dividend from \<open>2 ^ 31\<close> on gives 0.\<close>

theorem repeated_subtraction:
  "(0 \<le> sint a \<and> 0 < sint b \<longrightarrow>
      divsi3 a b = Some (word_of_int (sint a div sint b)) \<and> udivsi3 a b = divsi3 a b \<and>
      modsi3 a b = Some (word_of_int (sint a mod sint b)) \<and>
      stdlib_divsi3 a b = divsi3 a b \<and> stdlib_modsi3 a b = modsi3 a b) \<and>
   (0 \<le> sint a \<longrightarrow> divsi3 a 0 = None \<and> udivsi3 a 0 = None \<and> modsi3 a 0 = None) \<and>
   (sint a < 0 \<and> 0 \<le> sint b \<longrightarrow> udivsi3 a b = Some 0 \<and> stdlib_udivsi3 a b = Some 0)"
  using divsi3_loop_eq [of a b 0] divsi3_by_zero [of a] divsi3_small [of a b]
  by (auto simp: divsi3_def [of a b] udivsi3_eq stdlib_divsi3_def stdlib_modsi3_def stdlib_udivsi3_def)

text \<open>C37: \<open>divide\<close> and \<open>modulo\<close> return the quotient truncated to zero and the remainder with the
  sign of the dividend, as C's operators do, while the dividend is below \<open>2 ^ 30\<close> in size and, for
  \<open>divide\<close>, the product of the operands, whose sign it looks at, does not overflow. Division by repeated
  subtraction returns quotient and remainder for a dividend that is not negative and a positive divisor. By 0
  it never returns for a dividend that is not negative, and returns 0 and the dividend at once for a negative one; as
  the unsigned routine compares signed too, a dividend from \<open>2 ^ 31\<close> on gives 0.\<close>

theorem divisions_correct:
  assumes "\<bar>sint x\<bar> < 2 ^ 30" "y \<noteq> 0" "sint y \<noteq> - (2 ^ 31)"
  shows "modulo x y = Some (word_of_int (sint x smod sint y)) \<and>
    (\<bar>sint x * sint y\<bar> < 2 ^ 31 \<longrightarrow> divide x y = Some (word_of_int (sint x sdiv sint y))) \<and>
    (0 \<le> sint a \<and> 0 < sint b \<longrightarrow>
      divsi3 a b = Some (word_of_int (sint a div sint b)) \<and> udivsi3 a b = divsi3 a b \<and>
      modsi3 a b = Some (word_of_int (sint a mod sint b)) \<and>
      stdlib_divsi3 a b = divsi3 a b \<and> stdlib_modsi3 a b = modsi3 a b) \<and>
    (0 \<le> sint a \<longrightarrow> divsi3 a 0 = None \<and> udivsi3 a 0 = None \<and> modsi3 a 0 = None) \<and>
    (sint a < 0 \<longrightarrow> divsi3 a 0 = Some 0 \<and> modsi3 a 0 = Some a) \<and>
    (sint a < 0 \<and> 0 \<le> sint b \<longrightarrow> udivsi3 a b = Some 0 \<and> stdlib_udivsi3 a b = Some 0)"
  using divide_modulo_correct [OF assms] repeated_subtraction [of a b] divsi3_small [of a 0] by auto

lemma divisions_correct_witness:
  "divide (- 7) 2 = Some (- 3) \<and> modulo (- 7) 2 = Some (- 1) \<and> udivsi3 100 7 = Some 14 \<and> modsi3 100 7 = Some 2 \<and>
   divsi3 100 0 = None \<and> modsi3 (- 3) 0 = Some (- 3)"
  using divisions_correct [of "- 7" 2 100 7] divisions_correct [of "- 7" 2 "- 3" 7]
  by (simp add: signed_divide_int_def signed_modulo_int_def)

lemma multiplications_exact_witness: "mulsi3 7 (- 3) = - 21 \<and> multiply 65536 65537 = 65536"
  using multiplications_exact [of 7 "- 3"] multiplications_exact [of 65536 65537] by simp

lemma divide_modulo_correct_witness: "divide (- 7) 2 = Some (- 3) \<and> modulo (- 7) 2 = Some (- 1)"
  using divide_modulo_correct [of "- 7" 2]
  by (simp add: signed_divide_int_def signed_modulo_int_def)

lemma divide_outside_bounds_witness: "divide 2000000000 1 = None"
  using divide_outside_bounds [of 2000000000] by simp

lemma count_digits_correct_witness: "\<exists>c. count_digits 4711 = Some (of_nat c) \<and> 4711 < (10::int) ^ c"
  using count_digits_correct [of 4711] by auto

lemma repeated_subtraction_witness:
  "udivsi3 100 7 = Some 14 \<and> modsi3 100 7 = Some 2 \<and> udivsi3 0xffffffff 2 = Some 0 \<and> divsi3 5 0 = None"
  using repeated_subtraction [of 100 7] repeated_subtraction [of "0xffffffff" 2]
    repeated_subtraction [of 5 0] by simp

end
