(* ===== verification/Memory.thy ===== *)
theory Memory
  imports CBase
begin

text \<open>
  The memory the C code works on: a byte per address, with little-endian word accesses as the
  core's load and store instructions make them. Addresses are words of any width, so that the
  32-bit kernel and the 64-bit page-table code share the theory. The locale \<open>word_memory\<close> is
  the contract of one access width; sequences of stores (the fill and copy loops of the
  allocators and of the program loader) are reasoned about inside it.
\<close>

section \<open>Byte-wise loads and stores\<close>

type_synonym 'a mem = "'a word \<Rightarrow> u8"
type_synonym mem32 = "32 word \<Rightarrow> u8"
type_synonym mem64 = "64 word \<Rightarrow> u8"

fun load_bytes :: "nat \<Rightarrow> ('a::len word \<Rightarrow> u8) \<Rightarrow> 'a word \<Rightarrow> 'v::len word" where
  "load_bytes 0 m a = 0"
| "load_bytes (Suc n) m a = ucast (m a) OR push_bit 8 (load_bytes n m (a + 1))"

fun store_bytes :: "nat \<Rightarrow> ('a::len word \<Rightarrow> u8) \<Rightarrow> 'a word \<Rightarrow> 'v::len word \<Rightarrow> ('a word \<Rightarrow> u8)"
where
  "store_bytes 0 m a v = m"
| "store_bytes (Suc n) m a v = store_bytes n (m(a := ucast v)) (a + 1) (drop_bit 8 v)"

definition load32 :: "('a::len word \<Rightarrow> u8) \<Rightarrow> 'a word \<Rightarrow> u32" where
  "load32 m a = load_bytes 4 m a"

definition store32 :: "('a::len word \<Rightarrow> u8) \<Rightarrow> 'a word \<Rightarrow> u32 \<Rightarrow> ('a word \<Rightarrow> u8)" where
  "store32 m a v = store_bytes 4 m a v"

definition load64 :: "('a::len word \<Rightarrow> u8) \<Rightarrow> 'a word \<Rightarrow> u64" where
  "load64 m a = load_bytes 8 m a"

definition store64 :: "('a::len word \<Rightarrow> u8) \<Rightarrow> 'a word \<Rightarrow> u64 \<Rightarrow> ('a word \<Rightarrow> u8)" where
  "store64 m a v = store_bytes 8 m a v"

text \<open>The bytes of an \<open>n\<close>-byte object at \<open>a\<close>; a pointer range may wrap, as addresses do.\<close>

definition bytes_at :: "'a::len word \<Rightarrow> nat \<Rightarrow> 'a word set" where
  "bytes_at a n = (\<lambda>k. a + of_nat k) ` {..<n}"

lemma bytes_at_0 [simp]: "bytes_at a 0 = {}"
  by (simp add: bytes_at_def)

lemma bytes_at_Suc: "bytes_at a (Suc n) = insert a (bytes_at (a + 1) n)"
  by (auto simp: bytes_at_def lessThan_Suc_eq_insert_0 image_image add.assoc)

lemma bytes_at_mono: "n \<le> k \<Longrightarrow> bytes_at a n \<subseteq> bytes_at a k"
  by (auto simp: bytes_at_def)

lemma bytes_at_add: "bytes_at a (n + k) = bytes_at a n \<union> bytes_at (a + of_nat n) k"
proof (induction n arbitrary: a)
  case 0
  then show ?case by simp
next
  case (Suc n)
  then show ?case by (simp add: bytes_at_Suc add_ac)
qed

lemma store_bytes_frame [mem_simps]:
  "x \<notin> bytes_at a n \<Longrightarrow> store_bytes n m a v x = m x"
  by (induction n m a v rule: store_bytes.induct) (auto simp: bytes_at_Suc)

lemma load_bytes_cong:
  "(\<And>x. x \<in> bytes_at a n \<Longrightarrow> m x = m' x) \<Longrightarrow> load_bytes n m a = load_bytes n m' a"
  by (induction n arbitrary: a) (auto simp: bytes_at_Suc)

lemma bytes_at_shifted: "n < 2 ^ LENGTH('a) \<Longrightarrow> a \<notin> bytes_at (a + 1 :: 'a::len word) n"
proof
  assume n: "n < 2 ^ LENGTH('a)" and "a \<in> bytes_at (a + 1) n"
  then obtain k where k: "k < n" "a = a + (of_nat k + 1)"
    by (auto simp: bytes_at_def add_ac)
  have "of_nat (Suc k) = (0 :: 'a word)" using k(2) by (simp add: add.commute)
  then have "2 ^ LENGTH('a) dvd Suc k" by (simp only: word_of_nat_eq_0_iff)
  then show False using n k(1) by (auto dest: dvd_imp_le)
qed

lemma load_store_bytes:
  assumes "n \<le> 2 ^ LENGTH('a)"
  shows "load_bytes n (store_bytes n m (a :: 'a::len word) v) a = take_bit (8 * n) (v :: 'v::len word)"
  using assms
proof (induction n arbitrary: m a v)
  case 0
  then show ?case by simp
next
  case (Suc n)
  have "store_bytes n (m(a := ucast v)) (a + 1) (drop_bit 8 v) a = ucast v"
    using bytes_at_shifted [of n a] Suc.prems by (simp add: store_bytes_frame)
  then have "load_bytes (Suc n) (store_bytes (Suc n) m a v) a =
      ucast (ucast v :: u8) OR push_bit 8 (take_bit (8 * n) (drop_bit 8 v))"
    using Suc by simp
  also have "\<dots> = take_bit (8 * Suc n) v"
    by (rule bit_word_eqI) (auto simp: bit_simps not_less)
  finally show ?case .
qed

section \<open>The contract of a word access\<close>

locale word_memory =
  fixes load :: "('a::len word \<Rightarrow> u8) \<Rightarrow> 'a word \<Rightarrow> 'v::len word"
    and store :: "('a::len word \<Rightarrow> u8) \<Rightarrow> 'a word \<Rightarrow> 'v word \<Rightarrow> ('a word \<Rightarrow> u8)"
    and width :: nat
  assumes load_store: "load (store m a v) a = v"
    and store_frame: "x \<notin> bytes_at a width \<Longrightarrow> store m a v x = m x"
    and load_cong: "(\<And>x. x \<in> bytes_at a width \<Longrightarrow> m x = m' x) \<Longrightarrow> load m a = load m' a"
begin

lemma load_store_other:
  "bytes_at a width \<inter> bytes_at b width = {} \<Longrightarrow> load (store m b v) a = load m a"
  by (rule load_cong) (auto intro: store_frame)

end

text \<open>Ranges that do not wrap are intervals of addresses.\<close>

lemma bytes_at_interval:
  fixes a :: "'a::len word"
  assumes "unat a + n \<le> 2 ^ LENGTH('a)"
  shows "x \<in> bytes_at a n \<longleftrightarrow> unat a \<le> unat x \<and> unat x < unat a + n"
proof
  assume "x \<in> bytes_at a n"
  then obtain k where k: "k < n" "x = a + of_nat k" by (auto simp: bytes_at_def)
  then have "unat x = unat a + k" using assms by (simp add: unat_word_ariths unat_of_nat)
  then show "unat a \<le> unat x \<and> unat x < unat a + n" using k by simp
next
  assume "unat a \<le> unat x \<and> unat x < unat a + n"
  then have "x = a + of_nat (unat x - unat a)" "unat x - unat a < n"
    by (simp_all add: of_nat_diff) linarith
  then show "x \<in> bytes_at a n" unfolding bytes_at_def by blast
qed

lemma bytes_at_disjoint:
  fixes a b :: "'a::len word"
  assumes "unat a + n \<le> unat b" "unat b + k \<le> 2 ^ LENGTH('a)"
  shows "bytes_at a n \<inter> bytes_at b k = {}"
proof -
  have "unat a + n \<le> 2 ^ LENGTH('a)" using assms by linarith
  then show ?thesis using assms by (auto simp: bytes_at_interval)
qed

section \<open>Runs of stores\<close>

text \<open>
  \<open>store_seq st d m a vs\<close> stores the values \<open>vs\<close> one after the other at \<open>a\<close>, \<open>a + d\<close>,
  \<open>a + 2 * d\<close>, and so on: what a fill or copy loop with stride \<open>d\<close> does.
\<close>

fun store_seq :: "(('a::len word \<Rightarrow> u8) \<Rightarrow> 'a word \<Rightarrow> 'v \<Rightarrow> ('a word \<Rightarrow> u8)) \<Rightarrow> 'a word \<Rightarrow>
    ('a word \<Rightarrow> u8) \<Rightarrow> 'a word \<Rightarrow> 'v list \<Rightarrow> ('a word \<Rightarrow> u8)" where
  "store_seq st d m a [] = m"
| "store_seq st d m a (v # vs) = store_seq st d (st m a v) (a + d) vs"

lemma store_seq_append:
  "store_seq st d m a (us @ vs) =
     store_seq st d (store_seq st d m a us) (a + of_nat (length us) * d) vs"
  by (induction us arbitrary: m a) (simp_all add: algebra_simps)

context word_memory
begin

lemma store_seq_frame:
  "(\<And>i. i < length vs \<Longrightarrow> x \<notin> bytes_at (a + of_nat i * d) width) \<Longrightarrow>
   store_seq store d m a vs x = m x"
proof (induction vs arbitrary: m a)
  case Nil
  then show ?case by simp
next
  case (Cons v vs)
  have "x \<notin> bytes_at a width" using Cons.prems [of 0] by simp
  moreover have "store_seq store d (store m a v) (a + d) vs x = store m a v x"
  proof (rule Cons.IH)
    fix i assume "i < length vs"
    then show "x \<notin> bytes_at (a + d + of_nat i * d) width"
      using Cons.prems [of "Suc i"] by (simp add: algebra_simps)
  qed
  ultimately show ?case by (simp add: store_frame)
qed

lemma store_seq_nth:
  assumes i: "i < length vs" and s: "width \<le> s"
    and fits: "unat a + s * length vs \<le> 2 ^ LENGTH('a)"
  shows "load (store_seq store (of_nat s) m a vs) (a + of_nat i * of_nat s) = vs ! i"
proof -
  let ?a = "\<lambda>j. a + of_nat j * of_nat s :: 'a word"
  define us ws where "us = take i vs" and "ws = drop (Suc i) vs"
  have vs: "vs = us @ vs ! i # ws" and l: "length us = i" "length ws = length vs - Suc i"
    using i by (simp_all add: us_def ws_def id_take_nth_drop)
  have bound: "unat (?a j) = unat a + j * s \<and> unat (?a j) + s \<le> 2 ^ LENGTH('a)"
    if "j < length vs" for j
  proof -
    have "j * s + s \<le> s * length vs"
      using that by (metis Suc_leI add.commute mult.commute mult_Suc mult_le_mono2)
    moreover have "0 < s \<or> s = 0" by blast
    moreover have "?a j = a + of_nat (j * s)" by simp
    ultimately have "unat a + j * s + s \<le> 2 ^ LENGTH('a)" using fits by linarith
    moreover from this have "s \<noteq> 0 \<Longrightarrow> unat (a + of_nat (j * s)) = unat a + j * s"
      by (intro unat_add_of_nat) linarith
    ultimately show ?thesis by (cases "s = 0") simp_all
  qed
  have "load (store_seq store (of_nat s) m a vs) (?a i) =
      load (store_seq store (of_nat s) (store (store_seq store (of_nat s) m a us) (?a i) (vs ! i))
        (?a i + of_nat s) ws) (?a i)"
    by (subst vs) (simp add: store_seq_append l)
  also have "\<dots> = load (store (store_seq store (of_nat s) m a us) (?a i) (vs ! i)) (?a i)"
  proof (rule load_cong, rule store_seq_frame)
    fix x j assume x: "x \<in> bytes_at (?a i) width" and j: "j < length ws"
    have e: "?a i + of_nat s + of_nat j * of_nat s = ?a (Suc (i + j))"
      by (simp add: algebra_simps)
    have "bytes_at (?a i) width \<inter> bytes_at (?a (Suc (i + j))) width = {}"
    proof (rule bytes_at_disjoint)
      have "Suc (i + j) < length vs" using j l by simp
      from bound [OF this] bound [OF i] s
      show "unat (?a i) + width \<le> unat (?a (Suc (i + j)))"
        "unat (?a (Suc (i + j))) + width \<le> 2 ^ LENGTH('a)"
        by (auto simp: algebra_simps)
    qed
    then show "x \<notin> bytes_at (?a i + of_nat s + of_nat j * of_nat s) width"
      unfolding e using x by blast
  qed
  finally show ?thesis by (simp add: load_store)
qed

end

text \<open>The accesses of the code: 32-bit words of RV32, 64-bit words of the page-table code.\<close>

interpretation m32: word_memory "load32 :: mem32 \<Rightarrow> _" store32 4
proof
  fix m m' :: mem32 and a v x
  show "load32 (store32 m a v) a = v"
    using load_store_bytes [of 4 m a v]
    by (simp add: load32_def store32_def take_bit_word_eq_self)
  show "x \<notin> bytes_at a 4 \<Longrightarrow> store32 m a v x = m x"
    by (simp add: store32_def store_bytes_frame)
  show "(\<And>x. x \<in> bytes_at a 4 \<Longrightarrow> m x = m' x) \<Longrightarrow> load32 m a = load32 m' a"
    unfolding load32_def by (rule load_bytes_cong)
qed

interpretation m64: word_memory "load64 :: mem64 \<Rightarrow> _" store64 8
proof
  fix m m' :: mem64 and a v x
  show "load64 (store64 m a v) a = v"
    using load_store_bytes [of 8 m a v]
    by (simp add: load64_def store64_def take_bit_word_eq_self)
  show "x \<notin> bytes_at a 8 \<Longrightarrow> store64 m a v x = m x"
    by (simp add: store64_def store_bytes_frame)
  show "(\<And>x. x \<in> bytes_at a 8 \<Longrightarrow> m x = m' x) \<Longrightarrow> load64 m a = load64 m' a"
    unfolding load64_def by (rule load_bytes_cong)
qed

definition load8 :: "mem32 \<Rightarrow> u32 \<Rightarrow> u8" where
  "load8 m a = m a"

definition store8 :: "mem32 \<Rightarrow> u32 \<Rightarrow> u8 \<Rightarrow> mem32" where
  "store8 m a v = m(a := v)"

interpretation m8: word_memory load8 store8 1
  by unfold_locales (auto simp: bytes_at_Suc load8_def store8_def)

text \<open>Bytes copied one after the other into 32-bit memory.\<close>

abbreviation put_bytes :: "mem32 \<Rightarrow> u32 \<Rightarrow> u8 list \<Rightarrow> mem32" where
  "put_bytes \<equiv> store_seq store8 1"

lemma put_bytes_frame: "x \<notin> bytes_at a (length bs) \<Longrightarrow> put_bytes m a bs x = m x"
  by (rule m8.store_seq_frame) (auto simp: bytes_at_def)

lemma put_bytes_nth:
  "i < length bs \<Longrightarrow> length bs \<le> 2 ^ 32 \<Longrightarrow> put_bytes m a bs (a + of_nat i) = bs ! i"
proof (induction bs arbitrary: m a i)
  case Nil
  then show ?case by simp
next
  case (Cons b bs)
  show ?case
  proof (cases i)
    case 0
    have "a \<notin> bytes_at (a + 1) (length bs)"
      using Cons.prems by (intro bytes_at_shifted) simp
    then have "put_bytes (store8 m a b) (a + 1) bs a = store8 m a b a" by (rule put_bytes_frame)
    then show ?thesis using 0 by (simp add: store8_def [of m a b])
  next
    case (Suc j)
    then show ?thesis using Cons.IH [of j "store8 m a b" "a + 1"] Cons.prems
      by (simp add: add.assoc)
  qed
qed

declare m32.load_store [mem_simps] m32.store_frame [mem_simps]
  m64.load_store [mem_simps] m64.store_frame [mem_simps]

section \<open>Words at numbers\<close>

lemma adr_less: "a < 2 ^ 32 \<Longrightarrow> unat (of_nat a :: u32) = a"
  by (rule unat_of_nat_32)

lemma adr_nonzero: "0 < a \<Longrightarrow> a < 2 ^ 32 \<Longrightarrow> (of_nat a :: u32) \<noteq> 0"
  using adr_less [of a] by auto

lemma in_word_at: "a + 4 \<le> 2 ^ 32 \<Longrightarrow> x \<in> bytes_at (of_nat a :: u32) 4 \<longleftrightarrow> a \<le> unat x \<and> unat x < a + 4"
  using bytes_at_interval [of "of_nat a :: u32" 4] adr_less [of a] by simp

lemma load_store_word:
  assumes "a + 4 \<le> b \<or> b + 4 \<le> a" "a + 4 \<le> 2 ^ 32" "b + 4 \<le> 2 ^ 32"
  shows "load32 (store32 m (of_nat b) v) (of_nat a) = load32 (m :: mem32) (of_nat a)"
  using assms by (intro m32.load_store_other) (auto simp: in_word_at)

lemma load_same:
  assumes "a + 4 \<le> 2 ^ 32" "\<And>x. a \<le> unat x \<Longrightarrow> unat x < a + 4 \<Longrightarrow> m x = m' x"
  shows "load32 (m :: mem32) (of_nat a) = load32 m' (of_nat a)"
  using assms by (intro m32.load_cong) (auto simp: in_word_at)

lemma store_word_frame:
  "b + 4 \<le> 2 ^ 32 \<Longrightarrow> \<not> (b \<le> unat x \<and> unat x < b + 4) \<Longrightarrow> store32 m (of_nat b) v x = (m :: mem32) x"
  by (rule m32.store_frame) (simp add: in_word_at)

lemma adr_plus_4: "(of_nat a + 4 :: u32) = of_nat (a + 4)"
  by simp

end
