(* ===== verification/Device.thy ===== *)
theory Device
  imports Memory "HOL-Library.Monad_Syntax"
begin

text \<open>
  Memory-mapped devices. A volatile access is an event the device sees; what a volatile load
  returns is up to the device, so the state carries the list \<open>resp\<close> of the values its next loads
  will return, and the trace of the accesses made, oldest first. A load with no response left
  gives \<open>None\<close>: the program is still waiting for the device. With it come the drivers that are
  single accesses: \<^verbatim>\<open>gcc/spi.c\<close>, \<^verbatim>\<open>gcc/CRAS.c\<close>, \<^verbatim>\<open>gcc/counter.c\<close>, \<^verbatim>\<open>gcc/print.c\<close>.
\<close>

datatype event =
    ReadByte u32
  | ReadWord u32
  | WriteByte u32 u8
  | WriteWord u32 u32

record dev =
  resp :: "u32 list"
  trace :: "event list"

definition io_read8 :: "u32 \<Rightarrow> dev \<Rightarrow> (u8 \<times> dev) option" where
  "io_read8 a d = (case resp d of [] \<Rightarrow> None
     | r # rs \<Rightarrow> Some (ucast r, d\<lparr>resp := rs, trace := trace d @ [ReadByte a]\<rparr>))"

definition io_read32 :: "u32 \<Rightarrow> dev \<Rightarrow> (u32 \<times> dev) option" where
  "io_read32 a d = (case resp d of [] \<Rightarrow> None
     | r # rs \<Rightarrow> Some (r, d\<lparr>resp := rs, trace := trace d @ [ReadWord a]\<rparr>))"

definition io_write8 :: "u32 \<Rightarrow> u8 \<Rightarrow> dev \<Rightarrow> dev" where
  "io_write8 a v d = d\<lparr>trace := trace d @ [WriteByte a v]\<rparr>"

definition io_write32 :: "u32 \<Rightarrow> u32 \<Rightarrow> dev \<Rightarrow> dev" where
  "io_write32 a v d = d\<lparr>trace := trace d @ [WriteWord a v]\<rparr>"

text \<open>The bytes written to one register, in order.\<close>

fun written :: "u32 \<Rightarrow> event list \<Rightarrow> u8 list" where
  "written a [] = []"
| "written a (WriteByte b v # es) = (if a = b then v # written a es else written a es)"
| "written a (e # es) = written a es"

lemma written_append [simp]: "written a (es @ fs) = written a es @ written a fs"
  by (induction es rule: written.induct) auto

lemma io_write8_simps [simp]:
  "resp (io_write8 a v d) = resp d" "trace (io_write8 a v d) = trace d @ [WriteByte a v]"
  by (simp_all add: io_write8_def)

lemma io_write32_simps [simp]:
  "resp (io_write32 a v d) = resp d" "trace (io_write32 a v d) = trace d @ [WriteWord a v]"
  by (simp_all add: io_write32_def)

lemma io_read8_Some:
  "io_read8 a d = Some (b, d') \<longleftrightarrow>
     (\<exists>r. resp d = r # resp d' \<and> b = ucast r \<and> d' = d\<lparr>resp := resp d', trace := trace d @ [ReadByte a]\<rparr>)"
  by (auto simp: io_read8_def split: list.splits)

section \<open>Seven-segment output, SPI, return-address stack and cycle counter\<close>

text \<open>
  \<open>print\<close> is inline assembly: \<open>lui 699050\<close> loads \<open>0xaaaaa000\<close> and the word goes to offset 8.
\<close>

definition print :: "i32 \<Rightarrow> dev \<Rightarrow> dev" where
  "print a d = io_write32 (push_bit 12 699050 + 8) a d"

definition SPI_BASE_ADDR :: u32 where
  "SPI_BASE_ADDR = 0xaaaaa500"

definition spi_write_ignore_response :: "u8 \<Rightarrow> dev \<Rightarrow> dev" where
  "spi_write_ignore_response c d = io_write32 SPI_BASE_ADDR (push_bit 8 1 OR ucast c) d"

definition spi_write :: "u8 \<Rightarrow> dev \<Rightarrow> dev" where
  "spi_write c d = io_write8 SPI_BASE_ADDR c d"

definition spi_read :: "dev \<Rightarrow> (u8 \<times> dev) option" where
  "spi_read d = io_read8 SPI_BASE_ADDR d"

definition spi_poll :: "dev \<Rightarrow> (u8 \<times> dev) option" where
  "spi_poll d = io_read8 (SPI_BASE_ADDR + 1) d"

definition set_CRAS :: "u8 \<Rightarrow> dev \<Rightarrow> dev" where
  "set_CRAS c d = io_write8 0xaaaaa600 c d"

definition set_CRAS_base_addr :: "u32 \<Rightarrow> dev \<Rightarrow> dev" where
  "set_CRAS_base_addr base_addr d = io_write32 0xaaaaa604 base_addr d"

text \<open>\<open>k\<close> is the address of four words in memory; the register pointer steps by one word.\<close>

definition set_key_word :: "mem32 \<Rightarrow> u32 \<Rightarrow> dev \<Rightarrow> dev" where
  "set_key_word m k d =
     (let d = io_write32 0xaaaaa610 (load32 m k) d;
          d = io_write32 (0xaaaaa610 + 4) (load32 m (k + 4)) d;
          d = io_write32 (0xaaaaa610 + 8) (load32 m (k + 8)) d
      in io_write32 (0xaaaaa610 + 12) (load32 m (k + 12)) d)"

definition zero_counter :: "dev \<Rightarrow> dev" where
  "zero_counter d = io_write8 0xaaaaa704 1 d"

definition overflow_counter :: "dev \<Rightarrow> (u8 \<times> dev) option" where
  "overflow_counter d = io_read8 0xaaaaa704 d"

definition read_counter :: "dev \<Rightarrow> (u32 \<times> dev) option" where
  "read_counter d = io_read32 0xaaaaa700 d"

section \<open>The contract of a serial receiver\<close>

text \<open>
  What the line delivers, as the responses of the device: a receiver polls a status register until
  its lowest bit is set and then reads the data register.
\<close>

inductive delivers :: "u32 list \<Rightarrow> u8 list \<Rightarrow> u32 list \<Rightarrow> bool" where
  nothing: "delivers r [] r"
| byte: "\<forall>p \<in> set polls. \<not> bit p 0 \<Longrightarrow> bit q 0 \<Longrightarrow> delivers rs bs rest \<Longrightarrow>
    delivers (polls @ q # b # rs) (ucast b # bs) rest"

inductive_cases delivers_ConsE: "delivers r (b # bs) rest"
inductive_simps delivers_Nil: "delivers r [] rest"

lemma delivers_append:
  "delivers r bs mid \<Longrightarrow> delivers mid cs rest \<Longrightarrow> delivers r (bs @ cs) rest"
  by (induction rule: delivers.induct) (auto intro: delivers.byte)

text \<open>Splitting a delivery at any point.\<close>

lemma delivers_split:
  "delivers r (bs @ cs) rest \<Longrightarrow> \<exists>mid. delivers r bs mid \<and> delivers mid cs rest"
proof (induction bs arbitrary: r)
  case Nil
  then show ?case by (auto intro: delivers.nothing)
next
  case (Cons b bs)
  then obtain polls q x rs where
    r: "r = polls @ q # x # rs" "\<forall>p \<in> set polls. \<not> bit p 0" "bit q 0" "b = ucast x"
    and d: "delivers rs (bs @ cs) rest" by (auto elim: delivers_ConsE)
  from Cons.IH [OF d] obtain mid where "delivers rs bs mid" "delivers mid cs rest" by blast
  with r show ?case by (auto intro: delivers.byte)
qed

text \<open>Reading \<open>n\<close> bytes one after the other.\<close>

fun read_bytes :: "(dev \<Rightarrow> (u8 \<times> dev) option) \<Rightarrow> nat \<Rightarrow> dev \<Rightarrow> (u8 list \<times> dev) option" where
  "read_bytes rb 0 d = Some ([], d)"
| "read_bytes rb (Suc n) d =
     do { (b, d) \<leftarrow> rb d; (bs, d) \<leftarrow> read_bytes rb n d; Some (b # bs, d) }"

text \<open>The writes a device has seen.\<close>

definition writes_of :: "dev \<Rightarrow> event list" where
  "writes_of d = filter (\<lambda>e. case e of WriteByte _ _ \<Rightarrow> True | WriteWord _ _ \<Rightarrow> True | _ \<Rightarrow> False) (trace d)"

locale serial_receiver =
  fixes rb :: "dev \<Rightarrow> (u8 \<times> dev) option"
  assumes receives: "delivers (resp d) [b] rest \<Longrightarrow>
    \<exists>d'. rb d = Some (b, d') \<and> resp d' = rest \<and> writes_of d' = writes_of d"
begin

lemma read_bytes_delivers:
  "delivers (resp d) bs rest \<Longrightarrow>
   \<exists>d'. read_bytes rb (length bs) d = Some (bs, d') \<and> resp d' = rest \<and> writes_of d' = writes_of d"
proof (induction bs arbitrary: d)
  case Nil
  then show ?case by (auto simp: delivers_Nil)
next
  case (Cons b bs)
  then obtain mid where m: "delivers (resp d) [b] mid" "delivers mid bs rest"
    using delivers_split [of "resp d" "[b]" bs rest] by auto
  from receives [OF m(1)] obtain d1 where
    d1: "rb d = Some (b, d1)" "resp d1 = mid" "writes_of d1 = writes_of d" by blast
  from Cons.IH [of d1] m(2) d1 show ?case by fastforce
qed

end

end
