(* ===== verification/Uart.thy ===== *)
theory Uart
  imports Device
begin

text \<open>
  The two UART drivers: \<^verbatim>\<open>os/src/uart.c\<close> (prefix \<open>os_\<close>; a status word at \<open>0xaaaaa404\<close>) and
  \<^verbatim>\<open>gcc/uart.c\<close> (a 16550: line status register at offset 5), with the string routines of the two
  files. A C string is a pointer into memory. The polling loops recurse on the responses of the
  device; the loops over strings can run on past any string, so they are
  \<^theory_text>\<open>partial_function (option)\<close>.
\<close>

section \<open>os/src/uart.c\<close>

definition os_put :: "u8 \<Rightarrow> dev \<Rightarrow> dev" where
  "os_put c d = io_write8 0xaaaaa400 c d"

definition os_uart_get :: "dev \<Rightarrow> (u8 \<times> dev) option" where
  "os_uart_get d = io_read8 0xaaaaa400 d"

definition os_uart_poll :: "dev \<Rightarrow> (u8 \<times> dev) option" where
  "os_uart_poll d = io_read8 0xaaaaa404 d"

function os_uart_write_blocking :: "u8 \<Rightarrow> dev \<Rightarrow> dev option" where
  "os_uart_write_blocking c d =
     (case os_uart_poll d of
        None \<Rightarrow> None
      | Some (s, d') \<Rightarrow>
          if s AND 2 \<noteq> 0 then os_uart_write_blocking c d' else Some (os_put c d'))"
  by pat_completeness auto
termination
  by (relation "measure (\<lambda>(c, d). length (resp d))") (auto simp: os_uart_poll_def io_read8_Some)

declare os_uart_write_blocking.simps [simp del]

function os_uart_read_blocking :: "dev \<Rightarrow> (u8 \<times> dev) option" where
  "os_uart_read_blocking d =
     (case os_uart_poll d of
        None \<Rightarrow> None
      | Some (s, d') \<Rightarrow>
          if s AND 1 = 0 then os_uart_read_blocking d' else os_uart_get d')"
  by pat_completeness auto
termination
  by (relation "measure (\<lambda>d. length (resp d))") (auto simp: os_uart_poll_def io_read8_Some)

declare os_uart_read_blocking.simps [simp del]

partial_function (option) os_print_loop :: "mem32 \<Rightarrow> u32 \<Rightarrow> i32 \<Rightarrow> dev \<Rightarrow> dev option" where
  "os_print_loop m c offset d =
     (if m (c + offset) \<noteq> 0
      then do { d \<leftarrow> os_uart_write_blocking (m (c + offset)) d; os_print_loop m c (offset + 1) d }
      else Some d)"

definition os_print :: "mem32 \<Rightarrow> u32 \<Rightarrow> dev \<Rightarrow> dev option" where
  "os_print m c d = os_print_loop m c 0 d"

text \<open>\<open>for (int j = i; j < len; j++) c[j] = 0;\<close>\<close>

function zero_tail :: "u32 \<Rightarrow> i32 \<Rightarrow> i32 \<Rightarrow> mem32 \<Rightarrow> mem32" where
  "zero_tail c j len m = (if j <s len then zero_tail c (j + 1) len (m(c + j := 0)) else m)"
  by pat_completeness auto
termination
  by (relation "measure (\<lambda>(c, j, len, m). nat (sint len - sint j))")
    (auto simp: word_sless_alt sint_succ_less)

declare zero_tail.simps [simp del]

function os_readline_loop :: "u32 \<Rightarrow> i32 \<Rightarrow> i32 \<Rightarrow> mem32 \<Rightarrow> dev \<Rightarrow> (mem32 \<times> dev) option" where
  "os_readline_loop c i len m d =
     (if i <s len
      then do {
        (tmp, d) \<leftarrow> os_uart_read_blocking d;
        if tmp = 13
        then do {
          d \<leftarrow> os_uart_write_blocking 13 d;
          d \<leftarrow> os_uart_write_blocking 10 d;
          Some (zero_tail c i len m, d) }
        else do {
          d \<leftarrow> os_uart_write_blocking tmp d;
          os_readline_loop c (i + 1) len (m(c + i := tmp)) d } }
      else Some (m, d))"
  by pat_completeness auto
termination
  by (relation "measure (\<lambda>(c, i, len, m, d). nat (sint len - sint i))")
    (auto simp: word_sless_alt sint_succ_less)

declare os_readline_loop.simps [simp del]

definition os_readline :: "u32 \<Rightarrow> i32 \<Rightarrow> mem32 \<Rightarrow> dev \<Rightarrow> (mem32 \<times> dev) option" where
  "os_readline c len m d = os_readline_loop c 0 len m d"

partial_function (option) strlen_loop :: "mem32 \<Rightarrow> u32 \<Rightarrow> i32 \<Rightarrow> i32 option" where
  "strlen_loop m c offset =
     (if m (c + offset) \<noteq> 0 then strlen_loop m c (offset + 1) else Some offset)"

definition os_strlen :: "mem32 \<Rightarrow> u32 \<Rightarrow> i32 option" where
  "os_strlen m c = strlen_loop m c 0"

section \<open>gcc/uart.c\<close>

definition UART_BASE_ADDR :: u32 where
  "UART_BASE_ADDR = 0xaaaaa400"

definition uart_init :: "dev \<Rightarrow> u8 \<times> dev" where
  "uart_init d =
     (let d = io_write8 (UART_BASE_ADDR + 3) (push_bit 7 1 OR 3) d;
          baud_lower = 54;
          d = io_write8 UART_BASE_ADDR baud_lower d;
          d = io_write8 (UART_BASE_ADDR + 1) 0 d;
          d = io_write8 (UART_BASE_ADDR + 3) 3 d;
          d = io_write8 (UART_BASE_ADDR + 2) 1 d;
          d = io_write8 (UART_BASE_ADDR + 1) 1 d
      in (1, d))"

definition uart_put :: "u8 \<Rightarrow> dev \<Rightarrow> dev" where
  "uart_put c d = io_write8 UART_BASE_ADDR c d"

definition uart_get :: "dev \<Rightarrow> (u8 \<times> dev) option" where
  "uart_get d = io_read8 UART_BASE_ADDR d"

definition uart_poll :: "dev \<Rightarrow> (u8 \<times> dev) option" where
  "uart_poll d = io_read8 (UART_BASE_ADDR + 5) d"

function uart_put_blocking :: "u8 \<Rightarrow> dev \<Rightarrow> dev option" where
  "uart_put_blocking c d =
     (case uart_poll d of
        None \<Rightarrow> None
      | Some (s, d') \<Rightarrow> if s AND 96 = 0 then uart_put_blocking c d' else Some (uart_put c d'))"
  by pat_completeness auto
termination
  by (relation "measure (\<lambda>(c, d). length (resp d))") (auto simp: uart_poll_def io_read8_Some)

declare uart_put_blocking.simps [simp del]

function uart_read_blocking :: "dev \<Rightarrow> (u8 \<times> dev) option" where
  "uart_read_blocking d =
     (case uart_poll d of
        None \<Rightarrow> None
      | Some (s, d') \<Rightarrow> if s AND 1 = 0 then uart_read_blocking d' else uart_get d')"
  by pat_completeness auto
termination
  by (relation "measure (\<lambda>d. length (resp d))") (auto simp: uart_poll_def io_read8_Some)

declare uart_read_blocking.simps [simp del]

text \<open>Only the first character waits for the transmitter; the others are put without a poll.\<close>

partial_function (option) uart_print_loop :: "mem32 \<Rightarrow> u32 \<Rightarrow> i32 \<Rightarrow> dev \<Rightarrow> dev option" where
  "uart_print_loop m c offset d =
     (if m (c + offset) \<noteq> 0
      then do {
        d \<leftarrow> (if offset = 0 then uart_put_blocking (m (c + offset)) d
             else Some (uart_put (m (c + offset)) d));
        uart_print_loop m c (offset + 1) d }
      else Some d)"

definition uart_print :: "mem32 \<Rightarrow> u32 \<Rightarrow> dev \<Rightarrow> dev option" where
  "uart_print m c d = uart_print_loop m c 0 d"

function readline_loop :: "u32 \<Rightarrow> i32 \<Rightarrow> i32 \<Rightarrow> mem32 \<Rightarrow> dev \<Rightarrow> (mem32 \<times> dev) option" where
  "readline_loop c i len m d =
     (if i <s len
      then do {
        (tmp, d) \<leftarrow> uart_read_blocking d;
        if tmp = 13
        then Some (zero_tail c i len m, uart_put 10 (uart_put 13 d))
        else readline_loop c (i + 1) len (m(c + i := tmp)) (uart_put tmp d) }
      else Some (m, d))"
  by pat_completeness auto
termination
  by (relation "measure (\<lambda>(c, i, len, m, d). nat (sint len - sint i))")
    (auto simp: word_sless_alt sint_succ_less)

declare readline_loop.simps [simp del]

definition readline :: "u32 \<Rightarrow> i32 \<Rightarrow> mem32 \<Rightarrow> dev \<Rightarrow> (mem32 \<times> dev) option" where
  "readline c len m d = readline_loop c 0 len m d"

definition strlen :: "mem32 \<Rightarrow> u32 \<Rightarrow> i32 option" where
  "strlen m c = strlen_loop m c 0"

section \<open>The receivers\<close>

text \<open>Both drivers meet the contract of a serial receiver.\<close>

lemma low_bit_clear: "(s :: 'a::len word) AND 1 = 0 \<longleftrightarrow> \<not> bit s 0"
  by (simp add: and_one_eq mod_2_eq_odd bit_0)

lemma writes_of_read [simp]:
  "writes_of (d\<lparr>resp := r, trace := trace d @ [ReadByte a]\<rparr>) = writes_of d"
  by (simp add: writes_of_def)

lemma writes_of_resp [simp]: "writes_of (d\<lparr>resp := r\<rparr>) = writes_of d"
  by (simp add: writes_of_def)

lemma os_read_polls:
  "resp d = polls @ q # b # rest \<Longrightarrow> \<forall>p \<in> set polls. \<not> bit p 0 \<Longrightarrow> bit q 0 \<Longrightarrow>
   \<exists>d'. os_uart_read_blocking d = Some (ucast b, d') \<and> resp d' = rest \<and> writes_of d' = writes_of d"
proof (induction polls arbitrary: d)
  case Nil
  then show ?case
    by (subst os_uart_read_blocking.simps)
      (simp add: os_uart_poll_def os_uart_get_def io_read8_def low_bit_clear bit_ucast_iff writes_of_def)
next
  case (Cons p ps)
  define d1 where "d1 = d\<lparr>resp := ps @ q # b # rest, trace := trace d @ [ReadByte 0xaaaaa404]\<rparr>"
  have "os_uart_read_blocking d = os_uart_read_blocking d1"
    using Cons.prems
    by (subst os_uart_read_blocking.simps)
      (simp add: os_uart_poll_def io_read8_def low_bit_clear bit_ucast_iff d1_def)
  moreover have "resp d1 = ps @ q # b # rest" "writes_of d1 = writes_of d"
    by (simp_all add: d1_def)
  ultimately show ?case using Cons.IH [of d1] Cons.prems by simp
qed

lemma gcc_read_polls:
  "resp d = polls @ q # b # rest \<Longrightarrow> \<forall>p \<in> set polls. \<not> bit p 0 \<Longrightarrow> bit q 0 \<Longrightarrow>
   \<exists>d'. uart_read_blocking d = Some (ucast b, d') \<and> resp d' = rest \<and> writes_of d' = writes_of d"
proof (induction polls arbitrary: d)
  case Nil
  then show ?case
    by (subst uart_read_blocking.simps)
      (simp add: uart_poll_def uart_get_def io_read8_def low_bit_clear bit_ucast_iff writes_of_def)
next
  case (Cons p ps)
  define d1 where
    "d1 = d\<lparr>resp := ps @ q # b # rest, trace := trace d @ [ReadByte (UART_BASE_ADDR + 5)]\<rparr>"
  have "uart_read_blocking d = uart_read_blocking d1"
    using Cons.prems
    by (subst uart_read_blocking.simps)
      (simp add: uart_poll_def io_read8_def low_bit_clear bit_ucast_iff d1_def)
  moreover have "resp d1 = ps @ q # b # rest" "writes_of d1 = writes_of d"
    by (simp_all add: d1_def)
  ultimately show ?case using Cons.IH [of d1] Cons.prems by simp
qed

interpretation os_rx: serial_receiver os_uart_read_blocking
  by unfold_locales (auto elim!: delivers_ConsE simp: delivers_Nil intro: os_read_polls)

interpretation gcc_rx: serial_receiver uart_read_blocking
  by unfold_locales (auto elim!: delivers_ConsE simp: delivers_Nil intro: gcc_read_polls)

section \<open>Strings\<close>

fun c_string :: "mem32 \<Rightarrow> u32 \<Rightarrow> u8 list \<Rightarrow> bool" where
  "c_string m p [] \<longleftrightarrow> m p = 0"
| "c_string m p (b # bs) \<longleftrightarrow> b \<noteq> 0 \<and> m p = b \<and> c_string m (p + 1) bs"

lemma strlen_loop_c_string:
  "c_string m (c + off) s \<Longrightarrow> strlen_loop m c off = Some (off + of_nat (length s))"
proof (induction s arbitrary: off)
  case Nil
  then show ?case by (simp add: strlen_loop.simps)
next
  case (Cons b s)
  then have "c_string m (c + (off + 1)) s" by (simp add: add.assoc)
  from Cons.IH [OF this] Cons.prems show ?case by (simp add: strlen_loop.simps [of m c off])
qed

text \<open>
  What a transmitter grants, as responses: a poll loop sees it busy any number of times and then
  ready, once for each of \<open>n\<close> characters.
\<close>

inductive grants :: "(u8 \<Rightarrow> bool) \<Rightarrow> u32 list \<Rightarrow> nat \<Rightarrow> u32 list \<Rightarrow> bool" for ready where
  grants_none: "grants ready r 0 r"
| grants_one: "\<forall>p \<in> set polls. \<not> ready (ucast p) \<Longrightarrow> ready (ucast q) \<Longrightarrow> grants ready rs n rest \<Longrightarrow>
    grants ready (polls @ q # rs) (Suc n) rest"

inductive_cases grants_SucE: "grants ready r (Suc n) rest"
inductive_simps grants_0: "grants ready r 0 rest"

definition os_ready :: "u8 \<Rightarrow> bool" where
  "os_ready s \<longleftrightarrow> s AND 2 = 0"

definition gcc_ready :: "u8 \<Rightarrow> bool" where
  "gcc_ready s \<longleftrightarrow> s AND 96 \<noteq> 0"

lemma os_write_polls:
  "resp d = polls @ q # rest \<Longrightarrow> \<forall>p \<in> set polls. \<not> os_ready (ucast p) \<Longrightarrow> os_ready (ucast q) \<Longrightarrow>
   \<exists>d'. os_uart_write_blocking c d = Some d' \<and> resp d' = rest \<and>
     writes_of d' = writes_of d @ [WriteByte 0xaaaaa400 c]"
proof (induction polls arbitrary: d)
  case Nil
  then show ?case
    by (subst os_uart_write_blocking.simps)
      (simp add: os_uart_poll_def os_put_def io_read8_def os_ready_def writes_of_def)
next
  case (Cons p ps)
  define d1 where "d1 = d\<lparr>resp := ps @ q # rest, trace := trace d @ [ReadByte 0xaaaaa404]\<rparr>"
  have "os_uart_write_blocking c d = os_uart_write_blocking c d1"
    using Cons.prems
    by (subst os_uart_write_blocking.simps)
      (simp add: os_uart_poll_def io_read8_def os_ready_def d1_def)
  moreover have "resp d1 = ps @ q # rest" "writes_of d1 = writes_of d" by (simp_all add: d1_def)
  ultimately show ?case using Cons.IH [of d1] Cons.prems by simp
qed

lemma gcc_put_polls:
  "resp d = polls @ q # rest \<Longrightarrow> \<forall>p \<in> set polls. \<not> gcc_ready (ucast p) \<Longrightarrow> gcc_ready (ucast q) \<Longrightarrow>
   \<exists>d'. uart_put_blocking c d = Some d' \<and> resp d' = rest \<and>
     writes_of d' = writes_of d @ [WriteByte UART_BASE_ADDR c]"
proof (induction polls arbitrary: d)
  case Nil
  then show ?case
    by (subst uart_put_blocking.simps)
      (simp add: uart_poll_def uart_put_def io_read8_def gcc_ready_def writes_of_def)
next
  case (Cons p ps)
  define d1 where
    "d1 = d\<lparr>resp := ps @ q # rest, trace := trace d @ [ReadByte (UART_BASE_ADDR + 5)]\<rparr>"
  have "uart_put_blocking c d = uart_put_blocking c d1"
    using Cons.prems
    by (subst uart_put_blocking.simps)
      (simp add: uart_poll_def io_read8_def gcc_ready_def d1_def)
  moreover have "resp d1 = ps @ q # rest" "writes_of d1 = writes_of d" by (simp_all add: d1_def)
  ultimately show ?case using Cons.IH [of d1] Cons.prems by simp
qed

lemma os_print_loop_string:
  "c_string m (c + off) s \<Longrightarrow> grants os_ready (resp d) (length s) rest \<Longrightarrow>
   \<exists>d'. os_print_loop m c off d = Some d' \<and> resp d' = rest \<and>
     writes_of d' = writes_of d @ map (WriteByte 0xaaaaa400) s"
proof (induction s arbitrary: off d)
  case Nil
  then show ?case by (auto simp: os_print_loop.simps [of m c off] grants_0)
next
  case (Cons b s)
  obtain polls q rs where r: "resp d = polls @ q # rs" "\<forall>p \<in> set polls. \<not> os_ready (ucast p)"
    "os_ready (ucast q)" "grants os_ready rs (length s) rest"
    using Cons.prems(2) by (auto elim: grants_SucE)
  from os_write_polls [OF r(1-3), of b] obtain d1 where
    d1: "os_uart_write_blocking b d = Some d1" "resp d1 = rs"
      "writes_of d1 = writes_of d @ [WriteByte 0xaaaaa400 b]" by blast
  have "c_string m (c + (off + 1)) s" using Cons.prems by (simp add: add.assoc)
  from Cons.IH [OF this, of d1] r(4) d1 Cons.prems show ?case
    by (auto simp: os_print_loop.simps [of m c off])
qed

lemma uart_print_loop_tail:
  "c_string m (c + of_nat k) s \<Longrightarrow> 0 < k \<Longrightarrow> k + length s < 2 ^ 32 \<Longrightarrow>
   \<exists>d'. uart_print_loop m c (of_nat k) d = Some d' \<and> resp d' = resp d \<and>
     writes_of d' = writes_of d @ map (WriteByte UART_BASE_ADDR) s"
proof (induction s arbitrary: k d)
  case Nil
  then show ?case by (auto simp: uart_print_loop.simps [of m c])
next
  case (Cons b s)
  have k0: "(of_nat k :: i32) \<noteq> 0"
    using Cons.prems by (auto simp: word_of_nat_eq_0_iff dest: dvd_imp_le)
  have "c_string m (c + of_nat (Suc k)) s" using Cons.prems by (simp add: add_ac)
  from Cons.IH [OF this, of "uart_put b d"] Cons.prems k0 show ?case
    by (auto simp: uart_print_loop.simps [of m c "of_nat k"] uart_put_def writes_of_def add.commute)
qed

lemma uart_print_string:
  assumes "c_string m c (b # s)" "grants gcc_ready (resp d) 1 rest" "length s < 2 ^ 31"
  shows "\<exists>d'. uart_print m c d = Some d' \<and> resp d' = rest \<and>
     writes_of d' = writes_of d @ map (WriteByte UART_BASE_ADDR) (b # s)"
proof -
  obtain polls q where r: "resp d = polls @ q # rest"
    "\<forall>p \<in> set polls. \<not> gcc_ready (ucast p)" "gcc_ready (ucast q)"
    using assms(2) by (auto elim: grants_SucE simp: grants_0)
  from gcc_put_polls [OF r, of b] obtain d1 where
    d1: "uart_put_blocking b d = Some d1" "resp d1 = rest"
      "writes_of d1 = writes_of d @ [WriteByte UART_BASE_ADDR b]" by blast
  have "c_string m (c + of_nat 1) s" using assms(1) by simp
  from uart_print_loop_tail [OF this, of d1] assms d1 show ?thesis
    by (auto simp: uart_print_def uart_print_loop.simps [of m c 0])
qed

lemma uart_print_empty: "c_string m c [] \<Longrightarrow> uart_print m c d = Some d"
  by (simp add: uart_print_def uart_print_loop.simps [of m c 0])

section \<open>Properties\<close>

text \<open>C26: both drivers print a string in full and in order, and \<open>strlen\<close> counts it. The \<open>print\<close> of
  the kernel under \<^verbatim>\<open>os\<close> waits for the transmitter before every character; \<open>uart_print\<close> waits
  only before the first, and puts the others whether or not the transmitter can take them.\<close>

theorem prints_string:
  assumes "c_string m c (b # s)" "length s < 2 ^ 31"
    and "grants os_ready (resp d1) (Suc (length s)) rest1" "grants gcc_ready (resp d2) 1 rest2"
  shows "\<exists>e1 e2. os_print m c d1 = Some e1 \<and> resp e1 = rest1 \<and>
    writes_of e1 = writes_of d1 @ map (WriteByte 0xaaaaa400) (b # s) \<and>
    uart_print m c d2 = Some e2 \<and> resp e2 = rest2 \<and>
    writes_of e2 = writes_of d2 @ map (WriteByte UART_BASE_ADDR) (b # s) \<and>
    strlen m c = Some (of_nat (Suc (length s))) \<and> os_strlen m c = strlen m c"
  using os_print_loop_string [of m c 0 "b # s" d1 rest1] uart_print_string [OF assms(1,4,2)]
    strlen_loop_c_string [of m c 0 "b # s"] assms
  by (auto simp: os_print_def strlen_def os_strlen_def)

section \<open>A line that is ready at once\<close>

definition line_of :: "u8 list \<Rightarrow> u32 list" where
  "line_of bs = concat (map (\<lambda>b. [1, ucast b]) bs)"

lemma line_delivers: "delivers (line_of bs @ rest) bs rest"
proof (induction bs)
  case (Cons b bs)
  then have "delivers ([] @ 1 # ucast b # line_of bs @ rest) (ucast (ucast b :: u32) # bs) rest"
    by (intro delivers.byte) simp_all
  moreover have "ucast (ucast b :: u32) = b" by (rule bit_word_eqI) (simp add: bit_simps)
  ultimately show ?case by (simp add: line_of_def)
qed (simp add: line_of_def delivers.nothing)

lemma grants_96: "grants gcc_ready (96 # rest) 1 rest"
  using grants_one [of "[]" gcc_ready 96 rest 0 rest] by (simp add: gcc_ready_def grants_none)

definition run_dev :: "u8 list \<Rightarrow> dev" where
  "run_dev bs = \<lparr>resp = line_of bs @ [96], trace = []\<rparr>"

lemma run_dev_delivers: "delivers (resp (run_dev bs)) bs [96]"
  by (simp add: run_dev_def line_delivers)

lemma prints_string_witness:
  "\<exists>e1 e2. os_print (\<lambda>a. if a = 0 then 79 else if a = 1 then 75 else 0) 0
      \<lparr>resp = [2, 0, 0], trace = []\<rparr> = Some e1 \<and>
    uart_print (\<lambda>a. if a = 0 then 79 else if a = 1 then 75 else 0) 0
      \<lparr>resp = [96], trace = []\<rparr> = Some e2 \<and> writes_of e2 = map (WriteByte UART_BASE_ADDR) [79, 75]"
proof -
  have "grants os_ready ([2] @ 0 # [] @ 0 # []) (Suc (Suc 0)) []"
    by (intro grants_one grants_none) (simp_all add: os_ready_def)
  then show ?thesis
    using prints_string [of "\<lambda>a. if a = 0 then 79 else if a = 1 then 75 else 0" 0 79 "[75]"
        "\<lparr>resp = [2, 0, 0], trace = []\<rparr>" "[]" "\<lparr>resp = [96], trace = []\<rparr>" "[]"] grants_96 [of "[]"]
    by (fastforce simp: writes_of_def)
qed

end
