(* ===== verification/Strings.thy ===== *)
theory Strings
  imports Uart
begin

text \<open>
  Strings and numbers: \<open>readline\<close>, \<open>atoi\<close> and \<open>itoa\<close> of \<^verbatim>\<open>gcc/uart.c\<close>, the
  \<open>itoa\<close> of \<^verbatim>\<open>os/src/stdlib.c\<close>, \<^verbatim>\<open>gcc/memcpy.c\<close> (whose text \<^verbatim>\<open>gcc/stdlib.c\<close>
  repeats), \<^verbatim>\<open>gcc/strcpy.c\<close> and \<^verbatim>\<open>gcc/string.c\<close>. C's division operators are partial:
  \<open>None\<close> where the C standard leaves the behaviour undefined.
\<close>

section \<open>C division of ints\<close>

definition c_div :: "i32 \<Rightarrow> i32 \<Rightarrow> i32 option" where
  "c_div a b = (if b = 0 \<or> (sint a = - (2 ^ 31) \<and> b = - 1) then None
     else Some (word_of_int (sint a sdiv sint b)))"

definition c_mod :: "i32 \<Rightarrow> i32 \<Rightarrow> i32 option" where
  "c_mod a b = (if b = 0 \<or> (sint a = - (2 ^ 31) \<and> b = - 1) then None
     else Some (word_of_int (sint a smod sint b)))"

section \<open>Conversions of gcc/uart.c\<close>

text \<open>\<open>int tmp = c[i] - INT_OFFSET\<close>; the factor \<open>mult\<close> stays 1, as no statement changes it.\<close>

definition INT_OFFSET :: i32 where
  "INT_OFFSET = 48"

function atoi_loop :: "mem32 \<Rightarrow> u32 \<Rightarrow> i32 \<Rightarrow> i32 \<Rightarrow> i32 \<Rightarrow> i32" where
  "atoi_loop m c i summ mult =
     (if 0 \<le>s i
      then let tmp = ucast (m (c + i)) - INT_OFFSET
           in if tmp = - 3 then 0 - summ
              else if 0 \<le>s tmp \<and> tmp \<le>s 9 then atoi_loop m c (i - 1) (summ + tmp * mult) mult
              else - 1
      else summ)"
  by pat_completeness auto
termination
proof (relation "measure (\<lambda>(m, c, i, summ, mult). nat (sint i + 1))", simp, goal_cases)
  case (1 m c i summ mult)
  then have "0 \<le> sint i" by (simp add: word_sle_eq)
  moreover from this have "sint (i - 1) = sint i - 1"
    using sint_lt_32 [of i] by (subst sint_diff_32) auto
  ultimately show ?case by simp
qed

declare atoi_loop.simps [simp del]

text \<open>
  The loop header reads \<^verbatim>\<open>for (i == (len-1); i >= 0; i--)\<close>: a comparison, so \<open>i\<close> starts with
  whatever the stack holds. That value is the parameter \<open>i0\<close>.
\<close>

definition atoi :: "i32 \<Rightarrow> mem32 \<Rightarrow> u32 \<Rightarrow> i32 option" where
  "atoi i0 m c = do { len \<leftarrow> strlen m c; Some (atoi_loop m c i0 0 1) }"

partial_function (option) itoa_place :: "i32 \<Rightarrow> i32 \<Rightarrow> i32 option" where
  "itoa_place a p1 = do { q \<leftarrow> c_div a p1; if 0 <s q then itoa_place a (p1 * 10) else Some p1 }"

partial_function (option) itoa_digits ::
    "u32 \<Rightarrow> i32 \<Rightarrow> i32 \<Rightarrow> i32 \<Rightarrow> i32 \<Rightarrow> mem32 \<Rightarrow> mem32 option" where
  "itoa_digits c a p1 p2 idx m = do {
     r \<leftarrow> c_mod a p1;
     tmp \<leftarrow> c_div r p2;
     let m = m(c + idx := ucast (tmp + INT_OFFSET));
     let idx = idx + 1;
     if p2 = 1 \<or> idx = 12 then Some m
     else do {
       p2 \<leftarrow> c_div p2 10;
       p1 \<leftarrow> c_div p1 10;
       itoa_digits c a p1 p2 idx m } }"

definition itoa :: "i32 \<Rightarrow> u32 \<Rightarrow> mem32 \<Rightarrow> mem32 option" where
  "itoa a c m =
     (let (m, a, idx) = (if a <s 0 then (m(c + 0 := 45), 0 - a, 0 + 1) else (m, a, 0))
      in if a <s 10 then Some (m(c + idx := ucast (a + INT_OFFSET)))
         else do {
           p1 \<leftarrow> itoa_place a 1;
           p2 \<leftarrow> c_div p1 10;
           itoa_digits c a p1 p2 idx m })"

section \<open>The itoa of os/src/stdlib.c\<close>

text \<open>
  \<open>Rep\<close> has 17 bytes, the NUL included; an index outside it is out of bounds. \<open>buf\<close> is filled
  downwards from index 31, which holds the NUL: \<open>acc\<close> is its used part, from \<open>ptr\<close> to the end.
\<close>

definition Rep :: "u8 list" where
  "Rep = map (\<lambda>c. of_nat (of_char c)) ''0123456789ABCDEF'' @ [0]"

partial_function (option) os_itoa_loop :: "i32 \<Rightarrow> i32 \<Rightarrow> u8 list \<Rightarrow> u8 list option" where
  "os_itoa_loop num base acc = do {
     r \<leftarrow> c_mod num base;
     if 0 \<le> sint r \<and> sint r < 17 \<and> length acc < 32
     then do {
       let acc = (Rep ! nat (sint r)) # acc;
       num \<leftarrow> c_div num base;
       if num \<noteq> 0 then os_itoa_loop num base acc else Some acc }
     else None }"

fun os_itoa_copy :: "u8 list \<Rightarrow> i32 \<Rightarrow> u32 \<Rightarrow> mem32 \<Rightarrow> mem32" where
  "os_itoa_copy [] i c m = m"
| "os_itoa_copy (b # bs) i c m =
     (if b \<noteq> 0 then os_itoa_copy bs (i + 1) c (m(c + i := b)) else m)"

definition os_itoa :: "i32 \<Rightarrow> u32 \<Rightarrow> i32 \<Rightarrow> mem32 \<Rightarrow> mem32 option" where
  "os_itoa num c base m = do { acc \<leftarrow> os_itoa_loop num base [0]; Some (os_itoa_copy acc 0 c m) }"

section \<open>Copying\<close>

function memcpy_loop :: "u32 \<Rightarrow> u32 \<Rightarrow> u32 \<Rightarrow> u32 \<Rightarrow> mem32 \<Rightarrow> mem32" where
  "memcpy_loop dest src num i m =
     (if i < num
      then let ch = m (src + i) in memcpy_loop dest src num (i + 1) (m(dest + i := ch))
      else m)"
  by pat_completeness auto
termination
  by (relation "measure (\<lambda>(dest, src, num, i, m). unat num - unat i)") (auto intro: unat_plus_1)

declare memcpy_loop.simps [simp del]

definition memcpy :: "u32 \<Rightarrow> u32 \<Rightarrow> u32 \<Rightarrow> mem32 \<Rightarrow> u32 \<times> mem32" where
  "memcpy dest src num m = (dest, memcpy_loop dest src num 0 m)"

definition stdlib_memcpy :: "u32 \<Rightarrow> u32 \<Rightarrow> u32 \<Rightarrow> mem32 \<Rightarrow> u32 \<times> mem32" where
  "stdlib_memcpy dest src num m = (dest, memcpy_loop dest src num 0 m)"

text \<open>
  The \<open>memcpy\<close> of \<^verbatim>\<open>gcc/rsort.c\<close> copies word by word when both addresses and the length are
  multiples of 4. Its loops compare the moving pointer with the end of the destination.
\<close>

partial_function (option) copy_words :: "u32 \<Rightarrow> u32 \<Rightarrow> u32 \<Rightarrow> mem32 \<Rightarrow> mem32 option" where
  "copy_words stop d s m =
     (if d < stop then copy_words stop (d + 4) (s + 4) (store32 m d (load32 m s)) else Some m)"

function copy_chars :: "u32 \<Rightarrow> u32 \<Rightarrow> u32 \<Rightarrow> mem32 \<Rightarrow> mem32" where
  "copy_chars stop d s m =
     (if d < stop then copy_chars stop (d + 1) (s + 1) (m(d := m s)) else m)"
  by pat_completeness auto
termination
  by (relation "measure (\<lambda>(stop, d, s, m). unat stop - unat d)") (auto intro: unat_plus_1)

declare copy_chars.simps [simp del]

definition rsort_memcpy :: "u32 \<Rightarrow> u32 \<Rightarrow> u32 \<Rightarrow> mem32 \<Rightarrow> (u32 \<times> mem32) option" where
  "rsort_memcpy dest src len m =
     (if (dest OR src OR len) AND (4 - 1) = 0
      then do { m \<leftarrow> copy_words (dest + len) dest src m; Some (dest, m) }
      else Some (dest, copy_chars (dest + len) dest src m))"

partial_function (option) strcpy_loop :: "u32 \<Rightarrow> u32 \<Rightarrow> i32 \<Rightarrow> mem32 \<Rightarrow> mem32 option" where
  "strcpy_loop dest src i m =
     (let ch = m (src + i); m = m(dest + i := ch); i = i + 1
      in if ch \<noteq> 0 then strcpy_loop dest src i m else Some m)"

definition strcpy :: "u32 \<Rightarrow> u32 \<Rightarrow> mem32 \<Rightarrow> (u32 \<times> mem32) option" where
  "strcpy dest src m = do { m \<leftarrow> strcpy_loop dest src 0 m; Some (dest, m) }"

definition string_strlen :: "mem32 \<Rightarrow> u32 \<Rightarrow> i32 option" where
  "string_strlen m c = strlen_loop m c 0"

section \<open>Strings in memory\<close>

lemma c_string_nth:
  "c_string m p s \<longleftrightarrow>
     (\<forall>k < length s. m (p + of_nat k) = s ! k \<and> s ! k \<noteq> 0) \<and> m (p + of_nat (length s)) = 0"
proof (induction s arbitrary: p)
  case Nil
  then show ?case by simp
next
  case (Cons b s)
  show ?case
    by (simp add: Cons.IH All_less_Suc2 add.assoc) blast
qed

lemma c_string_put_bytes:
  assumes "0 \<notin> set s" and len: "length (s @ 0 # zs) \<le> 2 ^ 32"
  shows "c_string (put_bytes m p (s @ 0 # zs)) p s"
  unfolding c_string_nth
proof (intro conjI allI impI)
  fix k assume k: "k < length s"
  show "put_bytes m p (s @ 0 # zs) (p + of_nat k) = s ! k"
    using put_bytes_nth [of k "s @ 0 # zs" m p] k len by (simp add: nth_append)
  show "s ! k \<noteq> 0" using k assms(1) nth_mem by metis
next
  show "put_bytes m p (s @ 0 # zs) (p + of_nat (length s)) = 0"
    using put_bytes_nth [of "length s" "s @ 0 # zs" m p] len by (simp add: nth_append)
qed

lemma strlen_string: "c_string m c s \<Longrightarrow> strlen m c = Some (of_nat (length s))"
  using strlen_loop_c_string [of m c 0 s] by (simp add: strlen_def)

section \<open>readline\<close>

lemma zero_tail_eq:
  "j \<le> n \<Longrightarrow> n < 2 ^ 31 \<Longrightarrow>
   zero_tail c (of_nat j) (of_nat n) m = put_bytes m (c + of_nat j) (replicate (n - j) 0)"
proof (induction "n - j" arbitrary: j m)
  case 0
  then show ?case by (subst zero_tail.simps) (simp add: word_sless_alt sint_of_nat_32)
next
  case (Suc k)
  then have l: "j < n" "Suc j \<le> n" "k = n - Suc j" by simp_all
  have "zero_tail c (of_nat j) (of_nat n) m =
      zero_tail c (of_nat (Suc j)) (of_nat n) (m(c + of_nat j := 0))"
    using l Suc.prems
    by (subst zero_tail.simps) (simp add: word_sless_alt sint_of_nat_32 add.commute)
  also have "\<dots> = put_bytes (m(c + of_nat j := 0)) (c + of_nat (Suc j)) (replicate (n - Suc j) 0)"
    using Suc.hyps(1) [of "Suc j"] l Suc.prems by simp
  also have "n - j = Suc (n - Suc j)" using l by simp
  ultimately show ?case by (simp add: store8_def add_ac)
qed

text \<open>One character other than carriage return: stored, echoed, and on to the next.\<close>

lemma readline_loop_byte:
  assumes "delivers (resp d) (b # bs) rest" "b \<noteq> 13" "i < n" "n < 2 ^ 31"
  obtains d2 where "readline_loop c (of_nat i) (of_nat n) m d =
      readline_loop c (of_nat (Suc i)) (of_nat n) (store8 m (c + of_nat i) b) d2"
    "delivers (resp d2) bs rest" "writes_of d2 = writes_of d @ [WriteByte UART_BASE_ADDR b]"
proof -
  from delivers_split [of "resp d" "[b]" bs rest] assms(1) obtain mid where
    mid: "delivers (resp d) [b] mid" "delivers mid bs rest" by auto
  from gcc_rx.receives [OF mid(1)] obtain d1 where
    d1: "uart_read_blocking d = Some (b, d1)" "resp d1 = mid" "writes_of d1 = writes_of d" by blast
  have "sint (of_nat i :: i32) < sint (of_nat n :: i32)"
    using assms by (simp add: sint_of_nat_32)
  then have "readline_loop c (of_nat i) (of_nat n) m d =
      readline_loop c (of_nat (Suc i)) (of_nat n) (store8 m (c + of_nat i) b) (uart_put b d1)"
    using d1 assms(2)
    by (subst readline_loop.simps) (simp add: word_sless_alt store8_def add.commute)
  then show thesis
    using that d1 mid by (simp add: uart_put_def writes_of_def)
qed

lemma readline_loop_line:
  assumes "delivers (resp d) (bs @ [13]) rest" "13 \<notin> set bs" "i + length bs < n" "n < 2 ^ 31"
  shows "\<exists>d'. readline_loop c (of_nat i) (of_nat n) m d =
      Some (put_bytes m (c + of_nat i) (bs @ replicate (n - (i + length bs)) 0), d') \<and>
    resp d' = rest \<and> writes_of d' = writes_of d @ map (WriteByte UART_BASE_ADDR) (bs @ [13, 10])"
  using assms
proof (induction bs arbitrary: i m d)
  case Nil
  from gcc_rx.receives [of d 13 rest] Nil obtain d1 where
    d1: "uart_read_blocking d = Some (13, d1)" "resp d1 = rest" "writes_of d1 = writes_of d" by auto
  have "sint (of_nat i :: i32) < sint (of_nat n :: i32)"
    using Nil by (simp add: sint_of_nat_32)
  with d1 show ?case
    using Nil zero_tail_eq [of i n c m]
    by (subst readline_loop.simps)
      (simp add: word_sless_alt uart_put_def io_write8_def writes_of_def)
next
  case (Cons b bs)
  obtain d2 where d2: "readline_loop c (of_nat i) (of_nat n) m d =
      readline_loop c (of_nat (Suc i)) (of_nat n) (store8 m (c + of_nat i) b) d2"
    "delivers (resp d2) (bs @ [13]) rest" "writes_of d2 = writes_of d @ [WriteByte UART_BASE_ADDR b]"
    using readline_loop_byte [of d b "bs @ [13]" rest i n c m] Cons.prems by auto
  from Cons.IH [OF d2(2), of "Suc i" "store8 m (c + of_nat i) b"] Cons.prems d2 show ?case
    by (auto simp: add_ac)
qed

lemma readline_loop_full:
  assumes "delivers (resp d) bs rest" "13 \<notin> set bs" "i + length bs = n" "n < 2 ^ 31"
  shows "\<exists>d'. readline_loop c (of_nat i) (of_nat n) m d =
      Some (put_bytes m (c + of_nat i) bs, d') \<and>
    resp d' = rest \<and> writes_of d' = writes_of d @ map (WriteByte UART_BASE_ADDR) bs"
  using assms
proof (induction bs arbitrary: i m d)
  case Nil
  then show ?case
    by (subst readline_loop.simps) (simp add: word_sless_alt delivers_Nil)
next
  case (Cons b bs)
  obtain d2 where d2: "readline_loop c (of_nat i) (of_nat n) m d =
      readline_loop c (of_nat (Suc i)) (of_nat n) (store8 m (c + of_nat i) b) d2"
    "delivers (resp d2) bs rest" "writes_of d2 = writes_of d @ [WriteByte UART_BASE_ADDR b]"
    using readline_loop_byte [of d b bs rest i n c m] Cons.prems by auto
  from Cons.IH [OF d2(2), of "Suc i" "store8 m (c + of_nat i) b"] Cons.prems d2 show ?case
    by (auto simp: add_ac)
qed

section \<open>Decimal conversion\<close>

lemma c_div_nonneg:
  "0 \<le> sint a \<Longrightarrow> 0 < sint b \<Longrightarrow> c_div a b = Some (word_of_int (sint a div sint b))"
  by (auto simp: c_div_def signed_divide_int_def sgn_if)

lemma c_mod_nonneg:
  "0 \<le> sint a \<Longrightarrow> 0 < sint b \<Longrightarrow> c_mod a b = Some (word_of_int (sint a mod sint b))"
  by (auto simp: c_mod_def signed_modulo_int_def sgn_if)

lemma c_div_of_int:
  "0 \<le> a \<Longrightarrow> a < 2 ^ 31 \<Longrightarrow> 0 < b \<Longrightarrow> b < 2 ^ 31 \<Longrightarrow>
   c_div (word_of_int a) (word_of_int b) = Some (word_of_int (a div b))"
  by (subst c_div_nonneg) (simp_all add: sint_of_int_32)

lemma c_mod_of_int:
  "0 \<le> a \<Longrightarrow> a < 2 ^ 31 \<Longrightarrow> 0 < b \<Longrightarrow> b < 2 ^ 31 \<Longrightarrow>
   c_mod (word_of_int a) (word_of_int b) = Some (word_of_int (a mod b))"
  by (subst c_mod_nonneg) (simp_all add: sint_of_int_32)

text \<open>The number a string of decimal digits denotes, and the \<open>k\<close> lowest digits of a number.\<close>

definition is_digit :: "u8 \<Rightarrow> bool" where
  "is_digit b \<longleftrightarrow> 48 \<le> b \<and> b \<le> 57"

definition digit_val :: "u8 \<Rightarrow> int" where
  "digit_val b = int (unat b) - 48"

definition digit_byte :: "int \<Rightarrow> u8" where
  "digit_byte x = word_of_int (x + 48)"

definition dec_value :: "u8 list \<Rightarrow> int" where
  "dec_value = foldl (\<lambda>v b. 10 * v + digit_val b) 0"

fun dec_bytes :: "nat \<Rightarrow> int \<Rightarrow> u8 list" where
  "dec_bytes 0 a = []"
| "dec_bytes (Suc k) a = digit_byte (a div 10 ^ k mod 10) # dec_bytes k a"

lemma length_dec_bytes [simp]: "length (dec_bytes k a) = k"
  by (induction k) auto

lemma uint_digit [simp]: "0 \<le> x \<Longrightarrow> x < 10 \<Longrightarrow> uint (digit_byte x) = x + 48"
  by (simp add: digit_byte_def uint_word_of_int del: of_int_add)

lemma digit_val_byte: "0 \<le> x \<Longrightarrow> x < 10 \<Longrightarrow> digit_val (digit_byte x) = x"
  by (simp add: digit_val_def)

lemma is_digit_byte: "0 \<le> x \<Longrightarrow> x < 10 \<Longrightarrow> is_digit (digit_byte x)"
  by (simp add: is_digit_def word_le_def)

lemma is_digit_dec_bytes: "b \<in> set (dec_bytes k a) \<Longrightarrow> is_digit b"
  by (induction k) (auto intro: is_digit_byte)

lemma ucast_digit: "ucast (word_of_int x + INT_OFFSET) = digit_byte x"
proof -
  have "ucast (word_of_int k :: i32) = (word_of_int k :: u8)" for k
    by (rule bit_word_eqI) (simp add: bit_simps)
  from this [of "x + 48"] show ?thesis by (simp add: digit_byte_def INT_OFFSET_def)
qed

lemma foldl_dec_bytes:
  "0 \<le> a \<Longrightarrow> foldl (\<lambda>v b. 10 * v + digit_val b) v (dec_bytes k a) = v * 10 ^ k + a mod 10 ^ k"
proof (induction k arbitrary: v)
  case 0
  then show ?case by simp
next
  case (Suc k)
  have "a mod 10 ^ Suc k = 10 ^ k * (a div 10 ^ k mod 10) + a mod 10 ^ k"
    using zmod_zmult2_eq [of 10 a "10 ^ k"] by (simp add: mult.commute)
  moreover have "digit_val (digit_byte (a div 10 ^ k mod 10)) = a div 10 ^ k mod 10"
    by (rule digit_val_byte) simp_all
  ultimately show ?case using Suc by (simp add: algebra_simps)
qed

lemma dec_value_bytes: "0 \<le> a \<Longrightarrow> a < 10 ^ k \<Longrightarrow> dec_value (dec_bytes k a) = a"
  by (simp add: dec_value_def foldl_dec_bytes)

text \<open>\<open>itoa\<close> first finds the power of ten above the number, then writes the digits downwards.\<close>

lemma pow10_small: "k \<le> 9 \<Longrightarrow> (10::int) ^ k < 2 ^ 31"
  using power_increasing [of k 9 "10 :: int"] by simp

lemma itoa_place_eq:
  assumes "10 ^ (k - 1) \<le> a" "a < 10 ^ k" "j \<le> k" "k \<le> 9"
  shows "itoa_place (word_of_int a) (word_of_int (10 ^ j)) = Some (word_of_int (10 ^ k))"
  using assms
proof (induction "k - j" arbitrary: j)
  case 0
  then have j: "j = k" by simp
  have "(1::int) \<le> 10 ^ (k - 1)" by simp
  then have "0 \<le> a" "a < 2 ^ 31" using 0 pow10_small [of k] by linarith+
  then have "c_div (word_of_int a) (word_of_int (10 ^ k)) = Some 0"
    using 0 pow10_small [of k] by (subst c_div_of_int) simp_all
  then show ?case unfolding j by (subst itoa_place.simps) (simp add: word_sless_alt)
next
  case (Suc n)
  then have j: "j \<le> k - 1" "Suc j \<le> k" "n = k - Suc j" "j \<le> 9" by simp_all
  have a: "0 \<le> a" "a < 2 ^ 31"
    using Suc.prems pow10_small [of k] zero_le_power [of "10::int" "k - 1"] by linarith+
  have "(10::int) ^ j \<le> 10 ^ (k - 1)" using j by (intro power_increasing) simp_all
  then have "10 ^ j \<le> a" using Suc.prems by linarith
  then have q: "1 \<le> a div 10 ^ j" by (simp add: pos_imp_zdiv_pos_iff int_one_le_iff_zero_less)
  have "a div 10 ^ j \<le> a div 1" using a by (intro zdiv_mono2) simp_all
  then have "sint (word_of_int (a div 10 ^ j) :: i32) = a div 10 ^ j"
    using q a by (intro sint_of_int_32) simp_all
  then have "itoa_place (word_of_int a) (word_of_int (10 ^ j)) =
      itoa_place (word_of_int a) (word_of_int (10 ^ Suc j))"
    using c_div_of_int [of a "10 ^ j"] a pow10_small [of j] j q
    by (subst itoa_place.simps) (simp add: word_sless_alt mult.commute)
  then show ?case using Suc.hyps(1) [of "Suc j"] Suc.prems j by simp
qed

lemma itoa_digits_eq:
  assumes "0 \<le> a" "a < 2 ^ 31" "j < 9" "idx + Suc j < 12"
  shows "itoa_digits c (word_of_int a) (word_of_int (10 ^ Suc j)) (word_of_int (10 ^ j)) (of_nat idx) m =
    Some (put_bytes m (c + of_nat idx) (dec_bytes (Suc j) a))"
  using assms(3,4)
proof (induction j arbitrary: idx m)
  case 0
  have "c_mod (word_of_int a) (word_of_int (10 ^ Suc 0)) = Some (word_of_int (a mod 10))"
    using assms by (subst c_mod_of_int) simp_all
  moreover have "c_div (word_of_int (a mod 10)) 1 = Some (word_of_int (a mod 10))"
    using c_div_of_int [of "a mod 10" 1] pos_mod_bound [of 10 a] by simp
  ultimately show ?case
    by (subst itoa_digits.simps) (simp add: Let_def store8_def ucast_digit)
next
  case (Suc j)
  have p: "(10::int) ^ Suc j < 2 ^ 31" "(10::int) ^ Suc (Suc j) < 2 ^ 31" "(0::int) < 10 ^ Suc j"
    using Suc.prems pow10_small [of "Suc j"] pow10_small [of "Suc (Suc j)"] by simp_all
  have r: "c_mod (word_of_int a) (word_of_int (10 ^ Suc (Suc j))) =
      Some (word_of_int (a mod 10 ^ Suc (Suc j)))"
    using assms p by (intro c_mod_of_int) simp_all
  have "a mod 10 ^ Suc (Suc j) < 10 ^ Suc (Suc j)" by simp
  then have "c_div (word_of_int (a mod 10 ^ Suc (Suc j))) (word_of_int (10 ^ Suc j)) =
      Some (word_of_int (a mod 10 ^ Suc (Suc j) div 10 ^ Suc j))"
    using p by (intro c_div_of_int) (linarith | simp)+
  also have "a mod 10 ^ Suc (Suc j) div 10 ^ Suc j = a div 10 ^ Suc j mod 10"
    using zmod_zmult2_eq [of 10 a "10 ^ Suc j"] by (simp add: mult.commute)
  finally have t: "c_div (word_of_int (a mod 10 ^ Suc (Suc j))) (word_of_int (10 ^ Suc j)) =
      Some (word_of_int (a div 10 ^ Suc j mod 10))" .
  have n: "c_div (word_of_int (10 ^ Suc j)) 10 = Some (word_of_int (10 ^ j))"
    "c_div (word_of_int (10 ^ Suc (Suc j))) 10 = Some (word_of_int (10 ^ Suc j))"
    using c_div_of_int [of "10 ^ Suc j" 10] c_div_of_int [of "10 ^ Suc (Suc j)" 10] p by simp_all
  have one: "(word_of_int (10 ^ Suc j) :: i32) \<noteq> 1"
  proof
    have s: "sint (word_of_int (10 ^ Suc j) :: i32) = 10 ^ Suc j"
      using p by (intro sint_of_int_32) (linarith, simp)
    assume e: "(word_of_int (10 ^ Suc j) :: i32) = 1"
    show False using s unfolding e by simp presburger
  qed
  have idx: "(of_nat idx + 1 :: i32) \<noteq> 12"
  proof
    assume "(of_nat idx + 1 :: i32) = 12"
    then have "(of_nat (Suc idx) :: i32) = 12" by (simp add: add.commute)
    then have "unat (of_nat (Suc idx) :: i32) = unat (12 :: i32)" by (rule arg_cong)
    also have "\<dots> = 12" by simp
    finally have "unat (of_nat (Suc idx) :: i32) = 12" .
    moreover have "unat (of_nat (Suc idx) :: i32) = Suc idx"
      using Suc.prems by (intro unat_of_nat_32) simp
    ultimately show False using Suc.prems by simp
  qed
  have "itoa_digits c (word_of_int a) (word_of_int (10 ^ Suc (Suc j))) (word_of_int (10 ^ Suc j))
      (of_nat idx) m =
    itoa_digits c (word_of_int a) (word_of_int (10 ^ Suc j)) (word_of_int (10 ^ j))
      (of_nat (Suc idx)) (store8 m (c + of_nat idx) (digit_byte (a div 10 ^ Suc j mod 10)))"
    using one idx
    by (subst itoa_digits.simps)
      (simp only: r t n Option.bind_eq_Some_conv bind.bind_lunit Let_def if_False simp_thms
        ucast_digit store8_def of_nat_Suc add.commute [of 1])
  also have "\<dots> = Some (put_bytes (store8 m (c + of_nat idx) (digit_byte (a div 10 ^ Suc j mod 10)))
      (c + of_nat (Suc idx)) (dec_bytes (Suc j) a))"
    using Suc.prems by (intro Suc.IH) simp_all
  finally show ?case by (simp add: add_ac)
qed

text \<open>Every number from 1 on lies between two powers of ten.\<close>

lemma pow10_bracket:
  assumes "0 < (a::int)"
  shows "\<exists>k>0. 10 ^ (k - 1) \<le> a \<and> a < 10 ^ k"
proof -
  define k where "k = (LEAST k. a < 10 ^ k)"
  have "int (nat a) < int (2 ^ nat a)" using less_exp by (simp only: of_nat_less_iff)
  then have "a < 2 ^ nat a" using assms by simp
  also have "(2::int) ^ nat a \<le> 10 ^ nat a" by (rule power_mono) simp_all
  finally have "a < 10 ^ nat a" .
  then have k: "a < 10 ^ k" unfolding k_def by (rule LeastI)
  then have "0 < k" using assms by (cases k) auto
  then have "\<not> a < 10 ^ (k - 1)" unfolding k_def by (intro not_less_Least) simp
  then show ?thesis using k \<open>0 < k\<close> by (intro exI [of _ k]) simp
qed

definition dec_string :: "int \<Rightarrow> u8 list" where
  "dec_string a = (if a < 0 then [45] else []) @
     dec_bytes (LEAST k. 0 < k \<and> \<bar>a\<bar> < 10 ^ k) \<bar>a\<bar>"

lemma dec_length:
  assumes "0 < k" "10 ^ (k - 1) \<le> a \<or> k = 1" "(a::int) < 10 ^ k"
  shows "(LEAST k. 0 < k \<and> a < 10 ^ k) = k"
proof (rule Least_equality)
  show "0 < k \<and> a < 10 ^ k" using assms by simp
  fix j assume j: "0 < j \<and> a < 10 ^ j"
  show "k \<le> j"
  proof (rule ccontr)
    assume "\<not> k \<le> j"
    then have "j \<le> k - 1" by simp
    then have "(10::int) ^ j \<le> 10 ^ (k - 1)" by (intro power_increasing) simp_all
    moreover have "k \<noteq> 1" using j \<open>\<not> k \<le> j\<close> by simp
    ultimately show False using j assms(2) by linarith
  qed
qed

lemma dec_bytes_eq_string:
  "0 \<le> a \<Longrightarrow> 0 < k \<Longrightarrow> 10 ^ (k - 1) \<le> a \<or> k = 1 \<Longrightarrow> a < 10 ^ k \<Longrightarrow> dec_bytes k a = dec_string a"
  by (simp add: dec_string_def dec_length)

lemma dec_string_neg: "a < 0 \<Longrightarrow> dec_string a = 45 # dec_string (- a)"
  by (simp add: dec_string_def)

lemma itoa_unsigned:
  assumes a: "0 \<le> sint w" "sint w < 10 ^ 9" and idx: "idx \<le> 1"
  shows "(if w <s 10 then Some (m(c + of_nat idx := ucast (w + INT_OFFSET)))
      else do { p1 \<leftarrow> itoa_place w 1; p2 \<leftarrow> c_div p1 10; itoa_digits c w p1 p2 (of_nat idx) m }) =
    Some (put_bytes m (c + of_nat idx) (dec_string (sint w)))"
proof -
  define a where "a = sint w"
  have w: "w = word_of_int a" by (simp add: a_def)
  show ?thesis
  proof (cases "a < 10")
    case True
    then have "ucast (w + INT_OFFSET) = digit_byte a" unfolding w by (rule_tac ucast_digit)
    moreover have "dec_string a = [digit_byte a]"
      using True a dec_bytes_eq_string [of a 1] by (simp add: a_def)
    ultimately show ?thesis using True by (simp add: word_sless_alt store8_def a_def)
  next
    case False
    then obtain k where k: "0 < k" "10 ^ (k - 1) \<le> a" "a < 10 ^ k" using pow10_bracket [of a] by auto
    have "(10::int) ^ (k - 1) < 10 ^ 9" using k a by (simp add: a_def)
    then have "k - 1 < 9" by (rule power_less_imp_less_exp [rotated]) simp
    moreover have "k \<noteq> 1" using k False by auto
    ultimately obtain j where j: "k = Suc (Suc j)" "j \<le> 7" using k(1) by (cases k; cases "k - 1") auto
    have p: "itoa_place w 1 = Some (word_of_int (10 ^ k))"
      using itoa_place_eq [of k a 0] k j by (simp add: w)
    have d: "c_div (word_of_int (10 ^ k)) 10 = Some (word_of_int (10 ^ Suc j))"
      using c_div_of_int [of "10 ^ k" 10] pow10_small [of k] j by simp
    have "itoa_digits c w (word_of_int (10 ^ k)) (word_of_int (10 ^ Suc j)) (of_nat idx) m =
        Some (put_bytes m (c + of_nat idx) (dec_bytes k a))"
      unfolding j(1) w using a j idx by (intro itoa_digits_eq) (simp_all add: a_def)
    then show ?thesis
      using False p d dec_bytes_eq_string [of a k] a k
      by (simp add: word_sless_alt a_def del: of_int_power)
  qed
qed

lemma itoa_eq:
  assumes "\<bar>sint a\<bar> < 10 ^ 9"
  shows "itoa a c m = Some (put_bytes m c (dec_string (sint a)))"
proof (cases "a <s 0")
  case True
  then have n: "sint a < 0" by (simp add: word_sless_alt)
  have s: "sint (- a) = - sint a" using assms by (intro sint_minus_32) auto
  then show ?thesis
    using itoa_unsigned [of "- a" 1 "m(c := 45)" c, unfolded of_nat_1] assms n True
    by (simp only: itoa_def dec_string_neg Let_def store_seq.simps store8_def [of m c 45] if_True
        bind.bind_lunit simp_thms) simp
next
  case False
  then have "0 \<le> sint a" by (simp add: word_sless_alt)
  then show ?thesis
    using itoa_unsigned [of a 0 m c] assms False
    by (simp add: itoa_def Let_def cong: if_cong)
qed

section \<open>The sum that atoi returns\<close>

lemma ucast_minus_offset: "ucast (b :: u8) - INT_OFFSET = word_of_int (digit_val b)"
  by (simp add: INT_OFFSET_def digit_val_def)

lemma atoi_loop_sum:
  "(\<forall>j < k. m (c + of_nat j) = s ! j \<and> is_digit (s ! j)) \<Longrightarrow> k \<le> length s \<Longrightarrow> k < 2 ^ 31 \<Longrightarrow>
   atoi_loop m c (of_nat k - 1) acc 1 = acc + word_of_int (sum_list (map digit_val (take k s)))"
proof (induction k arbitrary: acc)
  case 0
  then show ?case by (subst atoi_loop.simps) (simp add: word_sle_eq)
next
  case (Suc k)
  have v: "0 \<le> digit_val (s ! k)" "digit_val (s ! k) \<le> 9"
    using Suc.prems(1) by (auto simp: is_digit_def digit_val_def word_le_def)
  then have w: "sint (word_of_int (digit_val (s ! k)) :: i32) = digit_val (s ! k)"
    by (intro sint_of_int_32) auto
  have ne: "(word_of_int (digit_val (s ! k)) :: i32) \<noteq> - 3"
  proof
    assume "(word_of_int (digit_val (s ! k)) :: i32) = - 3"
    then have "sint (word_of_int (digit_val (s ! k)) :: i32) = sint (- 3 :: i32)" by (rule arg_cong)
    then show False using w v by simp
  qed
  have t: "take (Suc k) s = take k s @ [s ! k]" using Suc.prems by (simp add: take_Suc_conv_app_nth)
  have "atoi_loop m c (of_nat (Suc k) - 1) acc 1 =
      atoi_loop m c (of_nat k - 1) (acc + word_of_int (digit_val (s ! k))) 1"
    using v w ne Suc.prems
    by (subst atoi_loop.simps)
      (simp add: word_sle_eq sint_of_nat_32 ucast_minus_offset Let_def del: of_int_eq_iff)
  also have "\<dots> = acc + word_of_int (digit_val (s ! k)) + word_of_int (sum_list (map digit_val (take k s)))"
    using Suc.prems by (intro Suc.IH) auto
  finally show ?case by (simp add: t)
qed

section \<open>Digits in a base\<close>

text \<open>The digits of a number, most significant first; they give the number back.\<close>

function digits :: "int \<Rightarrow> int \<Rightarrow> int list" where
  "digits b n = (if 2 \<le> b \<and> b \<le> n then digits b (n div b) @ [n mod b] else [n])"
  by pat_completeness auto
termination
  by (relation "measure (\<lambda>(b, n). nat n)") (auto simp: int_div_less_self)

declare digits.simps [simp del]

lemma digits_range: "0 \<le> n \<Longrightarrow> 2 \<le> b \<Longrightarrow> x \<in> set (digits b n) \<Longrightarrow> 0 \<le> x \<and> x < b"
proof (induction b n rule: digits.induct)
  case (1 b n)
  from 1(4) show ?case
    unfolding digits.simps [of b n]
    using 1 pos_imp_zdiv_nonneg_iff [of b n] by (auto split: if_splits)
qed

lemma digits_nonempty: "digits b n \<noteq> []"
  by (subst digits.simps) simp

lemma digits_value: "0 \<le> n \<Longrightarrow> 2 \<le> b \<Longrightarrow> foldl (\<lambda>v x. b * v + x) 0 (digits b n) = n"
proof (induction b n rule: digits.induct)
  case (1 b n)
  then show ?case
    using pos_imp_zdiv_nonneg_iff [of b n] by (subst digits.simps) auto
qed

lemma digits_length: "0 < n \<Longrightarrow> 2 \<le> b \<Longrightarrow> 2 ^ (length (digits b n) - 1) \<le> n"
proof (induction b n rule: digits.induct)
  case (1 b n)
  show ?case
  proof (cases "b \<le> n")
    case False
    then show ?thesis using 1 by (subst digits.simps) simp
  next
    case True
    have "0 < n div b" using True 1 by (simp add: pos_imp_zdiv_pos_iff)
    then have "2 ^ (length (digits b (n div b)) - 1) \<le> n div b" using 1 True by simp
    moreover have "2 * (n div b) \<le> b * (n div b)"
      using 1 \<open>0 < n div b\<close> by (intro mult_right_mono) auto
    ultimately have "2 * 2 ^ (length (digits b (n div b)) - 1) \<le> b * (n div b) + n mod b"
      using 1 pos_mod_sign [of b n] by linarith
    moreover have "length (digits b n) - 1 = Suc (length (digits b (n div b)) - 1)"
      using True 1 digits_nonempty [of b "n div b"] by (subst digits.simps) auto
    ultimately show ?thesis by simp
  qed
qed

lemma digits_length_32: "0 \<le> n \<Longrightarrow> n < 2 ^ 31 \<Longrightarrow> 2 \<le> b \<Longrightarrow> length (digits b n) \<le> 31"
proof (cases "n = 0")
  case False
  assume a: "0 \<le> n" "n < 2 ^ 31" "2 \<le> b"
  then have "(2::int) ^ (length (digits b n) - 1) < 2 ^ 31"
    using digits_length [of n b] False by linarith
  then have "length (digits b n) - 1 < 31" by (rule power_less_imp_less_exp [rotated]) simp
  then show ?thesis by simp
qed (subst digits.simps, simp)

section \<open>The digits os_itoa writes\<close>

definition rep_string :: "int \<Rightarrow> int \<Rightarrow> u8 list" where
  "rep_string b n = map (\<lambda>x. Rep ! nat x) (digits b n)"

lemma os_itoa_loop_eq:
  assumes "2 \<le> b" "b \<le> 16"
  shows "0 \<le> n \<Longrightarrow> n < 2 ^ 31 \<Longrightarrow> length (digits b n) + length acc \<le> 32 \<Longrightarrow>
    os_itoa_loop (word_of_int n) (word_of_int b) acc = Some (rep_string b n @ acc)"
  using assms
proof (induction b n arbitrary: acc rule: digits.induct)
  case (1 b n)
  have s: "n mod b < b" "0 \<le> n mod b" "n mod b < 17"
    using 1(5,6) pos_mod_bound [of b n] by (simp_all, linarith)
  then have r: "sint (word_of_int (n mod b) :: i32) = n mod b"
    using 1(6) by (intro sint_of_int_32) linarith+
  have m: "c_mod (word_of_int n) (word_of_int b) = Some (word_of_int (n mod b))"
    "c_div (word_of_int n) (word_of_int b) = Some (word_of_int (n div b))"
    using 1 by (auto intro!: c_mod_of_int c_div_of_int)
  have q: "0 \<le> n div b" "n div b \<le> n" using 1 zdiv_mono2 [of n 1 b] by (auto simp: pos_imp_zdiv_nonneg_iff)
  then have z: "(word_of_int (n div b) :: i32) = 0 \<longleftrightarrow> n div b = 0"
    using sint_of_int_32 [of "n div b"] 1 by auto
  have l: "length acc < 32" using 1(4) by (auto simp: digits.simps [of b n] split: if_splits)
  show ?case
  proof (cases "b \<le> n")
    case True
    have "os_itoa_loop (word_of_int n) (word_of_int b) acc =
        os_itoa_loop (word_of_int (n div b)) (word_of_int b) (Rep ! nat (n mod b) # acc)"
      using m r s z l True 1 by (subst os_itoa_loop.simps) (simp add: pos_imp_zdiv_pos_iff zdiv_eq_0_iff)
    also have "\<dots> = Some (rep_string b (n div b) @ Rep ! nat (n mod b) # acc)"
      using 1 True q by (intro 1(1)) (auto simp: digits.simps [of b n])
    finally show ?thesis using True 1 by (simp add: rep_string_def digits.simps [of b n])
  next
    case False
    then have "n mod b = n" "n div b = 0" using 1 by simp_all
    then show ?thesis
      using m r s l False 1 by (subst os_itoa_loop.simps) (simp add: rep_string_def digits.simps [of b n])
  qed
qed

lemma Rep_nonzero: "0 \<le> x \<Longrightarrow> x < 16 \<Longrightarrow> Rep ! nat x \<noteq> 0"
proof -
  assume "0 \<le> x" "x < 16"
  then have "nat x \<in> {0..<16}" by simp
  moreover have "\<forall>k \<in> {0..<16}. Rep ! k \<noteq> 0" by code_simp
  ultimately show ?thesis by blast
qed

lemma rep_string_nonzero: "0 \<le> n \<Longrightarrow> 2 \<le> b \<Longrightarrow> b \<le> 16 \<Longrightarrow> 0 \<notin> set (rep_string b n)"
  using digits_range [of n b] Rep_nonzero by (force simp: rep_string_def)

lemma os_itoa_copy_eq:
  "0 \<notin> set s \<Longrightarrow> os_itoa_copy (s @ [0]) i c m = put_bytes m (c + i) s"
  by (induction s arbitrary: i m) (auto simp: store8_def add_ac)

lemma os_itoa_loop_negative:
  assumes "2 \<le> b" "b \<le> 16"
  shows "sint num < 0 \<Longrightarrow> os_itoa_loop num (word_of_int b) acc = None"
proof (induction "nat (- sint num)" arbitrary: num acc rule: less_induct)
  case less
  have sb: "sint (word_of_int b :: i32) = b" using assms by (intro sint_of_int_32) auto
  then have nb: "(word_of_int b :: i32) \<noteq> 0" "(word_of_int b :: i32) \<noteq> - 1" using assms by auto
  define r q where "r = sint num smod b" and "q = sint num sdiv b"
  have rq: "r = - (- sint num mod b)" "q = - (- sint num div b)"
    using less.prems assms by (simp_all add: r_def q_def signed_modulo_int_def signed_divide_int_def sgn_if)
  have q: "sint num < q" "q \<le> 0"
    using rq less.prems assms int_div_less_self [of "- sint num" b]
    by (auto simp: pos_imp_zdiv_nonneg_iff)
  have rb: "- b < r" "r \<le> 0"
    using rq assms pos_mod_bound [of b "- sint num"] pos_mod_sign [of b "- sint num"] by linarith+
  have s: "sint (word_of_int r :: i32) = r" using rb assms by (intro sint_of_int_32) linarith+
  have sq: "sint (word_of_int q :: i32) = q"
    using q sint_ge_32 [of num] by (intro sint_of_int_32) linarith+
  show ?case
  proof (cases "r < 0")
    case True
    then show ?thesis
      using nb sb s by (subst os_itoa_loop.simps) (simp add: c_mod_def r_def)
  next
    case False
    then have "b * q = sint num"
      using rq rb mult_div_mod_eq [of b "- sint num"] by simp
    then have "q \<noteq> 0" using less.prems by auto
    then have "q < 0" using q by simp
    moreover from this have "(word_of_int q :: i32) \<noteq> 0" using sq by auto
    moreover from \<open>q < 0\<close> have "os_itoa_loop (word_of_int q) (word_of_int b) a = None" for a
      using sq q by (intro less.hyps) simp_all
    ultimately show ?thesis
      using nb sb s by (subst os_itoa_loop.simps) (simp add: c_mod_def c_div_def r_def [symmetric] q_def [symmetric] bind_eq_None_conv)
  qed
qed

section \<open>Copying bytes\<close>

text \<open>
  A forward copy of \<open>n\<close> bytes is right as long as no byte is overwritten before it is read: the
  ranges are disjoint, or the destination lies below the source.
\<close>

definition forward_ok :: "u32 \<Rightarrow> u32 \<Rightarrow> nat \<Rightarrow> bool" where
  "forward_ok dest src n \<longleftrightarrow> (\<forall>j < n. \<forall>i < j. dest + of_nat i \<noteq> src + of_nat j)"

lemma forward_okD: "forward_ok dest src n \<Longrightarrow> j < n \<Longrightarrow> i < j \<Longrightarrow> dest + of_nat i \<noteq> src + of_nat j"
  by (simp add: forward_ok_def)

definition bytes_from :: "mem32 \<Rightarrow> u32 \<Rightarrow> nat \<Rightarrow> u8 list" where
  "bytes_from m a n = map (\<lambda>k. m (a + of_nat k)) [0..<n]"

lemma length_bytes_from [simp]: "length (bytes_from m a n) = n"
  by (simp add: bytes_from_def)

lemma bytes_from_Suc: "bytes_from m a (Suc n) = m a # bytes_from m (a + 1) n"
  by (simp add: bytes_from_def upt_conv_Cons map_Suc_upt [symmetric] add_ac del: upt_Suc)

lemma bytes_from_cong: "(\<And>k. k < n \<Longrightarrow> m (a + of_nat k) = m' (a + of_nat k)) \<Longrightarrow>
  bytes_from m a n = bytes_from m' a n"
  by (simp add: bytes_from_def)

lemma c_string_bytes_from_iff:
  "c_string m a s \<longleftrightarrow> bytes_from m a (Suc (length s)) = s @ [0] \<and> 0 \<notin> set s"
  by (induction s arbitrary: a) (auto simp: bytes_from_Suc, auto simp: bytes_from_def)

lemma forward_ok_Suc:
  "forward_ok dest src (Suc n) \<Longrightarrow> forward_ok (dest + 1) (src + 1) n"
  "forward_ok dest src (Suc n) \<Longrightarrow>
   bytes_from (m(dest := b)) (src + 1) n = bytes_from m (src + 1) n"
proof -
  assume f: "forward_ok dest src (Suc n)"
  show "forward_ok (dest + 1) (src + 1) n"
    unfolding forward_ok_def
  proof (intro allI impI)
    fix j i assume "j < n" "i < j"
    then have "dest + of_nat (Suc i) \<noteq> src + of_nat (Suc j)"
      by (intro forward_okD [OF f]) simp_all
    then show "dest + 1 + of_nat i \<noteq> src + 1 + of_nat j" by (simp add: add_ac)
  qed
  show "bytes_from (m(dest := b)) (src + 1) n = bytes_from m (src + 1) n"
  proof (rule bytes_from_cong)
    fix k assume "k < n"
    then have "dest + of_nat 0 \<noteq> src + of_nat (Suc k)"
      by (intro forward_okD [OF f]) simp_all
    then show "(m(dest := b)) (src + 1 + of_nat k) = m (src + 1 + of_nat k)" by (auto simp: add_ac)
  qed
qed

lemma memcpy_loop_eq:
  "forward_ok (dest + of_nat k) (src + of_nat k) n \<Longrightarrow> k + n < 2 ^ 32 \<Longrightarrow>
   memcpy_loop dest src (of_nat (k + n)) (of_nat k) m =
     put_bytes m (dest + of_nat k) (bytes_from m (src + of_nat k) n)"
proof (induction n arbitrary: k m)
  case 0
  then show ?case by (subst memcpy_loop.simps) (simp add: bytes_from_def)
next
  case (Suc n)
  let ?m = "m(dest + of_nat k := m (src + of_nat k))"
  have l: "(of_nat k :: u32) < of_nat (k + Suc n)"
    using Suc.prems by (simp only: word_less_nat_alt unat_of_nat_32)
  have "memcpy_loop dest src (of_nat (k + Suc n)) (of_nat k) m =
      memcpy_loop dest src (of_nat (Suc k + n)) (of_nat (Suc k)) ?m"
    using l by (subst memcpy_loop.simps) (simp add: Let_def add_ac)
  also have "\<dots> = put_bytes ?m (dest + of_nat (Suc k)) (bytes_from ?m (src + of_nat (Suc k)) n)"
    using forward_ok_Suc(1) [OF Suc.prems(1)] Suc.prems(2) by (intro Suc.IH) (simp_all add: add_ac)
  finally show ?case
    using forward_ok_Suc(2) [OF Suc.prems(1), of m "m (src + of_nat k)"]
    by (simp add: bytes_from_Suc store8_def [of m] add_ac)
qed

definition word_bytes :: "u32 \<Rightarrow> u8 list" where
  "word_bytes w = [ucast w, ucast (drop_bit 8 w), ucast (drop_bit 16 w), ucast (drop_bit 24 w)]"

lemma length_word_bytes [simp]: "length (word_bytes w) = 4"
  by (simp add: word_bytes_def)

lemma store32_put_bytes: "store32 m a w = put_bytes m a (word_bytes w)"
  by (simp add: store32_def word_bytes_def store8_def numeral_eq_Suc drop_bit_drop_bit add_ac)

lemma bit_load_bytes:
  "bit (load_bytes n m a :: 'v::len word) k \<longleftrightarrow>
     k < LENGTH('v) \<and> k < 8 * n \<and> bit (m (a + of_nat (k div 8))) (k mod 8)"
proof (induction n arbitrary: a k)
  case 0
  then show ?case by simp
next
  case (Suc n)
  show ?case
  proof (cases "k < 8")
    case True
    then show ?thesis by (auto simp: bit_simps)
  next
    case False
    then obtain j where "k = j + 8" by (metis add.commute le_Suc_ex not_less)
    moreover have "(j + 8) div 8 = Suc (j div 8)" by simp
    ultimately show ?thesis
      using Suc [of "a + 1" j] by (auto simp: bit_simps add_ac dest: bit_imp_le_length)
  qed
qed

lemma word_bytes_load: "word_bytes (load32 m a) = bytes_from m a 4"
proof -
  have "ucast (drop_bit (8 * i) (load32 m a)) = m (a + of_nat i)" if "i < 4" for i
    using that by (intro bit_word_eqI) (simp add: load32_def bit_ucast_iff bit_drop_bit_eq bit_load_bytes)
  from this [of 0] this [of 1] this [of 2] this [of 3] show ?thesis
    by (simp add: word_bytes_def bytes_from_def upt_rec)
qed

lemma bytes_from_add: "bytes_from m a (k + n) = bytes_from m a k @ bytes_from m (a + of_nat k) n"
  by (induction k arbitrary: a) (simp_all add: bytes_from_Suc add_ac, simp add: bytes_from_def)

lemma forward_ok_drop:
  assumes "forward_ok dest src (k + n)"
  shows "forward_ok (dest + of_nat k) (src + of_nat k) n"
  unfolding forward_ok_def
proof (intro allI impI)
  fix j i assume "j < n" "i < j"
  then have "dest + of_nat (k + i) \<noteq> src + of_nat (k + j)"
    using assms by (simp only: forward_ok_def) simp
  then show "dest + of_nat k + of_nat i \<noteq> src + of_nat k + of_nat j" by (simp add: add_ac)
qed

lemma copy_words_eq:
  "forward_ok dest src (4 * n) \<Longrightarrow> unat dest + 4 * n < 2 ^ 32 \<Longrightarrow>
   copy_words (dest + of_nat (4 * n)) dest src m = Some (put_bytes m dest (bytes_from m src (4 * n)))"
proof (induction n arbitrary: dest src m)
  case 0
  then show ?case by (subst copy_words.simps) (simp add: bytes_from_def)
next
  case (Suc n)
  let ?m = "put_bytes m dest (bytes_from m src 4)"
  have u: "unat (dest + of_nat 4) = unat dest + 4" "unat (dest + of_nat (4 * Suc n)) = unat dest + 4 * Suc n"
    using Suc.prems(2) by (intro unat_add_of_nat; simp)+
  have f: "forward_ok (dest + 4) (src + 4) (4 * n)"
    using forward_ok_drop [of dest src 4 "4 * n"] Suc.prems(1) by simp
  have "bytes_from ?m (src + 4) (4 * n) = bytes_from m (src + 4) (4 * n)"
  proof (rule bytes_from_cong, rule put_bytes_frame)
    fix k assume "k < 4 * n"
    then have "dest + of_nat i \<noteq> src + of_nat (4 + k)" if "i < 4" for i
      using forward_okD [OF Suc.prems(1), of "4 + k" i] that \<open>k < 4 * n\<close> by simp
    then show "src + 4 + of_nat k \<notin> bytes_at dest (length (bytes_from m src 4))"
      by (fastforce simp: bytes_at_def add_ac)
  qed
  moreover have "copy_words (dest + of_nat (4 * Suc n)) dest src m =
      copy_words (dest + 4 + of_nat (4 * n)) (dest + 4) (src + 4) ?m"
    using u by (subst copy_words.simps) (simp add: word_less_nat_alt store32_put_bytes word_bytes_load add_ac)
  moreover have "copy_words (dest + 4 + of_nat (4 * n)) (dest + 4) (src + 4) ?m =
      Some (put_bytes ?m (dest + 4) (bytes_from ?m (src + 4) (4 * n)))"
    using f u(1) Suc.prems(2) by (intro Suc.IH) simp_all
  ultimately show ?case
    using bytes_from_add [of m src 4 "4 * n"] by (simp add: store_seq_append)
qed

lemma copy_chars_eq:
  "forward_ok dest src n \<Longrightarrow> unat dest + n < 2 ^ 32 \<Longrightarrow>
   copy_chars (dest + of_nat n) dest src m = put_bytes m dest (bytes_from m src n)"
proof (induction n arbitrary: dest src m)
  case 0
  then show ?case by (subst copy_chars.simps) (simp add: bytes_from_def)
next
  case (Suc n)
  let ?m = "m(dest := m src)"
  have u: "unat (dest + of_nat 1) = unat dest + 1" "unat (dest + of_nat (Suc n)) = unat dest + Suc n"
    using Suc.prems(2) by (intro unat_add_of_nat; simp)+
  have "copy_chars (dest + of_nat (Suc n)) dest src m = copy_chars (dest + 1 + of_nat n) (dest + 1) (src + 1) ?m"
    using u by (subst copy_chars.simps) (simp add: word_less_nat_alt add_ac)
  also have "\<dots> = put_bytes ?m (dest + 1) (bytes_from ?m (src + 1) n)"
    using forward_ok_Suc(1) [OF Suc.prems(1)] u(1) Suc.prems(2) by (intro Suc.IH) simp_all
  finally show ?case
    using forward_ok_Suc(2) [OF Suc.prems(1), of m "m src"] by (simp add: bytes_from_Suc store8_def [of m])
qed

lemma memcpy_eq:
  "forward_ok dest src (unat num) \<Longrightarrow>
   memcpy dest src num m = (dest, put_bytes m dest (bytes_from m src (unat num)))"
  using memcpy_loop_eq [of dest 0 src "unat num" m] by (simp add: memcpy_def)

lemma bytes_from_put_bytes: "length bs \<le> 2 ^ 32 \<Longrightarrow> bytes_from (put_bytes m a bs) a (length bs) = bs"
  by (rule nth_equalityI) (simp_all add: bytes_from_def put_bytes_nth)

lemma forward_ok_disjoint: "bytes_at dest n \<inter> bytes_at src n = {} \<Longrightarrow> forward_ok dest src n"
  unfolding forward_ok_def bytes_at_def
  by (metis (no_types, lifting) disjoint_iff image_eqI lessThan_iff order.strict_trans)

lemma rsort_memcpy_eq:
  assumes "forward_ok dest src (unat len)" "unat dest + unat len < 2 ^ 32"
  shows "rsort_memcpy dest src len m = Some (dest, put_bytes m dest (bytes_from m src (unat len)))"
proof (cases "(dest OR src OR len) AND 3 = 0")
  case True
  have "take_bit 2 len = take_bit 2 (dest OR src OR len) AND len"
    by (rule bit_word_eqI) (auto simp: bit_simps)
  also have "\<dots> = 0"
    using True by (simp add: take_bit_eq_mask mask_eq_exp_minus_1)
  finally have "unat (take_bit 2 len) = 0" by simp
  then have "unat len mod 4 = 0" by (simp add: unsigned_take_bit_eq) (simp add: take_bit_eq_mod)
  then obtain n where "unat len = 4 * n" by auto
  then show ?thesis
    using copy_words_eq [of dest src n m] assms True
    by (simp add: rsort_memcpy_def flip: \<open>unat len = 4 * n\<close>)
next
  case False
  then show ?thesis
    using copy_chars_eq [of dest src "unat len" m] assms by (simp add: rsort_memcpy_def)
qed

lemma strcpy_loop_eq:
  "c_string m (src + of_nat k) s \<Longrightarrow>
   forward_ok (dest + of_nat k) (src + of_nat k) (Suc (length s)) \<Longrightarrow>
   strcpy_loop dest src (of_nat k) m = Some (put_bytes m (dest + of_nat k) (s @ [0]))"
proof (induction s arbitrary: k m)
  case Nil
  then show ?case by (subst strcpy_loop.simps) (simp add: store8_def)
next
  case (Cons b s)
  let ?m = "m(dest + of_nat k := b)"
  have s: "c_string m (src + of_nat k + 1) s" using Cons.prems by simp
  have f: "forward_ok (dest + of_nat k + 1) (src + of_nat k + 1) (Suc (length s))"
    "bytes_from ?m (src + of_nat k + 1) (Suc (length s)) = bytes_from m (src + of_nat k + 1) (Suc (length s))"
    using forward_ok_Suc Cons.prems(2) by simp_all
  have "c_string ?m (src + of_nat k + 1) s"
    using s c_string_bytes_from_iff f(2) by metis
  then have "strcpy_loop dest src (of_nat (Suc k)) ?m = Some (put_bytes ?m (dest + of_nat (Suc k)) (s @ [0]))"
    using f(1) by (intro Cons.IH) (simp_all add: add_ac fun_upd_def)
  then show ?case
    using Cons.prems by (subst strcpy_loop.simps) (simp add: store8_def [of m] add_ac)
qed

section \<open>Properties\<close>

text \<open>C25: on a line of fewer than \<open>n\<close> characters ended by carriage return, \<open>readline\<close> fills the
  \<open>n\<close> bytes of the buffer with the line and zeros, so that the buffer holds the line as a string,
  touches nothing else, and echoes every character and a final newline.\<close>

theorem readline_reads_line:
  assumes "delivers (resp d) (bs @ [13]) rest" "13 \<notin> set bs" "0 \<notin> set bs"
    "length bs < n" "n < 2 ^ 31"
  shows "\<exists>m' d'. readline c (of_nat n) m d = Some (m', d') \<and> resp d' = rest \<and>
    c_string m' c bs \<and> (\<forall>x. x \<notin> bytes_at c n \<longrightarrow> m' x = m x) \<and>
    writes_of d' = writes_of d @ map (WriteByte UART_BASE_ADDR) (bs @ [13, 10])"
proof -
  have z: "replicate (n - length bs) (0::u8) = 0 # replicate (n - length bs - 1) 0"
    using assms(4) by (cases "n - length bs") auto
  let ?m = "put_bytes m c (bs @ replicate (n - length bs) 0)"
  have "c_string ?m c bs" unfolding z using assms by (intro c_string_put_bytes) simp_all
  moreover have "?m x = m x" if "x \<notin> bytes_at c n" for x
    using that assms by (intro put_bytes_frame) simp
  ultimately show ?thesis
    using readline_loop_line [OF assms(1,2), of 0 n c m] assms by (fastforce simp: readline_def)
qed

text \<open>For an integer of at most nine digits \<open>itoa\<close> writes the decimal notation, with a minus sign when it is
  negative.\<close>

lemma itoa_writes_decimal:
  assumes "\<bar>sint a\<bar> < 10 ^ 9"
  shows "\<exists>s. itoa a c m = Some (put_bytes m c ((if sint a < 0 then [45] else []) @ s)) \<and>
    (\<forall>b \<in> set s. is_digit b) \<and> dec_value s = \<bar>sint a\<bar> \<and> s \<noteq> [] \<and> length s \<le> 9"
proof -
  define k where "k = (LEAST k. 0 < k \<and> \<bar>sint a\<bar> < 10 ^ k)"
  have "0 < k \<and> \<bar>sint a\<bar> < 10 ^ k" unfolding k_def by (rule LeastI [of _ 9]) (use assms in simp)
  moreover have "k \<le> 9" unfolding k_def by (rule Least_le) (use assms in simp)
  ultimately show ?thesis
    using itoa_eq [OF assms, of c m] is_digit_dec_bytes
    by (intro exI [of _ "dec_bytes k \<bar>sint a\<bar>"])
      (auto simp: dec_string_def k_def [symmetric] dec_value_bytes simp flip: length_0_conv)
qed

text \<open>started at the last character, \<open>atoi\<close> returns the sum of the decimal digits of its
  argument, not the number they denote: the place factor is never advanced.\<close>

theorem atoi_sums_digits:
  assumes "c_string m c s" "\<forall>b \<in> set s. is_digit b" "length s < 2 ^ 31"
  shows "atoi (of_nat (length s) - 1) m c = Some (word_of_int (sum_list (map digit_val s)))"
  using atoi_loop_sum [of "length s" m c s 0] strlen_string [OF assms(1)] assms
  by (simp add: atoi_def c_string_nth)

text \<open>In a base from 2 to 16 the \<open>itoa\<close> of the kernel writes the digits of a number that is not negative.\<close>

lemma os_itoa_writes_base:
  assumes "2 \<le> b" "b \<le> 16"
  shows "(0 \<le> sint num \<longrightarrow>
      os_itoa num c (word_of_int b) m = Some (put_bytes m c (rep_string b (sint num))) \<and>
      length (rep_string b (sint num)) \<le> 31 \<and>
      foldl (\<lambda>v x. b * v + x) 0 (digits b (sint num)) = sint num) \<and>
    (sint num < 0 \<longrightarrow> os_itoa num c (word_of_int b) m = None)"
proof (intro conjI impI)
  assume n: "0 \<le> sint num"
  have l: "length (digits b (sint num)) \<le> 31"
    using n sint_lt_32 [of num] assms by (intro digits_length_32) auto
  show "length (rep_string b (sint num)) \<le> 31" using l by (simp add: rep_string_def)
  show "foldl (\<lambda>v x. b * v + x) 0 (digits b (sint num)) = sint num"
    using n assms by (rule_tac digits_value)
  show "os_itoa num c (word_of_int b) m = Some (put_bytes m c (rep_string b (sint num)))"
    using os_itoa_loop_eq [of b "sint num" "[0]"] n l assms sint_lt_32 [of num]
      os_itoa_copy_eq [OF rep_string_nonzero, of "sint num" b 0 c m]
    by (simp add: os_itoa_def)
qed (use os_itoa_loop_negative assms in \<open>simp add: os_itoa_def\<close>)

text \<open>C34: for an integer of at most nine digits \<open>itoa\<close> returns and writes the decimal notation, with
  a minus sign when it is negative: the digits are decimal digits whose value is the number. It
  writes no byte after them, so the string is not terminated by it. For a number that is not
  negative and a base from 2 to 16 the \<open>itoa\<close> of the kernel returns and writes the digits of the
  number in that base, most significant first, each as a character of \<open>Rep\<close>; the digits denote the
  number. A negative number makes it leave the bounds of \<open>Rep\<close>, whatever the base.\<close>

theorem itoas_write_digits:
  assumes "\<bar>sint a\<bar> < 10 ^ 9" "2 \<le> b" "b \<le> 16"
  shows "(\<exists>s. itoa a c m = Some (put_bytes m c ((if sint a < 0 then [45] else []) @ s)) \<and>
      (\<forall>x \<in> set s. is_digit x) \<and> dec_value s = \<bar>sint a\<bar> \<and> s \<noteq> [] \<and> length s \<le> 9) \<and>
    (0 \<le> sint num \<longrightarrow>
      os_itoa num c (word_of_int b) m = Some (put_bytes m c (rep_string b (sint num))) \<and>
      length (rep_string b (sint num)) \<le> 31 \<and>
      foldl (\<lambda>v x. b * v + x) 0 (digits b (sint num)) = sint num) \<and>
    (sint num < 0 \<longrightarrow> os_itoa num c (word_of_int b) m = None)"
  using itoa_writes_decimal [OF assms(1)] os_itoa_writes_base [OF assms(2,3)] by (intro conjI) blast+

text \<open>C35: \<open>memcpy\<close> copies \<open>num\<close> bytes and \<open>strcpy\<close> a string with its end to a destination that
  does not overtake the source: both return the destination, which then holds what the source
  held, and change no byte outside it. The \<open>memcpy\<close> of the radix sort, which copies words where
  it can, returns with the same memory when the destination does not reach the end of the memory.\<close>

theorem copies_bytes:
  assumes "forward_ok dest src (unat num)" "forward_ok dest2 src2 (Suc (length s))"
    "c_string m src2 s" "length s < 2 ^ 31"
  shows "(\<exists>m'. memcpy dest src num m = (dest, m') \<and>
      bytes_from m' dest (unat num) = bytes_from m src (unat num) \<and>
      (\<forall>x. x \<notin> bytes_at dest (unat num) \<longrightarrow> m' x = m x)) \<and>
    (\<exists>m'. strcpy dest2 src2 m = Some (dest2, m') \<and> c_string m' dest2 s \<and>
      (\<forall>x. x \<notin> bytes_at dest2 (Suc (length s)) \<longrightarrow> m' x = m x)) \<and>
    (unat dest + unat num < 2 ^ 32 \<longrightarrow> rsort_memcpy dest src num m = Some (memcpy dest src num m))"
proof (intro conjI impI)
  let ?m = "put_bytes m dest (bytes_from m src (unat num))"
  have "memcpy dest src num m = (dest, ?m)"
    by (rule memcpy_eq) fact
  then show "rsort_memcpy dest src num m = Some (memcpy dest src num m)"
    if "unat dest + unat num < 2 ^ 32"
    using rsort_memcpy_eq [OF assms(1) that, of m] by simp
  have "memcpy dest src num m = (dest, ?m)" by fact
  moreover have "bytes_from ?m dest (unat num) = bytes_from m src (unat num)"
    using bytes_from_put_bytes [of "bytes_from m src (unat num)"] by (simp add: less_imp_le)
  ultimately show "\<exists>m'. memcpy dest src num m = (dest, m') \<and>
      bytes_from m' dest (unat num) = bytes_from m src (unat num) \<and>
      (\<forall>x. x \<notin> bytes_at dest (unat num) \<longrightarrow> m' x = m x)"
    using put_bytes_frame [of _ dest "bytes_from m src (unat num)" m] by auto
next
  let ?m = "put_bytes m dest2 (s @ [0])"
  have "strcpy dest2 src2 m = Some (dest2, ?m)"
    using strcpy_loop_eq [of m src2 0 s dest2] assms by (simp add: strcpy_def)
  moreover have "c_string ?m dest2 s"
    using assms by (intro c_string_put_bytes) (auto simp: c_string_bytes_from_iff)
  ultimately show "\<exists>m'. strcpy dest2 src2 m = Some (dest2, m') \<and> c_string m' dest2 s \<and>
      (\<forall>x. x \<notin> bytes_at dest2 (Suc (length s)) \<longrightarrow> m' x = m x)"
    using put_bytes_frame [of _ dest2 "s @ [0]" m] by auto
qed

section \<open>Witnesses\<close>

definition lit_mem :: "u8 list \<Rightarrow> mem32" where
  "lit_mem s = put_bytes (\<lambda>_. 0) 0x100 (s @ [0])"

lemma lit_mem_string: "0 \<notin> set s \<Longrightarrow> length s < 100 \<Longrightarrow> c_string (lit_mem s) 0x100 s"
  using c_string_put_bytes [of s "[]" "\<lambda>_. 0" "0x100"] by (simp add: lit_mem_def)

lemma readline_reads_line_witness:
  "\<exists>m' d'. readline 0x100 8 (\<lambda>_. 1) (run_dev [104, 105, 13]) = Some (m', d') \<and> c_string m' 0x100 [104, 105]"
  using readline_reads_line [of "run_dev [104, 105, 13]" "[104, 105]" "[96]" 8 "0x100" "\<lambda>_. 1"]
    run_dev_delivers [of "[104, 105, 13]"] by auto

lemma atoi_sums_digits_witness: "atoi 2 (lit_mem [49, 50, 51]) 0x100 = Some 6"
  using atoi_sums_digits [OF lit_mem_string, of "[49, 50, 51]"]
  by (simp add: is_digit_def digit_val_def)

lemma itoas_write_digits_witness:
  "(\<exists>s. itoa (- 250) 0x100 (\<lambda>_. 0) = Some (put_bytes (\<lambda>_. 0) 0x100 (45 # s)) \<and> dec_value s = 250) \<and>
   os_itoa 255 0x100 16 (\<lambda>_. 0) = Some (put_bytes (\<lambda>_. 0) 0x100 (rep_string 16 255)) \<and>
   os_itoa (- 5) 0x100 10 (\<lambda>_. 0) = None"
  using itoas_write_digits [of "- 250" 16 "0x100" "\<lambda>_. 0" 255] itoas_write_digits [of "- 250" 10 "0x100" "\<lambda>_. 0" "- 5"]
  by auto

lemma copies_bytes_witness:
  "(\<exists>m'. memcpy 0x200 0x100 3 (lit_mem [49, 50, 51]) = (0x200, m')) \<and>
   (\<exists>m'. strcpy 0x200 0x100 (lit_mem [49, 50, 51]) = Some (0x200, m') \<and> c_string m' 0x200 [49, 50, 51]) \<and>
   rsort_memcpy 0x200 0x100 3 (lit_mem [49, 50, 51]) = Some (memcpy 0x200 0x100 3 (lit_mem [49, 50, 51]))"
proof -
  have "forward_ok 0x200 0x100 n" if "n \<le> 4" for n
  proof -
    have "(0x200 :: u32) + of_nat i \<noteq> 0x100 + of_nat j" if "i < 4" "j < 4" for i j
    proof
      assume "(0x200 :: u32) + of_nat i = 0x100 + of_nat j"
      then have "unat ((0x200 :: u32) + of_nat i) = unat ((0x100 :: u32) + of_nat j)"
        by (rule arg_cong)
      then show False using that unat_add_of_nat [of "0x200 :: u32" i] unat_add_of_nat [of "0x100 :: u32" j]
        by simp
    qed
    with that show ?thesis by (auto simp: forward_ok_def)
  qed
  then show ?thesis
    using copies_bytes [OF _ _ lit_mem_string, of "0x200" "0x100" 3 "0x200" "[49, 50, 51]"] by auto
qed

end
