(* ===== verification/Kernel.thy ===== *)
theory Kernel
  imports Strings
begin

text \<open>
  The boot kernel \<^verbatim>\<open>gcc/kernel.c\<close>, which loads a program over the serial line, and the word
  transfers \<open>send_int\<close> and \<open>recv_int\<close> that \<^verbatim>\<open>gcc/quicksort.c\<close> and \<^verbatim>\<open>gcc/fact.c\<close> share.
  Where the linker puts a string literal is the parameter \<open>lit\<close>; the local \<open>buf\<close> of
  \<open>uart_read_word\<close> is a memory of its own.
\<close>

section \<open>Words on the line\<close>

definition uart_read_word :: "dev \<Rightarrow> (u32 \<times> dev) option" where
  "uart_read_word d =
     do { (bs, d) \<leftarrow> read_bytes uart_read_blocking 4 d;
          Some (load32 (put_bytes (\<lambda>_. 0) 0 bs :: mem32) 0, d) }"

definition send_int :: "i32 \<Rightarrow> dev \<Rightarrow> dev" where
  "send_int a d =
     (let d = uart_put (ucast a) d;
          d = uart_put (ucast (signed_drop_bit 8 a AND 0xff)) d;
          d = uart_put (ucast (signed_drop_bit 16 a AND 0xff)) d
      in uart_put (ucast (signed_drop_bit 24 a AND 0xff)) d)"

definition recv_int :: "dev \<Rightarrow> (i32 \<times> dev) option" where
  "recv_int d = do {
     (c, d) \<leftarrow> uart_read_blocking d;
     let a = (ucast c :: i32);
     (c, d) \<leftarrow> uart_read_blocking d;
     let a = a OR push_bit 8 (ucast c);
     (c, d) \<leftarrow> uart_read_blocking d;
     let a = a OR push_bit 16 (ucast c);
     (c, d) \<leftarrow> uart_read_blocking d;
     let a = a OR push_bit 24 (ucast c);
     Some (a, d) }"

section \<open>The program loader\<close>

definition base_addr :: u32 where
  "base_addr = 0x10000"

definition magic :: u32 where
  "magic = 0xdeadbeef"

definition mem_end :: u32 where
  "mem_end = 65536"

definition ascii :: "string \<Rightarrow> u8 list" where
  "ascii s = map (\<lambda>c. of_nat (of_char c)) s"

definition msg_no_magic :: "u8 list" where
  "msg_no_magic = ascii '':('' @ [10]"

definition msg_loaded :: "u8 list" where
  "msg_loaded = ascii ''program loaded'' @ [10]"

definition msg_too_large :: "u8 list" where
  "msg_too_large = ascii ''program too large. Restarting kernel...'' @ [10]"

definition msg_loading :: "u8 list" where
  "msg_loading = ascii ''loading program'' @ [10]"

function load_loop :: "(u8 list \<Rightarrow> u32) \<Rightarrow> u32 \<Rightarrow> mem32 \<Rightarrow> dev \<Rightarrow> (u32 \<times> mem32 \<times> dev) option" where
  "load_loop lit w m d =
     (if w < mem_end
      then do {
        (buf, d) \<leftarrow> uart_read_word d;
        if buf = magic
        then do { d \<leftarrow> uart_print m (lit msg_loaded) d; Some (base_addr, m, d) }
        else load_loop lit (w + 4) (store32 m (base_addr + w) buf) d }
      else do { d \<leftarrow> uart_print m (lit msg_too_large) d; Some (0, m, d) })"
  by pat_completeness auto
termination
proof (relation "measure (\<lambda>(lit, w, m, d). unat mem_end + 4 - unat w)", simp, goal_cases)
  case (1 lit w m d)
  then have "unat w < 65536" by (simp add: mem_end_def word_less_nat_alt)
  moreover from this have "unat (w + of_nat 4) = unat w + 4" by (intro unat_add_of_nat) simp
  ultimately show ?case by (simp add: mem_end_def)
qed

declare load_loop.simps [simp del]

definition load_program :: "(u8 list \<Rightarrow> u32) \<Rightarrow> mem32 \<Rightarrow> dev \<Rightarrow> (u32 \<times> mem32 \<times> dev) option" where
  "load_program lit m d = do {
     (buf, d) \<leftarrow> uart_read_word d;
     if buf \<noteq> magic
     then do { d \<leftarrow> uart_print m (lit msg_no_magic) d; Some (0, m, d) }
     else load_loop lit 0 m d }"

definition kernel_main :: "(u8 list \<Rightarrow> u32) \<Rightarrow> mem32 \<Rightarrow> dev \<Rightarrow> (u32 \<times> mem32 \<times> dev) option" where
  "kernel_main lit m d = do {
     let d = snd (uart_init d);
     d \<leftarrow> uart_print m (lit msg_loading) d;
     load_program lit m d }"

section \<open>Words as bytes\<close>

lemma word_bytes_join:
  "ucast (ucast w :: u8) OR push_bit 8 (ucast (ucast (drop_bit 8 w) :: u8)) OR
   push_bit 16 (ucast (ucast (drop_bit 16 w) :: u8)) OR
   push_bit 24 (ucast (ucast (drop_bit 24 w) :: u8)) = (w :: u32)"
  by (rule bit_word_eqI, rename_tac n, case_tac "n < 8"; case_tac "n < 16"; case_tac "n < 24")
    (simp_all add: bit_simps, linarith+)

lemma uart_read_word_delivers:
  assumes "delivers (resp d) (word_bytes w) rest"
  shows "\<exists>d'. uart_read_word d = Some (w, d') \<and> resp d' = rest \<and> writes_of d' = writes_of d"
proof -
  have "load32 (put_bytes (\<lambda>_. 0) 0 (word_bytes w) :: mem32) 0 = w"
    by (simp add: store32_put_bytes [symmetric] mem_simps)
  then show ?thesis
    using gcc_rx.read_bytes_delivers [OF assms] by (auto simp: uart_read_word_def)
qed

lemma recv_int_delivers:
  assumes "delivers (resp d) (word_bytes w) rest"
  shows "\<exists>d'. recv_int d = Some (w, d') \<and> resp d' = rest \<and> writes_of d' = writes_of d"
proof -
  obtain d' where "read_bytes uart_read_blocking (Suc (Suc (Suc (Suc 0)))) d = Some (word_bytes w, d')"
    "resp d' = rest" "writes_of d' = writes_of d"
    using gcc_rx.read_bytes_delivers [OF assms] by (auto simp: numeral_eq_Suc)
  then show ?thesis
    using word_bytes_join [of w]
    by (auto simp: recv_int_def word_bytes_def Option.bind_eq_Some_conv Let_def or.assoc)
qed

lemma bit_0xff: "bit (0xff :: i32) n \<longleftrightarrow> n < 8"
proof -
  have "(0xff :: i32) = mask 8" by (simp add: mask_eq_exp_minus_1)
  then show ?thesis by (simp only: bit_mask_iff) auto
qed

lemma send_int_writes:
  "writes_of (send_int a d) = writes_of d @ map (WriteByte UART_BASE_ADDR) (word_bytes a)"
proof -
  have b: "(ucast (signed_drop_bit k a AND 0xff) :: u8) = ucast (drop_bit k a)" if "k \<le> 24" for k
  proof -
    have "ucast (x AND (0xff :: i32)) = (ucast x :: u8)" for x
      by (rule bit_word_eqI) (simp only: bit_ucast_iff bit_and_iff bit_0xff, simp)
    then show ?thesis
      using that by (intro bit_word_eqI) (auto simp: bit_simps)
  qed
  show ?thesis
    using b [of 8] b [of 16] b [of 24]
    by (simp add: send_int_def uart_put_def writes_of_def word_bytes_def Let_def)
qed

section \<open>Loading\<close>

lemma load_loop_word:
  assumes "delivers (resp d) (word_bytes w @ bs) rest" "w \<noteq> magic" "k < 16384"
  obtains d2 where "load_loop lit (of_nat (4 * k)) m d =
      load_loop lit (of_nat (4 * Suc k)) (store32 m (base_addr + of_nat (4 * k)) w) d2"
    "delivers (resp d2) bs rest" "writes_of d2 = writes_of d"
proof -
  obtain mid where mid: "delivers (resp d) (word_bytes w) mid" "delivers mid bs rest"
    using delivers_split [OF assms(1)] by blast
  obtain d2 where d2: "uart_read_word d = Some (w, d2)" "resp d2 = mid" "writes_of d2 = writes_of d"
    using uart_read_word_delivers [OF mid(1)] by blast
  have "(of_nat (4 * k) :: u32) < mem_end"
    using assms(3) unat_of_nat_32 [of "4 * k"]
    by (simp add: mem_end_def word_less_nat_alt del: of_nat_mult)
  then have "load_loop lit (of_nat (4 * k)) m d =
      load_loop lit (of_nat (4 * Suc k)) (store32 m (base_addr + of_nat (4 * k)) w) d2"
    using d2 assms(2) by (subst load_loop.simps) (simp add: add_ac)
  with that d2 mid show thesis by simp
qed

lemma load_loop_words:
  "delivers (resp d) (concat (map word_bytes ws) @ bs) rest \<Longrightarrow> magic \<notin> set ws \<Longrightarrow>
   k + length ws \<le> 16384 \<Longrightarrow>
   \<exists>d'. load_loop lit (of_nat (4 * k)) m d = load_loop lit (of_nat (4 * (k + length ws)))
      (store_seq store32 4 m (base_addr + of_nat (4 * k)) ws) d' \<and>
    delivers (resp d') bs rest \<and> writes_of d' = writes_of d"
proof (induction ws arbitrary: k m d)
  case Nil
  then show ?case by auto
next
  case (Cons w ws)
  have l: "delivers (resp d) (word_bytes w @ concat (map word_bytes ws) @ bs) rest"
    "w \<noteq> magic" "k < 16384" using Cons.prems by auto
  obtain d2 where d2: "load_loop lit (of_nat (4 * k)) m d =
      load_loop lit (of_nat (4 * Suc k)) (store32 m (base_addr + of_nat (4 * k)) w) d2"
    "delivers (resp d2) (concat (map word_bytes ws) @ bs) rest" "writes_of d2 = writes_of d"
    using load_loop_word [OF l, of lit m] by blast
  have a: "base_addr + of_nat (4 * Suc k) = base_addr + of_nat (4 * k) + 4" by (simp add: add_ac)
  from Cons.IH [OF d2(2), of "Suc k" "store32 m (base_addr + of_nat (4 * k)) w"] Cons.prems d2
  show ?case unfolding a by auto
qed

text \<open>The words of a loaded program, and the memory around them.\<close>

lemma program_words:
  assumes "length ws \<le> 16384"
  shows "i < length ws \<Longrightarrow>
      load32 (store_seq store32 4 m base_addr ws) (base_addr + of_nat i * 4) = ws ! i"
    "x \<notin> bytes_at base_addr (4 * length ws) \<Longrightarrow> store_seq store32 4 m base_addr ws x = m x"
proof -
  assume "i < length ws"
  then show "load32 (store_seq store32 4 m base_addr ws) (base_addr + of_nat i * 4) = ws ! i"
    using m32.store_seq_nth [of i ws 4 base_addr m] assms by (simp add: base_addr_def)
next
  assume x: "x \<notin> bytes_at base_addr (4 * length ws)"
  have "bytes_at (base_addr + of_nat i * 4) 4 \<subseteq> bytes_at base_addr (4 * length ws)"
    if "i < length ws" for i
  proof -
    have "4 * length ws = 4 * i + (4 + 4 * (length ws - Suc i))" using that by simp
    then show ?thesis by (simp add: bytes_at_add mult.commute) blast
  qed
  with x show "store_seq store32 4 m base_addr ws x = m x"
    by (intro m32.store_seq_frame) blast
qed

lemma c_string_frame:
  "c_string m a s \<Longrightarrow> (\<And>x. x \<in> bytes_at a (Suc (length s)) \<Longrightarrow> m' x = m x) \<Longrightarrow> c_string m' a s"
proof (induction s arbitrary: a)
  case (Cons b s)
  have "c_string m' (a + 1) s"
    using Cons.prems by (intro Cons.IH) (simp_all add: bytes_at_Suc [of a])
  then show ?case using Cons.prems by (simp add: bytes_at_Suc)
qed (simp add: bytes_at_Suc)

text \<open>The kernel prints a literal that lies outside the loaded program.\<close>

lemma print_literal:
  assumes "c_string m (lit (b # s)) (b # s)" "length s < 2 ^ 31"
    "bytes_at (lit (b # s)) (Suc (Suc (length s))) \<inter> bytes_at base_addr (4 * length ws) = {}"
    "length ws \<le> 16384" "grants gcc_ready (resp d) 1 rest"
  shows "\<exists>d'. uart_print (store_seq store32 4 m base_addr ws) (lit (b # s)) d = Some d' \<and>
    resp d' = rest \<and> writes_of d' = writes_of d @ map (WriteByte UART_BASE_ADDR) (b # s)"
proof (rule uart_print_string)
  show "c_string (store_seq store32 4 m base_addr ws) (lit (b # s)) (b # s)"
    by (rule c_string_frame [OF assms(1)], rule program_words(2)) (use assms in auto)
qed (use assms in simp_all)

section \<open>Properties\<close>

text \<open>C1: when the line delivers the magic word, then fewer than 16384 words none of which is the
  magic word, and the magic word again, \<open>load_program\<close> stores exactly those words from
  \<open>base_addr\<close> on, changes no other byte, prints only the message that the program is loaded, and
  returns the address to start it at.\<close>

theorem load_program_stores:
  assumes line: "delivers (resp d) (concat (map word_bytes (magic # ws @ [magic]))) mid"
    and ws: "magic \<notin> set ws" "length ws < 16384"
    and lit: "c_string m (lit msg_loaded) msg_loaded"
      "bytes_at (lit msg_loaded) 16 \<inter> bytes_at base_addr (4 * length ws) = {}"
    and tx: "grants gcc_ready mid 1 rest"
  shows "\<exists>m' d'. load_program lit m d = Some (base_addr, m', d') \<and> resp d' = rest \<and>
    (\<forall>i < length ws. load32 m' (base_addr + of_nat i * 4) = ws ! i) \<and>
    (\<forall>x. x \<notin> bytes_at base_addr (4 * length ws) \<longrightarrow> m' x = m x) \<and>
    writes_of d' = writes_of d @ map (WriteByte UART_BASE_ADDR) msg_loaded"
proof -
  let ?m = "store_seq store32 4 m base_addr ws"
  obtain r1 where r1: "delivers (resp d) (word_bytes magic) r1"
    "delivers r1 (concat (map word_bytes ws) @ word_bytes magic) mid"
    using line delivers_split [of "resp d" "word_bytes magic"] by auto
  obtain d1 where d1: "uart_read_word d = Some (magic, d1)" "resp d1 = r1" "writes_of d1 = writes_of d"
    using uart_read_word_delivers [OF r1(1)] by blast
  obtain d2 where d2: "load_loop lit 0 m d1 = load_loop lit (of_nat (4 * length ws)) ?m d2"
    "delivers (resp d2) (word_bytes magic) mid" "writes_of d2 = writes_of d1"
    using load_loop_words [of d1 ws "word_bytes magic" mid 0 lit m] r1 d1 ws by auto
  obtain d3 where d3: "uart_read_word d2 = Some (magic, d3)" "resp d3 = mid" "writes_of d3 = writes_of d2"
    using uart_read_word_delivers [OF d2(2)] by blast
  have split: "msg_loaded = 112 # tl msg_loaded" "length (tl msg_loaded) = 14" by code_simp+
  obtain d4 where d4: "uart_print ?m (lit msg_loaded) d3 = Some d4" "resp d4 = rest"
    "writes_of d4 = writes_of d3 @ map (WriteByte UART_BASE_ADDR) msg_loaded"
    using print_literal [of m lit 112 "tl msg_loaded" ws d3 rest] lit ws tx d3 split by auto
  have "(of_nat (4 * length ws) :: u32) < mem_end"
    using ws(2) unat_of_nat_32 [of "4 * length ws"]
    by (simp add: mem_end_def word_less_nat_alt del: of_nat_mult)
  then have "load_program lit m d = Some (base_addr, ?m, d4)"
    using d1 d2 d3 d4
    by (simp add: load_program_def load_loop.simps [of lit "of_nat (4 * length ws)"] del: of_nat_mult)
  then show ?thesis using program_words [of ws] ws d1 d2 d3 d4 by auto
qed

text \<open>\<open>load_program\<close> refuses with 0 a stream of 16384 words that are not the magic word, and
  prints the message for a program that is too large; it has stored all of them by then.\<close>

theorem load_program_too_large:
  assumes line: "delivers (resp d) (concat (map word_bytes (magic # ws))) mid"
    and ws: "magic \<notin> set ws" "length ws = 16384"
    and lit: "c_string m (lit msg_too_large) msg_too_large"
      "bytes_at (lit msg_too_large) 41 \<inter> bytes_at base_addr 65536 = {}"
    and tx: "grants gcc_ready mid 1 rest"
  shows "\<exists>m' d'. load_program lit m d = Some (0, m', d') \<and> resp d' = rest \<and>
    (\<forall>i < 16384. load32 m' (base_addr + of_nat i * 4) = ws ! i) \<and>
    (\<forall>x. x \<notin> bytes_at base_addr 65536 \<longrightarrow> m' x = m x) \<and>
    writes_of d' = writes_of d @ map (WriteByte UART_BASE_ADDR) msg_too_large"
proof -
  let ?m = "store_seq store32 4 m base_addr ws"
  obtain r1 where r1: "delivers (resp d) (word_bytes magic) r1"
    "delivers r1 (concat (map word_bytes ws) @ []) mid"
    using line delivers_split [of "resp d" "word_bytes magic"] by auto
  obtain d1 where d1: "uart_read_word d = Some (magic, d1)" "resp d1 = r1" "writes_of d1 = writes_of d"
    using uart_read_word_delivers [OF r1(1)] by blast
  obtain d2 where d2: "load_loop lit 0 m d1 = load_loop lit (of_nat (4 * length ws)) ?m d2"
    "resp d2 = mid" "writes_of d2 = writes_of d1"
    using load_loop_words [of d1 ws "[]" mid 0 lit m] r1 d1 ws by (auto simp: delivers_Nil)
  have split: "msg_too_large = 112 # tl msg_too_large" "length (tl msg_too_large) = 39" by code_simp+
  obtain d4 where d4: "uart_print ?m (lit msg_too_large) d2 = Some d4" "resp d4 = rest"
    "writes_of d4 = writes_of d2 @ map (WriteByte UART_BASE_ADDR) msg_too_large"
    using print_literal [of m lit 112 "tl msg_too_large" ws d2 rest] lit ws tx d2 split by auto
  have "(of_nat (4 * length ws) :: u32) = mem_end" by (simp add: ws mem_end_def)
  then have "load_program lit m d = Some (0, ?m, d4)"
    using d1 d2 d4 by (simp add: load_program_def load_loop.simps [of lit mem_end] del: of_nat_mult)
  then show ?thesis using program_words [of ws _ m] ws d1 d2 d4 by auto
qed

text \<open>\<open>load_program\<close> refuses with 0 a stream whose first word is not the magic word, prints a
  sad face and leaves memory alone; it reads no byte beyond that word.\<close>

theorem load_program_no_magic:
  assumes "delivers (resp d) (word_bytes w) mid" "w \<noteq> magic" "grants gcc_ready mid 1 rest"
    "c_string m (lit msg_no_magic) msg_no_magic"
  shows "\<exists>d'. load_program lit m d = Some (0, m, d') \<and> resp d' = rest \<and>
    writes_of d' = writes_of d @ map (WriteByte UART_BASE_ADDR) msg_no_magic"
proof -
  obtain d1 where d1: "uart_read_word d = Some (w, d1)" "resp d1 = mid" "writes_of d1 = writes_of d"
    using uart_read_word_delivers [OF assms(1)] by blast
  have split: "msg_no_magic = 58 # tl msg_no_magic" "length (tl msg_no_magic) = 2" by code_simp+
  obtain d4 where "uart_print m (lit msg_no_magic) d1 = Some d4" "resp d4 = rest"
    "writes_of d4 = writes_of d1 @ map (WriteByte UART_BASE_ADDR) msg_no_magic"
    using print_literal [of m lit 58 "tl msg_no_magic" "[]" d1 rest] assms d1 split by auto
  then show ?thesis using d1 assms by (simp add: load_program_def)
qed

text \<open>C27: what \<open>send_int\<close> puts on the line is what \<open>recv_int\<close> on the other end gets back, whatever
  the sign of the integer.\<close>

theorem send_recv_int:
  assumes "writes_of (send_int a d1) = writes_of d1 @ map (WriteByte UART_BASE_ADDR) bs"
    "delivers (resp d2) bs rest"
  shows "\<exists>d'. recv_int d2 = Some (a, d') \<and> resp d' = rest \<and> writes_of d' = writes_of d2"
proof -
  have "bs = word_bytes a"
    using assms(1) by (simp add: send_int_writes) (metis event.inject(3) list.inj_map_strong)
  with assms(2) show ?thesis by (auto dest: recv_int_delivers)
qed

section \<open>Witnesses\<close>

lemma low_disjoint:
  "n \<le> 1000 \<Longrightarrow> k \<le> 65536 \<Longrightarrow> bytes_at (0x100 :: u32) n \<inter> bytes_at base_addr k = {}"
  by (rule bytes_at_disjoint) (simp_all add: base_addr_def)

lemma load_program_stores_witness:
  "\<exists>m' d'. load_program (\<lambda>_. 0x100) (lit_mem msg_loaded)
      (run_dev (concat (map word_bytes (magic # [17, 42] @ [magic])))) = Some (base_addr, m', d') \<and>
    load32 m' (base_addr + 4) = 42"
proof -
  have "0 \<notin> set msg_loaded" "length msg_loaded < 100" and m: "magic \<notin> set [17, 42]" by code_simp+
  then have c: "c_string (lit_mem msg_loaded) 0x100 msg_loaded" by (intro lit_mem_string)
  obtain m' d' where "load_program (\<lambda>_. 0x100) (lit_mem msg_loaded)
      (run_dev (concat (map word_bytes (magic # [17, 42] @ [magic])))) = Some (base_addr, m', d')"
    and *: "\<forall>i < length [17, 42 :: u32]. load32 m' (base_addr + of_nat i * 4) = [17, 42] ! i"
    using load_program_stores [OF run_dev_delivers m _ c _ grants_96] low_disjoint [of 16 8] by auto
  moreover from spec [OF *, of 1] have "load32 m' (base_addr + 4) = 42" by simp
  ultimately show ?thesis by blast
qed

lemma load_program_too_large_witness:
  "\<exists>m' d'. load_program (\<lambda>_. 0x100) (lit_mem msg_too_large)
      (run_dev (concat (map word_bytes (magic # replicate 16384 1)))) = Some (0, m', d')"
proof -
  have "0 \<notin> set msg_too_large" "length msg_too_large < 100" and "magic \<noteq> 1" by code_simp+
  then have c: "c_string (lit_mem msg_too_large) 0x100 msg_too_large"
    and m: "magic \<notin> set (replicate 16384 1)" by (auto intro: lit_mem_string)
  show ?thesis
    using load_program_too_large [OF run_dev_delivers m _ c _ grants_96] low_disjoint [of 41 65536]
    by auto
qed

lemma load_program_no_magic_witness:
  "\<exists>d'. load_program (\<lambda>_. 0x100) (lit_mem msg_no_magic) (run_dev (word_bytes 5)) =
    Some (0, lit_mem msg_no_magic, d')"
proof -
  have "0 \<notin> set msg_no_magic" "length msg_no_magic < 100" and m: "5 \<noteq> magic" by code_simp+
  then have c: "c_string (lit_mem msg_no_magic) 0x100 msg_no_magic" by (intro lit_mem_string)
  show ?thesis using load_program_no_magic [OF run_dev_delivers m grants_96 c] by auto
qed

lemma send_recv_int_witness: "\<exists>d'. recv_int (run_dev (word_bytes (- 7))) = Some (- 7, d')"
  using send_recv_int [OF _ run_dev_delivers, of "- 7" "run_dev []" "word_bytes (- 7)"]
  by (auto simp: send_int_writes)

end
