(* ===== verification/Aes.thy ===== *)
theory Aes
  imports Device
begin

text \<open>
  The AES benchmark \<^verbatim>\<open>gcc/aes.c\<close>: tables, field arithmetic, key expansion, the cipher and its
  inverse. The State is a list of four rows of four bytes; a \<open>for\<close> loop over indices is a
  \<open>foldl\<close> over the list of the indices in the order the loop takes them. Arrays the caller passes
  in are lists; an index past the end of one is outside the model.
\<close>

section \<open>Tables\<close>

definition Sbox :: "u8 list list" where
  "Sbox = [
     [0x63, 0x7c, 0x77, 0x7b, 0xf2, 0x6b, 0x6f, 0xc5, 0x30, 0x01, 0x67, 0x2b, 0xfe, 0xd7, 0xab, 0x76],
     [0xca, 0x82, 0xc9, 0x7d, 0xfa, 0x59, 0x47, 0xf0, 0xad, 0xd4, 0xa2, 0xaf, 0x9c, 0xa4, 0x72, 0xc0],
     [0xb7, 0xfd, 0x93, 0x26, 0x36, 0x3f, 0xf7, 0xcc, 0x34, 0xa5, 0xe5, 0xf1, 0x71, 0xd8, 0x31, 0x15],
     [0x04, 0xc7, 0x23, 0xc3, 0x18, 0x96, 0x05, 0x9a, 0x07, 0x12, 0x80, 0xe2, 0xeb, 0x27, 0xb2, 0x75],
     [0x09, 0x83, 0x2c, 0x1a, 0x1b, 0x6e, 0x5a, 0xa0, 0x52, 0x3b, 0xd6, 0xb3, 0x29, 0xe3, 0x2f, 0x84],
     [0x53, 0xd1, 0x00, 0xed, 0x20, 0xfc, 0xb1, 0x5b, 0x6a, 0xcb, 0xbe, 0x39, 0x4a, 0x4c, 0x58, 0xcf],
     [0xd0, 0xef, 0xaa, 0xfb, 0x43, 0x4d, 0x33, 0x85, 0x45, 0xf9, 0x02, 0x7f, 0x50, 0x3c, 0x9f, 0xa8],
     [0x51, 0xa3, 0x40, 0x8f, 0x92, 0x9d, 0x38, 0xf5, 0xbc, 0xb6, 0xda, 0x21, 0x10, 0xff, 0xf3, 0xd2],
     [0xcd, 0x0c, 0x13, 0xec, 0x5f, 0x97, 0x44, 0x17, 0xc4, 0xa7, 0x7e, 0x3d, 0x64, 0x5d, 0x19, 0x73],
     [0x60, 0x81, 0x4f, 0xdc, 0x22, 0x2a, 0x90, 0x88, 0x46, 0xee, 0xb8, 0x14, 0xde, 0x5e, 0x0b, 0xdb],
     [0xe0, 0x32, 0x3a, 0x0a, 0x49, 0x06, 0x24, 0x5c, 0xc2, 0xd3, 0xac, 0x62, 0x91, 0x95, 0xe4, 0x79],
     [0xe7, 0xc8, 0x37, 0x6d, 0x8d, 0xd5, 0x4e, 0xa9, 0x6c, 0x56, 0xf4, 0xea, 0x65, 0x7a, 0xae, 0x08],
     [0xba, 0x78, 0x25, 0x2e, 0x1c, 0xa6, 0xb4, 0xc6, 0xe8, 0xdd, 0x74, 0x1f, 0x4b, 0xbd, 0x8b, 0x8a],
     [0x70, 0x3e, 0xb5, 0x66, 0x48, 0x03, 0xf6, 0x0e, 0x61, 0x35, 0x57, 0xb9, 0x86, 0xc1, 0x1d, 0x9e],
     [0xe1, 0xf8, 0x98, 0x11, 0x69, 0xd9, 0x8e, 0x94, 0x9b, 0x1e, 0x87, 0xe9, 0xce, 0x55, 0x28, 0xdf],
     [0x8c, 0xa1, 0x89, 0x0d, 0xbf, 0xe6, 0x42, 0x68, 0x41, 0x99, 0x2d, 0x0f, 0xb0, 0x54, 0xbb, 0x16]]"

definition invSbox :: "u8 list list" where
  "invSbox = [
     [0x52, 0x09, 0x6a, 0xd5, 0x30, 0x36, 0xa5, 0x38, 0xbf, 0x40, 0xa3, 0x9e, 0x81, 0xf3, 0xd7, 0xfb],
     [0x7c, 0xe3, 0x39, 0x82, 0x9b, 0x2f, 0xff, 0x87, 0x34, 0x8e, 0x43, 0x44, 0xc4, 0xde, 0xe9, 0xcb],
     [0x54, 0x7b, 0x94, 0x32, 0xa6, 0xc2, 0x23, 0x3d, 0xee, 0x4c, 0x95, 0x0b, 0x42, 0xfa, 0xc3, 0x4e],
     [0x08, 0x2e, 0xa1, 0x66, 0x28, 0xd9, 0x24, 0xb2, 0x76, 0x5b, 0xa2, 0x49, 0x6d, 0x8b, 0xd1, 0x25],
     [0x72, 0xf8, 0xf6, 0x64, 0x86, 0x68, 0x98, 0x16, 0xd4, 0xa4, 0x5c, 0xcc, 0x5d, 0x65, 0xb6, 0x92],
     [0x6c, 0x70, 0x48, 0x50, 0xfd, 0xed, 0xb9, 0xda, 0x5e, 0x15, 0x46, 0x57, 0xa7, 0x8d, 0x9d, 0x84],
     [0x90, 0xd8, 0xab, 0x00, 0x8c, 0xbc, 0xd3, 0x0a, 0xf7, 0xe4, 0x58, 0x05, 0xb8, 0xb3, 0x45, 0x06],
     [0xd0, 0x2c, 0x1e, 0x8f, 0xca, 0x3f, 0x0f, 0x02, 0xc1, 0xaf, 0xbd, 0x03, 0x01, 0x13, 0x8a, 0x6b],
     [0x3a, 0x91, 0x11, 0x41, 0x4f, 0x67, 0xdc, 0xea, 0x97, 0xf2, 0xcf, 0xce, 0xf0, 0xb4, 0xe6, 0x73],
     [0x96, 0xac, 0x74, 0x22, 0xe7, 0xad, 0x35, 0x85, 0xe2, 0xf9, 0x37, 0xe8, 0x1c, 0x75, 0xdf, 0x6e],
     [0x47, 0xf1, 0x1a, 0x71, 0x1d, 0x29, 0xc5, 0x89, 0x6f, 0xb7, 0x62, 0x0e, 0xaa, 0x18, 0xbe, 0x1b],
     [0xfc, 0x56, 0x3e, 0x4b, 0xc6, 0xd2, 0x79, 0x20, 0x9a, 0xdb, 0xc0, 0xfe, 0x78, 0xcd, 0x5a, 0xf4],
     [0x1f, 0xdd, 0xa8, 0x33, 0x88, 0x07, 0xc7, 0x31, 0xb1, 0x12, 0x10, 0x59, 0x27, 0x80, 0xec, 0x5f],
     [0x60, 0x51, 0x7f, 0xa9, 0x19, 0xb5, 0x4a, 0x0d, 0x2d, 0xe5, 0x7a, 0x9f, 0x93, 0xc9, 0x9c, 0xef],
     [0xa0, 0xe0, 0x3b, 0x4d, 0xae, 0x2a, 0xf5, 0xb0, 0xc8, 0xeb, 0xbb, 0x3c, 0x83, 0x53, 0x99, 0x61],
     [0x17, 0x2b, 0x04, 0x7e, 0xba, 0x77, 0xd6, 0x26, 0xe1, 0x69, 0x14, 0x63, 0x55, 0x21, 0x0c, 0x7d]]"

definition Rcon :: "u32 list" where
  "Rcon = [
     0x00000000, 0x01000000, 0x02000000, 0x04000000,
     0x08000000, 0x10000000, 0x20000000, 0x40000000,
     0x80000000, 0x1B000000, 0x36000000, 0x6C000000,
     0xD8000000, 0xAB000000, 0x4D000000, 0x9A000000,
     0x2F000000, 0x5E000000, 0xBC000000, 0x63000000,
     0xC6000000, 0x97000000, 0x35000000, 0x6A000000,
     0xD4000000, 0xB3000000, 0x7D000000, 0xFA000000,
     0xEF000000, 0xC5000000, 0x91000000, 0x39000000,
     0x72000000, 0xE4000000, 0xD3000000, 0xBD000000,
     0x61000000, 0xC2000000, 0x9F000000, 0x25000000,
     0x4A000000, 0x94000000, 0x33000000, 0x66000000,
     0xCC000000, 0x83000000, 0x1D000000, 0x3A000000,
     0x74000000, 0xE8000000, 0xCB000000, 0x8D000000]"

section \<open>Key expansion\<close>

definition subWord :: "u32 \<Rightarrow> u32" where
  "subWord w =
     (let at = (\<lambda>i j. ucast (Sbox ! unat i ! unat j) :: u32);
          s0 = at (drop_bit 28 w) (drop_bit 28 (push_bit 4 w));
          s1 = at (drop_bit 28 (push_bit 8 w)) (drop_bit 28 (push_bit 12 w));
          s2 = at (drop_bit 28 (push_bit 16 w)) (drop_bit 28 (push_bit 20 w));
          s3 = at (drop_bit 28 (push_bit 24 w)) (drop_bit 28 (push_bit 28 w))
      in push_bit 24 s0 OR push_bit 16 s1 OR push_bit 8 s2 OR s3)"

definition rotWord :: "u32 \<Rightarrow> u32" where
  "rotWord w = drop_bit 24 w OR push_bit 8 w"

definition key_word :: "u8 list \<Rightarrow> nat \<Rightarrow> u32" where
  "key_word key i =
     (let b0 = ucast (key ! (i * 4)); b1 = ucast (key ! (i * 4 + 1));
          b2 = ucast (key ! (i * 4 + 2)); b3 = ucast (key ! (i * 4 + 3))
      in push_bit 24 b0 OR push_bit 16 b1 OR push_bit 8 b2 OR b3)"

definition expand_step :: "nat \<Rightarrow> u32 list \<Rightarrow> nat \<Rightarrow> u32 list" where
  "expand_step Nk w i =
     (let temp = w ! (i - 1);
          temp = (if i mod Nk = 0 then subWord (rotWord temp) XOR Rcon ! (i div Nk)
                  else if 6 < Nk \<and> i mod Nk = 4 then subWord temp
                  else temp)
      in w[i := w ! (i - Nk) XOR temp])"

definition keyExpansion :: "u8 list \<Rightarrow> u32 list \<Rightarrow> u8 \<Rightarrow> u8 \<Rightarrow> u8 \<Rightarrow> u32 list" where
  "keyExpansion key w Nb Nk Nr =
     (let num_keys = unat Nb * (unat Nr + 1);
          w = foldl (\<lambda>w i. w[i := key_word key i]) w [0..<unat Nk]
      in foldl (expand_step (unat Nk)) w [unat Nk..<num_keys])"

section \<open>Field arithmetic\<close>

definition ffAdd :: "u8 \<Rightarrow> u8 \<Rightarrow> u8" where
  "ffAdd a b = a XOR b"

definition xtime :: "u8 \<Rightarrow> u8" where
  "xtime a = (let b = push_bit 7 1 in if a AND b \<noteq> 0 then push_bit 1 a XOR 0x1b else push_bit 1 a)"

definition ffMultiply :: "u8 \<Rightarrow> u8 \<Rightarrow> u8" where
  "ffMultiply a b =
     (let r = (if b AND 1 \<noteq> 0 then a else 0);
          (r, temp, b) = foldl (\<lambda>(r, temp, b) i.
             let temp = xtime temp;
                 r = (if b AND 1 \<noteq> 0 then r XOR temp else r)
             in (r, temp, drop_bit 1 b)) (r, a, drop_bit 1 b) [1..<8]
      in r)"

section \<open>The State\<close>

type_synonym aes_state = "u8 list list"

definition cell :: "aes_state \<Rightarrow> nat \<Rightarrow> nat \<Rightarrow> u8" where
  "cell s r c = s ! r ! c"

definition set_cell :: "aes_state \<Rightarrow> nat \<Rightarrow> nat \<Rightarrow> u8 \<Rightarrow> aes_state" where
  "set_cell s r c v = s[r := (s ! r)[c := v]]"

definition subBytes :: "aes_state \<Rightarrow> aes_state" where
  "subBytes s = foldl (\<lambda>s r. foldl (\<lambda>s c.
     set_cell s r c (Sbox ! unat (drop_bit 4 (cell s r c)) ! unat (cell s r c AND 0x0F)))
     s [0..<4]) s [0..<4]"

definition shiftRows :: "aes_state \<Rightarrow> aes_state" where
  "shiftRows s =
     (let temp = cell s 1 0;
          s = set_cell s 1 0 (cell s 1 1);
          s = set_cell s 1 1 (cell s 1 2);
          s = set_cell s 1 2 (cell s 1 3);
          s = set_cell s 1 3 temp;
          temp = cell s 2 0;
          s = set_cell s 2 0 (cell s 2 2);
          s = set_cell s 2 2 temp;
          temp = cell s 2 1;
          s = set_cell s 2 1 (cell s 2 3);
          s = set_cell s 2 3 temp;
          temp = cell s 3 0;
          s = set_cell s 3 0 (cell s 3 3);
          s = set_cell s 3 3 (cell s 3 2);
          s = set_cell s 3 2 (cell s 3 1)
      in set_cell s 3 1 temp)"

definition mixColumns :: "aes_state \<Rightarrow> aes_state" where
  "mixColumns s = foldl (\<lambda>s c.
     let b0 = cell s 0 c; b1 = cell s 1 c; b2 = cell s 2 c; b3 = cell s 3 c;
         s = set_cell s 0 c (xtime b0 XOR ffMultiply 0x03 b1 XOR b2 XOR b3);
         s = set_cell s 1 c (b0 XOR xtime b1 XOR ffMultiply 0x03 b2 XOR b3);
         s = set_cell s 2 c (b0 XOR b1 XOR xtime b2 XOR ffMultiply 0x03 b3)
     in set_cell s 3 c (ffMultiply 0x03 b0 XOR b1 XOR b2 XOR xtime b3)) s [0..<4]"

definition addRoundKey :: "aes_state \<Rightarrow> u32 list \<Rightarrow> u8 \<Rightarrow> u8 \<Rightarrow> aes_state" where
  "addRoundKey s w start stop = foldl (\<lambda>s i.
     let c = i - unat start;
         s = set_cell s 0 c (cell s 0 c XOR ucast (drop_bit 24 (w ! i)));
         s = set_cell s 1 c (cell s 1 c XOR ucast (drop_bit 16 (w ! i)));
         s = set_cell s 2 c (cell s 2 c XOR ucast (drop_bit 8 (w ! i)))
     in set_cell s 3 c (cell s 3 c XOR ucast (w ! i))) s [unat start..<Suc (unat stop)]"

text \<open>The loops that fill the State from the input and the output from the State.\<close>

definition load_state :: "u8 list \<Rightarrow> aes_state" where
  "load_state input = foldl (\<lambda>s r. foldl (\<lambda>s c. set_cell s r c (input ! (r + 4 * c)))
     s [0..<4]) (replicate 4 (replicate 4 0)) [0..<4]"

definition store_state :: "aes_state \<Rightarrow> u8 list \<Rightarrow> u8 list" where
  "store_state s output = foldl (\<lambda>out r. foldl (\<lambda>out c. out[r + 4 * c := cell s r c])
     out [0..<4]) output [0..<4]"

section \<open>The cipher\<close>

definition Cipher :: "u8 list \<Rightarrow> u8 list \<Rightarrow> u32 list \<Rightarrow> u8 \<Rightarrow> u8 \<Rightarrow> u8 list" where
  "Cipher input output w Nb Nr =
     (let s = load_state input;
          s = addRoundKey s w 0 (Nb - 1);
          s = foldl (\<lambda>s i. addRoundKey (mixColumns (shiftRows (subBytes s))) w
                (of_nat i * Nb) ((of_nat i + 1) * Nb - 1)) s [1..<unat Nr];
          s = addRoundKey (shiftRows (subBytes s)) w (Nr * Nb) ((Nr + 1) * Nb - 1)
      in store_state s output)"

definition invShiftRows :: "aes_state \<Rightarrow> aes_state" where
  "invShiftRows s =
     (let temp = cell s 1 3;
          s = set_cell s 1 3 (cell s 1 2);
          s = set_cell s 1 2 (cell s 1 1);
          s = set_cell s 1 1 (cell s 1 0);
          s = set_cell s 1 0 temp;
          temp = cell s 2 0;
          s = set_cell s 2 0 (cell s 2 2);
          s = set_cell s 2 2 temp;
          temp = cell s 2 1;
          s = set_cell s 2 1 (cell s 2 3);
          s = set_cell s 2 3 temp;
          temp = cell s 3 0;
          s = set_cell s 3 0 (cell s 3 1);
          s = set_cell s 3 1 (cell s 3 2);
          s = set_cell s 3 2 (cell s 3 3)
      in set_cell s 3 3 temp)"

definition invSubBytes :: "aes_state \<Rightarrow> aes_state" where
  "invSubBytes s = foldl (\<lambda>s r. foldl (\<lambda>s c.
     set_cell s r c (invSbox ! unat (drop_bit 4 (cell s r c)) ! unat (cell s r c AND 0x0F)))
     s [0..<4]) s [0..<4]"

definition invMixColumns :: "aes_state \<Rightarrow> aes_state" where
  "invMixColumns s = foldl (\<lambda>s c.
     let b0 = cell s 0 c; b1 = cell s 1 c; b2 = cell s 2 c; b3 = cell s 3 c;
         s = set_cell s 0 c (ffMultiply 0x0e b0 XOR ffMultiply 0x0b b1 XOR ffMultiply 0x0d b2 XOR ffMultiply 0x09 b3);
         s = set_cell s 1 c (ffMultiply 0x09 b0 XOR ffMultiply 0x0e b1 XOR ffMultiply 0x0b b2 XOR ffMultiply 0x0d b3);
         s = set_cell s 2 c (ffMultiply 0x0d b0 XOR ffMultiply 0x09 b1 XOR ffMultiply 0x0e b2 XOR ffMultiply 0x0b b3)
     in set_cell s 3 c (ffMultiply 0x0b b0 XOR ffMultiply 0x0d b1 XOR ffMultiply 0x09 b2 XOR ffMultiply 0x0e b3))
     s [0..<4]"

text \<open>\<open>for (i = Nr-1; i > 0; i--)\<close> on an unsigned char: \<open>Nr - 1\<close> wraps to 255 for \<open>Nr = 0\<close>.\<close>

definition invCipher :: "u8 list \<Rightarrow> u8 list \<Rightarrow> u32 list \<Rightarrow> u8 \<Rightarrow> u8 \<Rightarrow> u8 list" where
  "invCipher input output w Nb Nr =
     (let s = load_state input;
          s = addRoundKey s w (Nr * Nb) ((Nr + 1) * Nb - 1);
          s = foldl (\<lambda>s i. invMixColumns (addRoundKey (invSubBytes (invShiftRows s)) w
                (of_nat i * Nb) ((of_nat i + 1) * Nb - 1))) s (rev [1..<Suc (unat (Nr - 1))]);
          s = addRoundKey (invSubBytes (invShiftRows s)) w 0 (Nb - 1)
      in store_state s output)"

text \<open>
  The test case \<open>main\<close> runs before its endless loop: what it leaves on the output register. The
  array \<open>ciphertext\<close> and \<open>w128\<close> are uninitialised there; the model passes zeros.
\<close>

definition plaintext :: "u8 list" where
  "plaintext = [0x00, 0x11, 0x22, 0x33, 0x44, 0x55, 0x66, 0x77,
     0x88, 0x99, 0xaa, 0xbb, 0xcc, 0xdd, 0xee, 0xff]"

definition key128 :: "u8 list" where
  "key128 = [0x00, 0x01, 0x02, 0x03, 0x04, 0x05, 0x06, 0x07,
     0x08, 0x09, 0x0a, 0x0b, 0x0c, 0x0d, 0x0e, 0x0f]"

definition aes_main :: "dev \<Rightarrow> dev" where
  "aes_main d =
     (let w128 = keyExpansion key128 (replicate 44 0) 4 4 10;
          ciphertext = Cipher plaintext (replicate 16 0) w128 4 10
      in foldl (\<lambda>d i. print (ucast (ciphertext ! i)) d) d [0..<16])"

section \<open>The State, cell by cell\<close>

lemma upt_0_4: "[0..<4] = [0, 1, 2, 3 :: nat]"
  by (simp add: upt_rec)

text \<open>A State has four rows of four; \<open>grid f\<close> is the one with \<open>f r c\<close> in row \<open>r\<close>, column \<open>c\<close>.\<close>

definition grid :: "(nat \<Rightarrow> nat \<Rightarrow> u8) \<Rightarrow> aes_state" where
  "grid f = map (\<lambda>r. map (f r) [0..<4]) [0..<4]"

definition sub_byte :: "u8 \<Rightarrow> u8" where
  "sub_byte b = Sbox ! unat (drop_bit 4 b) ! unat (b AND 0x0F)"

definition inv_sub_byte :: "u8 \<Rightarrow> u8" where
  "inv_sub_byte b = invSbox ! unat (drop_bit 4 b) ! unat (b AND 0x0F)"

lemma cell_grid [simp]: "r < 4 \<Longrightarrow> c < 4 \<Longrightarrow> cell (grid f) r c = f r c"
  by (simp add: cell_def grid_def)

lemma set_cell_grid [simp]:
  "r < 4 \<Longrightarrow> c < 4 \<Longrightarrow> set_cell (grid f) r c v = grid (f(r := (f r)(c := v)))"
  by (simp add: set_cell_def grid_def list_eq_iff_nth_eq nth_list_update)

lemma grid_cong: "(\<And>r c. r < 4 \<Longrightarrow> c < 4 \<Longrightarrow> f r c = g r c) \<Longrightarrow> grid f = grid g"
  by (simp add: grid_def)

lemma less_4: "(r :: nat) < 4 \<longleftrightarrow> r = 0 \<or> r = 1 \<or> r = 2 \<or> r = 3"
  by auto

lemma two: "Suc (Suc 0) = 2"
  by simp

lemma load_state_grid: "load_state input = grid (\<lambda>r c. input ! (r + 4 * c))"
proof -
  have "replicate 4 (replicate 4 0) = grid (\<lambda>r c. 0)" by (simp add: grid_def map_replicate_const)
  then show ?thesis
    by (auto simp: load_state_def upt_0_4 less_4 two intro!: grid_cong)
qed

lemma store_state_grid:
  assumes "length out = 16"
  shows "store_state (grid f) out = map (\<lambda>i. f (i mod 4) (i div 4)) [0..<16]"
proof -
  have "\<exists>a b c d e f g h. xs = [a, b, c, d, e, f, g, h]" if "length xs = 8" for xs :: "u8 list"
    using that by (auto simp: length_Suc_conv numeral_eq_Suc)
  from this [of "take 8 out"] this [of "drop 8 out"] assms
  obtain a b c d e f' g h a' b' c' d' e' f'' g' h' where
    "take 8 out = [a, b, c, d, e, f', g, h]" "drop 8 out = [a', b', c', d', e', f'', g', h']"
    by auto
  then have "out = [a, b, c, d, e, f', g, h, a', b', c', d', e', f'', g', h']"
    using append_take_drop_id [of 8 out] by simp
  then show ?thesis by (simp add: store_state_def upt_0_4 upt_rec two)
qed

lemma subBytes_grid: "subBytes (grid f) = grid (\<lambda>r c. sub_byte (f r c))"
  by (auto simp: subBytes_def upt_0_4 sub_byte_def less_4 two intro!: grid_cong)

lemma invSubBytes_grid: "invSubBytes (grid f) = grid (\<lambda>r c. inv_sub_byte (f r c))"
  by (auto simp: invSubBytes_def upt_0_4 inv_sub_byte_def less_4 two intro!: grid_cong)

text \<open>Row \<open>r\<close> moves left by \<open>r\<close> columns, and back.\<close>

lemma shiftRows_grid: "shiftRows (grid f) = grid (\<lambda>r c. f r ((c + r) mod 4))"
  by (auto simp: shiftRows_def Let_def less_4 two intro!: grid_cong)

lemma invShiftRows_grid: "invShiftRows (grid f) = grid (\<lambda>r c. f r ((c + 4 - r) mod 4))"
  by (auto simp: invShiftRows_def Let_def less_4 two intro!: grid_cong)

definition mix_col :: "(nat \<Rightarrow> u8) \<Rightarrow> nat \<Rightarrow> u8" where
  "mix_col b r = xtime (b r) XOR ffMultiply 3 (b ((r + 1) mod 4)) XOR b ((r + 2) mod 4) XOR b ((r + 3) mod 4)"

definition inv_mix_col :: "(nat \<Rightarrow> u8) \<Rightarrow> nat \<Rightarrow> u8" where
  "inv_mix_col b r = ffMultiply 14 (b r) XOR ffMultiply 11 (b ((r + 1) mod 4)) XOR
     ffMultiply 13 (b ((r + 2) mod 4)) XOR ffMultiply 9 (b ((r + 3) mod 4))"

lemma mixColumns_grid: "mixColumns (grid f) = grid (\<lambda>r c. mix_col (\<lambda>r. f r c) r)"
  by (auto simp: mixColumns_def upt_0_4 mix_col_def less_4 two Let_def xor.assoc xor.commute xor.left_commute
      intro!: grid_cong)

lemma invMixColumns_grid: "invMixColumns (grid f) = grid (\<lambda>r c. inv_mix_col (\<lambda>r. f r c) r)"
  by (auto simp: invMixColumns_def upt_0_4 inv_mix_col_def less_4 two Let_def xor.assoc xor.commute xor.left_commute
      intro!: grid_cong)

text \<open>The bytes of a round key: row \<open>r\<close> takes the bits from \<open>24 - 8 * r\<close> on of each word.\<close>

definition key_byte :: "u32 list \<Rightarrow> nat \<Rightarrow> nat \<Rightarrow> nat \<Rightarrow> u8" where
  "key_byte w k r c = ucast (drop_bit (24 - 8 * r) (w ! (k + c)))"

lemma addRoundKey_grid:
  assumes "unat stop = unat start + 3"
  shows "addRoundKey (grid f) w start stop = grid (\<lambda>r c. f r c XOR key_byte w (unat start) r c)"
proof -
  have "[unat start..<Suc (unat stop)] = map (\<lambda>c. unat start + c) [0..<4]"
    using assms map_add_upt [of "unat start" 4] by (simp add: add.commute)
  then show ?thesis
    by (auto simp: addRoundKey_def foldl_map upt_0_4 key_byte_def less_4 two Let_def intro!: grid_cong)
qed

section \<open>The field\<close>

text \<open>A map of bytes that respects \<open>XOR\<close> is determined by its values at the eight powers of 2.\<close>

definition xor_linear :: "(u8 \<Rightarrow> u8) \<Rightarrow> bool" where
  "xor_linear f \<longleftrightarrow> (\<forall>x y. f (x XOR y) = f x XOR f y)"

lemma xor_linearD: "xor_linear f \<Longrightarrow> f (x XOR y) = f x XOR f y"
  by (simp add: xor_linear_def)

lemma xor_linear_0: "xor_linear f \<Longrightarrow> f 0 = 0"
  using xor_linearD [of f 0 0] by simp

lemma xor_linear_xor: "xor_linear f \<Longrightarrow> xor_linear g \<Longrightarrow> xor_linear (\<lambda>b. f b XOR g b)"
  by (simp add: xor_linear_def xor.assoc xor.commute xor.left_commute)

lemma xor_linear_comp: "xor_linear f \<Longrightarrow> xor_linear g \<Longrightarrow> xor_linear (\<lambda>b. f (g b))"
  by (simp add: xor_linear_def)

lemma xor_linear_id: "xor_linear (\<lambda>b. b)" "xor_linear (\<lambda>b. 0)"
  by (simp_all add: xor_linear_def)

definition basis :: "u8 list" where
  "basis = [1, 2, 4, 8, 16, 32, 64, 128]"

lemma basis_nth: "i < 8 \<Longrightarrow> basis ! i = push_bit i 1"
  by (auto simp: basis_def less_Suc_eq numeral_eq_Suc push_bit_eq_mult nth_Cons')

lemma xor_linear_eq:
  assumes "xor_linear f" "xor_linear g" "\<forall>b \<in> set basis. f b = g b"
  shows "f b = g b"
proof -
  have "f (take_bit n b) = g (take_bit n b)" if "n \<le> 8" for n
    using that
  proof (induction n)
    case 0
    then show ?case using assms by (simp add: xor_linear_0)
  next
    case (Suc n)
    have "push_bit n 1 = basis ! n" "n < length basis"
      using Suc.prems basis_nth [of n] by (simp_all add: basis_def)
    then have n: "f (push_bit n 1) = g (push_bit n 1)" using assms(3) by simp
    have "take_bit (Suc n) b = take_bit n b XOR (if bit b n then push_bit n 1 else 0)"
      by (rule bit_word_eqI) (auto simp: bit_simps less_Suc_eq)
    then show ?case
      using Suc n assms by (simp add: xor_linearD xor_linear_0)
  qed
  from this [of 8] show ?thesis by (simp add: take_bit_word_eq_self)
qed

lemma bit_8_7: "(a AND 128 \<noteq> 0) = bit (a :: u8) 7" "(a AND 128 = 0) = (\<not> bit (a :: u8) 7)"
  using and_exp_eq_0_iff_not_bit [of a 7] by simp_all

lemma odd_byte: "(b AND 1 \<noteq> 0) = odd (b :: u8)" "(b AND 1 = 0) = even (b :: u8)"
  by (simp_all add: and_one_eq mod_2_eq_odd)

lemma xtime_linear: "xor_linear xtime"
proof -
  have m: "push_bit (Suc 0) (x XOR y) = push_bit (Suc 0) x XOR push_bit (Suc 0) (y :: u8)" for x y
    by (rule bit_word_eqI) (auto simp: bit_simps)
  have "xtime a = push_bit (Suc 0) a XOR (if bit a 7 then 27 else 0)" for a
    by (simp add: xtime_def bit_8_7)
  then show ?thesis
    unfolding xor_linear_def
    by (simp only: m bit_xor_iff) (simp add: xor.assoc xor.commute xor.left_commute)
qed

text \<open>The loop of \<open>ffMultiply\<close>, linear in either operand.\<close>

definition ff_step :: "u8 \<times> u8 \<times> u8 \<Rightarrow> nat \<Rightarrow> u8 \<times> u8 \<times> u8" where
  "ff_step = (\<lambda>(r, temp, b) i.
     let temp = xtime temp; r = (if b AND 1 \<noteq> 0 then r XOR temp else r) in (r, temp, drop_bit 1 b))"

definition ff_sum :: "u8 \<Rightarrow> u8 \<Rightarrow> u8 \<Rightarrow> nat list \<Rightarrow> u8" where
  "ff_sum r t b xs = fst (foldl ff_step (r, t, b) xs)"

lemma ffMultiply_sum: "ffMultiply a b = ff_sum (if odd b then a else 0) a (drop_bit 1 b) [1..<8]"
  by (simp add: ffMultiply_def ff_sum_def ff_step_def odd_byte case_prod_beta)

lemma ff_sum_simps [simp]:
  "ff_sum r t b [] = r"
  "ff_sum r t b (x # xs) =
     ff_sum (if odd b then r XOR xtime t else r) (xtime t) (drop_bit (Suc 0) b) xs"
  by (simp_all add: ff_sum_def ff_step_def odd_byte Let_def)

lemma drop_bit_xor_8: "drop_bit (Suc 0) (x XOR y) = drop_bit (Suc 0) x XOR drop_bit (Suc 0) (y :: u8)"
  by (rule bit_word_eqI) (auto simp: bit_simps)

lemma odd_xor_8: "odd (x XOR y) = (odd x \<noteq> odd (y :: u8))"
  by (simp add: even_xor_iff)

lemma ff_sum_right:
  "ff_sum (r1 XOR r2) t (b1 XOR b2) xs = ff_sum r1 t b1 xs XOR ff_sum r2 t b2 xs"
proof (induction xs arbitrary: r1 r2 t b1 b2)
  case (Cons x xs)
  let ?r = "\<lambda>r b. if odd b then r XOR xtime t else r"
  have "?r (r1 XOR r2) (b1 XOR b2) = ?r r1 b1 XOR ?r r2 b2"
    by (auto simp: even_xor_iff xor.assoc xor.commute xor.left_commute)
  then show ?case
    using Cons.IH [of "?r r1 b1" "?r r2 b2" "xtime t" "drop_bit (Suc 0) b1" "drop_bit (Suc 0) b2"]
    by (simp add: drop_bit_xor_8)
qed simp

lemma ff_sum_left:
  "ff_sum (r1 XOR r2) (t1 XOR t2) b xs = ff_sum r1 t1 b xs XOR ff_sum r2 t2 b xs"
proof (induction xs arbitrary: r1 r2 t1 t2 b)
  case (Cons x xs)
  let ?r = "\<lambda>r t. if odd b then r XOR xtime t else r"
  have "?r (r1 XOR r2) (t1 XOR t2) = ?r r1 t1 XOR ?r r2 t2"
    by (simp add: xor_linearD [OF xtime_linear] xor.assoc xor.commute xor.left_commute)
  then show ?case
    using Cons.IH [of "?r r1 t1" "?r r2 t2" "xtime t1" "xtime t2" "drop_bit (Suc 0) b"]
    by (simp add: xor_linearD [OF xtime_linear])
qed simp

lemma ffMultiply_right: "xor_linear (ffMultiply a)"
  unfolding xor_linear_def
proof (intro allI)
  fix x y :: u8
  define xs where "xs = [1..<8 :: nat]"
  have "(if odd (x XOR y) then a else 0) = (if odd x then a else 0) XOR (if odd y then a else 0)"
    by (simp add: even_xor_iff)
  then show "ffMultiply a (x XOR y) = ffMultiply a x XOR ffMultiply a y"
    using ff_sum_right [of "if odd x then a else 0" "if odd y then a else 0" a "drop_bit 1 x" "drop_bit 1 y" xs]
    by (simp only: ffMultiply_sum drop_bit_xor_8 One_nat_def xs_def)
qed

lemma ffMultiply_left: "xor_linear (\<lambda>a. ffMultiply a b)"
  unfolding xor_linear_def
proof (intro allI)
  fix x y :: u8
  define xs where "xs = [1..<8 :: nat]"
  have "(if odd b then x XOR y else 0) = (if odd b then x else 0) XOR (if odd b then y else 0)" by simp
  then show "ffMultiply (x XOR y) b = ffMultiply x b XOR ffMultiply y b"
    using ff_sum_left [of "if odd b then x else 0" "if odd b then y else 0" x y "drop_bit 1 b" xs]
    by (simp only: ffMultiply_sum xs_def)
qed

lemma basis_xtime: "basis = map (\<lambda>i. (xtime ^^ i) 1) [0..<8]"
  by code_simp

lemma ffMultiply_1: "ffMultiply 1 b = b"
proof -
  have "\<forall>x \<in> set basis. ffMultiply 1 x = x" by code_simp
  then show ?thesis by (rule xor_linear_eq [OF ffMultiply_right xor_linear_id(1)])
qed

lemma ffMultiply_xtime_left: "ffMultiply (xtime a) b = xtime (ffMultiply a b)"
proof -
  have x: "ff_sum (xtime r) (xtime t) b xs = xtime (ff_sum r t b xs)" for r t b xs
    by (induction xs arbitrary: r t b) (simp_all flip: xor_linearD [OF xtime_linear])
  have "(if odd b then xtime a else 0) = xtime (if odd b then a else 0)"
    by (simp add: xor_linear_0 [OF xtime_linear])
  then show ?thesis by (simp only: ffMultiply_sum x)
qed

lemma ffMultiply_pow_left: "ffMultiply ((xtime ^^ i) a) b = (xtime ^^ i) (ffMultiply a b)"
  by (induction i) (simp_all add: ffMultiply_xtime_left)

text \<open>On powers of \<open>x\<close> the product adds exponents, so it commutes there and by linearity everywhere.\<close>

lemma ffMultiply_commute: "ffMultiply a b = ffMultiply b a"
proof -
  have "ffMultiply x y = ffMultiply y x" if xy: "x \<in> set basis" "y \<in> set basis" for x y
  proof -
    obtain i j where "x = (xtime ^^ i) 1" "y = (xtime ^^ j) 1" using xy unfolding basis_xtime by auto
    moreover have "(xtime ^^ i) ((xtime ^^ j) 1) = (xtime ^^ j) ((xtime ^^ i) 1)" for i j
      by (metis add.commute comp_apply funpow_add)
    ultimately show ?thesis by (simp add: ffMultiply_pow_left ffMultiply_1)
  qed
  then have "ffMultiply x b = ffMultiply b x" if "x \<in> set basis" for x
    using that by (intro xor_linear_eq [OF ffMultiply_right ffMultiply_left]) blast
  then show ?thesis by (intro xor_linear_eq [OF ffMultiply_left ffMultiply_right]) blast
qed

lemma ffMultiply_xtime: "ffMultiply a (xtime b) = xtime (ffMultiply a b)"
  by (metis ffMultiply_commute ffMultiply_xtime_left)

lemma ffMultiply_2: "ffMultiply 2 b = xtime b"
proof -
  have "xtime 1 = 2" by code_simp
  then show ?thesis using ffMultiply_xtime_left [of 1 b] by (simp add: ffMultiply_1)
qed

lemma ffMultiply_assoc: "ffMultiply (ffMultiply a b) c = ffMultiply a (ffMultiply b c)"
proof -
  have p: "ffMultiply a ((xtime ^^ i) b) = (xtime ^^ i) (ffMultiply a b)" for a b i
    by (induction i) (simp_all add: ffMultiply_xtime)
  have one: "ffMultiply a 1 = a" for a
    using ffMultiply_commute [of a 1] ffMultiply_1 by simp
  have "\<forall>x \<in> set basis. ffMultiply (ffMultiply a b) x = ffMultiply a (ffMultiply b x)"
    unfolding basis_xtime by (auto simp: p one)
  then show ?thesis
    by (intro xor_linear_eq [where f = "ffMultiply (ffMultiply a b)"])
      (auto intro: ffMultiply_right xor_linear_comp [OF ffMultiply_right ffMultiply_right])
qed

text \<open>The matrix of \<open>invMixColumns\<close> is the inverse of that of \<open>mixColumns\<close>.\<close>

lemma mix_inverse:
  "ffMultiply 14 (xtime b) XOR ffMultiply 11 b XOR ffMultiply 13 b XOR ffMultiply 9 (ffMultiply 3 b) = b"
  "ffMultiply 14 (ffMultiply 3 b) XOR ffMultiply 11 (xtime b) XOR ffMultiply 13 b XOR ffMultiply 9 b = 0"
  "ffMultiply 14 b XOR ffMultiply 11 (ffMultiply 3 b) XOR ffMultiply 13 (xtime b) XOR ffMultiply 9 b = 0"
  "ffMultiply 14 b XOR ffMultiply 11 b XOR ffMultiply 13 (ffMultiply 3 b) XOR ffMultiply 9 (xtime b) = 0"
proof -
  note l = xor_linearD [OF ffMultiply_left] ffMultiply_assoc ffMultiply_2 ffMultiply_1 xor.assoc
    xor_linear_0 [OF ffMultiply_left]
  have c: "ffMultiply 14 2 XOR 11 XOR 13 XOR ffMultiply 9 3 = 1"
    "ffMultiply 14 3 XOR ffMultiply 11 2 XOR 13 XOR 9 = 0"
    "14 XOR ffMultiply 11 3 XOR ffMultiply 13 2 XOR 9 = 0"
    "14 XOR 11 XOR ffMultiply 13 3 XOR ffMultiply 9 2 = 0" by code_simp+
  show "ffMultiply 14 (xtime b) XOR ffMultiply 11 b XOR ffMultiply 13 b XOR
      ffMultiply 9 (ffMultiply 3 b) = b"
    using arg_cong [OF c(1), of "\<lambda>k. ffMultiply k b"] by (simp only: l)
  show "ffMultiply 14 (ffMultiply 3 b) XOR ffMultiply 11 (xtime b) XOR ffMultiply 13 b XOR
      ffMultiply 9 b = 0"
    using arg_cong [OF c(2), of "\<lambda>k. ffMultiply k b"] by (simp only: l)
  show "ffMultiply 14 b XOR ffMultiply 11 (ffMultiply 3 b) XOR ffMultiply 13 (xtime b) XOR
      ffMultiply 9 b = 0"
    using arg_cong [OF c(3), of "\<lambda>k. ffMultiply k b"] by (simp only: l)
  show "ffMultiply 14 b XOR ffMultiply 11 b XOR ffMultiply 13 (ffMultiply 3 b) XOR
      ffMultiply 9 (xtime b) = 0"
    using arg_cong [OF c(4), of "\<lambda>k. ffMultiply k b"] by (simp only: l)
qed

lemma mix_matrices:
  "ffMultiply 14 (xtime a XOR ffMultiply 3 b XOR c XOR d) XOR
   ffMultiply 11 (xtime b XOR ffMultiply 3 c XOR d XOR a) XOR
   ffMultiply 13 (xtime c XOR ffMultiply 3 d XOR a XOR b) XOR
   ffMultiply 9 (xtime d XOR ffMultiply 3 a XOR b XOR c) = a" (is "?l = a")
proof -
  have "?l =
    (ffMultiply 14 (xtime a) XOR ffMultiply 11 a XOR ffMultiply 13 a XOR ffMultiply 9 (ffMultiply 3 a)) XOR
    (ffMultiply 14 (ffMultiply 3 b) XOR ffMultiply 11 (xtime b) XOR ffMultiply 13 b XOR ffMultiply 9 b) XOR
    (ffMultiply 14 c XOR ffMultiply 11 (ffMultiply 3 c) XOR ffMultiply 13 (xtime c) XOR ffMultiply 9 c) XOR
    (ffMultiply 14 d XOR ffMultiply 11 d XOR ffMultiply 13 (ffMultiply 3 d) XOR ffMultiply 9 (xtime d))"
    by (simp only: xor_linearD [OF ffMultiply_right] xor.assoc xor.commute xor.left_commute)
  then show ?thesis by (simp only: mix_inverse xor.right_neutral)
qed

lemma inv_mix_col_mix_col: "r < 4 \<Longrightarrow> inv_mix_col (mix_col b) r = b r"
  using mix_matrices [of "b 0" "b 1" "b 2" "b 3"] mix_matrices [of "b 1" "b 2" "b 3" "b 0"]
    mix_matrices [of "b 2" "b 3" "b 0" "b 1"] mix_matrices [of "b 3" "b 0" "b 1" "b 2"]
  by (auto simp: less_4 inv_mix_col_def mix_col_def two)

section \<open>The tables\<close>

definition all_u8 :: "u8 list" where
  "all_u8 = [
     0, 1, 2, 3, 4, 5, 6, 7, 8, 9, 10, 11, 12, 13, 14, 15,
     16, 17, 18, 19, 20, 21, 22, 23, 24, 25, 26, 27, 28, 29, 30, 31,
     32, 33, 34, 35, 36, 37, 38, 39, 40, 41, 42, 43, 44, 45, 46, 47,
     48, 49, 50, 51, 52, 53, 54, 55, 56, 57, 58, 59, 60, 61, 62, 63,
     64, 65, 66, 67, 68, 69, 70, 71, 72, 73, 74, 75, 76, 77, 78, 79,
     80, 81, 82, 83, 84, 85, 86, 87, 88, 89, 90, 91, 92, 93, 94, 95,
     96, 97, 98, 99, 100, 101, 102, 103, 104, 105, 106, 107, 108, 109, 110, 111,
     112, 113, 114, 115, 116, 117, 118, 119, 120, 121, 122, 123, 124, 125, 126, 127,
     128, 129, 130, 131, 132, 133, 134, 135, 136, 137, 138, 139, 140, 141, 142, 143,
     144, 145, 146, 147, 148, 149, 150, 151, 152, 153, 154, 155, 156, 157, 158, 159,
     160, 161, 162, 163, 164, 165, 166, 167, 168, 169, 170, 171, 172, 173, 174, 175,
     176, 177, 178, 179, 180, 181, 182, 183, 184, 185, 186, 187, 188, 189, 190, 191,
     192, 193, 194, 195, 196, 197, 198, 199, 200, 201, 202, 203, 204, 205, 206, 207,
     208, 209, 210, 211, 212, 213, 214, 215, 216, 217, 218, 219, 220, 221, 222, 223,
     224, 225, 226, 227, 228, 229, 230, 231, 232, 233, 234, 235, 236, 237, 238, 239,
     240, 241, 242, 243, 244, 245, 246, 247, 248, 249, 250, 251, 252, 253, 254, 255]"

lemma in_all_u8: "b \<in> set all_u8"
proof -
  have "map unat all_u8 = [0..<256]" by (simp add: all_u8_def upt_rec)
  then have "unat ` set all_u8 = {0..<256}" by (metis set_map set_upt)
  then have "unat b \<in> unat ` set all_u8" by simp
  then show ?thesis by (simp only: inj_image_mem_iff [OF inj_unsigned])
qed

lemma all_bytes: "list_all P all_u8 \<Longrightarrow> P b"
  using in_all_u8 [of b] by (simp add: list_all_iff)

lemma inv_sub_sub: "inv_sub_byte (sub_byte b) = b"
  by (rule all_bytes) code_simp

lemma sub_inv_sub: "sub_byte (inv_sub_byte b) = b"
  by (rule all_bytes) code_simp

text \<open>Each round constant is the previous one times \<open>x\<close>, in the top byte.\<close>

fun rcon_chain :: "u32 list \<Rightarrow> bool" where
  "rcon_chain (x # y # xs) \<longleftrightarrow>
     y = push_bit 24 (ucast (xtime (ucast (drop_bit 24 x)))) \<and> rcon_chain (y # xs)"
| "rcon_chain _ \<longleftrightarrow> True"

lemma rcon_chain_nth:
  "rcon_chain xs \<Longrightarrow> Suc i < length xs \<Longrightarrow>
   xs ! Suc i = push_bit 24 (ucast (xtime (ucast (drop_bit 24 (xs ! i)))))"
proof (induction xs arbitrary: i rule: rcon_chain.induct)
  case (1 x y xs)
  then show ?case by (cases i) auto
qed auto

lemma Rcon_chain: "rcon_chain (tl Rcon)" "length Rcon = 52" "Rcon ! 1 = 0x01000000"
  by code_simp+

section \<open>Rounds\<close>

lemma round_undone:
  assumes "unat stop = unat start + 3"
  shows "invSubBytes (invShiftRows (addRoundKey (addRoundKey (shiftRows (subBytes (grid f))) w start stop)
    w start stop)) = grid f"
proof -
  have a: "addRoundKey (addRoundKey (grid g) w start stop) w start stop = grid g" for g
    by (simp add: addRoundKey_grid assms xor.assoc)
  have "((c + r) mod 4 + 4 - r) mod 4 = c" "((c + 4 - r) mod 4 + r) mod 4 = c" if "r < 4" "c < 4" for r c :: nat
    using that by (auto simp: less_4)
  then show ?thesis
    by (simp add: subBytes_grid shiftRows_grid a invShiftRows_grid invSubBytes_grid inv_sub_sub)
      (auto intro!: grid_cong)
qed

lemma mix_undone: "invMixColumns (mixColumns (grid f)) = grid f"
  by (auto simp: mixColumns_grid invMixColumns_grid inv_mix_col_mix_col intro!: grid_cong)

section \<open>Cipher and inverse cipher\<close>

lemma round_key_range: "unat (x * 4 + 3 :: u8) = unat (x * 4 :: u8) + 3"
proof -
  have "unat (x * 4 :: u8) = 4 * (unat x mod 64)"
    by (simp add: unat_word_ariths mult_mod_right mult.commute)
  then have "unat (x * 4 :: u8) + 3 < 2 ^ LENGTH(8)" by simp
  from unat_add_of_nat [OF this] show ?thesis by simp
qed

definition add_key :: "u32 list \<Rightarrow> u8 \<Rightarrow> aes_state \<Rightarrow> aes_state" where
  "add_key w i s = addRoundKey s w (i * 4) (i * 4 + 3)"

definition enc_round :: "u32 list \<Rightarrow> u8 \<Rightarrow> aes_state \<Rightarrow> aes_state" where
  "enc_round w i s = add_key w i (mixColumns (shiftRows (subBytes s)))"

definition dec_round :: "u32 list \<Rightarrow> u8 \<Rightarrow> aes_state \<Rightarrow> aes_state" where
  "dec_round w i s = invMixColumns (add_key w i (invSubBytes (invShiftRows s)))"

lemma Cipher_rounds:
  "Cipher input output w 4 Nr =
     store_state (add_key w Nr (shiftRows (subBytes
       (foldl (\<lambda>s i. enc_round w (of_nat i) s) (add_key w 0 (load_state input)) [1..<unat Nr])))) output"
  by (simp add: Cipher_def enc_round_def add_key_def algebra_simps)

lemma invCipher_rounds:
  "Nr \<noteq> 0 \<Longrightarrow> invCipher input output w 4 Nr =
     store_state (add_key w 0 (invSubBytes (invShiftRows
       (foldl (\<lambda>s i. dec_round w (of_nat i) s) (add_key w Nr (load_state input)) (rev [1..<unat Nr]))))) output"
proof -
  assume "Nr \<noteq> 0"
  then have "Suc (unat (Nr - 1)) = unat Nr"
    by (metis Suc_pred' unat_gt_0 unat_minus_one)
  then show ?thesis by (simp add: invCipher_def dec_round_def add_key_def algebra_simps)
qed

inductive is_grid :: "aes_state \<Rightarrow> bool" where
  is_grid: "is_grid (grid f)"

lemma add_key_grid: "is_grid s \<Longrightarrow> is_grid (add_key w i s) \<and> add_key w i (add_key w i s) = s"
  by (auto elim!: is_grid.cases simp: add_key_def addRoundKey_grid round_key_range xor.assoc is_grid)

lemma round_grid:
  assumes "is_grid s"
  shows "is_grid (shiftRows (subBytes s))" "is_grid (mixColumns s)"
    "invSubBytes (invShiftRows (shiftRows (subBytes s))) = s" "invMixColumns (mixColumns s) = s"
proof -
  obtain f where s: "s = grid f" using assms by (auto elim: is_grid.cases)
  show "is_grid (shiftRows (subBytes s))" "is_grid (mixColumns s)"
    unfolding s by (simp_all add: subBytes_grid shiftRows_grid mixColumns_grid is_grid)
  show "invMixColumns (mixColumns s) = s" unfolding s by (rule mix_undone)
  obtain g where g: "shiftRows (subBytes s) = grid g" by (simp add: s subBytes_grid shiftRows_grid)
  have "addRoundKey (addRoundKey (grid g) w 0 3) w 0 3 = grid g" for w
    by (simp add: addRoundKey_grid xor.assoc)
  then show "invSubBytes (invShiftRows (shiftRows (subBytes s))) = s"
    using round_undone [of 3 0 f "[]"] by (simp add: g s [symmetric])
qed

lemma dec_enc_round:
  "is_grid s \<Longrightarrow> dec_round w i (shiftRows (subBytes (enc_round w i s))) = shiftRows (subBytes s)"
  by (simp add: dec_round_def enc_round_def round_grid add_key_grid)

lemma enc_round_grid: "is_grid s \<Longrightarrow> is_grid (enc_round w i s)"
  by (simp add: enc_round_def round_grid add_key_grid)

lemma enc_rounds_grid: "is_grid s \<Longrightarrow> is_grid (foldl (\<lambda>s i. enc_round w (of_nat i) s) s is)"
  by (induction "is" arbitrary: s) (simp_all add: enc_round_grid)

lemma dec_enc_rounds:
  "is_grid s \<Longrightarrow>
   foldl (\<lambda>s i. dec_round w (of_nat i) s)
     (shiftRows (subBytes (foldl (\<lambda>s i. enc_round w (of_nat i) s) s is))) (rev is) =
   shiftRows (subBytes s)"
  by (induction "is" rule: rev_induct) (simp_all add: dec_enc_round enc_rounds_grid)

lemma load_store_grid:
  assumes "length out = 16"
  shows "load_state (store_state (grid f) out) = grid f"
proof -
  have "(r + 4 * c) div 4 = c" "(r + 4 * c) mod 4 = r" "r + 4 * c < 16" if "r < 4" "c < 4" for r c :: nat
    using that by auto
  then show ?thesis
    using assms by (auto simp: store_state_grid load_state_grid intro!: grid_cong)
qed

lemma store_load:
  assumes "length input = 16" "length out = 16"
  shows "store_state (load_state input) out = input"
proof -
  have "i mod 4 + 4 * (i div 4) = i" for i :: nat by simp
  with assms show ?thesis
    by (simp add: load_state_grid store_state_grid list_eq_iff_nth_eq)
qed

section \<open>The key schedule\<close>

definition next_word :: "nat \<Rightarrow> nat \<Rightarrow> u32 \<Rightarrow> u32" where
  "next_word Nk i temp =
     (if i mod Nk = 0 then subWord (rotWord temp) XOR Rcon ! (i div Nk)
      else if 6 < Nk \<and> i mod Nk = 4 then subWord temp else temp)"

text \<open>The schedule of FIPS 197: the key, and then each word from the last and the one \<open>Nk\<close> back.\<close>

definition key_schedule :: "u8 list \<Rightarrow> nat \<Rightarrow> u32 list \<Rightarrow> bool" where
  "key_schedule key Nk w \<longleftrightarrow>
     (\<forall>i < length w. w ! i =
        (if i < Nk then key_word key i else w ! (i - Nk) XOR next_word Nk i (w ! (i - 1))))"

lemma key_schedule_unique:
  assumes "key_schedule key Nk v" "key_schedule key Nk w" "length v = length w" "0 < Nk"
  shows "v = w"
proof (rule nth_equalityI [OF assms(3)])
  fix i show "i < length v \<Longrightarrow> v ! i = w ! i"
  proof (induction i rule: less_induct)
    case (less i)
    show ?case
    proof (cases "i < Nk")
      case False
      then have "v ! (i - Nk) = w ! (i - Nk)" "v ! (i - 1) = w ! (i - 1)"
        using less assms(4) by simp_all
      then show ?thesis using less.prems assms False by (simp add: key_schedule_def)
    qed (use less.prems assms in \<open>simp add: key_schedule_def\<close>)
  qed
qed

lemma expand_step_next: "expand_step Nk w i = w[i := w ! (i - Nk) XOR next_word Nk i (w ! (i - 1))]"
  by (simp add: expand_step_def next_word_def Let_def)

lemma length_fill: "length (foldl (\<lambda>w i. w[i := f i]) w is) = length w"
  by (induction "is" arbitrary: w) simp_all

lemma length_expand: "length (foldl (expand_step Nk) w is) = length w"
  by (induction "is" arbitrary: w) (simp_all add: expand_step_next)

lemma fill_nth: "i < length w \<Longrightarrow>
  foldl (\<lambda>w i. w[i := f i]) w [0..<n] ! i = (if i < n then f i else w ! i)"
  by (induction n) (auto simp: nth_list_update length_fill less_Suc_eq)

lemma expand_nth:
  assumes "0 < Nk"
  shows "n \<le> length w \<Longrightarrow> Nk \<le> n \<Longrightarrow> i < n \<Longrightarrow>
    foldl (expand_step Nk) w [Nk..<n] ! i =
      (if i < Nk then w ! i
       else foldl (expand_step Nk) w [Nk..<n] ! (i - Nk) XOR
         next_word Nk i (foldl (expand_step Nk) w [Nk..<n] ! (i - 1)))"
proof (induction n arbitrary: i)
  case (Suc n)
  show ?case
  proof (cases "Nk \<le> n")
    case True
    let ?w = "foldl (expand_step Nk) w [Nk..<n]"
    have e: "foldl (expand_step Nk) w [Nk..<Suc n] = ?w[n := ?w ! (n - Nk) XOR next_word Nk n (?w ! (n - 1))]"
      using True by (simp add: expand_step_next)
    show ?thesis
    proof (cases "i = n")
      case True
      then show ?thesis
        using Suc.prems assms \<open>Nk \<le> n\<close> unfolding e by (simp add: length_expand nth_list_update)
    next
      case False
      then have "i < n" "i - Nk \<noteq> n" "i - 1 \<noteq> n" using Suc.prems by simp_all
      then show ?thesis using Suc.IH [of i] Suc.prems True unfolding e by (simp add: nth_list_update)
    qed
  next
    case False
    then have "Nk = Suc n" using Suc.prems by simp
    then show ?thesis using Suc.prems by simp
  qed
qed simp

lemma keyExpansion_schedule:
  assumes "0 < unat Nk" "unat Nk \<le> unat Nb * (unat Nr + 1)" "length w = unat Nb * (unat Nr + 1)"
  shows "key_schedule key (unat Nk) (keyExpansion key w Nb Nk Nr)"
    "length (keyExpansion key w Nb Nk Nr) = length w"
  unfolding key_schedule_def
  using assms expand_nth [of "unat Nk" "length w" "foldl (\<lambda>w i. w[i := key_word key i]) w [0..<unat Nk]"]
  by (simp_all add: keyExpansion_def length_expand length_fill fill_nth)
section \<open>The test case of FIPS 197, appendix C.1\<close>

text \<open>The round keys, and the State after each of the rounds 0 to 9.\<close>

definition fips_w :: "u32 list" where
  "fips_w = [
     0x00010203, 0x04050607, 0x08090a0b, 0x0c0d0e0f,
     0xd6aa74fd, 0xd2af72fa, 0xdaa678f1, 0xd6ab76fe,
     0xb692cf0b, 0x643dbdf1, 0xbe9bc500, 0x6830b3fe,
     0xb6ff744e, 0xd2c2c9bf, 0x6c590cbf, 0x0469bf41,
     0x47f7f7bc, 0x95353e03, 0xf96c32bc, 0xfd058dfd,
     0x3caaa3e8, 0xa99f9deb, 0x50f3af57, 0xadf622aa,
     0x5e390f7d, 0xf7a69296, 0xa7553dc1, 0x0aa31f6b,
     0x14f9701a, 0xe35fe28c, 0x440adf4d, 0x4ea9c026,
     0x47438735, 0xa41c65b9, 0xe016baf4, 0xaebf7ad2,
     0x549932d1, 0xf0855768, 0x1093ed9c, 0xbe2c974e,
     0x13111d7f, 0xe3944a17, 0xf307a78b, 0x4d2b30c5]"

definition fips_states :: "aes_state list" where
  "fips_states = [
     [[0x00, 0x40, 0x80, 0xc0], [0x10, 0x50, 0x90, 0xd0], [0x20, 0x60, 0xa0, 0xe0], [0x30, 0x70, 0xb0, 0xf0]],
     [[0x89, 0x85, 0x2d, 0xcb], [0xd8, 0x5a, 0x18, 0x12], [0x10, 0xce, 0x43, 0x8f], [0xe8, 0x68, 0xd8, 0xe4]],
     [[0x49, 0x55, 0xda, 0x1f], [0x15, 0xe5, 0xca, 0x0a], [0x59, 0xd7, 0x94, 0x63], [0x8f, 0xa0, 0xfa, 0xf7]],
     [[0xfa, 0x25, 0x40, 0x57], [0x63, 0xb3, 0x66, 0x24], [0x6a, 0x39, 0x8a, 0x4d], [0x28, 0xc9, 0x31, 0x17]],
     [[0x24, 0x69, 0x6e, 0x88], [0x72, 0x66, 0xd2, 0x42], [0x40, 0xb3, 0x75, 0x5b], [0x23, 0xfa, 0x32, 0x6c]],
     [[0xc8, 0x9b, 0x25, 0xb0], [0x16, 0x7a, 0x02, 0x26], [0x77, 0xc9, 0x79, 0x19], [0xbc, 0x3b, 0x92, 0x96]],
     [[0xc6, 0xf7, 0xcc, 0x84], [0x2f, 0x5e, 0x79, 0xf9], [0xe1, 0xed, 0x39, 0xcf], [0x09, 0xc3, 0x5d, 0x5d]],
     [[0xd1, 0x79, 0xb4, 0xd6], [0x87, 0xc4, 0x55, 0x6f], [0x6c, 0x30, 0x94, 0xf4], [0x0f, 0x0a, 0xad, 0x1f]],
     [[0xfd, 0x05, 0x35, 0xf1], [0xe3, 0xe5, 0x47, 0xfe], [0xba, 0xd0, 0x96, 0x37], [0xd2, 0xd7, 0x4e, 0xf1]],
     [[0xbd, 0xf2, 0x0b, 0x8b], [0x6e, 0xb5, 0x61, 0x10], [0x7c, 0x77, 0x21, 0xb6], [0x3d, 0x9e, 0x6e, 0x89]]]"

definition fips_ciphertext :: "u8 list" where
  "fips_ciphertext = [0x69, 0xc4, 0xe0, 0xd8, 0x6a, 0x7b, 0x04, 0x30,
     0xd8, 0xcd, 0xb7, 0x80, 0x70, 0xb4, 0xc5, 0x5a]"

lemma fips_schedule: "key_schedule key128 4 fips_w"
proof -
  have "list_all (\<lambda>i. fips_w ! i = (if i < 4 then key_word key128 i
      else fips_w ! (i - 4) XOR next_word 4 i (fips_w ! (i - 1)))) [0..<44]" by code_simp
  moreover have "length fips_w = 44" by code_simp
  ultimately show ?thesis
    unfolding key_schedule_def list_all_iff set_upt by simp
qed

lemma fips_expansion: "keyExpansion key128 (replicate 44 0) 4 4 10 = fips_w"
proof (rule key_schedule_unique [of key128 4])
  have "length fips_w = 44" by code_simp
  then show "length (keyExpansion key128 (replicate 44 0) 4 4 10) = length fips_w"
    using keyExpansion_schedule(2) [of 4 4 10 "replicate 44 0" key128] by simp
  show "key_schedule key128 4 (keyExpansion key128 (replicate 44 0) 4 4 10)"
    using keyExpansion_schedule(1) [of 4 4 10 "replicate 44 0" key128] by simp
qed (simp_all add: fips_schedule)

text \<open>A round with the multiplication by 3 done as \<open>xtime b XOR b\<close>, to evaluate it on constants.\<close>

definition fast_round :: "u32 list \<Rightarrow> u8 \<Rightarrow> aes_state \<Rightarrow> aes_state" where
  "fast_round w i s =
     (let t = shiftRows (subBytes s)
      in add_key w i (map (\<lambda>(r0, r1, r2, r3). map (\<lambda>c.
           xtime (t ! r0 ! c) XOR xtime (t ! r1 ! c) XOR t ! r1 ! c XOR t ! r2 ! c XOR t ! r3 ! c) [0, 1, 2, 3])
         [(0, 1, 2, 3), (1, 2, 3, 0), (2, 3, 0, 1), (3, 0, 1, 2)]))"

lemma fast_round: "is_grid s \<Longrightarrow> enc_round w i s = fast_round w i s"
proof -
  have m: "ffMultiply 3 b = xtime b XOR b" for b
    using xor_linearD [OF ffMultiply_left [of b], of 2 1] by (simp add: ffMultiply_2 ffMultiply_1)
  assume "is_grid s"
  then obtain f where "shiftRows (subBytes s) = grid f"
    using round_grid(1) by (auto elim: is_grid.cases)
  moreover have g: "grid f ! r ! c = f r c" if "r < 4" "c < 4" for r c
    using cell_grid [OF that] by (simp add: cell_def)
  have "mixColumns (grid f) = map (\<lambda>(r0, r1, r2, r3). map (\<lambda>c. xtime (grid f ! r0 ! c) XOR
      xtime (grid f ! r1 ! c) XOR grid f ! r1 ! c XOR grid f ! r2 ! c XOR grid f ! r3 ! c) [0, 1, 2, 3])
    [(0, 1, 2, 3), (1, 2, 3, 0), (2, 3, 0, 1), (3, 0, 1, 2)]"
    unfolding mixColumns_grid by (simp add: mix_col_def m g two xor.assoc) (simp add: grid_def upt_0_4 two)
  ultimately show ?thesis by (simp only: enc_round_def fast_round_def Let_def)
qed

definition fips_round :: "nat \<Rightarrow> bool" where
  "fips_round k \<longleftrightarrow> fast_round fips_w (of_nat (Suc k)) (fips_states ! k) = fips_states ! Suc k"

lemma fips_round_0: "fips_round 0" by code_simp
lemma fips_round_1: "fips_round 1" by code_simp
lemma fips_round_2: "fips_round 2" by code_simp
lemma fips_round_3: "fips_round 3" by code_simp
lemma fips_round_4: "fips_round 4" by code_simp
lemma fips_round_5: "fips_round 5" by code_simp
lemma fips_round_6: "fips_round 6" by code_simp
lemma fips_round_7: "fips_round 7" by code_simp
lemma fips_round_8: "fips_round 8" by code_simp

lemma fips_first: "add_key fips_w 0 (load_state plaintext) = fips_states ! 0"
  by code_simp

lemma fips_last: "store_state (add_key fips_w 10 (shiftRows (subBytes (fips_states ! 9)))) (replicate 16 0) =
  fips_ciphertext"
  by code_simp

lemma fips_rounds:
  "k \<le> 9 \<Longrightarrow> foldl (\<lambda>s i. enc_round fips_w (of_nat i) s) (fips_states ! 0) [1..<Suc k] =
     fips_states ! k \<and> is_grid (fips_states ! k)"
proof (induction k)
  case 0
  have "is_grid (add_key fips_w 0 (load_state plaintext))"
    by (simp add: add_key_grid load_state_grid is_grid)
  then show ?case by (simp add: fips_first)
next
  case (Suc k)
  have "k \<in> {0, 1, 2, 3, 4, 5, 6, 7, 8}" using Suc.prems by auto
  then have "fips_round k"
    using fips_round_0 fips_round_1 fips_round_2 fips_round_3 fips_round_4 fips_round_5 fips_round_6
      fips_round_7 fips_round_8 by (elim insertE emptyE) (simp_all only:)
  then have "enc_round fips_w (of_nat (Suc k)) (fips_states ! k) = fips_states ! Suc k"
    using Suc by (simp add: fips_round_def fast_round)
  moreover from this have "is_grid (fips_states ! Suc k)"
    using Suc enc_round_grid [of "fips_states ! k" fips_w "of_nat (Suc k)"] by simp
  ultimately show ?case using Suc by simp
qed

lemma fips_cipher: "Cipher plaintext (replicate 16 0) fips_w 4 10 = fips_ciphertext"
  using fips_rounds [of 9] fips_last by (simp add: Cipher_rounds fips_first)

section \<open>Properties\<close>

text \<open>C23: the program computes the known answer of FIPS 197, appendix C.1: what it puts on the
  output register is the ciphertext of the standard for the key and plaintext of the standard.\<close>

theorem aes_known_answer:
  "writes_of (aes_main d) = writes_of d @
     map (\<lambda>b. WriteWord 0xaaaaa008 (ucast b)) [0x69, 0xc4, 0xe0, 0xd8, 0x6a, 0x7b, 0x04, 0x30,
       0xd8, 0xcd, 0xb7, 0x80, 0x70, 0xb4, 0xc5, 0x5a :: u8]"
proof -
  have p: "writes_of (print a d) = writes_of d @ [WriteWord 0xaaaaa008 a]" for a d
    by (simp add: print_def writes_of_def push_bit_eq_mult)
  have f: "writes_of (foldl (\<lambda>d i. print (ucast (c ! i)) d) d [0..<n]) =
      writes_of d @ map (\<lambda>i. WriteWord 0xaaaaa008 (ucast (c ! i))) [0..<n]" for c :: "u8 list" and n
    by (induction n) (simp_all add: p)
  have m: "map (\<lambda>i. WriteWord 0xaaaaa008 (ucast (c ! i))) [0..<length c] =
      map (\<lambda>b. WriteWord 0xaaaaa008 (ucast b)) c" for c :: "u8 list"
    by (rule nth_equalityI) simp_all
  have "length fips_ciphertext = 16" by code_simp
  then have "writes_of (foldl (\<lambda>d i. print (ucast (fips_ciphertext ! i)) d) d [0..<16]) =
      writes_of d @ map (\<lambda>b. WriteWord 0xaaaaa008 (ucast b)) fips_ciphertext"
    using f [of fips_ciphertext 16] m [of fips_ciphertext] by (simp only:)
  then show ?thesis
    by (simp only: aes_main_def Let_def fips_expansion fips_cipher fips_ciphertext_def)
qed

text \<open>C9: \<open>invCipher\<close> undoes \<open>Cipher\<close> on every block of 16 bytes, for every array of round keys and
  every number of rounds but 0, whatever the output arrays held before.\<close>

theorem invCipher_Cipher:
  assumes "length input = 16" "length out1 = 16" "length out2 = 16" "Nr \<noteq> 0"
  shows "invCipher (Cipher input out1 w 4 Nr) out2 w 4 Nr = input"
proof -
  define s where "s = add_key w 0 (load_state input)"
  define t where "t = foldl (\<lambda>s i. enc_round w (of_nat i) s) s [1..<unat Nr]"
  have l: "is_grid (load_state input)" by (simp add: load_state_grid is_grid)
  then have s: "is_grid s" by (simp add: s_def add_key_grid)
  then have t: "is_grid t" by (simp add: t_def enc_rounds_grid)
  then obtain f where f: "add_key w Nr (shiftRows (subBytes t)) = grid f"
    using add_key_grid [OF round_grid(1) [OF t]] by (metis is_grid.cases)
  have "load_state (Cipher input out1 w 4 Nr) = add_key w Nr (shiftRows (subBytes t))"
    using load_store_grid [OF assms(2), of f]
    by (simp only: Cipher_rounds f s_def [symmetric] t_def [symmetric])
  then have "invCipher (Cipher input out1 w 4 Nr) out2 w 4 Nr =
      store_state (add_key w 0 (invSubBytes (invShiftRows (shiftRows (subBytes s))))) out2"
    using assms(4) add_key_grid [OF round_grid(1) [OF t]] dec_enc_rounds [OF s]
    by (simp add: invCipher_rounds t_def)
  also have "\<dots> = store_state (load_state input) out2"
    using add_key_grid [OF l] by (simp add: round_grid(3) [OF s]) (simp add: s_def)
  finally show ?thesis using assms store_load by simp
qed

text \<open>C13: the key expansion is that of FIPS 197, section 5.2: the key's words first, then each word
  the one \<open>Nk\<close> back xor the last one, rotated, substituted and xored with the round constant at
  multiples of \<open>Nk\<close>, and only substituted half-way between them when the key is longer than 6 words.\<close>

theorem keyExpansion_fips:
  assumes "0 < unat Nk" "unat Nk \<le> unat Nb * (unat Nr + 1)" "length w = unat Nb * (unat Nr + 1)"
  shows "let W = keyExpansion key w Nb Nk Nr in length W = length w \<and>
    (\<forall>i < unat Nk. W ! i = key_word key i) \<and>
    (\<forall>i. unat Nk \<le> i \<and> i < length w \<longrightarrow> W ! i = W ! (i - unat Nk) XOR
      (if i mod unat Nk = 0 then subWord (rotWord (W ! (i - 1))) XOR Rcon ! (i div unat Nk)
       else if 6 < unat Nk \<and> i mod unat Nk = 4 then subWord (W ! (i - 1)) else W ! (i - 1)))"
  using keyExpansion_schedule [OF assms, of key] assms
  by (auto simp: Let_def key_schedule_def next_word_def)

text \<open>\<open>ffMultiply\<close> is the multiplication of the field of 256 elements whose addition is
  \<open>ffAdd\<close>: commutative, associative and distributive with unit 1, multiplication by \<open>x\<close> being
  \<open>xtime\<close> and \<open>x ^ 8\<close> reduced by the polynomial of the standard.\<close>

theorem ffMultiply_field:
  "ffMultiply a b = ffMultiply b a \<and> ffMultiply (ffMultiply a b) c = ffMultiply a (ffMultiply b c) \<and>
   ffMultiply a (ffAdd b c) = ffAdd (ffMultiply a b) (ffMultiply a c) \<and> ffMultiply 1 a = a \<and>
   ffMultiply 2 a = xtime a \<and> ffMultiply 2 0x80 = 0x1b \<and>
   (\<not> bit a 7 \<longrightarrow> xtime a = push_bit 1 a)"
proof -
  have "xtime 0x80 = 0x1b" by code_simp
  then show ?thesis
    using ffMultiply_commute [of a b] ffMultiply_assoc [of a b c] xor_linearD [OF ffMultiply_right, of a b c]
    by (simp add: ffMultiply_1 ffMultiply_2 ffAdd_def) (simp add: xtime_def bit_8_7)
qed

text \<open>the tables agree with each other and with the field: the two S-boxes are inverse to each
  other on every byte, and the round constants are the successive powers of \<open>x\<close> in the top byte.\<close>

theorem aes_tables:
  "invSbox ! unat (drop_bit 4 (Sbox ! unat (drop_bit 4 b) ! unat (b AND 0x0F))) !
     unat (Sbox ! unat (drop_bit 4 b) ! unat (b AND 0x0F) AND 0x0F) = b \<and>
   Sbox ! unat (drop_bit 4 (invSbox ! unat (drop_bit 4 b) ! unat (b AND 0x0F))) !
     unat (invSbox ! unat (drop_bit 4 b) ! unat (b AND 0x0F) AND 0x0F) = b \<and>
   Rcon ! 1 = 0x01000000 \<and>
   (\<forall>i \<in> {1..50}. Rcon ! Suc i = push_bit 24 (ucast (xtime (ucast (drop_bit 24 (Rcon ! i))))))"
proof -
  have "Rcon ! Suc i = push_bit 24 (ucast (xtime (ucast (drop_bit 24 (Rcon ! i)))))" if i: "i \<in> {1..50}" for i
  proof -
    obtain j where "i = Suc j" "j < 50" using i by (cases i) auto
    then show ?thesis
      using rcon_chain_nth [OF Rcon_chain(1), of j] Rcon_chain(2) by (simp add: nth_tl)
  qed
  then show ?thesis
    using inv_sub_sub [of b] sub_inv_sub [of b] Rcon_chain(3)
    by (simp only: sub_byte_def inv_sub_byte_def) simp
qed

text \<open>C22: \<open>ffMultiply\<close> is the multiplication of the field of 256 elements whose addition is
  \<open>ffAdd\<close>: commutative, associative and distributive with unit 1, multiplication by \<open>x\<close> being
  \<open>xtime\<close> and \<open>x ^ 8\<close> reduced by the polynomial of the standard. The tables agree with each other and with
  the field: the two S-boxes are inverse to each other on every byte, and the round constants are the
  successive powers of \<open>x\<close> in the top byte.\<close>

theorem aes_field:
  "ffMultiply a b = ffMultiply b a \<and> ffMultiply (ffMultiply a b) c = ffMultiply a (ffMultiply b c) \<and>
   ffMultiply a (ffAdd b c) = ffAdd (ffMultiply a b) (ffMultiply a c) \<and> ffMultiply 1 a = a \<and>
   ffMultiply 2 a = xtime a \<and> ffMultiply 2 0x80 = 0x1b \<and>
   (\<not> bit a 7 \<longrightarrow> xtime a = push_bit 1 a) \<and>
   inv_sub_byte (sub_byte b) = b \<and> sub_byte (inv_sub_byte b) = b \<and> Rcon ! 1 = 0x01000000 \<and>
   (\<forall>i \<in> {1..50}. Rcon ! Suc i = push_bit 24 (ucast (xtime (ucast (drop_bit 24 (Rcon ! i))))))"
  using ffMultiply_field [of a b c] aes_tables [of b] inv_sub_sub sub_inv_sub by blast

section \<open>Witnesses\<close>

lemma invCipher_Cipher_witness:
  "invCipher (Cipher plaintext plaintext fips_w 4 10) (replicate 16 0) fips_w 4 10 = plaintext"
  by (rule invCipher_Cipher) (simp_all add: plaintext_def)

lemma keyExpansion_fips_witness: "length (keyExpansion key128 (replicate 44 0) 4 4 10) = 44"
  using keyExpansion_fips [of 4 4 10 "replicate 44 0" key128] by (simp add: Let_def)

lemma aes_field_witness: "xtime 3 = push_bit 1 (3 :: u8) \<and> inv_sub_byte (sub_byte 0x53) = 0x53"
proof -
  have "\<not> bit (3 :: u8) 7" by code_simp
  then show ?thesis using aes_field [of 3 "0x53" 1] by simp
qed

lemma ffMultiply_field_witness: "xtime 3 = push_bit 1 (3 :: u8) \<and> ffMultiply 2 3 = xtime 3"
proof -
  have "\<not> bit (3 :: u8) 7" by code_simp
  then show ?thesis using ffMultiply_field [of 3 1 1] by simp
qed

lemma aes_tables_witness: "Rcon ! Suc 1 = push_bit 24 (ucast (xtime (ucast (drop_bit 24 (Rcon ! 1)))))"
proof -
  have "(1 :: nat) \<in> {1..50}" by simp
  then show ?thesis using aes_tables [of 0] by blast
qed

end
