(* ===== verification/HeapSpec.thy ===== *)
theory HeapSpec
  imports CBase "HOL-Library.Multiset"
begin

text \<open>
  What a heap of bytes promises to its clients, for the two byte allocators of the repository
  (\<^verbatim>\<open>gcc/malloc.c\<close> and \<^verbatim>\<open>gcc/kmem.c\<close>): the blocks that are held are disjoint, an allocation and a
  release leave the bytes of the other blocks alone, and a client reads back what it wrote.
  A block is its address with its size in bytes, and a null pointer is a failed allocation.
\<close>

definition inside :: "nat \<times> nat \<Rightarrow> nat \<Rightarrow> bool" where
  "inside b x \<longleftrightarrow> fst b \<le> x \<and> x < fst b + snd b"

definition in_blocks :: "(nat \<times> nat) list \<Rightarrow> nat \<Rightarrow> bool" where
  "in_blocks bs x \<longleftrightarrow> (\<exists>b \<in> set bs. inside b x)"

definition clear_of :: "nat \<times> nat \<Rightarrow> nat \<times> nat \<Rightarrow> bool" where
  "clear_of b c \<longleftrightarrow> (\<forall>x. \<not> (inside b x \<and> inside c x))"

lemma in_blocks_simps [simp]:
  "\<not> in_blocks [] x" "in_blocks (b # bs) x \<longleftrightarrow> inside b x \<or> in_blocks bs x"
  "in_blocks (us @ vs) x \<longleftrightarrow> in_blocks us x \<or> in_blocks vs x"
  by (auto simp: in_blocks_def)

lemma clear_of_sym: "clear_of b c \<longleftrightarrow> clear_of c b"
  by (auto simp: clear_of_def)

lemma clear_of_blocks: "\<forall>c \<in> set bs. clear_of b c \<Longrightarrow> inside b x \<Longrightarrow> \<not> in_blocks bs x"
  by (auto simp: clear_of_def in_blocks_def)

text \<open>Order does not matter for a symmetric relation on the blocks.\<close>

lemma sorted_wrt_perm:
  assumes "\<And>x y. R x y \<Longrightarrow> R y x"
  shows "mset ys = mset xs \<Longrightarrow> sorted_wrt R xs \<Longrightarrow> sorted_wrt R ys"
proof (induction ys arbitrary: xs)
  case Nil
  then show ?case by simp
next
  case (Cons y ys)
  have "y \<in> set xs" using Cons.prems(1) by (metis list.set_intros(1) mset_eq_setD)
  then obtain as bs where xs: "xs = as @ y # bs" by (meson split_list)
  then have p: "mset ys = mset (as @ bs)" using Cons.prems(1) by simp
  have "sorted_wrt R (as @ bs)" "\<forall>z \<in> set (as @ bs). R y z"
    using Cons.prems(2) assms unfolding xs by (auto simp: sorted_wrt_append)
  moreover have "set ys = set (as @ bs)" using p by (rule mset_eq_setD)
  ultimately show ?case using Cons.IH [OF p] by simp
qed

text \<open>
  The runs of a client: the state, the blocks it holds and the bytes it wrote and still owns. It
  allocates while there is room, writes to the bytes it holds, and releases what it holds.
\<close>

inductive heap_run :: "(nat \<Rightarrow> 's \<Rightarrow> (nat \<times> 's) option) \<Rightarrow> (nat \<Rightarrow> u8 \<Rightarrow> 's \<Rightarrow> 's) \<Rightarrow> (nat \<Rightarrow> 's \<Rightarrow> 's option) \<Rightarrow>
    (nat \<Rightarrow> 's \<Rightarrow> bool) \<Rightarrow> 's \<Rightarrow> 's \<Rightarrow> (nat \<times> nat) list \<Rightarrow> (nat \<Rightarrow> u8 option) \<Rightarrow> bool"
  for get poke give room s0 where
  heap_start: "heap_run get poke give room s0 s0 [] Map.empty"
| heap_get: "heap_run get poke give room s0 s held g \<Longrightarrow> room n s \<Longrightarrow> get n s = Some (p, s') \<Longrightarrow>
    heap_run get poke give room s0 s' (if p = 0 then held else (p, n) # held) g"
| heap_write: "heap_run get poke give room s0 s held g \<Longrightarrow> in_blocks held x \<Longrightarrow>
    heap_run get poke give room s0 (poke x v s) held (g(x \<mapsto> v))"
| heap_give: "heap_run get poke give room s0 s (us @ (p, n) # vs) g \<Longrightarrow> give p s = Some s' \<Longrightarrow>
    heap_run get poke give room s0 s' (us @ vs) (g |` {x. \<not> inside (p, n) x})"

locale block_heap =
  fixes ok :: "'s \<Rightarrow> (nat \<times> nat) list \<Rightarrow> bool"
    and byte :: "'s \<Rightarrow> nat \<Rightarrow> u8"
    and get :: "nat \<Rightarrow> 's \<Rightarrow> (nat \<times> 's) option"
    and poke :: "nat \<Rightarrow> u8 \<Rightarrow> 's \<Rightarrow> 's"
    and give :: "nat \<Rightarrow> 's \<Rightarrow> 's option"
    and room :: "nat \<Rightarrow> 's \<Rightarrow> bool"
  assumes get_block: "ok s held \<Longrightarrow> room n s \<Longrightarrow> \<exists>p s'. get n s = Some (p, s') \<and>
      ok s' (if p = 0 then held else (p, n) # held) \<and> (\<forall>x. in_blocks held x \<longrightarrow> byte s' x = byte s x)"
    and write_byte: "ok s held \<Longrightarrow> in_blocks held x \<Longrightarrow> ok (poke x v s) held \<and>
      (\<forall>y. in_blocks held y \<longrightarrow> byte (poke x v s) y = (if y = x then v else byte s y))"
    and give_block: "ok s (us @ (p, n) # vs) \<Longrightarrow> \<exists>s'. give p s = Some s' \<and> ok s' (us @ vs) \<and>
      (\<forall>x. in_blocks (us @ vs) x \<longrightarrow> byte s' x = byte s x)"
    and ok_clear: "ok s held \<Longrightarrow> sorted_wrt clear_of held"
begin

lemma run_ok:
  assumes "ok s0 []"
  shows "heap_run get poke give room s0 s held g \<Longrightarrow>
    ok s held \<and> (\<forall>x v. g x = Some v \<longrightarrow> in_blocks held x \<and> byte s x = v)"
proof (induction rule: heap_run.induct)
  case heap_start
  then show ?case using assms by simp
next
  case (heap_get s held g n p s')
  then show ?case using get_block [of s held n] by auto
next
  case (heap_write s held g x v)
  then show ?case using write_byte [of s held x v] by auto
next
  case (heap_give s us p n vs g s')
  then have o: "ok s (us @ (p, n) # vs)" by simp
  from give_block [OF this] heap_give.hyps have
    s': "ok s' (us @ vs)" "\<forall>x. in_blocks (us @ vs) x \<longrightarrow> byte s' x = byte s x" by auto
  have "in_blocks (us @ vs) x \<and> byte s' x = v" if g: "g x = Some v" "\<not> inside (p, n) x" for x v
  proof -
    have "in_blocks (us @ vs) x" "byte s x = v" using heap_give.IH g by auto
    then show ?thesis using s'(2) by auto
  qed
  then show ?case using s'(1) by (auto simp: restrict_map_def split: if_splits)
qed

text \<open>No step of a client is stuck.\<close>

lemma run_progress:
  assumes "ok s0 []" "heap_run get poke give room s0 s held g"
  shows "(\<forall>n. room n s \<longrightarrow> get n s \<noteq> None) \<and> (\<forall>(p, n) \<in> set held. give p s \<noteq> None)"
proof -
  have o: "ok s held" using run_ok [OF assms] by blast
  have "give p s \<noteq> None" if "(p, n) \<in> set held" for p n
  proof -
    from that obtain us vs where "held = us @ (p, n) # vs" by (meson split_list)
    then show ?thesis using give_block [of s us p n vs] o by auto
  qed
  then show ?thesis using get_block [OF o] by fastforce
qed

lemma run_clear: "ok s0 [] \<Longrightarrow> heap_run get poke give room s0 s held g \<Longrightarrow> sorted_wrt clear_of held"
  using run_ok ok_clear by blast

end

end
