(* ===== verification/Malloc.thy ===== *)
theory Malloc
  imports Memory HeapSpec "HOL-Library.Monad_Syntax"
begin

text \<open>
  The free-list allocator \<^verbatim>\<open>gcc/malloc.c\<close>: \<open>malloc\<close>, \<open>free\<close> and \<open>sbrk\<close> on byte memory. A free
  node is two words, its size and the address of the next. The state is the memory and the two
  static variables; \<open>_end\<close>, which the linker sets, is a parameter. A search through a list that
  is a cycle does not return: \<open>None\<close>. The abstract heap is a list of the free blocks and a list
  of the blocks the client holds, as pairs of address and size; \<open>take_fit\<close> is the first fit on it.
\<close>

record heap =
  hmem :: mem32
  free_begin :: u32
  heap_end :: u32

section \<open>The code\<close>

definition round_up :: "u32 \<Rightarrow> u32" where
  "round_up num = (let rest = num mod 8 in if rest = 0 then num else num + 8 - rest)"

definition sbrk :: "u32 \<Rightarrow> u32 \<Rightarrow> heap \<Rightarrow> u32 \<times> heap" where
  "sbrk end_sym incr h =
     (let h = (if heap_end h = 0 then h\<lparr>heap_end := end_sym\<rparr> else h);
          prev_heap_end = heap_end h
      in (prev_heap_end, h\<lparr>heap_end := heap_end h + incr\<rparr>))"

text \<open>The loop over the free list: \<open>Some None\<close> when no node is large enough.\<close>

partial_function (option) malloc_search ::
    "u32 \<Rightarrow> u32 \<Rightarrow> u32 \<Rightarrow> heap \<Rightarrow> (u32 \<times> heap) option option" where
  "malloc_search desired_size cur prev h =
     (if cur = 0 then Some None
      else let m = hmem h; sz = load32 m cur
           in if sz = desired_size
              then Some (Some (cur + 8,
                if prev = 0 then h\<lparr>free_begin := load32 m (cur + 4)\<rparr>
                else h\<lparr>hmem := store32 m (prev + 4) (load32 m (cur + 4))\<rparr>))
              else if desired_size < sz
              then let remainder_size = sz - desired_size;
                       m = store32 m cur remainder_size;
                       temp = cur + remainder_size
                   in Some (Some (temp + 8, h\<lparr>hmem := store32 m temp desired_size\<rparr>))
              else malloc_search desired_size (load32 m (cur + 4)) cur h)"

definition malloc :: "u32 \<Rightarrow> u32 \<Rightarrow> heap \<Rightarrow> (u32 \<times> heap) option" where
  "malloc end_sym sz h = do {
     let desired_size = round_up sz + 8;
     found \<leftarrow> malloc_search desired_size (free_begin h) 0 h;
     case found of
       Some r \<Rightarrow> Some r
     | None \<Rightarrow>
         if desired_size < 8192
         then let free_size = 8192 - desired_size;
                  (temp, h) = sbrk end_sym 8192 h;
                  new_memory = temp + free_size;
                  m = store32 (hmem h) temp free_size;
                  m = store32 m (temp + 4) (free_begin h);
                  m = store32 m new_memory desired_size
              in Some (new_memory + 8, h\<lparr>hmem := m, free_begin := temp\<rparr>)
         else let (temp, h) = sbrk end_sym desired_size h
              in Some (temp + 8, h\<lparr>hmem := store32 (hmem h) temp desired_size\<rparr>) }"

definition free :: "u32 \<Rightarrow> heap \<Rightarrow> heap" where
  "free ptr h =
     (let temp = ptr - 8
      in h\<lparr>hmem := store32 (hmem h) (temp + 4) (free_begin h), free_begin := temp\<rparr>)"

section \<open>The abstract heap\<close>

type_synonym block = "nat \<times> nat"

fun take_fit :: "nat \<Rightarrow> block list \<Rightarrow> (nat \<times> block list) option" where
  "take_fit want [] = None"
| "take_fit want ((a, n) # bs) =
     (if n = want then Some (a, bs)
      else if want < n then Some (a + (n - want), (a, n - want) # bs)
      else map_option (\<lambda>(p, bs). (p, (a, n) # bs)) (take_fit want bs))"

definition apart :: "block \<Rightarrow> block \<Rightarrow> bool" where
  "apart b c \<longleftrightarrow> fst b + snd b \<le> fst c \<or> fst c + snd c \<le> fst b"

definition block_ok :: "nat \<Rightarrow> nat \<Rightarrow> block \<Rightarrow> bool" where
  "block_ok lo hi b \<longleftrightarrow> 8 \<le> snd b \<and> 8 dvd snd b \<and> lo \<le> fst b \<and> fst b + snd b \<le> hi"

fun flist :: "mem32 \<Rightarrow> u32 \<Rightarrow> block list \<Rightarrow> bool" where
  "flist m p [] \<longleftrightarrow> p = 0"
| "flist m p ((a, n) # bs) \<longleftrightarrow>
     p = of_nat a \<and> load32 m (of_nat a) = of_nat n \<and> flist m (load32 m (of_nat a + 4)) bs"

text \<open>The word through which a node is reached: the variable \<open>begin\<close> or the last node's \<open>next\<close>.\<close>

definition link :: "u32 \<Rightarrow> heap \<Rightarrow> u32" where
  "link prev h = (if prev = 0 then free_begin h else load32 (hmem h) (prev + 4))"

lemma flist_frame:
  "flist m p bs \<Longrightarrow> \<forall>b \<in> set bs. block_ok lo hi b \<Longrightarrow> hi < 2 ^ 32 \<Longrightarrow>
   (\<And>b x. b \<in> set bs \<Longrightarrow> fst b \<le> unat x \<Longrightarrow> unat x < fst b + 8 \<Longrightarrow> m' x = m x) \<Longrightarrow> flist m' p bs"
proof (induction bs arbitrary: p)
  case (Cons b bs)
  obtain a n where b: "b = (a, n)" by force
  have h: "m' x = m x" if "a \<le> unat x" "unat x < a + 8" for x
    using Cons.prems(4) [of b x] that by (simp add: b)
  have w: "a + 8 < 2 ^ 32" using Cons.prems(2,3) by (auto simp: b block_ok_def)
  have "load32 m' (of_nat a) = load32 m (of_nat a)" using w h by (intro load_same) auto
  moreover have "load32 m' (of_nat (a + 4)) = load32 m (of_nat (a + 4))"
    using w h by (intro load_same) auto
  moreover have "flist m' (load32 m (of_nat (a + 4))) bs"
    by (rule Cons.IH) (use Cons.prems in \<open>auto simp: b adr_plus_4 simp del: of_nat_add\<close>)
  ultimately show ?case
    using Cons.prems b by (simp add: adr_plus_4 del: of_nat_add)
qed simp

lemma flist_store:
  "flist m p bs \<Longrightarrow> \<forall>b \<in> set bs. block_ok lo hi b \<Longrightarrow> hi < 2 ^ 32 \<Longrightarrow> c + 4 \<le> 2 ^ 32 \<Longrightarrow>
   \<forall>b \<in> set bs. c + 4 \<le> fst b \<or> fst b + snd b \<le> c \<Longrightarrow> flist (store32 m (of_nat c) v) p bs"
  by (rule flist_frame [where m = m]) (fastforce simp: block_ok_def intro!: store_word_frame)+

section \<open>The search refines the first fit\<close>

lemma take_fit_None: "take_fit want bs = None \<longleftrightarrow> (\<forall>b \<in> set bs. snd b < want)"
  by (induction want bs rule: take_fit.induct) auto

text \<open>The nodes a search walks over, and the node before them.\<close>

definition nodes_ok :: "nat \<Rightarrow> block list \<Rightarrow> bool" where
  "nodes_ok hi bs \<longleftrightarrow> (\<forall>b \<in> set bs. block_ok 8 hi b) \<and> sorted_wrt apart bs"

definition prev_ok :: "nat \<Rightarrow> u32 \<Rightarrow> block list \<Rightarrow> bool" where
  "prev_ok hi prev bs \<longleftrightarrow> prev = 0 \<or>
     (\<exists>c. prev = of_nat c \<and> 0 < c \<and> c + 8 \<le> hi \<and> (\<forall>b \<in> set bs. c + 8 \<le> fst b \<or> fst b + snd b \<le> c))"

text \<open>Only the blocks searched and the \<open>next\<close> word of the node before them may change.\<close>

definition spared :: "u32 \<Rightarrow> block list \<Rightarrow> u32 \<Rightarrow> bool" where
  "spared prev bs x \<longleftrightarrow>
     (prev = 0 \<or> \<not> (unat prev + 4 \<le> unat x \<and> unat x < unat prev + 8)) \<and>
     (\<forall>b \<in> set bs. \<not> (fst b \<le> unat x \<and> unat x < fst b + snd b))"

definition search_result :: "nat \<Rightarrow> u32 \<Rightarrow> block list \<Rightarrow> heap \<Rightarrow> nat \<Rightarrow> block list \<Rightarrow> heap \<Rightarrow> bool" where
  "search_result want prev bs h q fl h' \<longleftrightarrow>
     flist (hmem h') (link prev h') fl \<and> load32 (hmem h') (of_nat q) = of_nat want \<and>
     (prev \<noteq> 0 \<longrightarrow> free_begin h' = free_begin h) \<and> heap_end h' = heap_end h \<and>
     (\<forall>x. spared prev bs x \<longrightarrow> hmem h' x = hmem h x)"

lemma prev_ok_next:
  "prev_ok hi prev bs \<Longrightarrow> prev \<noteq> 0 \<Longrightarrow> hi < 2 ^ 32 \<Longrightarrow>
   \<exists>c. prev = of_nat c \<and> unat prev = c \<and> c + 8 \<le> hi \<and> (\<forall>b \<in> set bs. c + 8 \<le> fst b \<or> fst b + snd b \<le> c)"
  by (auto simp: prev_ok_def adr_less)

lemma search_exact:
  assumes "flist (hmem h) (link prev h) ((a, n) # bs)" "nodes_ok hi ((a, n) # bs)" "hi < 2 ^ 32"
    "prev_ok hi prev ((a, n) # bs)"
  shows "\<exists>h'. malloc_search (of_nat n) (link prev h) prev h = Some (Some (of_nat a + 8, h')) \<and>
    search_result n prev ((a, n) # bs) h a bs h'"
proof (cases "prev = 0")
  case True
  have "(of_nat a :: u32) \<noteq> 0"
    using assms(2,3) by (intro adr_nonzero) (auto simp: nodes_ok_def block_ok_def)
  then show ?thesis
    using assms True
    by (subst malloc_search.simps) (auto simp: link_def search_result_def)
next
  case False
  then obtain c where c: "prev = of_nat c" "unat prev = c" "c + 8 \<le> hi"
    "\<forall>b \<in> set ((a, n) # bs). c + 8 \<le> fst b \<or> fst b + snd b \<le> c"
    using prev_ok_next assms(3,4) by blast
  have a0: "(of_nat a :: u32) \<noteq> 0"
    using assms(2,3) by (intro adr_nonzero) (auto simp: nodes_ok_def block_ok_def)
  let ?m = "store32 (hmem h) (of_nat (c + 4)) (load32 (hmem h) (of_nat a + 4))"
  have w: "load32 ?m (of_nat a) = load32 (hmem h) (of_nat a)"
    using assms(2,3) c by (intro load_store_word) (auto simp: nodes_ok_def block_ok_def)
  have f: "flist ?m (load32 (hmem h) (of_nat a + 4)) bs"
    using assms(1-3) c by (intro flist_store [of _ _ _ 8 hi]) (auto simp: nodes_ok_def)
  have x: "?m x = hmem h x" if "spared prev ((a, n) # bs) x" for x
    using that c(2) assms(3) c(3) False by (intro store_word_frame) (auto simp: spared_def)
  have l: "load32 ?m (of_nat c + 4) = load32 (hmem h) (of_nat a + 4)"
    by (simp add: adr_plus_4 mem_simps del: of_nat_add)
  show ?thesis
    using assms(1) False a0 w f x l
    by (subst malloc_search.simps)
      (auto simp: link_def search_result_def c(1) adr_plus_4 Let_def simp del: of_nat_add)
qed

lemma search_split:
  assumes "flist (hmem h) (link prev h) ((a, n) # bs)" "nodes_ok hi ((a, n) # bs)" "hi < 2 ^ 32"
    "prev_ok hi prev ((a, n) # bs)" "want < n" "8 dvd want" "8 \<le> want"
  shows "\<exists>h'. malloc_search (of_nat want) (link prev h) prev h =
      Some (Some (of_nat (a + (n - want)) + 8, h')) \<and>
    search_result want prev ((a, n) # bs) h (a + (n - want)) ((a, n - want) # bs) h'"
proof -
  have b: "8 \<le> a" "a + n \<le> hi" "8 dvd n" "\<forall>b \<in> set bs. apart (a, n) b" "\<forall>b \<in> set bs. block_ok 8 hi b"
    using assms(2) by (auto simp: nodes_ok_def block_ok_def)
  have r: "8 \<le> n - want" using assms(5,6) b(3) by (meson dvd_diff_nat dvd_imp_le zero_less_diff)
  have a0: "(of_nat a :: u32) \<noteq> 0" using b assms(3) by (intro adr_nonzero) auto
  define k where "k = n - want"
  have k: "n = want + k" "8 \<le> k" using r assms(5) by (simp_all add: k_def)
  let ?m1 = "store32 (hmem h) (of_nat a) (of_nat k)"
  let ?m2 = "store32 ?m1 (of_nat (a + k)) (of_nat want)"
  have i: "load32 (hmem h) (of_nat a) = of_nat n" "flist (hmem h) (load32 (hmem h) (of_nat a + 4)) bs"
    "link prev h = of_nat a" using assms(1) by simp_all
  have sz: "load32 ?m2 (of_nat a) = of_nat k"
    using load_store_word [of a "a + k" ?m1] b k assms(3,7) by (simp add: mem_simps)
  have nx: "load32 ?m2 (of_nat (a + 4)) = load32 (hmem h) (of_nat (a + 4))"
    using load_store_word [of "a + 4" "a + k" ?m1] load_store_word [of "a + 4" a "hmem h"] b k assms(3,7)
    by simp
  have f: "flist ?m2 (load32 (hmem h) (of_nat a + 4)) bs"
    by (intro flist_store [of _ _ _ 8 hi] i b(5) assms(3); use b k assms(3,7) in \<open>fastforce simp: apart_def\<close>)
  have x: "?m2 x = hmem h x" if "spared prev ((a, n) # bs) x" for x
  proof -
    have "\<not> (a \<le> unat x \<and> unat x < a + n)" using that by (simp add: spared_def)
    then show ?thesis
      using store_word_frame [of "a + k" x ?m1] store_word_frame [of a x "hmem h"] k b assms(3,7) by auto
  qed
  have p: "load32 ?m2 (prev + 4) = load32 (hmem h) (prev + 4)" if p0: "prev \<noteq> 0"
  proof -
    obtain c where c: "prev = of_nat c" "c + 8 \<le> hi"
      "\<forall>b \<in> set ((a, n) # bs). c + 8 \<le> fst b \<or> fst b + snd b \<le> c"
      using prev_ok_next [OF assms(4) p0 assms(3)] by blast
    then have "8 + c \<le> a + k \<or> a + k \<le> c" "8 + c \<le> a \<or> a \<le> c" using k by auto
    with c(1,2) show ?thesis
      using load_store_word [of "c + 4" "a + k" ?m1] load_store_word [of "c + 4" a "hmem h"] b k assms(3,7)
      by (simp add: adr_plus_4 del: of_nat_add) 
  qed
  have w: "(of_nat want :: u32) < of_nat n" "(of_nat n :: u32) \<noteq> of_nat want" "of_nat n - of_nat want = (of_nat k :: u32)"
    using k b assms(3,5) adr_less [of n] adr_less [of want] by (auto simp: word_less_nat_alt)
  have "malloc_search (of_nat want) (link prev h) prev h =
      Some (Some (of_nat (a + k) + 8, h\<lparr>hmem := ?m2\<rparr>))"
    using a0 w i by (subst malloc_search.simps) (simp add: Let_def)
  moreover have "search_result want prev ((a, n) # bs) h (a + k) ((a, k) # bs) (h\<lparr>hmem := ?m2\<rparr>)"
    using sz nx f x p i by (auto simp: search_result_def link_def adr_plus_4 mem_simps simp del: of_nat_add)
  ultimately show ?thesis unfolding k_def by blast
qed

text \<open>A node that is too small stays in front of what the search leaves of the rest.\<close>

lemma search_skip:
  assumes f: "flist (hmem h) (link prev h) ((a, n) # bs)" and ok: "nodes_ok hi ((a, n) # bs)" "hi < 2 ^ 32"
    and p: "prev_ok hi prev ((a, n) # bs)" and r: "search_result want (of_nat a) bs h q fl h'"
  shows "search_result want prev ((a, n) # bs) h q ((a, n) # fl) h'"
proof -
  have b: "8 \<le> a" "a + n \<le> hi" "8 \<le> n" "\<forall>b \<in> set bs. apart (a, n) b"
    using ok by (auto simp: nodes_ok_def block_ok_def)
  have a0: "(of_nat a :: u32) \<noteq> 0" using b ok(2) by (intro adr_nonzero) auto
  have ua: "unat (of_nat a :: u32) = a" using b ok(2) by (intro adr_less) simp
  have i: "load32 (hmem h) (of_nat a) = of_nat n" "link prev h = of_nat a" using f by simp_all
  have x: "hmem h' x = hmem h x" if "spared (of_nat a) bs x" for x
    using r that by (simp add: search_result_def)
  have "load32 (hmem h') (of_nat a) = load32 (hmem h) (of_nat a)"
    using b ok(2) by (intro load_same x) (auto simp: spared_def ua apart_def)
  then have "flist (hmem h') (of_nat a) ((a, n) # fl)"
    using r a0 i by (simp add: search_result_def link_def)
  moreover have "link prev h' = of_nat a"
  proof (cases "prev = 0")
    case True
    then show ?thesis using r a0 i by (simp add: search_result_def link_def)
  next
    case False
    then obtain c where c: "prev = of_nat c" "c + 8 \<le> hi"
      "\<forall>b \<in> set ((a, n) # bs). c + 8 \<le> fst b \<or> fst b + snd b \<le> c"
      using prev_ok_next ok(2) p by metis
    have "load32 (hmem h') (of_nat (c + 4)) = load32 (hmem h) (of_nat (c + 4))"
      using c b ok(2) by (intro load_same x) (auto simp: spared_def ua)
    then show ?thesis using i False by (simp add: link_def c(1) adr_plus_4 del: of_nat_add)
  qed
  moreover have "hmem h' x = hmem h x" if "spared prev ((a, n) # bs) x" for x
    using that b by (intro x) (auto simp: spared_def ua)
  ultimately show ?thesis using r a0 by (auto simp: search_result_def)
qed

lemma malloc_search_refines:
  "flist (hmem h) (link prev h) bs \<Longrightarrow> nodes_ok hi bs \<Longrightarrow> hi < 2 ^ 32 \<Longrightarrow> prev_ok hi prev bs \<Longrightarrow>
   8 dvd want \<Longrightarrow> 8 \<le> want \<Longrightarrow> want < 2 ^ 32 \<Longrightarrow>
   case take_fit want bs of
     None \<Rightarrow> malloc_search (of_nat want) (link prev h) prev h = Some None
   | Some (q, fl) \<Rightarrow> \<exists>h'. malloc_search (of_nat want) (link prev h) prev h = Some (Some (of_nat q + 8, h')) \<and>
       search_result want prev bs h q fl h'"
proof (induction bs arbitrary: prev)
  case Nil
  then show ?case by (subst malloc_search.simps) simp
next
  case (Cons b bs)
  obtain a n where b: "b = (a, n)" by force
  consider "n = want" | "want < n" | "n < want" by linarith
  then show ?case
  proof cases
    case 1
    then show ?thesis using search_exact [of h prev a n bs hi] Cons.prems by (auto simp: b)
  next
    case 2
    then show ?thesis using search_split [of h prev a n bs hi want] Cons.prems by (auto simp: b)
  next
    case 3
    have ok: "8 \<le> a" "a + n \<le> hi" "8 \<le> n" "\<forall>b \<in> set bs. apart (a, n) b"
      using Cons.prems(2) by (auto simp: b nodes_ok_def block_ok_def)
    have a0: "(of_nat a :: u32) \<noteq> 0" using ok Cons.prems(3) by (intro adr_nonzero) auto
    have i: "load32 (hmem h) (of_nat a) = of_nat n" "link prev h = of_nat a"
      "flist (hmem h) (link (of_nat a) h) bs" using Cons.prems(1) a0 by (simp_all add: b link_def)
    have w: "\<not> (of_nat want :: u32) < of_nat n" "(of_nat n :: u32) \<noteq> of_nat want"
      using 3 ok Cons.prems(3,7) adr_less [of n] adr_less [of want] by (auto simp: word_less_nat_alt)
    have step: "malloc_search (of_nat want) (link prev h) prev h =
        malloc_search (of_nat want) (link (of_nat a) h) (of_nat a) h"
      using w i a0 by (subst malloc_search.simps) (simp add: link_def Let_def)
    have pa: "prev_ok hi (of_nat a) bs"
      using ok by (auto simp: prev_ok_def apart_def intro!: exI [of _ a])
    have IH: "case take_fit want bs of
       None \<Rightarrow> malloc_search (of_nat want) (link (of_nat a) h) (of_nat a) h = Some None
     | Some (q, fl) \<Rightarrow> \<exists>h'. malloc_search (of_nat want) (link (of_nat a) h) (of_nat a) h =
         Some (Some (of_nat q + 8, h')) \<and> search_result want (of_nat a) bs h q fl h'"
      using Cons.prems pa i by (intro Cons.IH) (auto simp: nodes_ok_def b)
    show ?thesis
    proof (cases "take_fit want bs")
      case None
      then show ?thesis using IH 3 by (simp add: b step)
    next
      case (Some r)
      obtain q fl where r: "r = (q, fl)" by force
      then obtain h' where h': "malloc_search (of_nat want) (link (of_nat a) h) (of_nat a) h =
          Some (Some (of_nat q + 8, h'))" "search_result want (of_nat a) bs h q fl h'"
        using IH Some by auto
      have "search_result want prev (b # bs) h q ((a, n) # fl) h'"
        using search_skip [OF _ _ Cons.prems(3) _ h'(2)] Cons.prems(1,2,4) by (simp add: b)
      then show ?thesis using h'(1) 3 Some r by (auto simp: b step)
    qed
  qed
qed

section \<open>The invariant of the heap\<close>

definition brk :: "nat \<Rightarrow> heap \<Rightarrow> nat" where
  "brk lo h = (if heap_end h = 0 then lo else unat (heap_end h))"

text \<open>
  The heap starts at \<open>lo\<close>, the address of \<open>_end\<close>. The free blocks are those of the list, each block
  the client holds has its size in its first word, no two blocks overlap, each starts at a multiple of
  eight bytes from \<open>_end\<close>, and together they make up the heap.
\<close>

definition heap_ok :: "nat \<Rightarrow> heap \<Rightarrow> block list \<Rightarrow> block list \<Rightarrow> bool" where
  "heap_ok lo h fl al \<longleftrightarrow> 8 \<le> lo \<and> lo \<le> brk lo h \<and> brk lo h < 2 ^ 32 \<and>
     (\<forall>b \<in> set (fl @ al). block_ok lo (brk lo h) b) \<and> sorted_wrt apart (fl @ al) \<and>
     (\<forall>b \<in> set (fl @ al). 8 dvd (fst b - lo)) \<and> flist (hmem h) (free_begin h) fl \<and>
     (\<forall>b \<in> set al. load32 (hmem h) (of_nat (fst b)) = of_nat (snd b)) \<and>
     sum_list (map snd (fl @ al)) = brk lo h - lo"

text \<open>The bytes of the blocks the client holds.\<close>

definition held :: "block list \<Rightarrow> u32 \<Rightarrow> bool" where
  "held al x \<longleftrightarrow> (\<exists>b \<in> set al. fst b \<le> unat x \<and> unat x < fst b + snd b)"

lemma apart_sym: "apart b c \<longleftrightarrow> apart c b"
  by (auto simp: apart_def)

lemma apart_split:
  "apart (a, n) c \<Longrightarrow> k \<le> n \<Longrightarrow> apart (a, n - k) c \<and> apart (a + (n - k), k) c"
  "k \<le> n \<Longrightarrow> apart (a, n - k) (a + (n - k), k)"
  by (auto simp: apart_def)

lemma take_fit_props:
  assumes "8 dvd want" "8 \<le> want"
  shows "take_fit want bs = Some (q, fl) \<Longrightarrow> \<forall>b \<in> set bs. block_ok lo hi b \<Longrightarrow> sorted_wrt apart bs \<Longrightarrow>
    block_ok lo hi (q, want) \<and> (\<forall>b \<in> set fl. block_ok lo hi b \<and> apart (q, want) b) \<and>
    sorted_wrt apart fl \<and> sum_list (map snd fl) + want = sum_list (map snd bs) \<and>
    (\<forall>c. (\<forall>b \<in> set bs. apart c b) \<longrightarrow> apart c (q, want) \<and> (\<forall>b \<in> set fl. apart c b))"
proof (induction bs arbitrary: q fl)
  case (Cons b bs)
  obtain a n where b: "b = (a, n)" by force
  consider "n = want" | "want < n" | "n < want" by linarith
  then show ?case
  proof cases
    case 1
    then show ?thesis using Cons.prems by (auto simp: b apart_sym)
  next
    case 2
    have r: "8 \<le> n - want" "8 dvd n - want"
      using 2 assms Cons.prems(2) by (auto simp: b block_ok_def dvd_imp_le)
    have q: "q = a + (n - want)" "fl = (a, n - want) # bs"
      using Cons.prems(1) 2 by (auto simp: b)
    have ok: "block_ok lo hi (a, n)" "\<forall>c \<in> set bs. block_ok lo hi c \<and> apart (a, n) c"
      "sorted_wrt apart bs" using Cons.prems(2,3) by (simp_all add: b)
    have s: "apart (a, n - want) c \<and> apart (q, want) c" if "apart (a, n) c" for c
      using apart_split(1) [OF that, of want] 2 by (simp add: q)
    have s2: "apart c (a, n - want) \<and> apart c (q, want)" if "apart c (a, n)" for c
      using s [of c] that by (simp add: apart_sym)
    have "block_ok lo hi (q, want)" "block_ok lo hi (a, n - want)"
      using ok(1) 2 assms r by (auto simp: block_ok_def q)
    moreover have "apart (q, want) (a, n - want)"
      using apart_split(2) [of want n a] 2 by (simp add: q apart_sym)
    ultimately show ?thesis
      using ok s s2 2 by (auto simp: b q(2))
  next
    case 3
    then obtain fl2 where f: "take_fit want bs = Some (q, fl2)" "fl = (a, n) # fl2"
      using Cons.prems(1) by (auto simp: b)
    have ih: "block_ok lo hi (q, want)" "\<forall>b \<in> set fl2. block_ok lo hi b \<and> apart (q, want) b"
      "sorted_wrt apart fl2" "sum_list (map snd fl2) + want = sum_list (map snd bs)"
      "\<forall>c. (\<forall>b \<in> set bs. apart c b) \<longrightarrow> apart c (q, want) \<and> (\<forall>b \<in> set fl2. apart c b)"
      using Cons.IH [OF f(1)] Cons.prems(2,3) by (simp_all del: split_paired_All)
    have ab: "apart (a, n) (q, want)" "\<forall>c \<in> set fl2. apart (a, n) c"
      using ih(5) Cons.prems(3) by (simp_all add: b del: split_paired_All)
    have "\<forall>c \<in> set fl. block_ok lo hi c \<and> apart (q, want) c"
      using ih(2) ab(1) Cons.prems(2) by (auto simp: f(2) b apart_sym [of "(q, want)" "(a, n)"])
    moreover have "sorted_wrt apart fl" "sum_list (map snd fl) + want = sum_list (map snd (b # bs))"
      using ih(3,4) ab(2) by (simp_all add: f(2) b)
    moreover have "apart c (q, want) \<and> (\<forall>b \<in> set fl. apart c b)" if "\<forall>b \<in> set (b # bs). apart c b" for c
      using that ih(5) by (simp add: f(2) b del: split_paired_All)
    ultimately show ?thesis using ih(1) by blast
  qed
qed simp

lemma take_fit_aligned:
  "8 dvd want \<Longrightarrow> take_fit want bs = Some (q, fl) \<Longrightarrow> \<forall>b \<in> set bs. block_ok lo hi b \<and> 8 dvd (fst b - lo) \<Longrightarrow>
    8 dvd (q - lo) \<and> (\<forall>b \<in> set fl. 8 dvd (fst b - lo))"
proof (induction want bs arbitrary: q fl rule: take_fit.induct)
  case (2 want a n bs)
  have b: "8 dvd n" "lo \<le> a" "8 dvd (a - lo)" using "2.prems"(3) by (simp_all add: block_ok_def)
  show ?case
  proof (cases "want < n")
    case True
    then have q: "q - lo = (a - lo) + (n - want)" "fl = (a, n - want) # bs" using "2.prems"(2) b(2) by auto
    have "8 dvd (n - want)" using b(1) "2.prems"(1) True by presburger
    then have "8 dvd (q - lo)" unfolding q(1) using b(3) by (intro dvd_add)
    then show ?thesis using "2.prems"(3) b q(2) by auto
  next
    case False
    then show ?thesis using "2.prems" "2.IH" by (fastforce split: if_splits)
  qed
qed simp

text \<open>The break is aligned as the blocks are, as they make up the heap.\<close>

lemma heap_ok_brk: "heap_ok lo h fl al \<Longrightarrow> 8 dvd (brk lo h - lo)"
proof -
  assume h: "heap_ok lo h fl al"
  then have "\<forall>n \<in> set (map snd (fl @ al)). 8 dvd n" by (auto simp: heap_ok_def block_ok_def)
  moreover have "8 dvd sum_list ns" if "\<forall>n \<in> set ns. 8 dvd n" for ns :: "nat list" using that by (induction ns) simp_all
  ultimately have "8 dvd sum_list (map snd (fl @ al))" by blast
  then show ?thesis using h by (simp add: heap_ok_def)
qed

definition rounded :: "nat \<Rightarrow> nat" where
  "rounded n = (n + 7) div 8 * 8 + 8"

lemma rounded_props: "8 dvd rounded n" "8 \<le> rounded n" "n + 8 \<le> rounded n" "rounded n \<le> n + 15"
  by (simp_all add: rounded_def)

lemma round_up_eq:
  assumes "unat sz + 16 < 2 ^ 32"
  shows "round_up sz + 8 = of_nat (rounded (unat sz))"
proof -
  define n where "n = unat sz"
  have sz: "sz = of_nat n" by (simp add: n_def)
  have m: "sz mod 8 = of_nat (n mod 8)" using word_arith_nat_mod [of sz 8] by (simp add: n_def)
  have "round_up sz + 8 = of_nat (rounded n)"
  proof (cases "n mod 8 = 0")
    case True
    then have "rounded n = n + 8" by (auto simp: rounded_def elim!: evenE dvdE)
    then show ?thesis using True m by (simp add: round_up_def sz)
  next
    case False
    have "rounded n + n mod 8 = n + 16" using False unfolding rounded_def by presburger
    then have "(of_nat (rounded n) :: u32) + of_nat (n mod 8) = of_nat n + 16"
      by (metis of_nat_add of_nat_numeral)
    moreover have "(of_nat (n mod 8) :: u32) \<noteq> 0"
      using False adr_nonzero [of "n mod 8"] by simp
    ultimately show ?thesis using m by (simp add: round_up_def Let_def sz algebra_simps)
  qed
  then show ?thesis by (simp add: n_def)
qed

lemma heap_ok_nodes: "heap_ok lo h fl al \<Longrightarrow> nodes_ok (brk lo h) fl"
  unfolding heap_ok_def nodes_ok_def sorted_wrt_append block_ok_def
  by (metis UnI1 le_trans set_append)

lemma heap_ok_spared: "heap_ok lo h fl al \<Longrightarrow> held al x \<Longrightarrow> spared 0 fl x"
  by (fastforce simp: heap_ok_def held_def spared_def sorted_wrt_append apart_def)

text \<open>Sizes of held blocks survive any change that keeps the held bytes.\<close>

lemma sizes_kept:
  assumes "heap_ok lo h fl al" "\<And>x. held al x \<Longrightarrow> m' x = hmem h x" "b \<in> set al"
  shows "load32 m' (of_nat (fst b)) = of_nat (snd b)"
proof -
  have b: "block_ok lo (brk lo h) b" "brk lo h < 2 ^ 32" using assms(1,3) by (auto simp: heap_ok_def)
  have "load32 m' (of_nat (fst b)) = load32 (hmem h) (of_nat (fst b))"
    using b assms(3) by (intro load_same assms(2)) (auto simp: held_def block_ok_def intro!: bexI [of _ b])
  then show ?thesis using assms(1,3) by (simp add: heap_ok_def)
qed

lemma malloc_from_list:
  assumes ok: "heap_ok lo h fl al" and t: "take_fit want fl = Some (q, fl')"
    and w: "8 dvd want" "8 \<le> want" "want < 2 ^ 32"
  shows "\<exists>h'. malloc_search (of_nat want) (free_begin h) 0 h = Some (Some (of_nat q + 8, h')) \<and>
    heap_ok lo h' fl' ((q, want) # al) \<and> (\<forall>x. held al x \<longrightarrow> hmem h' x = hmem h x)"
proof -
  have l: "link 0 h = free_begin h" for h by (simp add: link_def)
  have "flist (hmem h) (link 0 h) fl" "brk lo h < 2 ^ 32" "prev_ok (brk lo h) 0 fl"
    using ok by (simp_all add: heap_ok_def l prev_ok_def)
  from malloc_search_refines [OF this(1) heap_ok_nodes [OF ok] this(2,3) w] t obtain h' where
    h': "malloc_search (of_nat want) (free_begin h) 0 h = Some (Some (of_nat q + 8, h'))"
      "search_result want 0 fl h q fl' h'" by (auto simp: l)
  have x: "hmem h' x = hmem h x" if "held al x" for x
    using h'(2) heap_ok_spared [OF ok that] by (simp add: search_result_def)
  have e: "brk lo h' = brk lo h" using h'(2) by (simp add: brk_def search_result_def)
  have p: "block_ok lo (brk lo h) (q, want)" "\<forall>b \<in> set fl'. block_ok lo (brk lo h) b \<and> apart (q, want) b"
    "sorted_wrt apart fl'" "sum_list (map snd fl') + want = sum_list (map snd fl)"
    "\<forall>c. (\<forall>b \<in> set fl. apart c b) \<longrightarrow> apart c (q, want) \<and> (\<forall>b \<in> set fl'. apart c b)"
    using take_fit_props [OF w(1,2) t, of lo "brk lo h"] ok by (auto simp: heap_ok_def sorted_wrt_append)
  have a: "\<forall>c \<in> set al. \<forall>b \<in> set fl. apart c b"
    using ok by (auto simp: heap_ok_def sorted_wrt_append apart_sym)
  have g: "8 dvd (q - lo)" "\<forall>b \<in> set fl'. 8 dvd (fst b - lo)"
    using take_fit_aligned [OF w(1) t, of lo "brk lo h"] ok by (simp_all add: heap_ok_def)
  have "heap_ok lo h' fl' ((q, want) # al)"
    using ok p a g h'(2) sizes_kept [OF ok x]
    by (auto simp: heap_ok_def e search_result_def l sorted_wrt_append apart_sym)
  then show ?thesis using h'(1) x by blast
qed

text \<open>Memory got from \<open>sbrk\<close>: all of it for the client, or its end for the client and the rest free.\<close>

lemma all_below:
  "heap_ok lo h fl al \<Longrightarrow> b \<in> set (fl @ al) \<Longrightarrow> block_ok lo (brk lo h) b \<and> (k \<ge> brk lo h \<longrightarrow> apart (k, n) b)"
proof -
  assume "heap_ok lo h fl al" "b \<in> set (fl @ al)"
  then have "block_ok lo (brk lo h) b" by (simp add: heap_ok_def)
  then show ?thesis by (auto simp: block_ok_def apart_def)
qed

lemma block_ok_more: "block_ok lo hi b \<Longrightarrow> hi \<le> hi' \<Longrightarrow> block_ok lo hi' b"
  by (simp add: block_ok_def)

lemma sbrk_eq:
  assumes "lo < 2 ^ 32" "0 < brk lo h + n" "brk lo h + n < 2 ^ 32"
  shows "\<exists>h'. sbrk (of_nat lo) (of_nat n) h = (of_nat (brk lo h), h') \<and> brk lo h' = brk lo h + n \<and>
    hmem h' = hmem h \<and> free_begin h' = free_begin h"
proof -
  define h' where "h' = h\<lparr>heap_end := of_nat (brk lo h + n)\<rparr>"
  have "brk lo h' = brk lo h + n"
    using adr_less [OF assms(3)] adr_nonzero [OF assms(2,3)] by (simp add: brk_def h'_def del: of_nat_add)
  moreover have "sbrk (of_nat lo) (of_nat n) h = (of_nat (brk lo h), h')"
    by (simp add: sbrk_def h'_def brk_def Let_def)
  ultimately show ?thesis by (simp add: h'_def)
qed

lemma malloc_grow_all:
  assumes ok: "heap_ok lo h fl al" and w: "8 dvd want" "8 \<le> want" and room: "brk lo h + want < 2 ^ 32"
    and h1: "brk lo h1 = brk lo h + want" "hmem h1 = hmem h" "free_begin h1 = free_begin h"
  defines "h' \<equiv> h1\<lparr>hmem := store32 (hmem h1) (of_nat (brk lo h)) (of_nat want)\<rparr>"
  shows "heap_ok lo h' fl ((brk lo h, want) # al) \<and> (\<forall>x. held al x \<longrightarrow> hmem h' x = hmem h x)"
proof -
  have e: "brk lo h' = brk lo h + want" unfolding h1(1) [symmetric] by (simp add: h'_def brk_def)
  have x: "hmem h' x = hmem h x" if "unat x < brk lo h" for x
    using that room w by (simp add: h'_def h1) (intro store_word_frame; simp)
  have below: "unat x < brk lo h" if "b \<in> set (fl @ al)" "unat x < fst b + snd b" for b x
    using all_below [OF ok that(1), of 0 0] that(2) by (auto simp: block_ok_def)
  have k: "hmem h' x = hmem h x" if "held al x" for x
    using that below by (intro x) (auto simp: held_def)
  have "flist (hmem h') (free_begin h') fl"
  proof (rule flist_frame [of "hmem h" _ _ lo "brk lo h"])
    show "flist (hmem h) (free_begin h') fl" "\<forall>b \<in> set fl. block_ok lo (brk lo h) b" "brk lo h < 2 ^ 32"
      using ok by (simp_all add: heap_ok_def h'_def h1)
    fix b and x :: u32 assume b: "b \<in> set fl" "unat x < fst b + 8"
    then have "unat x < fst b + snd b" using all_below [OF ok, of b 0 0] by (simp add: block_ok_def)
    then show "hmem h' x = hmem h x" using b by (intro x below [of b]) simp_all
  qed
  moreover have "\<forall>b \<in> set (fl @ al). block_ok lo (brk lo h') b \<and> apart (brk lo h, want) b"
    using all_below [OF ok] block_ok_more by (fastforce simp: e)
  moreover have "load32 (hmem h') (of_nat (brk lo h)) = of_nat want" by (simp add: h'_def mem_simps)
  moreover have "block_ok lo (brk lo h') (brk lo h, want)"
    using ok w by (simp add: block_ok_def e heap_ok_def)
  ultimately show ?thesis
    using ok heap_ok_brk [OF ok] w room sizes_kept [OF ok k] k by (auto simp: heap_ok_def e sorted_wrt_append apart_sym)
qed

lemma malloc_grow_part:
  assumes ok: "heap_ok lo h fl al" and w: "8 dvd want" "8 \<le> want" "want < 8192"
    and room: "brk lo h + 8192 < 2 ^ 32"
    and h1: "brk lo h1 = brk lo h + 8192" "hmem h1 = hmem h" "free_begin h1 = free_begin h"
  defines "k \<equiv> 8192 - want"
  defines "h' \<equiv> h1\<lparr>hmem := store32 (store32 (store32 (hmem h1) (of_nat (brk lo h)) (of_nat k))
      (of_nat (brk lo h + 4)) (free_begin h1)) (of_nat (brk lo h + k)) (of_nat want),
      free_begin := of_nat (brk lo h)\<rparr>"
  shows "heap_ok lo h' ((brk lo h, k) # fl) ((brk lo h + k, want) # al) \<and>
    (\<forall>x. held al x \<longrightarrow> hmem h' x = hmem h x)"
proof -
  have "(8::nat) dvd 8192" by simp
  then have k: "8 dvd k" "k + want = 8192" using w by (simp_all add: k_def dvd_diff_nat)
  then have k8: "8 \<le> k" using w(3) by (intro dvd_imp_le) simp_all
  have e: "brk lo h' = brk lo h + 8192" unfolding h1(1) [symmetric] by (simp add: h'_def brk_def)
  have x: "hmem h' x = hmem h x" if "unat x < brk lo h" for x
    using that room k w by (simp add: h'_def h1 store_word_frame del: of_nat_add)
  have below: "unat x < brk lo h" if "b \<in> set (fl @ al)" "unat x < fst b + snd b" for b x
    using all_below [OF ok that(1), of 0 0] that(2) by (auto simp: block_ok_def)
  have kept: "hmem h' x = hmem h x" if "held al x" for x
    using that below by (intro x) (auto simp: held_def)
  have f: "flist (hmem h') (free_begin h) fl"
  proof (rule flist_frame [of "hmem h" _ _ lo "brk lo h"])
    show "flist (hmem h) (free_begin h) fl" "\<forall>b \<in> set fl. block_ok lo (brk lo h) b" "brk lo h < 2 ^ 32"
      using ok by (simp_all add: heap_ok_def)
    fix b and x :: u32 assume b: "b \<in> set fl" "unat x < fst b + 8"
    then have "unat x < fst b + snd b" using all_below [OF ok, of b 0 0] by (simp add: block_ok_def)
    then show "hmem h' x = hmem h x" using b by (intro x below [of b]) simp_all
  qed
  have sz: "load32 (hmem h') (of_nat (brk lo h)) = of_nat k"
    using load_store_word [of "brk lo h" "brk lo h + k"] load_store_word [of "brk lo h" "brk lo h + 4"] k8 k room w
    by (simp add: h'_def mem_simps del: of_nat_add)
  have nx: "load32 (hmem h') (of_nat (brk lo h + 4)) = free_begin h"
    using load_store_word [of "brk lo h + 4" "brk lo h + k"] k8 k room w
    by (simp add: h'_def h1 mem_simps del: of_nat_add)
  have fl: "flist (hmem h') (free_begin h') ((brk lo h, k) # fl)"
    using sz nx f by (simp add: h'_def adr_plus_4 del: of_nat_add)
  have old: "\<forall>b \<in> set (fl @ al). block_ok lo (brk lo h') b \<and> apart (brk lo h, k) b \<and> apart (brk lo h + k, want) b"
    using all_below [OF ok] block_ok_more by (fastforce simp: e)
  have new: "block_ok lo (brk lo h') (brk lo h, k)" "block_ok lo (brk lo h') (brk lo h + k, want)"
    "apart (brk lo h, k) (brk lo h + k, want)"
    using ok k k8 w by (auto simp: heap_ok_def block_ok_def e apart_def)
  have "load32 (hmem h') (of_nat (brk lo h + k)) = of_nat want"
    by (simp add: h'_def mem_simps del: of_nat_add)
  moreover have "brk lo h + k - lo = (brk lo h - lo) + k" using ok by (simp add: heap_ok_def)
  then have "8 dvd (brk lo h + k - lo)" using heap_ok_brk [OF ok] k(1) by simp
  ultimately show ?thesis
    using ok heap_ok_brk [OF ok] room fl old new sizes_kept [OF ok kept] kept k(2)
    by (auto simp: heap_ok_def e sorted_wrt_append apart_sym)
qed

section \<open>malloc and free keep the invariant\<close>

lemma malloc_ok:
  assumes ok: "heap_ok lo h fl al"
    and room: "unat sz + 16 < 2 ^ 32" "brk lo h + 8192 + rounded (unat sz) < 2 ^ 32"
  shows "\<exists>q h' fl'. malloc (of_nat lo) sz h = Some (of_nat q + 8, h') \<and>
    heap_ok lo h' fl' ((q, rounded (unat sz)) # al) \<and> (\<forall>x. held al x \<longrightarrow> hmem h' x = hmem h x)"
proof -
  define want where "want = rounded (unat sz)"
  have w: "8 dvd want" "8 \<le> want" "want < 2 ^ 32" using rounded_props room by (simp_all add: want_def)
  have r: "round_up sz + 8 = of_nat want" using round_up_eq [OF room(1)] by (simp add: want_def)
  have u: "unat (of_nat want :: u32) = want" using w(3) by (rule adr_less)
  have lo: "lo < 2 ^ 32" "0 < brk lo h" using ok by (auto simp: heap_ok_def)
  show ?thesis
  proof (cases "take_fit want fl")
    case (Some r)
    obtain q fl' where "r = (q, fl')" by force
    then obtain h' where "malloc (of_nat lo) sz h = Some (of_nat q + 8, h')"
      "heap_ok lo h' fl' ((q, want) # al)" "\<forall>x. held al x \<longrightarrow> hmem h' x = hmem h x"
      using malloc_from_list [OF ok _ w, of q fl'] Some
      by (auto simp: malloc_def \<open>round_up sz + 8 = of_nat want\<close>)
    then show ?thesis unfolding want_def by blast
  next
    case None
    have n: "malloc_search (of_nat want) (free_begin h) 0 h = Some None"
      using malloc_search_refines [of h 0 fl "brk lo h" want] heap_ok_nodes [OF ok] ok w None
      by (simp add: link_def heap_ok_def prev_ok_def)
    show ?thesis
    proof (cases "want < 8192")
      case True
      obtain h1 where h1: "sbrk (of_nat lo) 8192 h = (of_nat (brk lo h), h1)" "brk lo h1 = brk lo h + 8192"
        "hmem h1 = hmem h" "free_begin h1 = free_begin h"
        using sbrk_eq [OF lo(1), of h 8192] lo room by auto
      have c: "(of_nat want :: u32) < 8192" "(8192 :: u32) - of_nat want = of_nat (8192 - want)"
        using True u by (simp_all add: word_less_nat_alt of_nat_diff)
      let ?m = "store32 (store32 (store32 (hmem h1) (of_nat (brk lo h)) (of_nat (8192 - want)))
        (of_nat (brk lo h + 4)) (free_begin h1)) (of_nat (brk lo h + (8192 - want))) (of_nat want)"
      have "malloc (of_nat lo) sz h = Some (of_nat (brk lo h + (8192 - want)) + 8,
          h1\<lparr>hmem := ?m, free_begin := of_nat (brk lo h)\<rparr>)"
        by (simp only: malloc_def Let_def r n bind.bind_lunit option.case c if_True h1(1) prod.case
            adr_plus_4 of_nat_add [symmetric])
      then show ?thesis
        using malloc_grow_part [OF ok w(1,2) True _ h1(2-4)] room unfolding want_def by fastforce
    next
      case False
      obtain h1 where h1: "sbrk (of_nat lo) (of_nat want) h = (of_nat (brk lo h), h1)"
        "brk lo h1 = brk lo h + want" "hmem h1 = hmem h" "free_begin h1 = free_begin h"
        using sbrk_eq [OF lo(1), of h want] lo room by (auto simp: want_def)
      have c: "\<not> (of_nat want :: u32) < 8192" using False u by (simp add: word_less_nat_alt)
      have "malloc (of_nat lo) sz h = Some (of_nat (brk lo h) + 8,
          h1\<lparr>hmem := store32 (hmem h1) (of_nat (brk lo h)) (of_nat want)\<rparr>)"
        by (simp only: malloc_def Let_def r n bind.bind_lunit option.case c if_False h1(1) prod.case)
      then show ?thesis
        using malloc_grow_all [OF ok w(1,2) _ h1(2-4)] room unfolding want_def by fastforce
    qed
  qed
qed

lemma free_ok:
  assumes ok: "heap_ok lo h fl ((a, n) # al)"
  shows "heap_ok lo (free (of_nat a + 8) h) ((a, n) # fl) al \<and>
    (\<forall>x. held al x \<longrightarrow> hmem (free (of_nat a + 8) h) x = hmem h x)"
proof -
  define h' where "h' = free (of_nat a + 8) h"
  have h': "hmem h' = store32 (hmem h) (of_nat (a + 4)) (free_begin h)" "free_begin h' = of_nat a"
    "brk lo h' = brk lo h"
    by (simp_all add: h'_def free_def Let_def brk_def algebra_simps)
  have b: "block_ok lo (brk lo h) (a, n)" "brk lo h < 2 ^ 32"
    and ap: "\<forall>b \<in> set (fl @ al). apart (a, n) b \<and> block_ok lo (brk lo h) b"
    using ok by (auto simp: heap_ok_def sorted_wrt_append apart_sym)
  have x: "hmem h' x = hmem h x" if "\<not> (a \<le> unat x \<and> unat x < a + n)" for x
    unfolding h' using that b by (intro store_word_frame) (auto simp: block_ok_def)
  have kept: "hmem h' x = hmem h x" if x1: "held al x" for x
  proof -
    obtain c where "c \<in> set al" "fst c \<le> unat x" "unat x < fst c + snd c"
      using x1 by (auto simp: held_def)
    moreover from this have "apart (a, n) c" using ap by simp
    ultimately have "\<not> (a \<le> unat x \<and> unat x < a + n)" by (auto simp: apart_def)
    then show ?thesis by (rule x)
  qed
  have "flist (hmem h') (free_begin h) fl"
    unfolding h'
  proof (rule flist_store [of _ _ _ lo "brk lo h"])
    have "a + 8 \<le> a + n" using b(1) by (simp add: block_ok_def)
    moreover have "a + n \<le> fst c \<or> fst c + snd c \<le> a" if "c \<in> set fl" for c
      using ap that by (simp add: apart_def)
    ultimately show "\<forall>c \<in> set fl. a + 4 + 4 \<le> fst c \<or> fst c + snd c \<le> a + 4" by force
    show "a + 4 + 4 \<le> 2 ^ 32" using b by (simp add: block_ok_def)
  qed (use ok ap b(2) in \<open>simp_all add: heap_ok_def\<close>)
  moreover have "load32 (hmem h') (of_nat a) = of_nat n"
    unfolding h' using ok b load_store_word [of a "a + 4" "hmem h"]
    by (simp add: heap_ok_def block_ok_def)
  moreover have "load32 (hmem h') (of_nat (a + 4)) = free_begin h" by (simp only: h' mem_simps)
  ultimately have "flist (hmem h') (free_begin h') ((a, n) # fl)"
    by (simp add: h'(2) adr_plus_4 del: of_nat_add)
  moreover have "load32 (hmem h') (of_nat (fst c)) = of_nat (snd c)" if c: "c \<in> set al" for c
  proof -
    have "load32 (hmem h') (of_nat (fst c)) = load32 (hmem h) (of_nat (fst c))"
    proof (rule load_same)
      have bc: "block_ok lo (brk lo h) c" using ap c by simp
      then show "fst c + 4 \<le> 2 ^ 32" using b(2) by (simp add: block_ok_def)
      fix x :: u32 assume "fst c \<le> unat x" "unat x < fst c + 4"
      then have "held al x" using bc c by (auto simp: held_def block_ok_def intro!: bexI [of _ c])
      then show "hmem h' x = hmem h x" by (rule kept)
    qed
    then show ?thesis using ok c by (simp add: heap_ok_def)
  qed
  ultimately have "heap_ok lo h' ((a, n) # fl) al"
    using ok ap by (auto simp: heap_ok_def h'(3) sorted_wrt_append apart_sym)
  then show ?thesis using kept by (simp add: h'_def)
qed

section \<open>A client of the heap\<close>

text \<open>
  The heaps a client can reach, with the blocks it holds: it allocates while the address space
  lasts, writes to its blocks behind their first eight bytes, and frees what it holds.
\<close>

inductive client :: "nat \<Rightarrow> heap \<Rightarrow> block list \<Rightarrow> bool" for lo where
  start: "client lo \<lparr>hmem = m, free_begin = 0, heap_end = 0\<rparr> []"
| alloc: "client lo h al \<Longrightarrow> unat sz + 16 < 2 ^ 32 \<Longrightarrow> brk lo h + 8192 + rounded (unat sz) < 2 ^ 32 \<Longrightarrow>
    malloc (of_nat lo) sz h = Some (of_nat q + 8, h') \<Longrightarrow> q < 2 ^ 32 - 8 \<Longrightarrow>
    client lo h' ((q, rounded (unat sz)) # al)"
| put: "client lo h al \<Longrightarrow> (a, n) \<in> set al \<Longrightarrow> a + 8 \<le> unat x \<Longrightarrow> unat x < a + n \<Longrightarrow>
    client lo (h\<lparr>hmem := (hmem h)(x := v)\<rparr>) al"
| release: "client lo h (al1 @ (a, n) # al2) \<Longrightarrow> client lo (free (of_nat a + 8) h) (al1 @ al2)"

lemma heap_ok_start: "8 \<le> lo \<Longrightarrow> lo < 2 ^ 32 \<Longrightarrow> heap_ok lo \<lparr>hmem = m, free_begin = 0, heap_end = 0\<rparr> [] []"
  by (simp add: heap_ok_def brk_def)

lemma heap_ok_write:
  assumes ok: "heap_ok lo h fl al" and x: "(a, n) \<in> set al" "a + 8 \<le> unat x" "unat x < a + n"
  shows "heap_ok lo (h\<lparr>hmem := (hmem h)(x := v)\<rparr>) fl al"
proof -
  let ?m = "(hmem h)(x := v)"
  have ap: "apart b (a, n)" if "b \<in> set fl" for b
    using ok x(1) that by (auto simp: heap_ok_def sorted_wrt_append)
  have bl: "block_ok lo (brk lo h) b" "brk lo h < 2 ^ 32" if "b \<in> set (fl @ al)" for b
    using ok that by (auto simp: heap_ok_def)
  have "flist ?m (free_begin h) fl"
  proof (rule flist_frame [of "hmem h" _ _ lo "brk lo h"])
    fix b and y :: u32 assume b: "b \<in> set fl" "fst b \<le> unat y" "unat y < fst b + 8"
    then have "unat y < fst b + snd b" using bl(1) [of b] by (auto simp: block_ok_def)
    then show "?m y = hmem h y" using ap [OF b(1)] b x by (auto simp: apart_def)
  qed (use ok in \<open>simp_all add: heap_ok_def\<close>)
  moreover have "load32 ?m (of_nat (fst b)) = of_nat (snd b)" if b: "b \<in> set al" for b
  proof -
    have "fst b \<le> unat y \<Longrightarrow> unat y < fst b + 4 \<Longrightarrow> ?m y = hmem h y" for y
    proof (cases "b = (a, n)")
      case True
      then show "fst b \<le> unat y \<Longrightarrow> unat y < fst b + 4 \<Longrightarrow> ?m y = hmem h y" using x by auto
    next
      case False
      have "sorted_wrt apart al" using ok by (simp add: heap_ok_def sorted_wrt_append)
      then have "apart b (a, n) \<or> apart (a, n) b"
        using b x(1) False by (metis in_set_conv_nth nat_neq_iff sorted_wrt_iff_nth_less)
      then show "fst b \<le> unat y \<Longrightarrow> unat y < fst b + 4 \<Longrightarrow> ?m y = hmem h y"
        using bl(1) [of b] b x by (auto simp: apart_def block_ok_def)
    qed
    then have "load32 ?m (of_nat (fst b)) = load32 (hmem h) (of_nat (fst b))"
      using bl [of b] b by (intro load_same) (auto simp: block_ok_def)
    then show ?thesis using ok b by (simp add: heap_ok_def)
  qed
  moreover have "brk lo (h\<lparr>hmem := ?m\<rparr>) = brk lo h" by (simp add: brk_def)
  ultimately show ?thesis using ok by (simp add: heap_ok_def)
qed

text \<open>The order in which the held blocks are listed does not matter.\<close>

lemma heap_ok_swap: "heap_ok lo h fl (al1 @ b # al2) \<longleftrightarrow> heap_ok lo h fl (b # al1 @ al2)"
  by (auto simp: heap_ok_def sorted_wrt_append apart_sym)

lemma client_heap_ok:
  assumes "8 \<le> lo" "lo < 2 ^ 32"
  shows "client lo h al \<Longrightarrow> \<exists>fl. heap_ok lo h fl al"
proof (induction rule: client.induct)
  case (start m)
  then show ?case using heap_ok_start assms by blast
next
  case (alloc h al sz q h')
  then obtain fl where "heap_ok lo h fl al" by blast
  from malloc_ok [OF this alloc.hyps(2,3)] obtain p fl' where
    p: "of_nat q + 8 = (of_nat p + 8 :: u32)" "heap_ok lo h' fl' ((p, rounded (unat sz)) # al)"
    using alloc.hyps(4) by auto
  have "p < 2 ^ 32 - 8" using p(2) by (auto simp: heap_ok_def block_ok_def)
  moreover have "(of_nat q :: u32) = of_nat p" using p(1) by simp
  ultimately have "q = p" using alloc.hyps(5) adr_less [of p] adr_less [of q] by simp
  then show ?case using p(2) by blast
next
  case (put h al a n x v)
  then show ?case using heap_ok_write by blast
next
  case (release h al1 a n al2)
  then show ?case using free_ok heap_ok_swap by blast
qed

section \<open>The contract of a heap\<close>

text \<open>A client holds the bytes it asked for behind the eight bytes of bookkeeping of its block.\<close>

definition behind :: "block \<Rightarrow> nat \<times> nat \<Rightarrow> bool" where
  "behind c b \<longleftrightarrow> fst b = fst c + 8 \<and> snd b + 8 \<le> snd c"

definition holds :: "nat \<Rightarrow> heap \<Rightarrow> (nat \<times> nat) list \<Rightarrow> bool" where
  "holds lo h bs \<longleftrightarrow> (\<exists>fl al. heap_ok lo h fl al \<and>
     list_all2 behind al bs)"

definition mget :: "nat \<Rightarrow> nat \<Rightarrow> heap \<Rightarrow> (nat \<times> heap) option" where
  "mget lo n h = map_option (\<lambda>(p, h'). (unat p, h')) (malloc (of_nat lo) (of_nat n) h)"

definition mpoke :: "nat \<Rightarrow> u8 \<Rightarrow> heap \<Rightarrow> heap" where
  "mpoke x v h = h\<lparr>hmem := (hmem h)(of_nat x := v)\<rparr>"

definition has_room :: "nat \<Rightarrow> nat \<Rightarrow> heap \<Rightarrow> bool" where
  "has_room lo n h \<longleftrightarrow> n + 16 < 2 ^ 32 \<and> brk lo h + 8192 + rounded n < 2 ^ 32"

lemma holds_block:
  assumes "heap_ok lo h fl al" "list_all2 behind al bs" "in_blocks bs x"
  obtains a n where "(a, n) \<in> set al" "a + 8 \<le> x" "x < a + n" "x < 2 ^ 32"
proof -
  obtain b where b: "b \<in> set bs" "inside b x" using assms(3) by (auto simp: in_blocks_def)
  then obtain i where i: "i < length bs" "bs ! i = b" by (auto simp: in_set_conv_nth)
  define c where "c = al ! i"
  have c: "c \<in> set al" "behind c b"
    using assms(2) i by (auto simp: list_all2_conv_all_nth c_def)
  then have "block_ok lo (brk lo h) c" "brk lo h < 2 ^ 32" using assms(1) by (simp_all add: heap_ok_def)
  then show thesis using that [of "fst c" "snd c"] c b(2) by (simp add: behind_def inside_def block_ok_def)
qed

lemma holds_held:
  assumes "heap_ok lo h fl al" "list_all2 behind al bs" "in_blocks bs x"
  shows "held al (of_nat x)"
  by (rule holds_block [OF assms]) (force simp: held_def adr_less)

lemma holds_get:
  assumes "holds lo h bs" "has_room lo n h"
  shows "\<exists>p h'. mget lo n h = Some (p, h') \<and> p \<noteq> 0 \<and> holds lo h' ((p, n) # bs) \<and>
    (\<forall>x. in_blocks bs x \<longrightarrow> hmem h' (of_nat x) = hmem h (of_nat x))"
proof -
  obtain fl al where h: "heap_ok lo h fl al" "list_all2 behind al bs"
    using assms(1) by (auto simp: holds_def)
  have n: "unat (of_nat n :: u32) = n" using assms(2) by (intro adr_less) (simp add: has_room_def)
  obtain q h' fl' where m: "malloc (of_nat lo) (of_nat n) h = Some (of_nat q + 8, h')"
    "heap_ok lo h' fl' ((q, rounded n) # al)" "\<forall>x. held al x \<longrightarrow> hmem h' x = hmem h x"
    using malloc_ok [OF h(1), of "of_nat n"] assms(2) by (auto simp: n has_room_def)
  have "q + rounded n < 2 ^ 32" using m(2) by (auto simp: heap_ok_def block_ok_def)
  then have "unat (of_nat (q + 8) :: u32) = q + 8" using rounded_props(2) [of n] by (intro adr_less) simp
  then have "mget lo n h = Some (q + 8, h')" using m(1) by (simp add: mget_def)
  moreover have "holds lo h' ((q + 8, n) # bs)"
    unfolding holds_def using m(2) h(2) rounded_props(3) [of n]
    by (intro exI [of _ fl'] exI [of _ "(q, rounded n) # al"]) (simp add: behind_def)
  ultimately show ?thesis using m(3) holds_held [OF h] by auto
qed

lemma holds_poke:
  assumes "holds lo h bs" "in_blocks bs x"
  shows "holds lo (mpoke x v h) bs \<and>
    (\<forall>y. in_blocks bs y \<longrightarrow> hmem (mpoke x v h) (of_nat y) = (if y = x then v else hmem h (of_nat y)))"
proof -
  obtain fl al where h: "heap_ok lo h fl al" "list_all2 behind al bs"
    using assms(1) by (auto simp: holds_def)
  have small: "unat (of_nat y :: u32) = y" if "in_blocks bs y" for y
    by (rule holds_block [OF h that]) (simp add: adr_less)
  have "heap_ok lo (mpoke x v h) fl al"
    by (rule holds_block [OF h assms(2)])
      (use heap_ok_write [OF h(1), where x = "of_nat x"] small [OF assms(2)] in \<open>auto simp: mpoke_def\<close>)
  moreover have "(of_nat y :: u32) = of_nat x \<longleftrightarrow> y = x" if "in_blocks bs y" for y
    using small [OF that] small [OF assms(2)] by metis
  ultimately show ?thesis using h(2) by (auto simp: holds_def mpoke_def)
qed

lemma holds_give:
  assumes "holds lo h (us @ (p, n) # vs)"
  shows "holds lo (free (of_nat p) h) (us @ vs) \<and>
    (\<forall>x. in_blocks (us @ vs) x \<longrightarrow> hmem (free (of_nat p) h) (of_nat x) = hmem h (of_nat x))"
proof -
  obtain fl al where h: "heap_ok lo h fl al"
    "list_all2 behind al (us @ (p, n) # vs)"
    using assms by (auto simp: holds_def)
  obtain ua a m va where al: "al = ua @ (a, m) # va" "list_all2 behind ua us" "p = a + 8" "list_all2 behind va vs"
    using h(2) by (auto simp: list_all2_append2 list_all2_Cons2 behind_def)
  have "heap_ok lo h fl ((a, m) # ua @ va)" using h(1) heap_ok_swap al(1) by simp
  note f = free_ok [OF this]
  have l: "list_all2 behind (ua @ va) (us @ vs)" using al(2,4) by (rule list_all2_appendI)
  have p: "(of_nat a + 8 :: u32) = of_nat p" using al(3) by simp
  have "holds lo (free (of_nat p) h) (us @ vs)" using f l unfolding p holds_def by blast
  moreover have "held (ua @ va) (of_nat x)" if "in_blocks (us @ vs) x" for x
  proof -
    have "heap_ok lo (free (of_nat p) h) ((a, m) # fl) (ua @ va)" using f unfolding p by blast
    from holds_held [OF this l that] show ?thesis .
  qed
  ultimately show ?thesis using f unfolding p by blast
qed

lemma holds_clear: "holds lo h bs \<Longrightarrow> sorted_wrt clear_of bs"
proof -
  assume "holds lo h bs"
  then obtain fl al where h: "heap_ok lo h fl al" "list_all2 behind al bs"
    by (auto simp: holds_def)
  have s: "sorted_wrt apart al" using h(1) by (simp add: heap_ok_def sorted_wrt_append)
  show ?thesis
    unfolding sorted_wrt_iff_nth_less
  proof (intro allI impI)
    fix i j assume ij: "i < j" "j < length bs"
    have "length al = length bs" using h(2) by (rule list_all2_lengthD)
    then have "apart (al ! i) (al ! j)" using s ij by (simp add: sorted_wrt_iff_nth_less)
    moreover have "behind (al ! i) (bs ! i)" "behind (al ! j) (bs ! j)"
      using h(2) ij by (simp_all add: list_all2_conv_all_nth)
    ultimately show "clear_of (bs ! i) (bs ! j)"
      unfolding clear_of_def inside_def apart_def behind_def by (intro allI) linarith
  qed
qed

interpretation malloc_blocks: block_heap "holds lo" "\<lambda>h x. hmem h (of_nat x)" "mget lo" mpoke
  "\<lambda>p h. Some (free (of_nat p) h)" "has_room lo" for lo
proof unfold_locales
  fix h bs n
  assume "holds lo h bs" "has_room lo n h"
  then show "\<exists>p h'. mget lo n h = Some (p, h') \<and> holds lo h' (if p = 0 then bs else (p, n) # bs) \<and>
      (\<forall>x. in_blocks bs x \<longrightarrow> hmem h' (of_nat x) = hmem h (of_nat x))"
    using holds_get by fastforce
qed (use holds_poke holds_give holds_clear in blast)+

section \<open>Properties\<close>

text \<open>C8: a client of \<open>malloc\<close> and \<open>free\<close> reads back what it wrote: whatever it allocates, writes and
  frees, its blocks stay disjoint and keep their bytes, and \<open>malloc\<close> returns while there is room.\<close>

theorem malloc_client_reads_back:
  assumes "8 \<le> lo" "lo < 2 ^ 32"
    "heap_run (mget lo) mpoke (\<lambda>p h. Some (free (of_nat p) h)) (has_room lo)
       \<lparr>hmem = m, free_begin = 0, heap_end = 0\<rparr> h bs written"
  shows "sorted_wrt clear_of bs \<and>
    (\<forall>x v. written x = Some v \<longrightarrow> in_blocks bs x \<and> hmem h (of_nat x) = v) \<and>
    (\<forall>n. has_room lo n h \<longrightarrow> malloc (of_nat lo) (of_nat n) h \<noteq> None)"
proof -
  have h: "holds lo \<lparr>hmem = m, free_begin = 0, heap_end = 0\<rparr> []"
    using heap_ok_start [OF assms(1,2)] by (auto simp: holds_def)
  show ?thesis
    using malloc_blocks.run_clear [OF h assms(3)] malloc_blocks.run_ok [OF h assms(3)]
      malloc_blocks.run_progress [OF h assms(3)]
    by (simp add: mget_def)
qed

text \<open>C2: \<open>malloc\<close> returns for every valid heap and every request that leaves room in the address
  space: it gives the client a block of at least the size asked for behind its eight bytes of
  bookkeeping, a multiple of eight bytes from \<open>_end\<close> (so aligned when \<open>_end\<close> is), disjoint from every block the
  client holds and from the blocks that stay free; it keeps the invariant and every byte of the held blocks.\<close>

theorem malloc_correct:
  assumes "heap_ok lo h fl al" "unat sz + 16 < 2 ^ 32" "brk lo h + 8192 + rounded (unat sz) < 2 ^ 32"
  shows "\<exists>q n h' fl'. malloc (of_nat lo) sz h = Some (of_nat q + 8, h') \<and>
    unat sz + 8 \<le> n \<and> n \<le> unat sz + 15 \<and> lo \<le> q \<and> q + n \<le> brk lo h' \<and>
    8 dvd (q - lo) \<and> (8 dvd lo \<longrightarrow> 8 dvd unat (of_nat q + 8 :: u32)) \<and>
    (\<forall>b \<in> set (fl' @ al). apart (q, n) b) \<and> heap_ok lo h' fl' ((q, n) # al) \<and>
    (\<forall>x. held al x \<longrightarrow> hmem h' x = hmem h x)"
proof -
  obtain q h' fl' where m: "malloc (of_nat lo) sz h = Some (of_nat q + 8, h')"
    "heap_ok lo h' fl' ((q, rounded (unat sz)) # al)" "\<forall>x. held al x \<longrightarrow> hmem h' x = hmem h x"
    using malloc_ok [OF assms] by blast
  moreover have b: "\<forall>b \<in> set (fl' @ al). apart (q, rounded (unat sz)) b" "8 dvd (q - lo)"
    "lo \<le> q" "q + rounded (unat sz) \<le> brk lo h'" "brk lo h' < 2 ^ 32"
    using m(2) by (auto simp: heap_ok_def sorted_wrt_append apart_sym block_ok_def)
  moreover have "8 dvd unat (of_nat q + 8 :: u32)" if "8 dvd lo"
  proof -
    have "8 dvd q" using that b(2,3) by (metis dvd_diffD)
    moreover have "q + 8 < 2 ^ 32" using b(4,5) rounded_props(2) [of "unat sz"] by linarith
    then have "unat (of_nat q + 8 :: u32) = q + 8" using adr_less [of "q + 8"] by simp
    ultimately show ?thesis by simp
  qed
  ultimately show ?thesis using rounded_props(3,4) [of "unat sz"] by blast
qed

text \<open>C3: whatever sequence of allocations, writes to held blocks and releases a client makes, as long as each
  request leaves room in the address space, the
  blocks it holds and the blocks of the free list never overlap, are multiples of eight bytes, lie
  between \<open>_end\<close> and the break, and together make up all of that range: nothing is lost. The client of \<open>malloc\<close> knows
  no failure: without the room, \<open>round_up\<close> and \<open>sbrk\<close> wrap around (\<open>malloc_huge\<close>).\<close>

theorem client_blocks_disjoint:
  assumes "client lo h al" "8 \<le> lo" "lo < 2 ^ 32"
  shows "\<exists>fl. flist (hmem h) (free_begin h) fl \<and> sorted_wrt apart (fl @ al) \<and>
    (\<forall>b \<in> set (fl @ al). block_ok lo (brk lo h) b) \<and>
    lo + sum_list (map snd (fl @ al)) = brk lo h"
  using client_heap_ok [OF assms(2,3,1)] by (fastforce simp: heap_ok_def)

text \<open>a request of more than \<open>2 ^ 32 - 8\<close> bytes wraps around in \<open>round_up\<close>: \<open>malloc\<close> serves it
  with what it gives for a request of no bytes, a block without room for any.\<close>

theorem malloc_huge:
  assumes "2 ^ 32 - 8 < unat sz"
  shows "malloc end_sym sz h = malloc end_sym 0 h"
proof -
  define k where "k = 4294967296 - unat sz"
  have b: "4294967288 < unat sz" "unat sz < 4294967296" using assms by simp_all
  then have k: "unat sz + k = 4294967296" "0 < k" "k < 8" unfolding k_def by linarith+
  have "(of_nat (unat sz + k) :: u32) = 0" unfolding k(1) by simp
  then have s: "sz = - of_nat k" by (simp add: add_eq_0_iff2)
  have "unat sz = 8 * 536870911 + (8 - k)" using k by linarith
  then have "unat sz mod 8 = 8 - k" using k(2,3) by (simp only: mod_mult_self4) simp
  then have m: "sz mod 8 = of_nat (8 - k)" using word_arith_nat_mod [of sz 8] by simp
  moreover have "(of_nat (8 - k) :: u32) \<noteq> 0" using k by (intro adr_nonzero) simp_all
  ultimately have "round_up sz = 0"
    using k by (simp add: round_up_def Let_def s of_nat_diff)
  then show ?thesis by (simp add: malloc_def round_up_def)
qed

section \<open>Witnesses\<close>

lemma malloc_correct_witness:
  "\<exists>q h'. malloc 0x20000 13 \<lparr>hmem = \<lambda>_. 0, free_begin = 0, heap_end = 0\<rparr> = Some (of_nat q + 8, h')"
  using malloc_correct [OF heap_ok_start, of "0x20000" 13 "\<lambda>_. 0"] by (auto simp: brk_def rounded_def)

text \<open>Two allocations, a write to the first block, and its release.\<close>

abbreviation fresh_heap :: heap where
  "fresh_heap \<equiv> \<lparr>hmem = \<lambda>_. 0, free_begin = 0, heap_end = 0\<rparr>"

lemma malloc_client_reads_back_witness:
  "\<exists>p h'. malloc 0x20000 13 fresh_heap = Some (p, h') \<and> hmem (mpoke (unat p + 12) 7 h') (p + 12) = 7"
proof -
  have lo: "8 \<le> (0x20000 :: nat)" "(0x20000 :: nat) < 2 ^ 32" by simp_all
  have r: "has_room 0x20000 13 fresh_heap" by (simp add: has_room_def brk_def rounded_def)
  have h: "holds 0x20000 fresh_heap []" using heap_ok_start [OF lo] by (auto simp: holds_def)
  from holds_get [OF this r] obtain p h' where m: "mget 0x20000 13 fresh_heap = Some (p, h')" "p \<noteq> 0" by blast
  have "heap_run (mget 0x20000) mpoke (\<lambda>p h. Some (free (of_nat p) h)) (has_room 0x20000) fresh_heap h' [(p, 13)] Map.empty"
    using heap_get [where get = "mget 0x20000" and room = "has_room 0x20000", OF heap_start r m(1)] m(2) by simp
  then have "heap_run (mget 0x20000) mpoke (\<lambda>p h. Some (free (of_nat p) h)) (has_room 0x20000) fresh_heap
      (mpoke (p + 12) 7 h') [(p, 13)] [p + 12 \<mapsto> 7]"
    by (rule heap_write) (simp add: inside_def)
  from malloc_client_reads_back [OF lo this, THEN conjunct2, THEN conjunct1, rule_format, of "p + 12" 7]
  have v: "hmem (mpoke (p + 12) 7 h') (of_nat (p + 12)) = 7" by simp
  from m(1) obtain w where "malloc 0x20000 13 fresh_heap = Some (w, h')" "p = unat w" by (auto simp: mget_def)
  then show ?thesis using v by auto
qed

lemma client_blocks_disjoint_witness:
  "\<exists>q1 h1 q2 h2 n1 n2. malloc 0x20000 13 fresh_heap = Some (of_nat q1 + 8, h1) \<and> malloc 0x20000 40 h1 = Some (of_nat q2 + 8, h2) \<and>
     apart (q1, n1) (q2, n2) \<and>
     (let h = free (of_nat q1 + 8) (h2\<lparr>hmem := (hmem h2)(of_nat q1 + 8 := 7)\<rparr>)
      in \<exists>fl. flist (hmem h) (free_begin h) fl \<and> sorted_wrt apart (fl @ [(q2, n2)]) \<and>
        0x20000 + sum_list (map snd fl) + n2 = brk 0x20000 h)"
proof -
  have lo: "8 \<le> (0x20000 :: nat)" "(0x20000 :: nat) < 2 ^ 32" by simp_all
  have b0: "brk 0x20000 fresh_heap = 0x20000" by (simp add: brk_def)
  have s: "heap_ok 0x20000 fresh_heap [] []" by (rule heap_ok_start [OF lo])
  have r0: "rounded 13 = 24" "rounded 40 = 48" by (simp_all add: rounded_def)
  from malloc_ok [OF s, of 13] obtain q1 h1 fl1 where m1: "malloc 0x20000 13 fresh_heap = Some (of_nat q1 + 8, h1)"
    "heap_ok 0x20000 h1 fl1 [(q1, 24)]" by (auto simp: b0 r0)
  have "\<exists>w h. malloc 0x20000 13 fresh_heap = Some (w, h) \<and> brk 0x20000 h = 0x22000"
    by (simp add: malloc_def malloc_search.simps sbrk_def round_up_def brk_def Let_def)
  then have b1: "brk 0x20000 h1 = 0x22000" using m1(1) by simp
  from malloc_ok [OF m1(2), of 40] obtain q2 h2 fl2 where m2: "malloc 0x20000 40 h1 = Some (of_nat q2 + 8, h2)"
    "heap_ok 0x20000 h2 fl2 [(q2, 48), (q1, 24)]" by (auto simp: b1 r0)
  have q: "q1 + 24 < 2 ^ 32" "q2 < 2 ^ 32 - 8" "apart (q1, 24) (q2, 48)"
    using m2(2) by (auto simp: heap_ok_def block_ok_def sorted_wrt_append apart_sym [of "(q1, 24)"])
  have c0: "client 0x20000 fresh_heap []" by (rule client.start)
  have c1: "client 0x20000 h1 [(q1, 24)]"
    using client.alloc [OF c0, of 13 q1 h1] m1(1) q(1) by (simp add: b0 r0)
  have c2: "client 0x20000 h2 [(q2, 48), (q1, 24)]"
    using client.alloc [OF c1, of 40 q2 h2] m2(1) q(2) by (simp add: b1 r0)
  have u: "unat (of_nat q1 + 8 :: u32) = q1 + 8" using adr_less [of "q1 + 8"] q(1) by simp
  have c3: "client 0x20000 (h2\<lparr>hmem := (hmem h2)(of_nat q1 + 8 := 7)\<rparr>) ([(q2, 48)] @ (q1, 24) # [])"
    using client.put [OF c2, of q1 24 "of_nat q1 + 8" 7] by (simp add: u)
  from client_blocks_disjoint [OF client.release [OF c3] lo]
  show ?thesis using m1(1) m2(1) q(3) by (fastforce simp: Let_def)
qed

lemma malloc_huge_witness: "\<forall>h. malloc 0x20000 0xfffffff9 h = malloc 0x20000 0 h"
  by (intro allI malloc_huge) simp

end
