(* ===== verification/PageSpec.thy ===== *)
theory PageSpec
  imports CBase
begin

text \<open>
  What the page allocators promise. Both the 32-bit allocator of \<^verbatim>\<open>os/src/page.c\<close> (and its copy
  in \<^verbatim>\<open>gcc/stdlib.c\<close>) and the 64-bit one of \<^verbatim>\<open>gcc/page.c\<close> keep an array of flag bytes, one per
  page, and search it from the start. The locale \<open>page_allocator\<close> is that contract over the list
  of flags; inside it, sequences of allocations are shown to be disjoint.
\<close>

section \<open>Flags\<close>

definition Empty :: u8 where
  "Empty = 0"

definition Taken :: u8 where
  "Taken = 1"

definition Last :: u8 where
  "Last = 2"

text \<open>Pages \<open>k\<close> to \<open>k + n - 1\<close> are empty; the first such run that the code considers.\<close>

definition run_free :: "u8 list \<Rightarrow> nat \<Rightarrow> nat \<Rightarrow> bool" where
  "run_free fl n k \<longleftrightarrow> (\<forall>j < n. fl ! (k + j) = Empty)"

definition first_fit :: "u8 list \<Rightarrow> nat \<Rightarrow> nat option" where
  "first_fit fl n = find (run_free fl n) [0..<length fl - n]"

definition mark :: "u8 list \<Rightarrow> nat \<Rightarrow> nat \<Rightarrow> u8 list" where
  "mark fl k n = map (\<lambda>i. if k \<le> i \<and> i < k + n - 1 then Taken
     else if i = k + n - 1 then Last OR Taken else fl ! i) [0..<length fl]"

lemma length_mark [simp]: "length (mark fl k n) = length fl"
  by (simp add: mark_def)

lemma mark_nth: "i < length fl \<Longrightarrow> mark fl k n ! i =
  (if k \<le> i \<and> i < k + n - 1 then Taken else if i = k + n - 1 then Last OR Taken else fl ! i)"
  by (simp add: mark_def)

lemma flags_distinct [simp]: "Taken \<noteq> Empty" "Last OR Taken \<noteq> Empty"
  by (simp_all add: Empty_def Taken_def Last_def)

lemma mark_empty:
  assumes "i < length fl" "0 < n"
  shows "mark fl k n ! i = Empty \<longleftrightarrow> \<not> (k \<le> i \<and> i < k + n) \<and> fl ! i = Empty"
proof -
  consider "k \<le> i" "i < k + n - 1" | "i = k + n - 1" | "\<not> (k \<le> i \<and> i < k + n)" using assms(2) by linarith
  then show ?thesis using assms by cases (auto simp: mark_nth)
qed

lemma find_upt_Suc: "a < b \<Longrightarrow> find P [a..<b] = (if P a then Some a else find P [Suc a..<b])"
  by (simp add: upt_conv_Cons)

lemma find_upt_Some: "find P [a..<b] = Some k \<Longrightarrow> a \<le> k \<and> k < b \<and> P k \<and> (\<forall>i. a \<le> i \<and> i < k \<longrightarrow> \<not> P i)"
proof (induction "b - a" arbitrary: a)
  case (Suc d)
  then have ab: "a < b" "d = b - Suc a" by simp_all
  show ?case
  proof (cases "P a")
    case True
    then show ?thesis using Suc.prems ab by (auto simp: find_upt_Suc [OF ab(1)])
  next
    case False
    then have "find P [Suc a..<b] = Some k" using Suc.prems by (simp add: find_upt_Suc [OF ab(1)])
    from Suc.hyps(1) [OF ab(2) this] False show ?thesis by (metis Suc_leD Suc_leI le_neq_implies_less)
  qed
qed simp

lemma find_upt_None: "find P [a..<b] = None \<longleftrightarrow> (\<forall>i. a \<le> i \<and> i < b \<longrightarrow> \<not> P i)"
  by (auto simp: find_None_iff)

lemma first_fit_Some:
  "first_fit fl n = Some k \<Longrightarrow>
   k + n < length fl \<and> run_free fl n k \<and> (\<forall>i < k. \<not> run_free fl n i)"
  using find_upt_Some [of "run_free fl n" 0 "length fl - n" k] by (auto simp: first_fit_def)

lemma first_fitI:
  "run_free fl n k \<Longrightarrow> k + n < length fl \<Longrightarrow> (\<And>i. i < k \<Longrightarrow> \<not> run_free fl n i) \<Longrightarrow> first_fit fl n = Some k"
  by (auto simp: first_fit_def find_Some_iff intro!: exI [of _ k])

section \<open>The contract\<close>

locale page_allocator =
  fixes flags :: "'s \<Rightarrow> u8 list" and valid :: "'s \<Rightarrow> bool"
    and addr :: "'s \<Rightarrow> nat \<Rightarrow> 'p" and alloc :: "nat \<Rightarrow> 's \<Rightarrow> ('p \<times> 's) option"
  assumes alloc_fit: "valid s \<Longrightarrow> 0 < n \<Longrightarrow> n \<le> length (flags s) \<Longrightarrow> first_fit (flags s) n = Some k \<Longrightarrow>
      \<exists>s'. alloc n s = Some (addr s k, s') \<and> flags s' = mark (flags s) k n \<and> valid s' \<and>
        (\<forall>i. addr s' i = addr s i)"
    and alloc_none: "valid s \<Longrightarrow> 0 < n \<Longrightarrow> n \<le> length (flags s) \<Longrightarrow> first_fit (flags s) n = None \<Longrightarrow>
      alloc n s = None"
begin

text \<open>Allocating one request after the other, as long as they succeed.\<close>

fun allocs :: "nat list \<Rightarrow> 's \<Rightarrow> ('p list \<times> 's) option" where
  "allocs [] s = Some ([], s)"
| "allocs (n # ns) s = (case alloc n s of None \<Rightarrow> None | Some (p, s') \<Rightarrow>
     (case allocs ns s' of None \<Rightarrow> None | Some (ps, s'') \<Rightarrow> Some (p # ps, s'')))"

definition free_pages :: "'s \<Rightarrow> nat set" where
  "free_pages s = {i. i < length (flags s) \<and> flags s ! i = Empty}"

lemma alloc_cases:
  assumes "valid s" "0 < n" "n \<le> length (flags s)" "alloc n s = Some (p, s')"
  obtains k where "p = addr s k" "first_fit (flags s) n = Some k" "flags s' = mark (flags s) k n" "valid s'"
    "\<forall>i. addr s' i = addr s i"
proof (cases "first_fit (flags s) n")
  case None
  then show thesis using alloc_none assms by simp
next
  case (Some k)
  then show thesis using alloc_fit [OF assms(1-3) Some] assms(4) that by auto
qed

text \<open>An allocation takes exactly its run from the free pages, and never the last page.\<close>

lemma alloc_takes:
  assumes "valid s" "0 < n" "n \<le> length (flags s)" "alloc n s = Some (p, s')"
  obtains k where "p = addr s k" "{k..<k + n} \<subseteq> free_pages s" "k + n < length (flags s)"
    "free_pages s' = free_pages s - {k..<k + n}" "valid s'" "length (flags s') = length (flags s)"
    "\<forall>i. addr s' i = addr s i"
proof -
  obtain k where k: "p = addr s k" "first_fit (flags s) n = Some k" "flags s' = mark (flags s) k n"
    "valid s'" "\<forall>i. addr s' i = addr s i"
    using alloc_cases [OF assms] .
  have f: "k + n < length (flags s)" "run_free (flags s) n k" using first_fit_Some [OF k(2)] by simp_all
  have "flags s ! i = Empty" if "i \<in> {k..<k + n}" for i
    using f(2) that by (auto simp: run_free_def dest: spec [of _ "i - k"])
  then have "{k..<k + n} \<subseteq> free_pages s" using f(1) by (auto simp: free_pages_def)
  moreover have "free_pages s' = free_pages s - {k..<k + n}"
    using assms(2) by (auto simp: free_pages_def k(3) mark_empty)
  ultimately show thesis using that k f by simp
qed

lemma allocs_disjoint:
  "valid s \<Longrightarrow> \<forall>n \<in> set ns. 0 < n \<and> n \<le> length (flags s) \<Longrightarrow> allocs ns s = Some (ps, s') \<Longrightarrow>
   \<exists>ks. ps = map (addr s) ks \<and> length ks = length ns \<and>
     (\<forall>i < length ns. {ks ! i..<ks ! i + ns ! i} \<subseteq> free_pages s \<and> ks ! i + ns ! i < length (flags s)) \<and>
     (\<forall>i < length ns. \<forall>j < i. {ks ! i..<ks ! i + ns ! i} \<inter> {ks ! j..<ks ! j + ns ! j} = {})"
proof (induction ns arbitrary: s ps)
  case Nil
  then show ?case by simp
next
  case (Cons n ns)
  then obtain p s1 qs where s1: "alloc n s = Some (p, s1)" "allocs ns s1 = Some (qs, s')" "ps = p # qs"
    by (auto split: option.splits)
  obtain k where k: "p = addr s k" "{k..<k + n} \<subseteq> free_pages s" "k + n < length (flags s)"
    "free_pages s1 = free_pages s - {k..<k + n}" "valid s1" "length (flags s1) = length (flags s)"
    "\<forall>i. addr s1 i = addr s i"
    using alloc_takes [OF Cons.prems(1) _ _ s1(1)] Cons.prems(2) by auto
  obtain ks where ks: "qs = map (addr s1) ks" "length ks = length ns"
    "\<forall>i < length ns. {ks ! i..<ks ! i + ns ! i} \<subseteq> free_pages s1 \<and> ks ! i + ns ! i < length (flags s1)"
    "\<forall>i < length ns. \<forall>j < i. {ks ! i..<ks ! i + ns ! i} \<inter> {ks ! j..<ks ! j + ns ! j} = {}"
    using Cons.IH [OF k(5) _ s1(2)] Cons.prems(2) k(6) by auto
  have "map (addr s1) ks = map (addr s) ks" using k(7) by simp
  moreover have "{ks ! i..<ks ! i + ns ! i} \<inter> {k..<k + n} = {}" if "i < length ns" for i
    using ks(3) k(4) that by blast
  moreover have "{ks ! i..<ks ! i + ns ! i} \<subseteq> free_pages s" if "i < length ns" for i
    using ks(3) k(4) that by blast
  ultimately show ?case
    using ks k s1(3) by (intro exI [of _ "k # ks"]) (auto simp: nth_Cons less_Suc_eq_0_disj split: nat.splits)
qed

end

section \<open>Giving pages back\<close>

text \<open>A block of \<open>n\<close> pages from page \<open>k\<close> on, as \<open>alloc\<close> leaves it, and the flags without it.\<close>

definition block :: "u8 list \<Rightarrow> nat \<Rightarrow> nat \<Rightarrow> bool" where
  "block fl k n \<longleftrightarrow> 0 < n \<and> k + n \<le> length fl \<and>
     (\<forall>i. k \<le> i \<and> i < k + n - 1 \<longrightarrow> fl ! i = Taken) \<and> fl ! (k + n - 1) = Last OR Taken"

definition clear_run :: "u8 list \<Rightarrow> nat \<Rightarrow> nat \<Rightarrow> u8 list" where
  "clear_run fl k n = map (\<lambda>i. if k \<le> i \<and> i < k + n then Empty else fl ! i) [0..<length fl]"

lemma length_clear_run [simp]: "length (clear_run fl k n) = length fl"
  by (simp add: clear_run_def)

lemma clear_run_nth:
  "i < length fl \<Longrightarrow> clear_run fl k n ! i = (if k \<le> i \<and> i < k + n then Empty else fl ! i)"
  by (simp add: clear_run_def)

lemma block_mark: "0 < n \<Longrightarrow> k + n \<le> length fl \<Longrightarrow> block (mark fl k n) k n"
  by (auto simp: block_def mark_nth)

lemma clear_mark:
  assumes "run_free fl n k" "0 < n" "k + n \<le> length fl"
  shows "clear_run (mark fl k n) k n = fl"
proof (rule nth_equalityI)
  fix i assume i: "i < length (clear_run (mark fl k n) k n)"
  show "clear_run (mark fl k n) k n ! i = fl ! i"
  proof (cases "k \<le> i \<and> i < k + n")
    case True
    then have "fl ! i = Empty" using assms(1) by (auto simp: run_free_def dest: spec [of _ "i - k"])
    then show ?thesis using True i by (simp add: clear_run_nth)
  next
    case False
    then show ?thesis using i assms(2) by (auto simp: clear_run_nth mark_nth)
  qed
qed simp

text \<open>A block away from the pages that change stays a block.\<close>

lemma block_cong:
  "block fl k n \<Longrightarrow> length fl' = length fl \<Longrightarrow> (\<And>i. k \<le> i \<Longrightarrow> i < k + n \<Longrightarrow> fl' ! i = fl ! i) \<Longrightarrow> block fl' k n"
  by (auto simp: block_def)

text \<open>
  A client of an allocator: it allocates, and gives back what it holds, a list of pointers with
  their sizes in pages.
\<close>

inductive page_run :: "(nat \<Rightarrow> 's \<Rightarrow> ('p \<times> 's) option) \<Rightarrow> ('p \<Rightarrow> 's \<Rightarrow> 's option) \<Rightarrow> nat \<Rightarrow>
    's \<times> ('p \<times> nat) list \<Rightarrow> 's \<times> ('p \<times> nat) list \<Rightarrow> bool" for get put limit where
  run_refl: "page_run get put limit c c"
| run_get: "page_run get put limit c (s, held) \<Longrightarrow> 0 < n \<Longrightarrow> n \<le> limit \<Longrightarrow> get n s = Some (p, s') \<Longrightarrow>
    page_run get put limit c (s', (p, n) # held)"
| run_put: "page_run get put limit c (s, us @ (p, n) # vs) \<Longrightarrow> put p s = Some s' \<Longrightarrow>
    page_run get put limit c (s', us @ vs)"

text \<open>The runs of pages held: disjoint blocks, and every other page is empty.\<close>

fun apart :: "(nat \<times> nat) list \<Rightarrow> bool" where
  "apart [] \<longleftrightarrow> True"
| "apart ((k, n) # bs) \<longleftrightarrow> (\<forall>(j, l) \<in> set bs. {k..<k + n} \<inter> {j..<j + l} = {}) \<and> apart bs"

definition pages_of :: "(nat \<times> nat) list \<Rightarrow> nat set" where
  "pages_of bs = (\<Union>(k, n) \<in> set bs. {k..<k + n})"

definition accounted :: "u8 list \<Rightarrow> (nat \<times> nat) list \<Rightarrow> bool" where
  "accounted fl bs \<longleftrightarrow> apart bs \<and> (\<forall>(k, n) \<in> set bs. block fl k n) \<and>
     (\<forall>i < length fl. i \<notin> pages_of bs \<longrightarrow> fl ! i = Empty)"

lemma apart_remove: "apart (us @ b # vs) \<Longrightarrow> apart (us @ vs)"
proof (induction us)
  case Nil
  then show ?case by (cases b) simp
qed (auto split: prod.splits)

lemma apart_middle:
  "apart (us @ (k, n) # vs) \<Longrightarrow> (j, l) \<in> set (us @ vs) \<Longrightarrow> {k..<k + n} \<inter> {j..<j + l} = {}"
  by (induction us) (auto simp: Int_commute)

lemma accounted_get:
  assumes a: "accounted fl bs" and n: "0 < n" and k: "k + n \<le> length fl" "run_free fl n k"
  shows "accounted (mark fl k n) ((k, n) # bs)"
proof -
  have e: "fl ! i = Empty" if "k \<le> i" "i < k + n" for i
    using k(2) that by (auto simp: run_free_def dest: spec [of _ "i - k"])
  have d: "{k..<k + n} \<inter> {j..<j + l} = {}" if "(j, l) \<in> set bs" for j l
  proof -
    have b: "block fl j l" using a that by (auto simp: accounted_def)
    have "fl ! i \<noteq> Empty" if "j \<le> i" "i < j + l" for i
    proof (cases "i < j + l - 1")
      case True
      then show ?thesis using b that by (simp add: block_def)
    next
      case False
      then have "i = j + l - 1" using that by linarith
      then show ?thesis using b by (simp add: block_def)
    qed
    then show ?thesis using e by fastforce
  qed
  have "block (mark fl k n) j l" if "(j, l) \<in> set bs" for j l
  proof (rule block_cong)
    show b: "block fl j l" using a that by (auto simp: accounted_def)
    fix i assume i: "j \<le> i" "i < j + l"
    then have "\<not> (k \<le> i \<and> i < k + n)" using d [OF that] by auto
    moreover have "i < length fl" using b i by (simp add: block_def)
    ultimately show "mark fl k n ! i = fl ! i" using n by (auto simp: mark_nth)
  qed simp
  moreover have "mark fl k n ! i = Empty" if "i < length fl" "i \<notin> pages_of ((k, n) # bs)" for i
  proof -
    have "fl ! i = Empty" "\<not> (k \<le> i \<and> i < k + n)"
      using a that by (auto simp: accounted_def pages_of_def)
    then show ?thesis using mark_empty [OF that(1) n, of k] by simp
  qed
  moreover have "\<forall>(j, l) \<in> set bs. {k..<k + n} \<inter> {j..<j + l} = {}" using d by blast
  then have "apart ((k, n) # bs)" using a by (simp only: apart.simps accounted_def)
  ultimately show ?thesis
    using block_mark [OF n k(1)] unfolding accounted_def by auto
qed

lemma accounted_put:
  assumes a: "accounted fl (us @ (k, n) # vs)"
  shows "accounted (clear_run fl k n) (us @ vs)"
proof -
  have "block (clear_run fl k n) j l" if jl: "(j, l) \<in> set (us @ vs)" for j l
  proof (rule block_cong)
    show b: "block fl j l" using a jl by (auto simp: accounted_def)
    fix i assume i: "j \<le> i" "i < j + l"
    have "{k..<k + n} \<inter> {j..<j + l} = {}" using a jl apart_middle by (fastforce simp: accounted_def)
    then have "\<not> (k \<le> i \<and> i < k + n)" using i by auto
    moreover have "i < length fl" using b i by (simp add: block_def)
    ultimately show "clear_run fl k n ! i = fl ! i" by (auto simp: clear_run_nth)
  qed simp
  moreover have "clear_run fl k n ! i = Empty" if "i < length fl" "i \<notin> pages_of (us @ vs)" for i
    using a that by (auto simp: accounted_def pages_of_def clear_run_nth)
  ultimately show ?thesis
    using a apart_remove by (fastforce simp: accounted_def)
qed

locale page_deallocator = page_allocator flags valid addr alloc
    for flags :: "'s \<Rightarrow> u8 list" and valid :: "'s \<Rightarrow> bool"
      and addr :: "'s \<Rightarrow> nat \<Rightarrow> 'p" and alloc :: "nat \<Rightarrow> 's \<Rightarrow> ('p \<times> 's) option" +
  fixes dealloc :: "'p \<Rightarrow> 's \<Rightarrow> 's option"
  assumes dealloc_block: "valid s \<Longrightarrow> block (flags s) k n \<Longrightarrow>
      \<exists>s'. dealloc (addr s k) s = Some s' \<and> flags s' = clear_run (flags s) k n \<and> valid s' \<and>
        (\<forall>i. addr s' i = addr s i)"
begin

text \<open>What is allocated and given back leaves the flags as they were.\<close>

lemma alloc_dealloc:
  assumes "valid s" "0 < n" "n \<le> length (flags s)" "alloc n s = Some (p, s1)"
  obtains s2 where "dealloc p s1 = Some s2" "flags s2 = flags s" "valid s2"
proof -
  obtain k where k: "p = addr s k" "first_fit (flags s) n = Some k" "flags s1 = mark (flags s) k n"
    "valid s1" "\<forall>i. addr s1 i = addr s i"
    using alloc_cases [OF assms] .
  have f: "k + n \<le> length (flags s)" "run_free (flags s) n k" using first_fit_Some [OF k(2)] by simp_all
  have "block (flags s1) k n" using block_mark [OF assms(2) f(1)] k(3) by simp
  from dealloc_block [OF k(4) this] obtain s2 where
    "dealloc p s1 = Some s2" "flags s2 = clear_run (flags s1) k n" "valid s2"
    using k(1,5) by auto
  then show thesis using that clear_mark [OF f(2) assms(2) f(1)] k(3) by simp
qed

definition holds :: "'s \<Rightarrow> ('p \<times> nat) list \<Rightarrow> (nat \<times> nat) list \<Rightarrow> bool" where
  "holds s held bs \<longleftrightarrow> valid s \<and> held = map (\<lambda>(k, n). (addr s k, n)) bs \<and> accounted (flags s) bs"

lemma holds_run:
  assumes "page_run alloc dealloc limit c c'" "holds (fst c) (snd c) bs" "limit \<le> length (flags (fst c))"
  shows "\<exists>bs'. holds (fst c') (snd c') bs' \<and> length (flags (fst c')) = length (flags (fst c)) \<and>
    (\<forall>i. addr (fst c') i = addr (fst c) i)"
  using assms
proof (induction rule: page_run.induct)
  case (run_refl c)
  then show ?case by auto
next
  case (run_get c s held n p s')
  then obtain bs' where h: "holds s held bs'" "length (flags s) = length (flags (fst c))"
    "\<forall>i. addr s i = addr (fst c) i" by auto
  have v: "valid s" "n \<le> length (flags s)" using h run_get by (auto simp: holds_def)
  obtain k where k: "p = addr s k" "first_fit (flags s) n = Some k" "flags s' = mark (flags s) k n"
    "valid s'" "\<forall>i. addr s' i = addr s i"
    using alloc_cases [OF v(1) run_get.hyps(2) v(2) run_get.hyps(4)] .
  have f: "k + n \<le> length (flags s)" "run_free (flags s) n k" using first_fit_Some [OF k(2)] by simp_all
  have "accounted (flags s') ((k, n) # bs')"
    using accounted_get [OF _ run_get.hyps(2) f] h k(3) by (simp add: holds_def)
  then have "holds s' ((p, n) # held) ((k, n) # bs')" using h k by (auto simp: holds_def)
  then show ?case using h k by auto
next
  case (run_put c s us p n vs s')
  then obtain bs' where h: "holds s (us @ (p, n) # vs) bs'" "length (flags s) = length (flags (fst c))"
    "\<forall>i. addr s i = addr (fst c) i" by auto
  then obtain bu k bv where b: "bs' = bu @ (k, n) # bv" "p = addr s k"
    "us = map (\<lambda>(k, n). (addr s k, n)) bu" "vs = map (\<lambda>(k, n). (addr s k, n)) bv"
    unfolding holds_def by (auto simp: append_eq_map_conv Cons_eq_map_conv)
  have "block (flags s) k n" using h b by (auto simp: holds_def accounted_def)
  from dealloc_block [OF _ this] h b run_put.hyps(2) have s':
    "flags s' = clear_run (flags s) k n" "valid s'" "\<forall>i. addr s' i = addr s i"
    by (auto simp: holds_def)
  have "accounted (flags s') (bu @ bv)" using accounted_put h b s'(1) by (simp add: holds_def)
  then have "holds s' (us @ vs) (bu @ bv)" using b s' by (auto simp: holds_def)
  then show ?case using h s' by auto
qed

end

end
