(* ===== verification/PageAlloc.thy ===== *)
theory PageAlloc
  imports PageSpec Memory "HOL-Library.Monad_Syntax"
begin

text \<open>
  The 32-bit page allocator: \<^verbatim>\<open>os/src/page.c\<close> with pages of 256 bytes, and the copy in
  \<^verbatim>\<open>gcc/stdlib.c\<close> with pages of 1024 bytes and a \<open>zalloc\<close> of its own. The state is the memory and
  the globals \<open>HEAP_START\<close>, \<open>HEAP_SIZE\<close> (which the linker sets) and \<open>ALLOC_START\<close>. \<open>alloc\<close> has no
  return statement after its loop: the model gives \<open>None\<close> where C leaves its value undefined.
\<close>

record pages32 =
  HEAP_START :: u32
  HEAP_SIZE :: u32
  ALLOC_START :: u32
  pmem :: mem32

section \<open>The code\<close>

definition os_PAGE_SIZE :: u32 where
  "os_PAGE_SIZE = 256"

definition std_PAGE_SIZE :: u32 where
  "std_PAGE_SIZE = 1024"

function clear_flags :: "u32 \<Rightarrow> u32 \<Rightarrow> u32 \<Rightarrow> mem32 \<Rightarrow> mem32" where
  "clear_flags ptr i num_pages m =
     (if i < num_pages then clear_flags ptr (i + 1) num_pages (m(ptr + i := Empty)) else m)"
  by pat_completeness auto
termination
  by (relation "measure (\<lambda>(ptr, i, n, m). unat n - unat i)") (auto intro: unat_plus_1)

declare clear_flags.simps [simp del]

text \<open>\<open>!(PAGE_SIZE - 1)\<close> is the logical negation: 0 or 1.\<close>

definition mem_init :: "u32 \<Rightarrow> pages32 \<Rightarrow> pages32" where
  "mem_init PAGE_SIZE s =
     (let num_pages = HEAP_SIZE s div PAGE_SIZE;
          ptr = HEAP_START s
      in s\<lparr>pmem := clear_flags ptr 0 num_pages (pmem s),
           ALLOC_START := (HEAP_START s + num_pages * 1 + PAGE_SIZE - 1) AND
             (if PAGE_SIZE - 1 = 0 then 1 else 0)\<rparr>)"

definition std_mem_init :: "pages32 \<Rightarrow> pages32" where
  "std_mem_init s = mem_init std_PAGE_SIZE s"

text \<open>The loop over \<open>j\<close> that looks for a page of the run that is not empty.\<close>

function all_empty :: "mem32 \<Rightarrow> u32 \<Rightarrow> u32 \<Rightarrow> u32 \<Rightarrow> bool" where
  "all_empty m ptr j stop =
     (if j < stop then (if m (ptr + j) \<noteq> Empty then False else all_empty m ptr (j + 1) stop) else True)"
  by pat_completeness auto
termination
  by (relation "measure (\<lambda>(m, ptr, j, stop). unat stop - unat j)") (auto intro: unat_plus_1)

declare all_empty.simps [simp del]

function mark_taken :: "mem32 \<Rightarrow> u32 \<Rightarrow> u32 \<Rightarrow> u32 \<Rightarrow> mem32" where
  "mark_taken m ptr k stop =
     (if k < stop then mark_taken (m(ptr + k := Taken)) ptr (k + 1) stop else m)"
  by pat_completeness auto
termination
  by (relation "measure (\<lambda>(m, ptr, k, stop). unat stop - unat k)") (auto intro: unat_plus_1)

declare mark_taken.simps [simp del]

function alloc_loop :: "u32 \<Rightarrow> u32 \<Rightarrow> u32 \<Rightarrow> u32 \<Rightarrow> pages32 \<Rightarrow> (u32 \<times> pages32) option" where
  "alloc_loop PAGE_SIZE pages num_pages i s =
     (if i < num_pages - pages
      then let ptr = HEAP_START s;
               found = (pmem s (ptr + i) = Empty \<and> all_empty (pmem s) ptr i (i + pages))
           in if found
              then let m = mark_taken (pmem s) ptr i (i + pages - 1);
                       m = m(ptr + i + pages - 1 := Last OR Taken)
                   in Some (ALLOC_START s + PAGE_SIZE * i, s\<lparr>pmem := m\<rparr>)
              else alloc_loop PAGE_SIZE pages num_pages (i + 1) s
      else None)"
  by pat_completeness auto
termination
  by (relation "measure (\<lambda>(ps, p, n, i, s). unat (n - p) - unat i)") (auto intro: unat_plus_1)

declare alloc_loop.simps [simp del]

definition os_alloc :: "u32 \<Rightarrow> pages32 \<Rightarrow> (u32 \<times> pages32) option" where
  "os_alloc pages s = alloc_loop os_PAGE_SIZE pages (HEAP_SIZE s div os_PAGE_SIZE) 0 s"

definition std_alloc :: "u32 \<Rightarrow> pages32 \<Rightarrow> (u32 \<times> pages32) option" where
  "std_alloc pages s = alloc_loop std_PAGE_SIZE pages (HEAP_SIZE s div std_PAGE_SIZE) 0 s"

text \<open>\<open>for (i = 0; i < size; i += 4)\<close> on ints; the step may overflow, so it is partial.\<close>

partial_function (option) zero_words :: "u32 \<Rightarrow> i32 \<Rightarrow> i32 \<Rightarrow> mem32 \<Rightarrow> mem32 option" where
  "zero_words ptr sz i m =
     (if i <s sz then zero_words ptr sz (i + 4) (store32 m (ptr + i) 0) else Some m)"

definition os_zalloc :: "u32 \<Rightarrow> pages32 \<Rightarrow> (u32 \<times> pages32) option" where
  "os_zalloc pages s = do {
     (ptr, s) \<leftarrow> os_alloc pages s;
     m \<leftarrow> zero_words ptr (os_PAGE_SIZE * pages) 0 (pmem s);
     Some (ptr, s\<lparr>pmem := m\<rparr>) }"

text \<open>\<open>*(ptr + (i * sizeof(usize)))\<close> on a pointer to words of 4 bytes: a step of 16 bytes.\<close>

function zero_strided :: "u32 \<Rightarrow> u32 \<Rightarrow> u32 \<Rightarrow> mem32 \<Rightarrow> mem32" where
  "zero_strided ptr sz i m =
     (if i < sz then zero_strided ptr sz (i + 1) (store32 m (ptr + (i * 4) * 4) 0) else m)"
  by pat_completeness auto
termination
  by (relation "measure (\<lambda>(ptr, sz, i, m). unat sz - unat i)") (auto intro: unat_plus_1)

declare zero_strided.simps [simp del]

definition std_zalloc :: "u32 \<Rightarrow> pages32 \<Rightarrow> (u32 \<times> pages32) option" where
  "std_zalloc pages s = do {
     (ret, s) \<leftarrow> std_alloc pages s;
     Some (ret, s\<lparr>pmem := zero_strided ret ((std_PAGE_SIZE * pages) div 4) 0 (pmem s)\<rparr>) }"

section \<open>The flags in memory\<close>

definition num_pages :: "nat \<Rightarrow> pages32 \<Rightarrow> nat" where
  "num_pages ps s = unat (HEAP_SIZE s) div ps"

definition flags32 :: "nat \<Rightarrow> pages32 \<Rightarrow> u8 list" where
  "flags32 ps s = map (\<lambda>i. pmem s (HEAP_START s + of_nat i)) [0..<num_pages ps s]"

lemma length_flags32 [simp]: "length (flags32 ps s) = num_pages ps s"
  by (simp add: flags32_def)

lemma flags32_nth: "i < num_pages ps s \<Longrightarrow> flags32 ps s ! i = pmem s (HEAP_START s + of_nat i)"
  by (simp add: flags32_def)

lemma num_pages_less: "num_pages ps s < 2 ^ 32"
proof -
  have "num_pages ps s \<le> unat (HEAP_SIZE s)" unfolding num_pages_def by (rule div_le_dividend)
  also have "unat (HEAP_SIZE s) < 2 ^ 32" using unsigned_less [of "HEAP_SIZE s", where ?'a = nat] by simp
  finally show ?thesis .
qed

lemma of_nat_less_32: "i < 2 ^ 32 \<Longrightarrow> k < 2 ^ 32 \<Longrightarrow> (of_nat i :: u32) < of_nat k \<longleftrightarrow> i < k"
  by (simp add: word_less_nat_alt unat_of_nat_32)

lemma page_index: "i < 2 ^ 32 \<Longrightarrow> k < 2 ^ 32 \<Longrightarrow> (p :: u32) + of_nat i = p + of_nat k \<longleftrightarrow> i = k"
  by (metis add_left_cancel unat_of_nat_32)

lemma all_empty_eq:
  "a \<le> b \<Longrightarrow> b < 2 ^ 32 \<Longrightarrow>
   all_empty m ptr (of_nat a) (of_nat b) \<longleftrightarrow> (\<forall>j. a \<le> j \<and> j < b \<longrightarrow> m (ptr + of_nat j) = Empty)"
proof (induction "b - a" arbitrary: a)
  case 0
  then show ?case by (subst all_empty.simps) auto
next
  case (Suc d)
  then have ab: "a < b" "d = b - Suc a" by simp_all
  then have "all_empty m ptr (of_nat a) (of_nat b) \<longleftrightarrow>
      m (ptr + of_nat a) = Empty \<and> all_empty m ptr (of_nat (Suc a)) (of_nat b)"
    using Suc.prems by (subst all_empty.simps) (simp add: of_nat_less_32 add.commute)
  also have "\<dots> \<longleftrightarrow> m (ptr + of_nat a) = Empty \<and> (\<forall>j. Suc a \<le> j \<and> j < b \<longrightarrow> m (ptr + of_nat j) = Empty)"
    using Suc.hyps(1) [OF ab(2)] ab Suc.prems by simp
  also have "\<dots> \<longleftrightarrow> (\<forall>j. a \<le> j \<and> j < b \<longrightarrow> m (ptr + of_nat j) = Empty)"
    using ab(1) by (auto simp: Suc_le_eq) (metis le_neq_implies_less)
  finally show ?case .
qed

lemma mark_taken_eq:
  "a \<le> b \<Longrightarrow> b < 2 ^ 32 \<Longrightarrow>
   mark_taken m ptr (of_nat a) (of_nat b) x =
     (if \<exists>j. a \<le> j \<and> j < b \<and> x = ptr + of_nat j then Taken else m x)"
proof (induction "b - a" arbitrary: a m)
  case 0
  then show ?case by (subst mark_taken.simps) auto
next
  case (Suc d)
  then have ab: "a < b" "d = b - Suc a" by simp_all
  then have "mark_taken m ptr (of_nat a) (of_nat b) x =
      mark_taken (m(ptr + of_nat a := Taken)) ptr (of_nat (Suc a)) (of_nat b) x"
    using Suc.prems by (subst mark_taken.simps) (simp add: of_nat_less_32 add.commute)
  also have "\<dots> = (if \<exists>j. Suc a \<le> j \<and> j < b \<and> x = ptr + of_nat j then Taken
      else (m(ptr + of_nat a := Taken)) x)"
    using Suc.hyps(1) [OF ab(2)] ab Suc.prems by simp
  also have "\<dots> = (if \<exists>j. a \<le> j \<and> j < b \<and> x = ptr + of_nat j then Taken else m x)"
    using ab(1) by (auto simp: Suc_le_eq)
  finally show ?case .
qed

lemma clear_flags_eq:
  "a \<le> b \<Longrightarrow> b < 2 ^ 32 \<Longrightarrow>
   clear_flags ptr (of_nat a) (of_nat b) m x =
     (if \<exists>j. a \<le> j \<and> j < b \<and> x = ptr + of_nat j then Empty else m x)"
proof (induction "b - a" arbitrary: a m)
  case 0
  then show ?case by (subst clear_flags.simps) auto
next
  case (Suc d)
  then have ab: "a < b" "d = b - Suc a" by simp_all
  then have "clear_flags ptr (of_nat a) (of_nat b) m x =
      clear_flags ptr (of_nat (Suc a)) (of_nat b) (m(ptr + of_nat a := Empty)) x"
    using Suc.prems by (subst clear_flags.simps) (simp add: of_nat_less_32 add.commute)
  also have "\<dots> = (if \<exists>j. Suc a \<le> j \<and> j < b \<and> x = ptr + of_nat j then Empty
      else (m(ptr + of_nat a := Empty)) x)"
    using Suc.hyps(1) [OF ab(2)] ab Suc.prems by simp
  also have "\<dots> = (if \<exists>j. a \<le> j \<and> j < b \<and> x = ptr + of_nat j then Empty else m x)"
    using ab(1) by (auto simp: Suc_le_eq)
  finally show ?case .
qed

section \<open>The search is the first fit\<close>

text \<open>The memory after pages \<open>k\<close> to \<open>k + n - 1\<close> have been marked.\<close>

definition taken_mem :: "pages32 \<Rightarrow> nat \<Rightarrow> nat \<Rightarrow> mem32" where
  "taken_mem s k n =
     (mark_taken (pmem s) (HEAP_START s) (of_nat k) (of_nat (k + n - 1)))
       (HEAP_START s + of_nat (k + n - 1) := Last OR Taken)"

lemma alloc_loop_eq:
  assumes n: "0 < n" "n \<le> num_pages ps s"
  shows "i \<le> num_pages ps s - n \<Longrightarrow>
    alloc_loop PS (of_nat n) (of_nat (num_pages ps s)) (of_nat i) s =
      (case find (run_free (flags32 ps s) n) [i..<num_pages ps s - n] of None \<Rightarrow> None
       | Some k \<Rightarrow> Some (ALLOC_START s + PS * of_nat k, s\<lparr>pmem := taken_mem s k n\<rparr>))"
proof (induction "num_pages ps s - n - i" arbitrary: i)
  case 0
  then have "i = num_pages ps s - n" by simp
  then have "(of_nat i :: u32) = of_nat (num_pages ps s) - of_nat n" using n by (simp add: of_nat_diff)
  then show ?case using 0 by (subst alloc_loop.simps) simp
next
  case (Suc d)
  define N where "N = num_pages ps s"
  have N: "N < 2 ^ 32" unfolding N_def by (rule num_pages_less)
  have i: "i < N - n" "d = N - n - Suc i" "i + n < N" using Suc.hyps(2) by (simp_all add: N_def)
  have lim: "(of_nat i :: u32) < of_nat N - of_nat n"
    using i(1) n N of_nat_less_32 [of i "N - n"] by (simp add: of_nat_diff N_def)
  have stop: "(of_nat i + of_nat n :: u32) = of_nat (i + n)" "(of_nat i + of_nat n - 1 :: u32) = of_nat (i + n - 1)"
    "HEAP_START s + of_nat i + of_nat n - 1 = HEAP_START s + of_nat (i + n - 1)"
    using n(1) by (simp_all add: of_nat_diff)
  have "all_empty (pmem s) (HEAP_START s) (of_nat i) (of_nat (i + n)) \<longleftrightarrow>
      (\<forall>j. i \<le> j \<and> j < i + n \<longrightarrow> pmem s (HEAP_START s + of_nat j) = Empty)"
    using i N by (intro all_empty_eq) auto
  also have "\<dots> \<longleftrightarrow> (\<forall>j < n. pmem s (HEAP_START s + of_nat (i + j)) = Empty)"
    by (metis add_less_cancel_left le_add1 le_Suc_ex)
  also have "\<dots> \<longleftrightarrow> run_free (flags32 ps s) n i"
    using i(3) by (simp add: run_free_def flags32_nth N_def del: of_nat_add)
  finally have f: "pmem s (HEAP_START s + of_nat i) = Empty \<and>
      all_empty (pmem s) (HEAP_START s) (of_nat i) (of_nat (i + n)) \<longleftrightarrow> run_free (flags32 ps s) n i"
    using n(1) i(3) by (auto simp: run_free_def flags32_nth N_def dest: spec [of _ 0])
  have stop': "(of_nat (i + n) - 1 :: u32) = of_nat (i + n - Suc 0)" using stop(1,2) by simp
  have step: "alloc_loop PS (of_nat n) (of_nat N) (of_nat i) s =
      (if run_free (flags32 ps s) n i then Some (ALLOC_START s + PS * of_nat i, s\<lparr>pmem := taken_mem s i n\<rparr>)
       else alloc_loop PS (of_nat n) (of_nat N) (of_nat (Suc i)) s)"
    by (subst alloc_loop.simps)
      (simp add: lim stop stop' f taken_mem_def Let_def add.commute [of 1] del: of_nat_add)
  show ?case
    using step i(1) Suc.hyps(1) [of "Suc i"] i(2)
    by (simp add: N_def find_upt_Suc)
qed

lemma taken_mem_flags:
  assumes "0 < n" "k + n \<le> num_pages ps s"
  shows "flags32 ps (s\<lparr>pmem := taken_mem s k n\<rparr>) = mark (flags32 ps s) k n"
proof (rule nth_equalityI)
  show "length (flags32 ps (s\<lparr>pmem := taken_mem s k n\<rparr>)) = length (mark (flags32 ps s) k n)"
    by (simp add: num_pages_def)
  fix i assume "i < length (flags32 ps (s\<lparr>pmem := taken_mem s k n\<rparr>))"
  then have i: "i < num_pages ps s" by (simp add: num_pages_def)
  have N: "num_pages ps s < 2 ^ 32" by (rule num_pages_less)
  have "(\<exists>j. k \<le> j \<and> j < k + n - 1 \<and> HEAP_START s + of_nat i = HEAP_START s + of_nat j) \<longleftrightarrow>
      k \<le> i \<and> i < k + n - 1"
    (is "?L \<longleftrightarrow> ?R")
  proof
    assume ?L
    then obtain j where j: "k \<le> j" "j < k + n - 1" "HEAP_START s + of_nat i = HEAP_START s + of_nat j" by blast
    then have "i = j" using page_index [of i j "HEAP_START s"] i N assms by linarith
    then show ?R using j by simp
  qed blast
  then show "flags32 ps (s\<lparr>pmem := taken_mem s k n\<rparr>) ! i = mark (flags32 ps s) k n ! i"
    using i N assms page_index [of i "k + n - 1" "HEAP_START s"] mark_taken_eq [of k "k + n - 1" "pmem s" "HEAP_START s"]
    by (simp add: mark_nth flags32_nth num_pages_def taken_mem_def del: of_nat_add)
qed

section \<open>The contract holds\<close>

lemma alloc_loop_first_fit:
  assumes "0 < n" "n \<le> num_pages ps s"
  shows "alloc_loop PS (of_nat n) (of_nat (num_pages ps s)) 0 s =
    (case first_fit (flags32 ps s) n of None \<Rightarrow> None
     | Some k \<Rightarrow> Some (ALLOC_START s + PS * of_nat k, s\<lparr>pmem := taken_mem s k n\<rparr>))"
  using alloc_loop_eq [OF assms, of 0 PS] by (simp add: first_fit_def)

lemma num_pages_word: "HEAP_SIZE s div of_nat ps = (of_nat (num_pages ps s) :: u32)" if "ps < 2 ^ 32"
proof (rule word_unat_eq_iff [THEN iffD2])
  show "unat (HEAP_SIZE s div of_nat ps) = unat (of_nat (num_pages ps s) :: u32)"
    using that num_pages_less [of ps s] by (simp only: unat_div unat_of_nat_32 num_pages_def)
qed

lemma os_alloc_first_fit:
  assumes "0 < n" "n \<le> num_pages 256 s"
  shows "os_alloc (of_nat n) s =
    (case first_fit (flags32 256 s) n of None \<Rightarrow> None
     | Some k \<Rightarrow> Some (ALLOC_START s + 256 * of_nat k, s\<lparr>pmem := taken_mem s k n\<rparr>))"
  using alloc_loop_first_fit [OF assms, of 256] num_pages_word [of 256 s]
  by (simp add: os_alloc_def os_PAGE_SIZE_def)

lemma std_alloc_first_fit:
  assumes "0 < n" "n \<le> num_pages 1024 s"
  shows "std_alloc (of_nat n) s =
    (case first_fit (flags32 1024 s) n of None \<Rightarrow> None
     | Some k \<Rightarrow> Some (ALLOC_START s + 1024 * of_nat k, s\<lparr>pmem := taken_mem s k n\<rparr>))"
  using alloc_loop_first_fit [OF assms, of 1024] num_pages_word [of 1024 s]
  by (simp add: std_alloc_def std_PAGE_SIZE_def)

definition page32 :: "u32 \<Rightarrow> pages32 \<Rightarrow> nat \<Rightarrow> u32" where
  "page32 PAGE_SIZE s k = ALLOC_START s + PAGE_SIZE * of_nat k"

interpretation os_pages: page_allocator "flags32 256" "\<lambda>_. True" "page32 256" "\<lambda>n. os_alloc (of_nat n)"
proof unfold_locales
  fix s n k assume n: "0 < n" "n \<le> length (flags32 256 s)" and k: "first_fit (flags32 256 s) n = Some k"
  then have "k + n \<le> num_pages 256 s" using first_fit_Some [OF k] by simp
  then show "\<exists>s'. os_alloc (of_nat n) s = Some (page32 256 s k, s') \<and>
      flags32 256 s' = mark (flags32 256 s) k n \<and> True \<and> (\<forall>i. page32 256 s' i = page32 256 s i)"
    using n k os_alloc_first_fit [of n s] taken_mem_flags [of n k 256 s] by (simp add: page32_def)
qed (simp add: os_alloc_first_fit)

interpretation std_pages: page_allocator "flags32 1024" "\<lambda>_. True" "page32 1024" "\<lambda>n. std_alloc (of_nat n)"
proof unfold_locales
  fix s n k assume n: "0 < n" "n \<le> length (flags32 1024 s)" and k: "first_fit (flags32 1024 s) n = Some k"
  then have "k + n \<le> num_pages 1024 s" using first_fit_Some [OF k] by simp
  then show "\<exists>s'. std_alloc (of_nat n) s = Some (page32 1024 s k, s') \<and>
      flags32 1024 s' = mark (flags32 1024 s) k n \<and> True \<and> (\<forall>i. page32 1024 s' i = page32 1024 s i)"
    using n k std_alloc_first_fit [of n s] taken_mem_flags [of n k 1024 s] by (simp add: page32_def)
qed (simp add: std_alloc_first_fit)

section \<open>Zeroed pages\<close>

lemma store_bytes_zero: "store_bytes n m a (0 :: u32) x = (if x \<in> bytes_at a n then 0 else m x)"
  by (induction n m a "0 :: u32" rule: store_bytes.induct) (auto simp: bytes_at_Suc)

lemma store32_zero: "store32 m a 0 x = (if x \<in> bytes_at a 4 then 0 else m x)"
  unfolding store32_def by (rule store_bytes_zero)

text \<open>Storing \<open>k\<close> zero words at a stride.\<close>

definition zeroed :: "mem32 \<Rightarrow> u32 \<Rightarrow> u32 \<Rightarrow> nat \<Rightarrow> mem32" where
  "zeroed m a d k = (\<lambda>x. if \<exists>j < k. x \<in> bytes_at (a + of_nat j * d) 4 then 0 else m x)"

lemma zeroed_Suc: "zeroed m a d (Suc k) = zeroed (store32 m a 0) (a + d) d k"
  by (auto simp: zeroed_def fun_eq_iff store32_zero less_Suc_eq_0_disj algebra_simps)

lemma zeroed_snoc: "zeroed m a d (Suc k) = store32 (zeroed m a d k) (a + of_nat k * d) 0"
  by (auto simp: zeroed_def fun_eq_iff store32_zero less_Suc_eq)

lemma zeroed_0 [simp]: "zeroed m a d 0 = m"
  by (simp add: zeroed_def)

lemma zeroed_4: "zeroed m a 4 k x = (if x \<in> bytes_at a (4 * k) then 0 else m x)"
proof (induction k arbitrary: m)
  case (Suc k)
  have "bytes_at a (4 * Suc k) = bytes_at a (4 * k) \<union> bytes_at (a + of_nat (4 * k)) 4"
    using bytes_at_add [of a "4 * k" 4] by (simp add: add.commute)
  then show ?case using Suc by (simp add: zeroed_snoc store32_zero mult.commute)
qed simp

lemma zero_words_eq:
  assumes "4 * k < 2 ^ 31"
  shows "i \<le> k \<Longrightarrow> zero_words ptr (of_nat (4 * k)) (of_nat (4 * i)) m =
    Some (zeroed m (ptr + of_nat (4 * i)) 4 (k - i))"
proof (induction "k - i" arbitrary: i m)
  case 0
  then show ?case by (subst zero_words.simps) simp
next
  case (Suc d)
  have s: "sint (of_nat (4 * j) :: u32) = 4 * int j" if "j \<le> k" for j
    using that assms sint_of_int_32 [of "4 * int j"] by simp
  have "sint (of_nat (4 * i) :: u32) < sint (of_nat (4 * k) :: u32)" using s [of i] s [of k] Suc by linarith
  then have "zero_words ptr (of_nat (4 * k)) (of_nat (4 * i)) m =
      zero_words ptr (of_nat (4 * k)) (of_nat (4 * Suc i)) (store32 m (ptr + of_nat (4 * i)) 0)"
    by (subst zero_words.simps) (simp add: word_sless_alt add.commute)
  also have "\<dots> = Some (zeroed (store32 m (ptr + of_nat (4 * i)) 0) (ptr + of_nat (4 * Suc i)) 4 (k - Suc i))"
    using Suc.hyps(2) by (intro Suc.hyps(1)) linarith+
  also have "\<dots> = Some (zeroed m (ptr + of_nat (4 * i)) 4 (k - i))"
    using Suc.hyps(2) zeroed_Suc [of m "ptr + of_nat (4 * i)" 4 "k - Suc i"]
    by (simp add: Suc_diff_Suc add_ac)
  finally show ?case .
qed

lemma zero_strided_eq:
  assumes "k < 2 ^ 32"
  shows "i \<le> k \<Longrightarrow> zero_strided ptr (of_nat k) (of_nat i) m = zeroed m (ptr + of_nat i * 16) 16 (k - i)"
proof (induction "k - i" arbitrary: i m)
  case 0
  then show ?case by (subst zero_strided.simps) simp
next
  case (Suc d)
  have "(of_nat i :: u32) < of_nat k" using Suc.hyps(2) assms by (simp add: of_nat_less_32)
  then have "zero_strided ptr (of_nat k) (of_nat i) m =
      zero_strided ptr (of_nat k) (of_nat (Suc i)) (store32 m (ptr + of_nat i * 16) 0)"
    by (subst zero_strided.simps) (simp add: add.commute mult.assoc)
  also have "\<dots> = zeroed (store32 m (ptr + of_nat i * 16) 0) (ptr + of_nat (Suc i) * 16) 16 (k - Suc i)"
    using Suc.hyps(2) by (intro Suc.hyps(1)) linarith+
  also have "\<dots> = zeroed m (ptr + of_nat i * 16) 16 (k - i)"
    using Suc.hyps(2) zeroed_Suc [of m "ptr + of_nat i * 16" 16 "k - Suc i"]
    by (simp add: Suc_diff_Suc algebra_simps)
  finally show ?case .
qed

section \<open>Properties\<close>

text \<open>Allocating one request after the other.\<close>

fun os_alloc_all :: "nat list \<Rightarrow> pages32 \<Rightarrow> (u32 list \<times> pages32) option" where
  "os_alloc_all [] s = Some ([], s)"
| "os_alloc_all (n # ns) s = do {
     (p, s) \<leftarrow> os_alloc (of_nat n) s;
     (ps, s) \<leftarrow> os_alloc_all ns s;
     Some (p # ps, s) }"

lemma os_alloc_all_eq: "os_alloc_all ns s = os_pages.allocs ns s"
  by (induction ns arbitrary: s) (auto split: option.splits bind_splits simp: Option.bind_eq_None_conv)

text \<open>The bytes of a run of pages, as distances from the start of the pages.\<close>

lemma bytes_at_pages:
  fixes a :: "u32"
  assumes "256 * (k + n) \<le> 2 ^ 32" "256 * (k' + n') \<le> 2 ^ 32" "{k..<k + n} \<inter> {k'..<k' + n'} = {}"
  shows "bytes_at (a + 256 * of_nat k) (256 * n) \<inter> bytes_at (a + 256 * of_nat k') (256 * n') = {}"
proof (rule ccontr)
  assume "\<not> ?thesis"
  then obtain i j where ij: "i < 256 * n" "j < 256 * n'"
    "a + 256 * of_nat k + of_nat i = a + 256 * of_nat k' + of_nat j"
    by (auto simp: bytes_at_def)
  then have "(of_nat (256 * k + i) :: u32) = of_nat (256 * k' + j)" by (simp add: add.assoc)
  then have eq: "256 * k + i = 256 * k' + j"
    using ij(1,2) assms(1,2) unat_of_nat_32 [of "256 * k + i"] unat_of_nat_32 [of "256 * k' + j"]
    by simp
  define q where "q = (256 * k + i) div 256"
  have "q = k + i div 256" unfolding q_def by simp
  moreover have "q = k' + j div 256" unfolding q_def eq by simp
  moreover have "i div 256 < n" "j div 256 < n'" using ij by (simp_all add: less_mult_imp_div_less mult.commute)
  ultimately have "q \<in> {k..<k + n} \<inter> {k'..<k' + n'}" by simp
  then show False using assms(3) by blast
qed

text \<open>C15: The page allocator of \<^verbatim>\<open>os/src/page.c\<close> never hands out the same byte twice: in any sequence of
  successful \<open>alloc\<close> calls for a positive number of pages that the heap can hold, the byte ranges
  of any two of the blocks are disjoint.\<close>

theorem os_alloc_disjoint:
  assumes "os_alloc_all ns s = Some (ps, s')" "\<forall>n \<in> set ns. 0 < n \<and> n \<le> num_pages 256 s"
    "i < length ns" "j < length ns" "i \<noteq> j"
  shows "bytes_at (ps ! i) (256 * ns ! i) \<inter> bytes_at (ps ! j) (256 * ns ! j) = {}"
proof -
  obtain ks where ks: "ps = map (page32 256 s) ks" "length ks = length ns"
    "\<forall>i < length ns. {ks ! i..<ks ! i + ns ! i} \<subseteq> os_pages.free_pages s \<and> ks ! i + ns ! i < length (flags32 256 s)"
    "\<forall>i < length ns. \<forall>j < i. {ks ! i..<ks ! i + ns ! i} \<inter> {ks ! j..<ks ! j + ns ! j} = {}"
    using os_pages.allocs_disjoint [where s = s and ns = ns and ps = ps and s' = s'] assms(1,2) by (auto simp: os_alloc_all_eq)
  have "unat (HEAP_SIZE s) < 2 ^ 32" using unsigned_less [of "HEAP_SIZE s", where ?'a = nat] by simp
  then have N: "256 * num_pages 256 s \<le> 2 ^ 32" unfolding num_pages_def by linarith
  have b: "256 * (ks ! l + ns ! l) \<le> 2 ^ 32" if "l < length ns" for l
    using ks(3) that N by (auto simp: less_imp_le intro: le_trans [OF mult_le_mono2])
  have "{ks ! i..<ks ! i + ns ! i} \<inter> {ks ! j..<ks ! j + ns ! j} = {}"
    using ks(4) assms(3-5) by (metis Int_commute nat_neq_iff)
  then show ?thesis
    using bytes_at_pages [OF b b] assms ks(1,2) by (simp add: page32_def)
qed

definition demo_pages :: pages32 where
  "demo_pages = \<lparr>HEAP_START = 4096, HEAP_SIZE = 1024, ALLOC_START = 0, pmem = (\<lambda>_. 0)\<rparr>"

lemma demo_pages_allocs: "\<exists>s'. os_alloc_all [2, 1] demo_pages = Some ([0, 512], s')"
proof -
  have "map_option fst (os_alloc_all [2, 1] demo_pages) = Some [0, 512]"
    unfolding demo_pages_def by code_simp
  then show ?thesis by (cases "os_alloc_all [2, 1] demo_pages") auto
qed

lemma os_alloc_disjoint_witness:
  "\<exists>s'. os_alloc_all [2, 1] demo_pages = Some ([0, 512], s') \<and>
     bytes_at (0 :: u32) 512 \<inter> bytes_at (512 :: u32) 256 = {}"
proof -
  obtain s' where s': "os_alloc_all [2, 1] demo_pages = Some ([0, 512], s')" using demo_pages_allocs by blast
  have "num_pages 256 demo_pages = 4" by (simp add: num_pages_def demo_pages_def)
  then have "bytes_at (0 :: u32) 512 \<inter> bytes_at (512 :: u32) 256 = {}"
    using os_alloc_disjoint [OF s', of 0 1] by simp
  then show ?thesis using s' by blast
qed

lemma taken_mem_frame:
  assumes "0 < n" "k + n \<le> num_pages ps s" "x \<notin> bytes_at (HEAP_START s) (num_pages ps s)"
  shows "taken_mem s k n x = pmem s x"
proof -
  have N: "num_pages ps s < 2 ^ 32" by (rule num_pages_less)
  have "x \<noteq> HEAP_START s + of_nat j" if "j < num_pages ps s" for j
    using assms(3) that by (auto simp: bytes_at_def)
  note x = this
  have "k + n - 1 < num_pages ps s" using assms(1,2) by linarith
  from x [OF this] have "x \<noteq> HEAP_START s + of_nat (k + n - 1)" .
  moreover have "\<nexists>j. k \<le> j \<and> j < k + n - 1 \<and> x = HEAP_START s + of_nat j"
    using assms(1,2) x by auto
  moreover have "k + n - 1 < 2 ^ 32" "k \<le> k + n - 1" using assms N by linarith+
  ultimately have "mark_taken (pmem s) (HEAP_START s) (of_nat k) (of_nat (k + n - 1)) x = pmem s x"
    "x \<noteq> HEAP_START s + of_nat (k + n - 1)"
    using mark_taken_eq [of k "k + n - 1" "pmem s" "HEAP_START s" x] by (simp_all only: if_False simp_thms)
  then show ?thesis unfolding taken_mem_def by (metis fun_upd_other)
qed

text \<open>C17: \<open>alloc\<close> of the kernel is a first fit: for a positive number of pages that the heap can hold, it
  fails exactly when no run of that many empty pages starts before page
  \<open>num_pages - pages\<close> (so the last page is never handed out), and otherwise returns the address of
  the first such run, marks its flags taken, the last one also as last, and touches no byte
  besides the flags.\<close>

theorem os_alloc_correct:
  assumes "0 < n" "n \<le> num_pages 256 s"
  shows "(os_alloc (of_nat n) s = None \<longleftrightarrow> (\<forall>k. k + n < num_pages 256 s \<longrightarrow> \<not> run_free (flags32 256 s) n k)) \<and>
    (\<forall>p s'. os_alloc (of_nat n) s = Some (p, s') \<longrightarrow>
      (\<exists>k. p = ALLOC_START s + 256 * of_nat k \<and> k + n < num_pages 256 s \<and> run_free (flags32 256 s) n k \<and>
        (\<forall>i < k. \<not> run_free (flags32 256 s) n i) \<and> flags32 256 s' = mark (flags32 256 s) k n \<and>
        (\<forall>x. x \<notin> bytes_at (HEAP_START s) (num_pages 256 s) \<longrightarrow> pmem s' x = pmem s x)))"
proof (cases "first_fit (flags32 256 s) n")
  case None
  then have "os_alloc (of_nat n) s = None" using os_alloc_first_fit [OF assms] by simp
  moreover have "\<forall>k. k + n < num_pages 256 s \<longrightarrow> \<not> run_free (flags32 256 s) n k"
    using None by (auto simp: first_fit_def find_upt_None)
  ultimately show ?thesis by simp
next
  case (Some k)
  have k: "k + n < num_pages 256 s" "run_free (flags32 256 s) n k" "\<forall>i < k. \<not> run_free (flags32 256 s) n i"
    using first_fit_Some [OF Some] by simp_all
  have e: "os_alloc (of_nat n) s = Some (ALLOC_START s + 256 * of_nat k, s\<lparr>pmem := taken_mem s k n\<rparr>)"
    using os_alloc_first_fit [OF assms] Some by simp
  have fr: "\<forall>x. x \<notin> bytes_at (HEAP_START s) (num_pages 256 s) \<longrightarrow> taken_mem s k n x = pmem s x"
    using taken_mem_frame [OF assms(1) less_imp_le [OF k(1)]] by blast
  have fl: "flags32 256 (s\<lparr>pmem := taken_mem s k n\<rparr>) = mark (flags32 256 s) k n"
    by (rule taken_mem_flags [OF assms(1) less_imp_le [OF k(1)]])
  show ?thesis using k e fr fl by (auto simp del: of_nat_add)
qed

lemma os_alloc_correct_witness:
  "(os_alloc 3 demo_pages = None \<longleftrightarrow> (\<forall>k. k + 3 < (4::nat) \<longrightarrow> \<not> run_free (flags32 256 demo_pages) 3 k)) \<and>
   os_alloc 3 demo_pages \<noteq> None"
proof -
  have n: "num_pages 256 demo_pages = 4" by (simp add: num_pages_def demo_pages_def)
  moreover have "run_free (flags32 256 demo_pages) 3 0"
    by (simp add: run_free_def flags32_nth n) (simp add: demo_pages_def Empty_def)
  ultimately show ?thesis using os_alloc_correct [of 3 demo_pages] by auto
qed

lemma clear_flags_flags:
  assumes "ps < 2 ^ 32"
  shows "clear_flags (HEAP_START s) 0 (HEAP_SIZE s div of_nat ps) (pmem s) x =
    (if x \<in> bytes_at (HEAP_START s) (num_pages ps s) then Empty else pmem s x)"
  using clear_flags_eq [of 0 "num_pages ps s" "HEAP_START s" "pmem s" x] num_pages_less [of ps s]
  by (auto simp: num_pages_word [OF assms] bytes_at_def)

text \<open>\<open>mem_init\<close> of the kernel clears the flag of every page and touches no other byte, but it
  sets \<open>ALLOC_START\<close> to 0, since \<open>!(PAGE_SIZE - 1)\<close> is a logical, not a bitwise, negation: the
  first page allocated afterwards is page 0 of memory, not of the heap, and its address is the null
  pointer.\<close>

theorem os_mem_init_alloc_start:
  "flags32 256 (mem_init os_PAGE_SIZE s) = replicate (num_pages 256 s) Empty \<and>
   (\<forall>x. x \<notin> bytes_at (HEAP_START s) (num_pages 256 s) \<longrightarrow> pmem (mem_init os_PAGE_SIZE s) x = pmem s x) \<and>
   ALLOC_START (mem_init os_PAGE_SIZE s) = 0 \<and>
   (512 \<le> unat (HEAP_SIZE s) \<longrightarrow> (\<exists>s'. os_alloc 1 (mem_init os_PAGE_SIZE s) = Some (0, s')))"
proof -
  let ?s = "mem_init os_PAGE_SIZE s"
  have m: "pmem ?s x = (if x \<in> bytes_at (HEAP_START s) (num_pages 256 s) then Empty else pmem s x)" for x
    using clear_flags_flags [of 256 s x] by (simp add: mem_init_def os_PAGE_SIZE_def)
  have [simp]: "num_pages 256 ?s = num_pages 256 s" "HEAP_START ?s = HEAP_START s" "ALLOC_START ?s = 0"
    by (simp_all add: mem_init_def num_pages_def os_PAGE_SIZE_def)
  have f: "flags32 256 ?s = replicate (num_pages 256 s) Empty"
    by (rule nth_equalityI) (auto simp: flags32_nth m bytes_at_def)
  have "\<exists>s'. os_alloc 1 ?s = Some (0, s')" if "512 \<le> unat (HEAP_SIZE s)"
  proof -
    have n: "2 \<le> num_pages 256 s" using that unfolding num_pages_def by linarith
    then have "run_free (flags32 256 ?s) 1 0" by (simp add: run_free_def f)
    then have "first_fit (flags32 256 ?s) 1 = Some 0"
      using n find_upt_Suc [of 0 "num_pages 256 s - 1" "run_free (flags32 256 ?s) 1"]
      by (simp add: first_fit_def)
    then show ?thesis using os_alloc_first_fit [of 1 ?s] n by simp
  qed
  then show ?thesis using m f by simp
qed

lemma os_mem_init_alloc_start_witness:
  "ALLOC_START (mem_init os_PAGE_SIZE demo_pages) = 0 \<and>
   (\<exists>s'. os_alloc 1 (mem_init os_PAGE_SIZE demo_pages) = Some (0, s'))"
  using os_mem_init_alloc_start [of demo_pages] by (simp add: demo_pages_def)

text \<open>\<open>zalloc\<close> of the kernel returns what \<open>alloc\<close> returns, with every byte of the block zero and every
  byte outside of the block as \<open>alloc\<close> left it, for blocks of less than 2 GB.\<close>

theorem os_zalloc_zeroes:
  assumes "os_alloc pages s = Some (p, s')" "256 * unat pages < 2 ^ 31"
  shows "\<exists>s''. os_zalloc pages s = Some (p, s'') \<and>
    pmem s'' = (\<lambda>x. if x \<in> bytes_at p (256 * unat pages) then 0 else pmem s' x)"
proof -
  have "(of_nat (4 * (64 * unat pages)) :: u32) = os_PAGE_SIZE * pages" by (simp add: os_PAGE_SIZE_def)
  moreover have "4 * (64 * unat pages) < 2 ^ 31" using assms(2) by simp
  ultimately have "zero_words p (os_PAGE_SIZE * pages) 0 (pmem s') = Some (zeroed (pmem s') p 4 (64 * unat pages))"
    using zero_words_eq [of "64 * unat pages" 0 p "pmem s'"] by simp
  then show ?thesis using assms(1) by (auto simp: os_zalloc_def zeroed_4 fun_eq_iff)
qed

lemma os_zalloc_zeroes_witness:
  "\<exists>s''. os_zalloc 1 demo_pages = Some (0, s'') \<and> pmem s'' 255 = 0 \<and> pmem s'' 4096 = Last OR Taken"
proof -
  have "map_option (\<lambda>(p, s). (p, pmem s 4096)) (os_alloc 1 demo_pages) = Some (0, Last OR Taken)"
    unfolding demo_pages_def by code_simp
  then obtain s' where s': "os_alloc 1 demo_pages = Some (0, s')" "pmem s' 4096 = Last OR Taken"
    by (cases "os_alloc 1 demo_pages") auto
  have b: "(255 :: u32) \<in> bytes_at 0 256" "(4096 :: u32) \<notin> bytes_at 0 256"
    using bytes_at_interval [of "0 :: u32" 256] by simp_all
  show ?thesis using os_zalloc_zeroes [OF s'(1)] s'(2) b by auto
qed

text \<open>\<open>zalloc\<close> of \<^verbatim>\<open>gcc/stdlib.c\<close> scales its offset twice: it zeroes one word out of four, and reaches
  four times as far as the block. Of a block of one page at \<open>p\<close> it leaves the word at \<open>p + 4\<close> as it
  was and overwrites the word at \<open>p + 1024\<close>, which belongs to the next page.\<close>

theorem std_zalloc_overruns:
  assumes "std_alloc 1 s = Some (p, s')"
  shows "\<exists>s''. std_zalloc 1 s = Some (p, s'') \<and>
    pmem s'' = (\<lambda>x. if \<exists>j < 256. x \<in> bytes_at (p + of_nat j * 16) 4 then 0 else pmem s' x) \<and>
    load32 (pmem s'') (p + 4) = load32 (pmem s') (p + 4) \<and> load32 (pmem s'') (p + 1024) = 0"
proof -
  let ?m = "zero_strided p 256 0 (pmem s')"
  have z: "?m = zeroed (pmem s') p 16 256" using zero_strided_eq [of 256 0 p "pmem s'"] by simp
  have "x \<notin> bytes_at (p + of_nat j * 16) 4" if x: "x \<in> bytes_at (p + 4) 4" and j: "j < 256" for x j
  proof
    assume "x \<in> bytes_at (p + of_nat j * 16) 4"
    then obtain a b where ab: "a < 4" "b < 4" "x = p + 4 + of_nat a" "x = p + of_nat j * 16 + of_nat b"
      using x by (auto simp: bytes_at_def)
    then have "(of_nat (4 + a) :: u32) = of_nat (j * 16 + b)" by (simp add: add.assoc)
    then have "4 + a = j * 16 + b"
      using ab(1,2) j unat_of_nat_32 [of "4 + a"] unat_of_nat_32 [of "j * 16 + b"] by simp
    then show False using ab(1,2) by presburger
  qed
  then have 1: "load32 ?m (p + 4) = load32 (pmem s') (p + 4)"
    by (intro m32.load_cong) (auto simp: z zeroed_def)
  have "?m x = (0 :: u8)" if "x \<in> bytes_at (p + 1024) 4" for x
  proof -
    have "x \<in> bytes_at (p + of_nat 64 * 16) 4" using that by simp
    then show ?thesis unfolding z zeroed_def by (metis (mono_tags, lifting) numeral_less_iff semiring_norm(76,78,81))
  qed
  then have "load32 ?m (p + 1024) = load32 (\<lambda>_. 0) (p + 1024)" by (intro m32.load_cong) auto
  also have "\<dots> = 0" by (simp add: load32_def numeral_eq_Suc)
  finally have 2: "load32 ?m (p + 1024) = 0" .
  have "std_zalloc 1 s = Some (p, s'\<lparr>pmem := ?m\<rparr>)"
    using assms by (simp add: std_zalloc_def std_PAGE_SIZE_def)
  then show ?thesis using 1 2 z [unfolded zeroed_def] by simp
qed

lemma std_zalloc_overruns_witness:
  "\<exists>s''. std_zalloc 1 (demo_pages\<lparr>HEAP_SIZE := 4096, ALLOC_START := 8192, pmem := (\<lambda>x. if x < 8192 then 0 else 7)\<rparr>) = Some (8192, s'') \<and>
     load32 (pmem s'') 8196 = 0x07070707 \<and> load32 (pmem s'') 9216 = 0"
proof -
  let ?s = "demo_pages\<lparr>HEAP_SIZE := 4096, ALLOC_START := 8192, pmem := (\<lambda>x. if x < 8192 then 0 else 7)\<rparr>"
  have "map_option (\<lambda>(p, s). (p, load32 (pmem s) 8196)) (std_alloc 1 ?s) = Some (8192, 0x07070707)"
    unfolding demo_pages_def by code_simp
  then obtain s' where s': "std_alloc 1 ?s = Some (8192, s')" "load32 (pmem s') 8196 = 0x07070707"
    by (cases "std_alloc 1 ?s") auto
  show ?thesis using std_zalloc_overruns [OF s'(1)] s'(2) by auto
qed

end
