(* ===== verification/CArray.thy ===== *)
theory CArray
  imports CBase "HOL-Library.Multiset" "HOL-Library.Monad_Syntax"
begin

text \<open>
  C arrays for the sorting and benchmark programs: a list, read and written at an offset that may
  be any integer. An access outside of the array, undefined in C, is \<open>None\<close>, so a theorem that a
  routine returns \<open>Some\<close> also says that it stays inside its arrays. A pointer into an array is its
  offset. The locale \<open>sorter\<close> is the contract of the sorting routines.
\<close>

section \<open>Access\<close>

definition rd :: "'a list \<Rightarrow> int \<Rightarrow> 'a option" where
  "rd a i = (if 0 \<le> i \<and> i < int (length a) then Some (a ! nat i) else None)"

definition wr :: "'a list \<Rightarrow> int \<Rightarrow> 'a \<Rightarrow> 'a list option" where
  "wr a i v = (if 0 \<le> i \<and> i < int (length a) then Some (a[nat i := v]) else None)"

text \<open>\<open>swap(&a[i], &a[j])\<close>: both the function of that name and the macro \<open>SWAP\<close>.\<close>

definition swap :: "'a list \<Rightarrow> int \<Rightarrow> int \<Rightarrow> 'a list option" where
  "swap a i j = do { t \<leftarrow> rd a i; u \<leftarrow> rd a j; a \<leftarrow> wr a i u; wr a j t }"

definition swap_nth :: "'a list \<Rightarrow> nat \<Rightarrow> nat \<Rightarrow> 'a list" where
  "swap_nth a i j = a[i := a ! j, j := a ! i]"

lemma rd_nat [simp]: "rd a (int i) = (if i < length a then Some (a ! i) else None)"
  by (simp add: rd_def)

lemma wr_nat [simp]: "wr a (int i) v = (if i < length a then Some (a[i := v]) else None)"
  by (simp add: wr_def)

lemma swap_nat: "i < length a \<Longrightarrow> j < length a \<Longrightarrow> swap a (int i) (int j) = Some (swap_nth a i j)"
  by (simp add: swap_def swap_nth_def)

lemma length_swap_nth [simp]: "length (swap_nth a i j) = length a"
  by (simp add: swap_nth_def)

lemma swap_nth_nth:
  "k < length a \<Longrightarrow> swap_nth a i j ! k = (if k = j then a ! i else if k = i then a ! j else a ! k)"
  by (cases "i < length a"; cases "j < length a") (auto simp: swap_nth_def nth_list_update list_update_beyond)

lemma mset_swap_nth [simp]: "i < length a \<Longrightarrow> j < length a \<Longrightarrow> mset (swap_nth a i j) = mset a"
  unfolding swap_nth_def by (simp add: mset_swap)

section \<open>Rearranging a part of an array\<close>

definition perm_on :: "nat \<Rightarrow> nat \<Rightarrow> 'a list \<Rightarrow> 'a list \<Rightarrow> bool" where
  "perm_on lo hi a b \<longleftrightarrow> mset b = mset a \<and> (\<forall>i < length a. i < lo \<or> hi \<le> i \<longrightarrow> b ! i = a ! i)"

definition sorted_on :: "nat \<Rightarrow> nat \<Rightarrow> 'a::linorder list \<Rightarrow> bool" where
  "sorted_on lo hi a \<longleftrightarrow> (\<forall>i j. lo \<le> i \<and> i \<le> j \<and> j < hi \<longrightarrow> a ! i \<le> a ! j)"

lemma perm_on_length: "perm_on lo hi a b \<Longrightarrow> length b = length a"
  unfolding perm_on_def by (metis size_mset)

lemma perm_on_refl [simp, intro]: "perm_on lo hi a a"
  by (simp add: perm_on_def)

lemma perm_on_trans: "perm_on lo hi a b \<Longrightarrow> perm_on lo hi b c \<Longrightarrow> perm_on lo hi a c"
  unfolding perm_on_def by (metis size_mset)

lemma perm_on_mono: "perm_on lo hi a b \<Longrightarrow> lo' \<le> lo \<Longrightarrow> hi \<le> hi' \<Longrightarrow> perm_on lo' hi' a b"
  unfolding perm_on_def by auto

lemma perm_on_swap:
  "lo \<le> i \<Longrightarrow> i < hi \<Longrightarrow> lo \<le> j \<Longrightarrow> j < hi \<Longrightarrow> hi \<le> length a \<Longrightarrow> perm_on lo hi a (swap_nth a i j)"
  by (auto simp: perm_on_def swap_nth_nth)

lemma mset_split_range:
  "lo \<le> hi \<Longrightarrow> hi \<le> length a \<Longrightarrow>
   mset a = mset (take lo a) + mset (take (hi - lo) (drop lo a)) + mset (drop hi a)"
  by (metis append_assoc append_take_drop_id drop_drop le_add_diff_inverse2 mset_append)

lemma perm_on_range:
  assumes "perm_on lo hi a b" "lo \<le> hi" "hi \<le> length a"
  shows "mset (take (hi - lo) (drop lo b)) = mset (take (hi - lo) (drop lo a))"
proof -
  have l: "length b = length a" by (rule perm_on_length [OF assms(1)])
  have "take lo b = take lo a" "drop hi b = drop hi a"
    using assms l by (auto intro!: nth_equalityI simp: perm_on_def)
  then show ?thesis
    using mset_split_range [OF assms(2,3)] mset_split_range [of lo hi b] assms l
    by (simp add: perm_on_def)
qed

lemma perm_on_ex:
  assumes "perm_on lo hi a b" "hi \<le> length a" "lo \<le> i" "i < hi"
  obtains j where "lo \<le> j" "j < hi" "b ! i = a ! j"
proof -
  let ?s = "\<lambda>x. take (hi - lo) (drop lo x)"
  have l: "length b = length a" by (rule perm_on_length [OF assms(1)])
  have "set (?s b) = set (?s a)"
    using perm_on_range [OF assms(1) _ assms(2)] assms(3,4) by (metis mset_eq_setD less_imp_le le_trans)
  moreover have "b ! i = ?s b ! (i - lo)" "i - lo < length (?s b)" using assms l by auto
  ultimately have "b ! i \<in> set (?s a)" by (metis nth_mem)
  then obtain k where k: "k < length (?s a)" "b ! i = ?s a ! k" by (metis in_set_conv_nth)
  then show thesis using that [of "lo + k"] assms by auto
qed

lemma perm_on_all:
  assumes "perm_on lo hi a b" "hi \<le> length a" "\<forall>i. lo \<le> i \<and> i < hi \<longrightarrow> P (a ! i)"
  shows "\<forall>i. lo \<le> i \<and> i < hi \<longrightarrow> P (b ! i)"
  using assms by (metis perm_on_ex)

lemma sorted_on_all: "sorted_on 0 (length a) a \<longleftrightarrow> sorted a"
  unfolding sorted_on_def sorted_iff_nth_mono by auto

lemma sorted_on_trivial: "hi \<le> Suc lo \<Longrightarrow> sorted_on lo hi a"
  by (auto simp: sorted_on_def) (metis Suc_leI le_antisym le_trans less_le_trans nle_le not_less_eq_eq order_refl)

lemma sorted_on_perm_out:
  "perm_on lo hi a b \<Longrightarrow> hi' \<le> lo \<or> hi \<le> lo' \<Longrightarrow> hi' \<le> length a \<Longrightarrow> sorted_on lo' hi' a \<Longrightarrow> sorted_on lo' hi' b"
  by (auto simp: sorted_on_def perm_on_def)

text \<open>Two sorted halves around a pivot.\<close>

lemma sorted_on_join:
  assumes "sorted_on lo p a" "sorted_on (Suc p) hi a" "\<forall>i. lo \<le> i \<and> i < p \<longrightarrow> a ! i \<le> a ! p"
    "\<forall>i. p < i \<and> i < hi \<longrightarrow> a ! p \<le> a ! i"
  shows "sorted_on lo hi a"
  unfolding sorted_on_def
proof (intro allI impI)
  fix i j assume ij: "lo \<le> i \<and> i \<le> j \<and> j < hi"
  consider "j < p" | "p < i" | "i \<le> p" "p \<le> j" by linarith
  then show "a ! i \<le> a ! j"
  proof cases
    case 3
    have "a ! i \<le> a ! p" using assms(3) ij 3 by (cases "i = p") auto
    also have "\<dots> \<le> a ! j" using assms(4) ij 3 by (cases "j = p") auto
    finally show ?thesis .
  qed (use assms(1,2) ij in \<open>auto simp: sorted_on_def Suc_le_eq\<close>)
qed

lemma sorted_on_last:
  "sorted_on lo p a \<Longrightarrow> \<forall>i. lo \<le> i \<and> i < p \<longrightarrow> a ! i \<le> a ! p \<Longrightarrow> sorted_on lo (Suc p) a"
  by (rule sorted_on_join [where p = p]) (auto intro: sorted_on_trivial)

lemma sorted_on_snoc:
  assumes "sorted_on lo p a" "lo < p" "a ! (p - 1) \<le> a ! p"
  shows "sorted_on lo (Suc p) a"
proof (rule sorted_on_last [OF assms(1)], intro allI impI)
  fix i assume "lo \<le> i \<and> i < p"
  then have "lo \<le> i \<and> i \<le> p - 1 \<and> p - 1 < p" by linarith
  then have "a ! i \<le> a ! (p - 1)" using assms(1) unfolding sorted_on_def by blast
  then show "a ! i \<le> a ! p" using assms(3) by simp
qed

section \<open>The contract of a sorting routine\<close>

locale sorter =
  fixes ok :: "'a::linorder list \<Rightarrow> bool" and run :: "'a list \<Rightarrow> 'a list option"
  assumes returns: "ok a \<Longrightarrow> \<exists>b. run a = Some b \<and> mset b = mset a \<and> sorted b"
begin

lemma is_sort: "ok a \<Longrightarrow> run a = Some (sort a)"
  using returns by (metis properties_for_sort)

lemma idempotent: "ok a \<Longrightarrow> ok (sort a) \<Longrightarrow> Option.bind (run a) run = run a"
  by (simp add: is_sort sorted_sort_id)

lemma order_irrelevant: "ok a \<Longrightarrow> ok b \<Longrightarrow> mset a = mset b \<Longrightarrow> run a = run b"
  by (simp add: is_sort) (metis mset_sort properties_for_sort sorted_sort)

end

end
