(* ===== verification/Sorts.thy ===== *)
theory Sorts
  imports CArray Device
begin

text \<open>
  The comparison sorts: \<^verbatim>\<open>gcc/quicksort.c\<close> (recursive quicksort), \<^verbatim>\<open>gcc/bubblesort.c\<close> and the insertion
  and selection sorts of \<^verbatim>\<open>gcc/qsort.c\<close>. The elements are C ints, kept as their values; the routines
  only compare and move them, so the model is polymorphic in the order. Offsets are \<open>int\<close>: an array
  of at most \<open>2 ^ 31 - 1\<close> elements leaves them in range. Each routine is proved to be a \<open>sorter\<close>.
\<close>

section \<open>gcc/quicksort.c\<close>

function partition_loop :: "'a::linorder \<Rightarrow> int \<Rightarrow> int \<Rightarrow> int \<Rightarrow> 'a list \<Rightarrow> (int \<times> 'a list) option" where
  "partition_loop pivot high i j arr =
     (if j \<le> high - 1
      then do {
        x \<leftarrow> rd arr j;
        if x < pivot
        then do { arr \<leftarrow> swap arr (i + 1) j; partition_loop pivot high (i + 1) (j + 1) arr }
        else partition_loop pivot high i (j + 1) arr }
      else Some (i, arr))"
  by pat_completeness auto
termination
  by (relation "measure (\<lambda>(p, high, i, j, arr). nat (high - j))") auto

declare partition_loop.simps [simp del]

definition partition :: "'a::linorder list \<Rightarrow> int \<Rightarrow> int \<Rightarrow> (int \<times> 'a list) option" where
  "partition arr low high = do {
     pivot \<leftarrow> rd arr high;
     (i, arr) \<leftarrow> partition_loop pivot high (low - 1) low arr;
     arr \<leftarrow> swap arr (i + 1) high;
     Some (i + 1, arr) }"

lemma partition_loop_bounds:
  "partition_loop pivot high i j arr = Some (i', arr') \<Longrightarrow> i < j \<Longrightarrow> j \<le> high \<Longrightarrow> i \<le> i' \<and> i' < high"
proof (induction pivot high i j arr rule: partition_loop.induct)
  case (1 pivot high i j arr)
  show ?case
  proof (cases "j \<le> high - 1")
    case True
    then obtain x where x: "rd arr j = Some x" using 1(3) by (subst (asm) partition_loop.simps) (auto split: bind_splits)
    show ?thesis
    proof (cases "x < pivot")
      case True
      then obtain arr1 where a: "swap arr (i + 1) j = Some arr1"
        "partition_loop pivot high (i + 1) (j + 1) arr1 = Some (i', arr')"
        using 1(3) x \<open>j \<le> high - 1\<close> by (subst (asm) partition_loop.simps) (auto split: bind_splits)
      show ?thesis using 1(1) [OF \<open>j \<le> high - 1\<close> x True a] 1(4) \<open>j \<le> high - 1\<close> by linarith
    next
      case False
      then have a: "partition_loop pivot high i (j + 1) arr = Some (i', arr')"
        using 1(3) x \<open>j \<le> high - 1\<close> by (subst (asm) partition_loop.simps) auto
      show ?thesis using 1(2) [OF \<open>j \<le> high - 1\<close> x False a] 1(4) \<open>j \<le> high - 1\<close> by linarith
    qed
  next
    case False
    then show ?thesis using 1(3-5) by (subst (asm) partition_loop.simps) auto
  qed
qed

lemma partition_bounds: "partition arr low high = Some (p, arr') \<Longrightarrow> low \<le> high \<Longrightarrow> low \<le> p \<and> p \<le> high"
  by (auto simp: partition_def split: bind_splits dest!: partition_loop_bounds)

function quicksort :: "'a::linorder list \<Rightarrow> int \<Rightarrow> int \<Rightarrow> 'a list option" where
  "quicksort arr low high =
     (if low < high
      then do {
        (pi, arr) \<leftarrow> partition arr low high;
        arr \<leftarrow> quicksort arr low (pi - 1);
        quicksort arr (pi + 1) high }
      else Some arr)"
  by pat_completeness auto
termination
  by (relation "measure (\<lambda>(arr, low, high). nat (high + 1 - low))") (auto dest!: partition_bounds)

declare quicksort.simps [simp del]

text \<open>The partition loop: smaller elements up to \<open>i\<close>, the others from there to \<open>j\<close>.\<close>

lemma partition_loop_spec:
  "low \<le> i1 \<Longrightarrow> i1 \<le> j \<Longrightarrow> j \<le> high \<Longrightarrow> high < length a \<Longrightarrow>
   \<forall>k. low \<le> k \<and> k < i1 \<longrightarrow> a ! k < pivot \<Longrightarrow> \<forall>k. i1 \<le> k \<and> k < j \<longrightarrow> pivot \<le> a ! k \<Longrightarrow>
   \<exists>i' b. partition_loop pivot (int high) (int i1 - 1) (int j) a = Some (int i' - 1, b) \<and>
     low \<le> i' \<and> i' \<le> high \<and> perm_on low high a b \<and>
     (\<forall>k. low \<le> k \<and> k < i' \<longrightarrow> b ! k < pivot) \<and> (\<forall>k. i' \<le> k \<and> k < high \<longrightarrow> pivot \<le> b ! k)"
proof (induction "high - j" arbitrary: i1 j a)
  case 0
  then show ?case by (subst partition_loop.simps) auto
next
  case (Suc d)
  then have j: "j < high" "d = high - Suc j" by simp_all
  show ?case
  proof (cases "a ! j < pivot")
    case True
    let ?a = "swap_nth a i1 j"
    have l: "i1 < length a" "j < length a" using Suc.prems j by simp_all
    have lo: "\<forall>k. low \<le> k \<and> k < Suc i1 \<longrightarrow> ?a ! k < pivot"
      and hi: "\<forall>k. Suc i1 \<le> k \<and> k < Suc j \<longrightarrow> pivot \<le> ?a ! k"
      using Suc.prems l True by (auto simp: swap_nth_nth less_Suc_eq)
    have p: "perm_on low high a ?a" using Suc.prems j by (intro perm_on_swap) simp_all
    obtain i' b where b: "partition_loop pivot (int high) (int (Suc i1) - 1) (int (Suc j)) ?a = Some (int i' - 1, b)"
      "low \<le> i'" "i' \<le> high" "perm_on low high ?a b"
      "\<forall>k. low \<le> k \<and> k < i' \<longrightarrow> b ! k < pivot" "\<forall>k. i' \<le> k \<and> k < high \<longrightarrow> pivot \<le> b ! k"
      using Suc.hyps(1) [OF j(2) _ _ _ _ lo hi] Suc.prems j by auto
    have "partition_loop pivot (int high) (int i1 - 1) (int j) a =
        partition_loop pivot (int high) (int (Suc i1) - 1) (int (Suc j)) ?a"
      using True j l swap_nat [of i1 a j] by (subst partition_loop.simps) (simp add: add.commute)
    then show ?thesis using b perm_on_trans [OF p b(4)] by auto
  next
    case False
    have hi: "\<forall>k. i1 \<le> k \<and> k < Suc j \<longrightarrow> pivot \<le> a ! k"
      using Suc.prems False by (auto simp: less_Suc_eq)
    have "partition_loop pivot (int high) (int i1 - 1) (int j) a =
        partition_loop pivot (int high) (int i1 - 1) (int (Suc j)) a"
      using False j Suc.prems by (subst partition_loop.simps) (simp add: add.commute)
    then show ?thesis using Suc.hyps(1) [OF j(2) _ _ _ _ _ hi] Suc.prems j by auto
  qed
qed

lemma partition_spec:
  assumes "low \<le> high" "high < length a"
  obtains p b where "partition a (int low) (int high) = Some (int p, b)" "low \<le> p" "p \<le> high"
    "perm_on low (Suc high) a b" "b ! p = a ! high" "\<forall>k. low \<le> k \<and> k < p \<longrightarrow> b ! k \<le> b ! p"
    "\<forall>k. p < k \<and> k \<le> high \<longrightarrow> b ! p \<le> b ! k"
proof -
  let ?v = "a ! high"
  obtain p b where b: "partition_loop ?v (int high) (int low - 1) (int low) a = Some (int p - 1, b)"
    "low \<le> p" "p \<le> high" "perm_on low high a b"
    "\<forall>k. low \<le> k \<and> k < p \<longrightarrow> b ! k < ?v" "\<forall>k. p \<le> k \<and> k < high \<longrightarrow> ?v \<le> b ! k"
    using partition_loop_spec [OF order_refl order_refl assms, of "a ! high"] by fastforce
  have l: "length b = length a" by (rule perm_on_length [OF b(4)])
  have v: "b ! high = ?v" using b(4) assms by (simp add: perm_on_def)
  let ?c = "swap_nth b p high"
  have "partition a (int low) (int high) = Some (int p, ?c)"
    using b assms l swap_nat [of p b high] by (simp add: partition_def)
  moreover have "perm_on low (Suc high) a ?c"
    using perm_on_trans [OF perm_on_mono [OF b(4)] perm_on_swap [of low p "Suc high" high b]] b assms l by simp
  moreover have "\<forall>k. low \<le> k \<and> k < p \<longrightarrow> ?c ! k \<le> ?c ! p" "\<forall>k. p < k \<and> k \<le> high \<longrightarrow> ?c ! p \<le> ?c ! k"
    using b assms l v by (auto simp: swap_nth_nth less_imp_le)
  moreover have "?c ! p = a ! high" using b(3) assms l v by (auto simp: swap_nth_nth)
  ultimately show thesis using that b(2,3) by blast
qed

lemma quicksort_spec:
  "low \<le> hi \<Longrightarrow> hi \<le> length a \<Longrightarrow>
   \<exists>b. quicksort a (int low) (int hi - 1) = Some b \<and> perm_on low hi a b \<and> sorted_on low hi b"
proof (induction "hi - low" arbitrary: low hi a rule: less_induct)
  case less
  show ?case
  proof (cases "Suc low < hi")
    case False
    then show ?thesis using less.prems
      by (subst quicksort.simps) (auto intro: sorted_on_trivial)
  next
    case True
    then obtain high where h: "hi = Suc high" "low < high" by (cases hi) auto
    obtain p b where b: "partition a (int low) (int high) = Some (int p, b)" "low \<le> p" "p \<le> high"
      "perm_on low (Suc high) a b" "\<forall>k. low \<le> k \<and> k < p \<longrightarrow> b ! k \<le> b ! p"
      "\<forall>k. p < k \<and> k \<le> high \<longrightarrow> b ! p \<le> b ! k"
      using partition_spec [of low high a] less.prems h by (metis Suc_le_eq less_imp_le)
    have lb: "length b = length a" by (rule perm_on_length [OF b(4)])
    obtain c where c: "quicksort b (int low) (int p - 1) = Some c" "perm_on low p b c" "sorted_on low p c"
      using less.hyps [of p low b] b(2,3) h less.prems lb by (metis Suc_le_lessD Suc_le_mono diff_less_mono le_trans less_imp_le order_refl)
    have lc: "length c = length a" using perm_on_length [OF c(2)] lb by simp
    obtain d where d: "quicksort c (int (Suc p)) (int hi - 1) = Some d" "perm_on (Suc p) hi c d" "sorted_on (Suc p) hi d"
      using less.hyps [of hi "Suc p" c] b(2,3) h less.prems lc by (metis Suc_le_mono diff_less_mono2 le_imp_less_Suc le_trans less_Suc_eq_le)
    have cp: "c ! k = b ! k" if "p \<le> k" "k < hi" for k using c(2) that less.prems lb by (simp add: perm_on_def)
    have dp: "d ! k = c ! k" if "k \<le> p" for k using d(2) that b h less.prems lc by (simp add: perm_on_def)
    have "\<forall>k. low \<le> k \<and> k < p \<longrightarrow> c ! k \<le> b ! p"
      using perm_on_all [OF c(2), of "\<lambda>x. x \<le> b ! p"] b h less.prems lb by simp
    then have 1: "\<forall>k. low \<le> k \<and> k < p \<longrightarrow> d ! k \<le> d ! p" using dp cp b h by simp
    have "\<forall>k. Suc p \<le> k \<and> k < hi \<longrightarrow> b ! p \<le> d ! k"
      using perm_on_all [OF d(2), of "\<lambda>x. b ! p \<le> x"] b h less.prems lc cp by simp
    then have 2: "\<forall>k. p < k \<and> k < hi \<longrightarrow> d ! p \<le> d ! k" using dp cp b h by simp
    have "sorted_on low p d"
      using sorted_on_perm_out [OF d(2) _ _ c(3)] b h less.prems lc by simp
    then have s: "sorted_on low hi d" using sorted_on_join d(3) 1 2 by blast
    have "perm_on low hi a d"
      using perm_on_trans [OF perm_on_trans [OF b(4) [folded h(1)] perm_on_mono [OF c(2)]] perm_on_mono [OF d(2)]] b h by simp
    moreover have "quicksort a (int low) (int hi - 1) = Some d"
      using b(1) c(1) d(1) h by (subst quicksort.simps) (simp add: add.commute)
    ultimately show ?thesis using s by blast
  qed
qed

interpretation quick: sorter "\<lambda>_. True" "\<lambda>a. quicksort a 0 (int (length a) - 1)"
proof
  fix a :: "'a list"
  obtain b where b: "quicksort a 0 (int (length a) - 1) = Some b" "perm_on 0 (length a) a b"
    "sorted_on 0 (length a) b"
    using quicksort_spec [of 0 "length a" a] by auto
  then have "sorted b" using sorted_on_all [of b] perm_on_length [OF b(2)] by simp
  then show "\<exists>b. quicksort a 0 (int (length a) - 1) = Some b \<and> mset b = mset a \<and> sorted b"
    using b(1,2) by (auto simp: perm_on_def)
qed

section \<open>gcc/bubblesort.c\<close>

function bubble_pass :: "int \<Rightarrow> int \<Rightarrow> 'a::linorder list \<Rightarrow> bool \<Rightarrow> ('a list \<times> bool) option" where
  "bubble_pass llen i l swapped =
     (if i < llen
      then do {
        x \<leftarrow> rd l (i - 1);
        y \<leftarrow> rd l i;
        if y < x
        then do { l \<leftarrow> wr l i x; l \<leftarrow> wr l (i - 1) y; bubble_pass llen (i + 1) l True }
        else bubble_pass llen (i + 1) l swapped }
      else Some (l, swapped))"
  by pat_completeness auto
termination
  by (relation "measure (\<lambda>(llen, i, l, s). nat (llen - i))") auto

declare bubble_pass.simps [simp del]

partial_function (option) bubble_loop :: "int \<Rightarrow> 'a::linorder list \<Rightarrow> 'a list option" where
  "bubble_loop llen l = do {
     (l, swapped) \<leftarrow> bubble_pass llen 1 l False;
     if swapped then bubble_loop llen l else Some l }"

definition printl :: "int list \<Rightarrow> dev \<Rightarrow> dev" where
  "printl l d = print 105 (foldl (\<lambda>d x. print (word_of_int x) d) d l)"

definition bubble_main :: "dev \<Rightarrow> dev option" where
  "bubble_main d = do {
     let l = [5, 1, 4, 2, 8];
     let d = printl l d;
     l \<leftarrow> bubble_loop 5 l;
     Some (printl l d) }"

text \<open>A pass that swaps lowers the number of inversions; one that does not found the list sorted.\<close>

fun inversions :: "'a::linorder list \<Rightarrow> nat" where
  "inversions [] = 0"
| "inversions (x # xs) = length (filter (\<lambda>y. y < x) xs) + inversions xs"

lemma inversions_swap: "y < x \<Longrightarrow> inversions (us @ x # y # vs) = Suc (inversions (us @ y # x # vs))"
  by (induction us) auto

lemma swap_adjacent:
  assumes "Suc i < length l"
  shows "l = take i l @ l ! i # l ! Suc i # drop (Suc (Suc i)) l"
    "l[Suc i := l ! i, i := l ! Suc i] = take i l @ l ! Suc i # l ! i # drop (Suc (Suc i)) l"
proof -
  show 1: "l = take i l @ l ! i # l ! Suc i # drop (Suc (Suc i)) l"
    using assms by (simp add: Cons_nth_drop_Suc id_take_nth_drop [symmetric])
  show "l[Suc i := l ! i, i := l ! Suc i] = take i l @ l ! Suc i # l ! i # drop (Suc (Suc i)) l"
    using assms by (subst 1) (simp add: list_update_append nth_append)
qed

lemma bubble_pass_spec:
  "1 \<le> i \<Longrightarrow> i \<le> length l \<or> length l = 0 \<Longrightarrow> (\<not> s \<longrightarrow> sorted_on 0 i l) \<Longrightarrow>
   \<exists>b s'. bubble_pass (int (length l)) (int i) l s = Some (b, s') \<and> mset b = mset l \<and>
     inversions b \<le> inversions l \<and> (s' \<longrightarrow> s \<or> inversions b < inversions l) \<and> (\<not> s' \<longrightarrow> \<not> s \<and> b = l \<and> sorted l)"
proof (induction "length l - i" arbitrary: i l s)
  case 0
  then have "sorted_on 0 (length l) l" if "\<not> s"
    using that by (auto intro: sorted_on_trivial)
  then show ?case using 0 by (subst bubble_pass.simps) (auto simp: sorted_on_all)
next
  case (Suc d)
  then have i: "i < length l" "d = length l - Suc i" "i - 1 < length l" by simp_all
  have Suci: "Suc (i - 1) = i" using Suc.prems(1) by simp
  have rd: "rd l (int i - 1) = Some (l ! (i - 1))"
    using i Suc.prems(1) rd_nat [of l "i - 1"] by (simp add: of_nat_diff)
  show ?case
  proof (cases "l ! i < l ! (i - 1)")
    case True
    define m where "m = l[i := l ! (i - 1), i - 1 := l ! i]"
    have m: "length m = length l" "mset m = mset l" using i by (simp_all add: m_def mset_swap)
    have inv: "inversions l = Suc (inversions m)"
      using swap_adjacent [of "i - 1" l] inversions_swap [OF True, of "take (i - 1) l" "drop (Suc i) l"] i Suci
      by (simp add: m_def)
    have "bubble_pass (int (length l)) (int i) l s = bubble_pass (int (length m)) (int (Suc i)) m True"
      using i True Suc.prems(1) rd m(1)
      by (subst bubble_pass.simps) (simp add: m_def wr_def nat_diff_distrib add.commute)
    then show ?thesis using Suc.hyps(1) [of m "Suc i" True] i m inv by fastforce
  next
    case False
    have "sorted_on 0 (Suc i) l" if "\<not> s"
    proof -
      have "sorted_on 0 i l" using Suc.prems(3) that by simp
      moreover have "l ! (i - 1) \<le> l ! i" using False by simp
      ultimately show ?thesis using Suc.prems(1) sorted_on_snoc [of 0 i l] by simp
    qed
    moreover have "bubble_pass (int (length l)) (int i) l s = bubble_pass (int (length l)) (int (Suc i)) l s"
      using i False rd by (subst bubble_pass.simps) (simp add: add.commute)
    ultimately show ?thesis using Suc.hyps(1) [of l "Suc i" s] i by simp
  qed
qed

lemma bubble_loop_spec: "\<exists>b. bubble_loop (int (length l)) l = Some b \<and> mset b = mset l \<and> sorted b"
proof (induction "inversions l" arbitrary: l rule: less_induct)
  case less
  obtain b s where b: "bubble_pass (int (length l)) 1 l False = Some (b, s)" "mset b = mset l"
    "s \<longrightarrow> inversions b < inversions l" "\<not> s \<longrightarrow> b = l \<and> sorted l"
    using bubble_pass_spec [of 1 l False] sorted_on_trivial [of 1 0 l]
    by (cases "length l") auto
  have "length b = length l" using b(2) by (metis size_mset)
  then show ?case
    using b less.hyps [of b] by (subst bubble_loop.simps) (cases s; auto)
qed

interpretation bubble: sorter "\<lambda>_. True" "\<lambda>l. bubble_loop (int (length l)) l"
  by unfold_locales (rule bubble_loop_spec)

section \<open>Insertion and selection sort of gcc/qsort.c\<close>

text \<open>\<open>while (value < *(j - 1)) { *j = *(j - 1); if (--j == arr) break; }\<close>\<close>

function insert_loop :: "int \<Rightarrow> 'a::linorder \<Rightarrow> int \<Rightarrow> 'a list \<Rightarrow> (int \<times> 'a list) option" where
  "insert_loop arr value j a = do {
     x \<leftarrow> rd a (j - 1);
     if value < x
     then do {
       a \<leftarrow> wr a j x;
       if j - 1 = arr then Some (j - 1, a) else insert_loop arr value (j - 1) a }
     else Some (j, a) }"
  by pat_completeness auto
termination
  by (relation "measure (\<lambda>(arr, v, j, a). nat j)") (auto simp: rd_def split: if_splits)

declare insert_loop.simps [simp del]

function insertion_loop :: "int \<Rightarrow> int \<Rightarrow> int \<Rightarrow> 'a::linorder list \<Rightarrow> 'a list option" where
  "insertion_loop arr n i a =
     (if i < arr + n
      then do {
        value \<leftarrow> rd a i;
        (j, a) \<leftarrow> insert_loop arr value i a;
        a \<leftarrow> wr a j value;
        insertion_loop arr n (i + 1) a }
      else Some a)"
  by pat_completeness auto
termination
  by (relation "measure (\<lambda>(arr, n, i, a). nat (arr + n - i))") auto

declare insertion_loop.simps [simp del]

definition insertion_sort :: "int \<Rightarrow> int \<Rightarrow> 'a::linorder list \<Rightarrow> 'a list option" where
  "insertion_sort n arr a = insertion_loop arr n (arr + 1) a"

function select_inner :: "int \<Rightarrow> int \<Rightarrow> int \<Rightarrow> 'a::linorder list \<Rightarrow> 'a list option" where
  "select_inner stop i j a =
     (if j < stop
      then do {
        x \<leftarrow> rd a i;
        y \<leftarrow> rd a j;
        a \<leftarrow> (if y < x then swap a i j else Some a);
        select_inner stop i (j + 1) a }
      else Some a)"
  by pat_completeness auto
termination
  by (relation "measure (\<lambda>(stop, i, j, a). nat (stop - j))") auto

declare select_inner.simps [simp del]

function select_outer :: "int \<Rightarrow> int \<Rightarrow> 'a::linorder list \<Rightarrow> 'a list option" where
  "select_outer stop i a =
     (if i < stop - 1
      then do { a \<leftarrow> select_inner stop i (i + 1) a; select_outer stop (i + 1) a }
      else Some a)"
  by pat_completeness auto
termination
  by (relation "measure (\<lambda>(stop, i, a). nat (stop - i))") auto

declare select_outer.simps [simp del]

definition selection_sort :: "int \<Rightarrow> int \<Rightarrow> 'a::linorder list \<Rightarrow> 'a list option" where
  "selection_sort n arr a = select_outer (arr + n) arr a"

text \<open>
  The invariant of the insertion, on the array \<open>b\<close> that has the value in the hole \<open>j\<close>: in order up
  to the hole and behind it, what is behind is larger than the value and than what is before.
\<close>

definition hole :: "nat \<Rightarrow> nat \<Rightarrow> nat \<Rightarrow> 'a::linorder list \<Rightarrow> bool" where
  "hole lo j i b \<longleftrightarrow> sorted_on lo j b \<and> sorted_on (Suc j) (Suc i) b \<and>
     (\<forall>k. j < k \<and> k \<le> i \<longrightarrow> b ! j < b ! k) \<and>
     (\<forall>k l. lo \<le> k \<and> k < j \<and> j < l \<and> l \<le> i \<longrightarrow> b ! k \<le> b ! l)"

lemma hole_step:
  assumes h: "hole lo j i b" and j: "lo < j" "j \<le> i" "i < length b" and lt: "b ! j < b ! (j - 1)"
  shows "hole lo (j - 1) i (swap_nth b j (j - 1))"
proof -
  let ?c = "swap_nth b j (j - 1)"
  have n: "?c ! k = (if k = j - 1 then b ! j else if k = j then b ! (j - 1) else b ! k)" if "k < length b" for k
    using that by (simp add: swap_nth_nth)
  have 1: "sorted_on lo (j - 1) ?c" using h j by (auto simp: hole_def sorted_on_def n [simplified])
  have s2: "sorted_on (Suc j) (Suc i) ?c" using h j by (auto simp: hole_def sorted_on_def n [simplified])
  have c2: "\<forall>l. j < l \<and> l < Suc i \<longrightarrow> ?c ! j \<le> ?c ! l" using h j by (auto simp: hole_def n [simplified])
  have 2: "sorted_on j (Suc i) ?c" by (rule sorted_on_join [OF _ s2 _ c2]) (auto intro: sorted_on_trivial)
  have 3: "?c ! (j - 1) < ?c ! k" if "j - 1 < k" "k \<le> i" for k
    using h j lt that by (auto simp: hole_def n [simplified])
  have 4: "?c ! k \<le> ?c ! l" if "lo \<le> k" "k < j - 1" "j - 1 < l" "l \<le> i" for k l
  proof (cases "l = j")
    case True
    then show ?thesis using h j that by (auto simp: hole_def n [simplified] sorted_on_def)
  next
    case False
    then have "k < j" "j < l" using that by linarith+
    then show ?thesis using h j that by (simp add: hole_def n [simplified])
  qed
  show ?thesis unfolding hole_def using 1 2 3 4 j(1) by simp
qed

lemma insert_loop_spec:
  "lo < j \<Longrightarrow> j \<le> i \<Longrightarrow> i < length a \<Longrightarrow> hole lo j i (a[j := v]) \<Longrightarrow>
   \<exists>j' b. insert_loop (int lo) v (int j) a = Some (int j', b) \<and> lo \<le> j' \<and> j' \<le> i \<and>
     length b = length a \<and> perm_on lo (Suc i) (a[j := v]) (b[j' := v]) \<and> sorted_on lo (Suc i) (b[j' := v])"
proof (induction j arbitrary: a)
  case 0
  then show ?case by simp
next
  case (Suc j)
  let ?b = "a[Suc j := v]"
  have rd: "rd a (int (Suc j) - 1) = Some (a ! j)" using Suc.prems by simp
  have sj: "int (Suc j) - 1 = int j" by simp
  show ?case
  proof (cases "v < a ! j")
    case False
    have "sorted_on lo (Suc i) ?b"
    proof (rule sorted_on_join [where p = "Suc j"])
      show "\<forall>k. lo \<le> k \<and> k < Suc j \<longrightarrow> ?b ! k \<le> ?b ! Suc j"
        using Suc.prems False by (auto simp: hole_def sorted_on_def less_Suc_eq_le not_less intro: order_trans)
    qed (use Suc.prems in \<open>auto simp: hole_def less_imp_le\<close>)
    moreover have "insert_loop (int lo) v (int (Suc j)) a = Some (int (Suc j), a)"
      using False by (subst insert_loop.simps) (simp add: rd [simplified])
    ultimately show ?thesis using Suc.prems by (intro exI [of _ "Suc j"] exI [of _ a]) auto
  next
    case True
    let ?a = "a[Suc j := a ! j]"
    have e: "?a[j := v] = swap_nth ?b (Suc j) j"
      using Suc.prems by (auto simp: swap_nth_def list_update_swap)
    have p: "perm_on lo (Suc i) ?b (?a[j := v])"
      unfolding e using Suc.prems by (intro perm_on_swap) auto
    have h: "hole lo j i (?a[j := v])"
      unfolding e using hole_step [OF Suc.prems(4)] Suc.prems True by simp
    show ?thesis
    proof (cases "j = lo")
      case False
      then have "insert_loop (int lo) v (int (Suc j)) a = insert_loop (int lo) v (int j) ?a"
        using True Suc.prems by (subst insert_loop.simps) (simp add: rd [simplified] wr_def nat_add_distrib)
      moreover have "\<exists>j' b. insert_loop (int lo) v (int j) ?a = Some (int j', b) \<and> lo \<le> j' \<and> j' \<le> i \<and>
          length b = length ?a \<and> perm_on lo (Suc i) (?a[j := v]) (b[j' := v]) \<and> sorted_on lo (Suc i) (b[j' := v])"
        using Suc.IH [OF _ _ _ h] Suc.prems False by simp
      moreover have "length ?a = length a" by simp
      ultimately show ?thesis using perm_on_trans [OF p] by metis
    next
      case lo: True
      have hh: "sorted_on lo j (?a[j := v])" "sorted_on (Suc j) (Suc i) (?a[j := v])"
        "\<forall>k. j < k \<and> k \<le> i \<longrightarrow> ?a[j := v] ! j < ?a[j := v] ! k"
        using h unfolding hole_def by blast+
      have "sorted_on lo (Suc i) (?a[j := v])"
      proof (rule sorted_on_join [OF hh(1,2)])
        show "\<forall>k. lo \<le> k \<and> k < j \<longrightarrow> ?a[j := v] ! k \<le> ?a[j := v] ! j" using lo by auto
        show "\<forall>k. j < k \<and> k < Suc i \<longrightarrow> ?a[j := v] ! j \<le> ?a[j := v] ! k"
          using hh(3) by (meson less_Suc_eq_le less_imp_le)
      qed
      moreover have "insert_loop (int lo) v (int (Suc j)) a = Some (int j, ?a)"
        using True Suc.prems lo by (subst insert_loop.simps) (simp add: rd [simplified] wr_def nat_add_distrib)
      moreover have "lo \<le> j" "j \<le> i" "length ?a = length a" using lo Suc.prems(2) by simp_all
      ultimately show ?thesis using p by blast
    qed
  qed
qed

lemma insertion_loop_spec:
  "lo < i \<Longrightarrow> i \<le> lo + n \<Longrightarrow> lo + n \<le> length a \<Longrightarrow> sorted_on lo i a \<Longrightarrow>
   \<exists>b. insertion_loop (int lo) (int n) (int i) a = Some b \<and> perm_on lo (lo + n) a b \<and> sorted_on lo (lo + n) b"
proof (induction "lo + n - i" arbitrary: i a)
  case 0
  then show ?case by (subst insertion_loop.simps) auto
next
  case (Suc d)
  then have i: "i < lo + n" "d = lo + n - Suc i" by simp_all
  have l: "i < length a" using i Suc.prems by simp
  have "hole lo i i (a[i := a ! i])"
    using Suc.prems by (auto simp: hole_def intro: sorted_on_trivial)
  then obtain j b where b: "insert_loop (int lo) (a ! i) (int i) a = Some (int j, b)" "lo \<le> j" "j \<le> i"
    "length b = length a" "perm_on lo (Suc i) a (b[j := a ! i])" "sorted_on lo (Suc i) (b[j := a ! i])"
    using insert_loop_spec [of lo i i a "a ! i"] Suc.prems(1) l by auto
  let ?b = "b[j := a ! i]"
  obtain c where c: "insertion_loop (int lo) (int n) (int (Suc i)) ?b = Some c"
    "perm_on lo (lo + n) ?b c" "sorted_on lo (lo + n) c"
    using Suc.hyps(1) [OF i(2) _ _ _ b(6)] Suc.prems i b(4) by auto
  have "insertion_loop (int lo) (int n) (int i) a = insertion_loop (int lo) (int n) (int (Suc i)) ?b"
    using i l b(1-4) by (subst insertion_loop.simps) (simp add: add.commute)
  then show ?case using c perm_on_trans [OF perm_on_mono [OF b(5)] c(2)] i by auto
qed

lemma insertion_sort_spec:
  assumes "lo + n \<le> length a"
  shows "\<exists>b. insertion_sort (int n) (int lo) a = Some b \<and> perm_on lo (lo + n) a b \<and> sorted_on lo (lo + n) b"
proof (cases n)
  case 0
  then have "insertion_sort (int n) (int lo) a = Some a"
    unfolding insertion_sort_def by (subst insertion_loop.simps) simp
  then show ?thesis using 0 by (auto intro: sorted_on_trivial)
next
  case (Suc k)
  then show ?thesis
    using insertion_loop_spec [of lo "Suc lo" n a] assms
    by (simp add: insertion_sort_def sorted_on_trivial add.commute)
qed

lemma select_inner_spec:
  "i < j \<Longrightarrow> j \<le> stop \<Longrightarrow> stop \<le> length a \<Longrightarrow> \<forall>k. i < k \<and> k < j \<longrightarrow> a ! i \<le> a ! k \<Longrightarrow>
   \<exists>b. select_inner (int stop) (int i) (int j) a = Some b \<and> perm_on i stop a b \<and>
     (\<forall>k. i < k \<and> k < stop \<longrightarrow> b ! i \<le> b ! k)"
proof (induction "stop - j" arbitrary: j a)
  case 0
  then show ?case by (subst select_inner.simps) auto
next
  case (Suc d)
  then have j: "j < stop" "d = stop - Suc j" by simp_all
  define b where "b = (if a ! j < a ! i then swap_nth a i j else a)"
  have l: "length b = length a" by (simp add: b_def)
  have p: "perm_on i stop a b" using Suc.prems j by (auto simp: b_def intro: perm_on_swap)
  have m: "\<forall>k. i < k \<and> k < Suc j \<longrightarrow> b ! i \<le> b ! k"
    using Suc.prems j by (auto simp: b_def swap_nth_nth less_Suc_eq intro: less_imp_le le_less_trans order_trans)
  have "select_inner (int stop) (int i) (int j) a = select_inner (int stop) (int i) (int (Suc j)) b"
    using Suc.prems j swap_nat [of i a j] by (subst select_inner.simps) (simp add: b_def add.commute)
  then show ?case
    using Suc.hyps(1) [OF j(2) _ _ _ m] Suc.prems j l perm_on_trans [OF p] by auto
qed

lemma select_outer_spec:
  "lo \<le> i \<Longrightarrow> i \<le> stop \<Longrightarrow> stop \<le> length a \<Longrightarrow> sorted_on lo i a \<Longrightarrow>
   \<forall>k l. lo \<le> k \<and> k < i \<and> i \<le> l \<and> l < stop \<longrightarrow> a ! k \<le> a ! l \<Longrightarrow>
   \<exists>b. select_outer (int stop) (int i) a = Some b \<and> perm_on lo stop a b \<and> sorted_on lo stop b"
proof (induction "stop - i" arbitrary: i a)
  case 0
  then show ?case by (subst select_outer.simps) auto
next
  case (Suc d)
  then have i: "i < stop" "d = stop - Suc i" by simp_all
  show ?case
  proof (cases "Suc i < stop")
    case False
    then have s: "stop = Suc i" using i by simp
    have "sorted_on lo stop a" unfolding s using Suc.prems(5) s by (intro sorted_on_last Suc.prems(4)) simp
    then show ?thesis using False by (subst select_outer.simps) auto
  next
    case True
    have "\<forall>k. i < k \<and> k < Suc i \<longrightarrow> a ! i \<le> a ! k" by auto
    then obtain b where b: "select_inner (int stop) (int i) (int (Suc i)) a = Some b" "perm_on i stop a b"
      "\<forall>k. i < k \<and> k < stop \<longrightarrow> b ! i \<le> b ! k"
      using select_inner_spec [of i "Suc i" stop a] Suc.prems(3) i(1) by auto
    have l: "length b = length a" by (rule perm_on_length [OF b(2)])
    have pre: "b ! k = a ! k" if "k < i" for k using b(2) that i Suc.prems by (simp add: perm_on_def)
    have cross: "a ! k \<le> b ! l" if "lo \<le> k" "k < i" "i \<le> l" "l < stop" for k l
      using perm_on_all [OF b(2), of "\<lambda>x. a ! k \<le> x"] Suc.prems that by simp
    have s: "sorted_on lo (Suc i) b"
    proof (rule sorted_on_last)
      show "sorted_on lo i b" using Suc.prems(4) pre by (simp add: sorted_on_def)
      show "\<forall>k. lo \<le> k \<and> k < i \<longrightarrow> b ! k \<le> b ! i" using pre cross i(1) by simp
    qed
    have c: "\<forall>k l. lo \<le> k \<and> k < Suc i \<and> Suc i \<le> l \<and> l < stop \<longrightarrow> b ! k \<le> b ! l"
    proof (intro allI impI)
      fix k l assume kl: "lo \<le> k \<and> k < Suc i \<and> Suc i \<le> l \<and> l < stop"
      show "b ! k \<le> b ! l"
      proof (cases "k = i")
        case True
        then show ?thesis using b(3) kl by simp
      next
        case False
        then show ?thesis using pre [of k] cross [of k l] kl by simp
      qed
    qed
    obtain e where e: "select_outer (int stop) (int (Suc i)) b = Some e" "perm_on lo stop b e" "sorted_on lo stop e"
      using Suc.hyps(1) [OF i(2) _ _ _ s c] Suc.prems(1,3) i(1) l by auto
    have "select_outer (int stop) (int i) a = select_outer (int stop) (int (Suc i)) b"
      using True b(1) by (subst select_outer.simps) (simp add: add.commute)
    then show ?thesis using e perm_on_trans [OF perm_on_mono [OF b(2)] e(2)] Suc.prems(1) by auto
  qed
qed

lemma sorter_from_range:
  assumes "\<exists>b. r = Some b \<and> perm_on 0 (length a) a b \<and> sorted_on 0 (length a) b"
  shows "\<exists>b. r = Some b \<and> mset b = mset a \<and> sorted b"
proof -
  obtain b where b: "r = Some b" "perm_on 0 (length a) a b" "sorted_on 0 (length a) b" using assms by blast
  then have "sorted b" using sorted_on_all [of b] perm_on_length [OF b(2)] by simp
  then show ?thesis using b by (auto simp: perm_on_def)
qed

interpretation insertion: sorter "\<lambda>_. True" "\<lambda>a. insertion_sort (int (length a)) 0 a"
proof
  fix a :: "'a list"
  show "\<exists>b. insertion_sort (int (length a)) 0 a = Some b \<and> mset b = mset a \<and> sorted b"
    using insertion_sort_spec [of 0 "length a" a] by (intro sorter_from_range) simp
qed

interpretation selection: sorter "\<lambda>_. True" "\<lambda>a. selection_sort (int (length a)) 0 a"
proof
  fix a :: "'a list"
  show "\<exists>b. selection_sort (int (length a)) 0 a = Some b \<and> mset b = mset a \<and> sorted b"
    using select_outer_spec [of 0 0 "length a" a]
    by (intro sorter_from_range) (simp add: selection_sort_def sorted_on_trivial)
qed

end
