(* ===== verification/QSort.thy ===== *)
theory QSort
  imports Sorts
begin

text \<open>
  \<^verbatim>\<open>sort\<close> of \<^verbatim>\<open>gcc/qsort.c\<close>: quicksort with an explicit stack of \<open>NSTACK\<close> pointers, median of three,
  and insertion sort for short ranges. \<open>l\<close> and \<open>ir\<close> delimit the current range: it holds the offsets
  from \<open>l - 1\<close> to \<open>ir - 1\<close>. A push past the end of the stack is \<open>None\<close>, as every access outside
  of an array. The output loop after the sort names an undeclared array and does not compile; it is
  not modelled.
\<close>

section \<open>The code\<close>

definition INSERTION_THRESHOLD :: int where
  "INSERTION_THRESHOLD = 10"

definition NSTACK :: nat where
  "NSTACK = 50"

definition swap_if_greater :: "'a::linorder list \<Rightarrow> int \<Rightarrow> int \<Rightarrow> 'a list option" where
  "swap_if_greater arr i j = do {
     x \<leftarrow> rd arr i;
     y \<leftarrow> rd arr j;
     if y < x then swap arr i j else Some arr }"

text \<open>\<open>while (*i++ < a);\<close> and \<open>while (*(j-- - 2) > a);\<close>\<close>

function scan_up :: "'a::linorder list \<Rightarrow> 'a \<Rightarrow> int \<Rightarrow> int option" where
  "scan_up arr a i = do { x \<leftarrow> rd arr i; if x < a then scan_up arr a (i + 1) else Some (i + 1) }"
  by pat_completeness auto
termination
  by (relation "measure (\<lambda>(arr, a, i). nat (int (length arr) - i))") (auto simp: rd_def split: if_splits)

function scan_down :: "'a::linorder list \<Rightarrow> 'a \<Rightarrow> int \<Rightarrow> int option" where
  "scan_down arr a j = do { x \<leftarrow> rd arr (j - 2); if a < x then scan_down arr a (j - 1) else Some (j - 1) }"
  by pat_completeness auto
termination
  by (relation "measure (\<lambda>(arr, a, j). nat j)") (auto simp: rd_def split: if_splits)

declare scan_up.simps [simp del] scan_down.simps [simp del]

partial_function (option) qsort_inner ::
    "'a::linorder \<Rightarrow> int \<Rightarrow> int \<Rightarrow> 'a list \<Rightarrow> (int \<times> int \<times> 'a list) option" where
  "qsort_inner a i j arr = do {
     i \<leftarrow> scan_up arr a i;
     j \<leftarrow> scan_down arr a j;
     if j < i then Some (i, j, arr)
     else do { arr \<leftarrow> swap arr (i - 1) (j - 1); qsort_inner a i j arr } }"

text \<open>Choosing the partitioning element, the inner loop, and inserting the element.\<close>

definition qsort_partition :: "'a::linorder list \<Rightarrow> int \<Rightarrow> int \<Rightarrow> (int \<times> int \<times> 'a list) option" where
  "qsort_partition arr l ir = do {
     arr \<leftarrow> swap arr ((l + ir) div 2 - 1) l;
     arr \<leftarrow> swap_if_greater arr (l - 1) (ir - 1);
     arr \<leftarrow> swap_if_greater arr l (ir - 1);
     arr \<leftarrow> swap_if_greater arr (l - 1) l;
     a \<leftarrow> rd arr l;
     (i, j, arr) \<leftarrow> qsort_inner a (l + 1) ir arr;
     x \<leftarrow> rd arr (j - 1);
     arr \<leftarrow> wr arr l x;
     arr \<leftarrow> wr arr (j - 1) a;
     Some (i, j, arr) }"

partial_function (option) qsort_loop ::
    "int \<Rightarrow> int \<Rightarrow> int list \<Rightarrow> int \<Rightarrow> 'a::linorder list \<Rightarrow> 'a list option" where
  "qsort_loop ir l stack stackp arr =
     (if ir - l < INSERTION_THRESHOLD
      then do {
        arr \<leftarrow> insertion_sort (ir - l + 1) (l - 1) arr;
        if stackp = 0 then Some arr
        else do {
          ir \<leftarrow> rd stack stackp;
          l \<leftarrow> rd stack (stackp - 1);
          qsort_loop ir l stack (stackp - 2) arr } }
      else do {
        (i, j, arr) \<leftarrow> qsort_partition arr l ir;
        let stackp = stackp + 2;
        if j - l \<le> ir - i + 1
        then do {
          stack \<leftarrow> wr stack stackp ir;
          stack \<leftarrow> wr stack (stackp - 1) i;
          qsort_loop (j - 1) l stack stackp arr }
        else do {
          stack \<leftarrow> wr stack stackp (j - 1);
          stack \<leftarrow> wr stack (stackp - 1) l;
          qsort_loop ir i stack stackp arr } })"

definition qsort :: "int \<Rightarrow> 'a::linorder list \<Rightarrow> 'a list option" where
  "qsort n arr = qsort_loop n 1 (replicate NSTACK 0) 0 arr"

section \<open>Partitioning\<close>

lemma swap_if_greater_spec:
  assumes "i < length a" "j < length a"
  shows "swap_if_greater a (int i) (int j) = Some (if a ! j < a ! i then swap_nth a i j else a)"
  using assms by (simp add: swap_if_greater_def swap_nat)

lemma scan_up_spec:
  "i \<le> m \<Longrightarrow> m < length arr \<Longrightarrow> a \<le> arr ! m \<Longrightarrow>
   \<exists>q. scan_up arr a (int i) = Some (int q + 1) \<and> i \<le> q \<and> q \<le> m \<and> a \<le> arr ! q \<and>
     (\<forall>k. i \<le> k \<and> k < q \<longrightarrow> arr ! k < a)"
proof (induction "m - i" arbitrary: i)
  case 0
  then have "scan_up arr a (int i) = Some (int i + 1)" by (subst scan_up.simps) auto
  then show ?case using 0 by (intro exI [of _ i]) auto
next
  case (Suc d)
  then have i: "i < m" "d = m - Suc i" by simp_all
  show ?case
  proof (cases "arr ! i < a")
    case True
    obtain q where q: "scan_up arr a (int (Suc i)) = Some (int q + 1)" "Suc i \<le> q" "q \<le> m" "a \<le> arr ! q"
      "\<forall>k. Suc i \<le> k \<and> k < q \<longrightarrow> arr ! k < a"
      using Suc.hyps(1) [OF i(2)] i(1) Suc.prems by auto
    have "scan_up arr a (int i) = Some (int q + 1)"
      using q(1) True i(1) Suc.prems by (subst scan_up.simps) (simp add: add.commute)
    moreover have "\<forall>k. i \<le> k \<and> k < q \<longrightarrow> arr ! k < a"
      using q(5) True by (metis Suc_leI le_neq_implies_less)
    ultimately show ?thesis using q by (intro exI [of _ q]) auto
  next
    case False
    then have "scan_up arr a (int i) = Some (int i + 1)"
      using i(1) Suc.prems by (subst scan_up.simps) auto
    then show ?thesis using False Suc.prems by (intro exI [of _ i]) auto
  qed
qed

lemma scan_down_spec:
  "m + 2 \<le> j \<Longrightarrow> j - 2 < length arr \<Longrightarrow> arr ! m \<le> a \<Longrightarrow>
   \<exists>p. scan_down arr a (int j) = Some (int p + 1) \<and> m \<le> p \<and> p + 2 \<le> j \<and> arr ! p \<le> a \<and>
     (\<forall>k. p < k \<and> k + 2 \<le> j \<longrightarrow> a < arr ! k)"
proof (induction "j - m" arbitrary: j)
  case 0
  then show ?case by simp
next
  case (Suc d)
  define p where "p = j - 2"
  then have j: "j = p + 2" using Suc.prems(1) by linarith
  have rd: "rd arr (int j - 2) = Some (arr ! p)" using Suc.prems(2) j by simp
  show ?case
  proof (cases "a < arr ! p")
    case True
    then have mp: "m < p" using Suc.prems j by (cases "m = p") auto
    then have "d = (p + 1) - m" "m + 2 \<le> p + 1" "p + 1 - 2 < length arr" using Suc.hyps(2) Suc.prems j by auto
    then obtain p' where p: "scan_down arr a (int (p + 1)) = Some (int p' + 1)" "m \<le> p'" "p' + 2 \<le> p + 1" "arr ! p' \<le> a"
      "\<forall>k. p' < k \<and> k + 2 \<le> p + 1 \<longrightarrow> a < arr ! k"
      using Suc.hyps(1) [of "p + 1"] Suc.prems(3) by blast
    have "scan_down arr a (int j) = Some (int p' + 1)"
      using rd True p(1) j by (subst scan_down.simps) (simp add: add.commute)
    moreover have "\<forall>k. p' < k \<and> k + 2 \<le> j \<longrightarrow> a < arr ! k"
    proof (intro allI impI)
      fix k assume "p' < k \<and> k + 2 \<le> j"
      then show "a < arr ! k" using p(5) True j by (cases "k = p") auto
    qed
    ultimately show ?thesis using p j by (intro exI [of _ p']) auto
  next
    case False
    then have "scan_down arr a (int j) = Some (int p + 1)"
      using rd j by (subst scan_down.simps) simp
    then show ?thesis using False Suc.prems j by (intro exI [of _ p]) auto
  qed
qed

text \<open>Before each round the offsets from \<open>l\<close> to \<open>i - 1\<close> are at most, those from \<open>j\<close> on at least \<open>a\<close>.\<close>

definition between :: "'a::linorder \<Rightarrow> nat \<Rightarrow> nat \<Rightarrow> nat \<Rightarrow> nat \<Rightarrow> 'a list \<Rightarrow> bool" where
  "between a l hi i j arr \<longleftrightarrow> l < i \<and> i \<le> Suc j \<and> l < j \<and> j < hi \<and> i < hi \<and> hi \<le> length arr \<and>
     (\<forall>k. l \<le> k \<and> k < i \<longrightarrow> arr ! k \<le> a) \<and> (\<forall>k. j \<le> k \<and> k < hi \<longrightarrow> a \<le> arr ! k)"

text \<open>What the partitioning leaves: at most \<open>a\<close> up to \<open>p\<close>, at least \<open>a\<close> from \<open>q\<close> on, \<open>a\<close> in between.\<close>

definition parted :: "'a::linorder \<Rightarrow> nat \<Rightarrow> nat \<Rightarrow> nat \<Rightarrow> nat \<Rightarrow> 'a list \<Rightarrow> bool" where
  "parted a lo p q hi arr \<longleftrightarrow> (\<forall>k. lo \<le> k \<and> k \<le> p \<longrightarrow> arr ! k \<le> a) \<and>
     (\<forall>k. p < k \<and> k < q \<longrightarrow> arr ! k = a) \<and> (\<forall>k. q \<le> k \<and> k < hi \<longrightarrow> a \<le> arr ! k)"

lemma qsort_scans:
  assumes b: "between a l hi i j arr"
  obtains p q where "scan_up arr a (int i) = Some (int q + 1)" "scan_down arr a (int (Suc j)) = Some (int p + 1)"
    "i \<le> q" "p < j" "l \<le> p" "q < hi" "arr ! p \<le> a" "a \<le> arr ! q"
    "\<forall>k. i \<le> k \<and> k < q \<longrightarrow> arr ! k < a" "\<forall>k. p < k \<and> k < j \<longrightarrow> a < arr ! k"
    "i \<le> j \<longrightarrow> q \<le> j \<and> i \<le> Suc p" "j < i \<longrightarrow> q = i \<and> Suc p = j"
proof -
  define m where "m = (if i \<le> j then j else i)"
  have m: "i \<le> m" "m < length arr" "a \<le> arr ! m" "m < hi" using b by (auto simp: between_def m_def)
  obtain q where q: "scan_up arr a (int i) = Some (int q + 1)" "i \<le> q" "q \<le> m" "a \<le> arr ! q"
    "\<forall>k. i \<le> k \<and> k < q \<longrightarrow> arr ! k < a"
    using scan_up_spec [OF m(1-3)] by blast
  define n where "n = (if i \<le> j then i - 1 else j - 1)"
  have n: "n + 2 \<le> Suc j" "Suc j - 2 < length arr" "l \<le> n" "n < i"
    using b by (auto simp: between_def n_def)
  then have an: "arr ! n \<le> a" using b by (simp add: between_def)
  obtain p where p: "scan_down arr a (int (Suc j)) = Some (int p + 1)" "n \<le> p" "p + 2 \<le> Suc j" "arr ! p \<le> a"
    "\<forall>k. p < k \<and> k + 2 \<le> Suc j \<longrightarrow> a < arr ! k"
    using scan_down_spec [OF n(1,2) an] by blast
  show thesis
  proof (rule that [OF q(1) p(1) q(2)])
    show "p < j" "l \<le> p" "q < hi" using p(2,3) n(3) q(3) m(4) by linarith+
    show "\<forall>k. p < k \<and> k < j \<longrightarrow> a < arr ! k" using p(5) by simp
    show "i \<le> j \<longrightarrow> q \<le> j \<and> i \<le> Suc p" using q(3) p(2) unfolding m_def n_def by (auto split: if_splits)
    show "j < i \<longrightarrow> q = i \<and> Suc p = j" using q(2,3) p(2,3) by (auto simp: m_def n_def)
  qed (use p q in simp_all)
qed

text \<open>The pointers have crossed, or two elements change places.\<close>

lemma between_crossed:
  assumes b: "between a l hi i j arr" and s: "p < j" "p < q" "l \<le> p"
    "\<forall>k. i \<le> k \<and> k < q \<longrightarrow> arr ! k < a" "\<forall>k. p < k \<and> k < j \<longrightarrow> a < arr ! k"
    "i \<le> j \<longrightarrow> q \<le> j \<and> i \<le> Suc p" "j < i \<longrightarrow> q = i \<and> Suc p = j"
  shows "parted a l p q hi arr"
  unfolding parted_def
proof (intro conjI allI impI)
  note b = b [unfolded between_def]
  show "arr ! k \<le> a" if "l \<le> k \<and> k \<le> p" for k
    using b s(2,4) that by (cases "k < i") (auto intro: less_imp_le)
  show "a \<le> arr ! k" if "q \<le> k \<and> k < hi" for k
    using b s(2,5) that by (cases "k < j") (auto intro: less_imp_le)
  show "arr ! k = a" if k: "p < k \<and> k < q" for k
  proof (cases "i \<le> j")
    case True
    then have "i \<le> k" "k < j" using s(6) k by linarith+
    then show ?thesis using s(4,5) k by fastforce
  next
    case False
    then have "k = j" "k < i" "l \<le> k" using s(3,7) k b by linarith+
    then show ?thesis using b by (metis order_antisym order_refl)
  qed
qed

lemma between_swap:
  assumes b: "between a l hi i j arr" and s: "i \<le> q" "p < j" "l \<le> p" "q < hi" "q \<le> p" "arr ! p \<le> a" "a \<le> arr ! q"
    "\<forall>k. i \<le> k \<and> k < q \<longrightarrow> arr ! k < a" "\<forall>k. p < k \<and> k < j \<longrightarrow> a < arr ! k"
  shows "between a l hi (Suc q) p (swap_nth arr q p)"
  unfolding between_def
proof (intro conjI allI impI)
  note b = b [unfolded between_def]
  have l: "q < length arr" "p < length arr" using s b by linarith+
  have n: "swap_nth arr q p ! k = (if k = p then arr ! q else if k = q then arr ! p else arr ! k)" if "k < length arr" for k
    using that l by (simp add: swap_nth_nth)
  show "swap_nth arr q p ! k \<le> a" if k: "l \<le> k \<and> k < Suc q" for k
    using n [of k] k l b s(5,6,8) by (cases "k = q"; cases "k < i") (auto intro: less_imp_le)
  show "a \<le> swap_nth arr q p ! k" if k: "p \<le> k \<and> k < hi" for k
    using n [of k] k b s(5,7,9) by (cases "k = p"; cases "k < j") (auto intro: less_imp_le)
qed (use b s in \<open>auto simp: between_def\<close>)

lemma qsort_inner_spec:
  "between a l hi i j arr \<Longrightarrow>
   \<exists>p q b. qsort_inner a (int i) (int (Suc j)) arr = Some (int q + 1, int p + 1, b) \<and> l \<le> p \<and> p < q \<and> q < hi \<and>
     perm_on (Suc l) hi arr b \<and> parted a l p q hi b"
proof (induction "hi - i" arbitrary: i j arr rule: less_induct)
  case less
  note b = less.prems [unfolded between_def]
  obtain p q where s: "scan_up arr a (int i) = Some (int q + 1)" "scan_down arr a (int (Suc j)) = Some (int p + 1)"
    "i \<le> q" "p < j" "l \<le> p" "q < hi" "arr ! p \<le> a" "a \<le> arr ! q"
    "\<forall>k. i \<le> k \<and> k < q \<longrightarrow> arr ! k < a" "\<forall>k. p < k \<and> k < j \<longrightarrow> a < arr ! k"
    "i \<le> j \<longrightarrow> q \<le> j \<and> i \<le> Suc p" "j < i \<longrightarrow> q = i \<and> Suc p = j"
    using qsort_scans [OF less.prems] by metis
  show ?case
  proof (cases "p < q")
    case True
    have "qsort_inner a (int i) (int (Suc j)) arr = Some (int q + 1, int p + 1, arr)"
      using True s(1,2) by (subst qsort_inner.simps) simp
    moreover have "parted a l p q hi arr" using less.prems s(4) True s(5,9-12) by (rule between_crossed)
    ultimately show ?thesis using True s(5,6) by blast
  next
    case False
    then have qp: "q \<le> p" by simp
    let ?b = "swap_nth arr q p"
    have l: "q < length arr" "p < length arr" using s(4,6) b by linarith+
    have "between a l hi (Suc q) p ?b" using less.prems s(3-6) qp s(7-10) by (rule between_swap)
    moreover have "hi - Suc q < hi - i" using s(3,6) by linarith
    ultimately obtain p' q' c where c: "qsort_inner a (int (Suc q)) (int (Suc p)) ?b = Some (int q' + 1, int p' + 1, c)"
      "l \<le> p'" "p' < q'" "q' < hi" "perm_on (Suc l) hi ?b c" "parted a l p' q' hi c"
      using less.hyps by blast
    have "perm_on (Suc l) hi arr ?b" using b s(3,4,6) qp by (intro perm_on_swap) auto
    moreover have "qsort_inner a (int i) (int (Suc j)) arr = qsort_inner a (int (Suc q)) (int (Suc p)) ?b"
      using s(1,2) qp l swap_nat [of q arr p] by (subst qsort_inner.simps) (simp add: add.commute)
    ultimately show ?thesis using c perm_on_trans by metis
  qed
qed

lemma swap_if_greater_perm:
  assumes "lo \<le> i" "i < hi" "lo \<le> j" "j < hi" "hi \<le> length a" "i \<noteq> j"
  shows "\<exists>b. swap_if_greater a (int i) (int j) = Some b \<and> perm_on lo hi a b \<and> b ! i \<le> b ! j \<and>
    (\<forall>k < length a. k \<noteq> i \<and> k \<noteq> j \<longrightarrow> b ! k = a ! k) \<and> a ! j \<le> b ! j \<and>
    (\<forall>v. a ! i \<le> v \<and> a ! j \<le> v \<longrightarrow> b ! j \<le> v)"
proof -
  have l: "i < length a" "j < length a" using assms by linarith+
  show ?thesis
    unfolding swap_if_greater_spec [OF l]
    using assms l perm_on_swap [OF assms(1-5)] by (auto simp: swap_nth_nth)
qed

text \<open>The median of three ends behind the first element, and the pivot between the parts.\<close>

lemma median_of_three:
  assumes h: "hi = Suc h" "Suc (Suc lo) \<le> h" and hi: "hi \<le> length arr"
  obtains b1 b2 b3 b4 where
    "swap arr ((int lo + 1 + int hi) div 2 - 1) (int lo + 1) = Some b1"
    "swap_if_greater b1 (int lo) (int h) = Some b2"
    "swap_if_greater b2 (int lo + 1) (int h) = Some b3"
    "swap_if_greater b3 (int lo) (int lo + 1) = Some b4"
    "perm_on lo hi arr b4" "b4 ! lo \<le> b4 ! Suc lo" "b4 ! Suc lo \<le> b4 ! h"
proof -
  let ?m = "(Suc lo + hi) div 2 - 1"
  have m: "lo \<le> ?m" "?m < hi" "(int lo + 1 + int hi) div 2 - 1 = int ?m" using h by linarith+
  define b1 where "b1 = swap_nth arr ?m (Suc lo)"
  have s1: "swap arr (int ?m) (int (Suc lo)) = Some b1"
    unfolding b1_def using m h hi by (intro swap_nat) linarith+
  have p1: "perm_on lo hi arr b1" unfolding b1_def using m h hi by (intro perm_on_swap) linarith+
  have l1: "hi \<le> length b1" using hi by (simp add: b1_def)
  obtain b2 where b2: "swap_if_greater b1 (int lo) (int h) = Some b2" "perm_on lo hi b1 b2"
    "b2 ! lo \<le> b2 ! h"
    using swap_if_greater_perm [of lo lo hi h b1] h l1 by (auto simp del: all_simps)
  have l2: "hi \<le> length b2" using l1 perm_on_length [OF b2(2)] by simp
  obtain b3 where b3: "swap_if_greater b2 (int (Suc lo)) (int h) = Some b3" "perm_on lo hi b2 b3"
    "b3 ! Suc lo \<le> b3 ! h" "\<forall>k < length b2. k \<noteq> Suc lo \<and> k \<noteq> h \<longrightarrow> b3 ! k = b2 ! k"
    "b2 ! h \<le> b3 ! h"
    using swap_if_greater_perm [of lo "Suc lo" hi h b2] h l2 by auto
  have "b3 ! lo = b2 ! lo" using b3(4) h l2 by auto
  then have b3lo: "b3 ! lo \<le> b3 ! h" using b2(3) b3(5) by simp
  have l3: "hi \<le> length b3" using l2 perm_on_length [OF b3(2)] by simp
  obtain b4 where b4: "swap_if_greater b3 (int lo) (int (Suc lo)) = Some b4" "perm_on lo hi b3 b4"
    "b4 ! lo \<le> b4 ! Suc lo" "\<forall>k < length b3. k \<noteq> lo \<and> k \<noteq> Suc lo \<longrightarrow> b4 ! k = b3 ! k"
    "\<forall>v. b3 ! lo \<le> v \<and> b3 ! Suc lo \<le> v \<longrightarrow> b4 ! Suc lo \<le> v"
    using swap_if_greater_perm [of lo lo hi "Suc lo" b3] h l3 by auto
  have "b4 ! h = b3 ! h" using b4(4) h l3 by auto
  then have "b4 ! Suc lo \<le> b4 ! h" using b4(5) b3lo b3(3) by simp
  moreover have "perm_on lo hi arr b4" using perm_on_trans p1 b2(2) b3(2) b4(2) by metis
  ultimately show thesis
    using that [of b1 b2 b3 b4] s1 b2(1) b3(1) b4(1,3) unfolding m(3) by (simp add: add.commute)
qed

lemma parted_pivot:
  assumes c: "parted a (Suc lo) p q hi c" "Suc lo \<le> p" "p < q" "q < hi" "hi \<le> length c"
    and l: "c ! Suc lo = a" "c ! lo \<le> a"
  shows "parted a lo p q hi (swap_nth c (Suc lo) p)" "swap_nth c (Suc lo) p ! p = a"
proof -
  let ?d = "swap_nth c (Suc lo) p"
  have n: "?d ! k = (if k = p then a else if k = Suc lo then c ! p else c ! k)" if "k < length c" for k
    using that c l(1) by (simp add: swap_nth_nth)
  show "?d ! p = a" using n [of p] c by simp
  show "parted a lo p q hi ?d"
    unfolding parted_def
  proof (intro conjI allI impI)
    fix k assume k: "lo \<le> k \<and> k \<le> p"
    have "c ! k \<le> a" if "Suc lo \<le> k" using c(1) k that by (simp add: parted_def)
    moreover have "c ! p \<le> a" using c(1,2) by (simp add: parted_def)
    ultimately show "?d ! k \<le> a" using n [of k] k c(2-5) l(2) by (cases "k = lo") auto
  next
    fix k assume "p < k \<and> k < q"
    then show "?d ! k = a" using n [of k] c by (simp add: parted_def)
  next
    fix k assume "q \<le> k \<and> k < hi"
    then show "a \<le> ?d ! k" using n [of k] c by (simp add: parted_def)
  qed
qed

lemma qsort_partition_spec:
  assumes lo: "lo + 3 \<le> hi" and hi: "hi \<le> length arr"
  obtains p q a b where "qsort_partition arr (int lo + 1) (int hi) = Some (int q + 1, int p + 1, b)"
    "lo < p" "p < q" "q < hi" "perm_on lo hi arr b" "parted a lo p q hi b" "b ! p = a"
proof -
  obtain h where h: "hi = Suc h" "Suc (Suc lo) \<le> h" using lo by (cases hi) auto
  obtain b1 b2 b3 b4 where b: "swap arr ((int lo + 1 + int hi) div 2 - 1) (int lo + 1) = Some b1"
    "swap_if_greater b1 (int lo) (int h) = Some b2" "swap_if_greater b2 (int lo + 1) (int h) = Some b3"
    "swap_if_greater b3 (int lo) (int lo + 1) = Some b4"
    and b4: "perm_on lo hi arr b4" "b4 ! lo \<le> b4 ! Suc lo" "b4 ! Suc lo \<le> b4 ! h"
    using median_of_three [OF h hi] .
  have l4: "hi \<le> length b4" using hi perm_on_length [OF b4(1)] by simp
  define a where "a = b4 ! Suc lo"
  have "b4 ! k \<le> a" if "Suc lo \<le> k \<and> k < Suc (Suc lo)" for k
  proof -
    have "k = Suc lo" using that by linarith
    then show ?thesis by (simp add: a_def)
  qed
  moreover have "a \<le> b4 ! k" if "h \<le> k \<and> k < hi" for k
  proof -
    have "k = h" using that h by linarith
    then show ?thesis using b4(3) by (simp add: a_def)
  qed
  ultimately have "between a (Suc lo) hi (Suc (Suc lo)) h b4" using h l4 by (auto simp: between_def)
  then obtain p q c where c: "qsort_inner a (int (Suc (Suc lo))) (int (Suc h)) b4 = Some (int q + 1, int p + 1, c)"
    "Suc lo \<le> p" "p < q" "q < hi" "perm_on (Suc (Suc lo)) hi b4 c" "parted a (Suc lo) p q hi c"
    using qsort_inner_spec by blast
  have lc: "hi \<le> length c" using l4 perm_on_length [OF c(5)] by simp
  have cl: "c ! Suc lo = a" "c ! lo \<le> a" using c(5) l4 lo b4(2) by (simp_all add: perm_on_def a_def)
  let ?d = "swap_nth c (Suc lo) p"
  note d = parted_pivot [OF c(6,2-4) lc cl]
  have "perm_on lo hi b4 c" by (rule perm_on_mono [OF c(5)]) simp_all
  moreover have "perm_on lo hi c ?d" using c(2-4) lo lc by (intro perm_on_swap) linarith+
  ultimately have "perm_on lo hi arr ?d" using perm_on_trans b4(1) by metis
  moreover have "qsort_partition arr (int lo + 1) (int hi) = Some (int q + 1, int p + 1, ?d)"
  proof -
    have "int lo + 1 - 1 = int lo" "int hi - 1 = int h" using h by simp_all
    moreover have "qsort_inner a (int lo + 1 + 1) (int hi) b4 = Some (int q + 1, int p + 1, c)"
      using c(1) h by (simp add: algebra_simps)
    moreover have "rd b4 (int lo + 1) = Some a" "rd c (int p + 1 - 1) = Some (c ! p)"
      "wr c (int lo + 1) (c ! p) = Some (c[Suc lo := c ! p])"
      "wr (c[Suc lo := c ! p]) (int p + 1 - 1) a = Some ?d"
      using rd_nat [of b4 "Suc lo"] wr_nat [of c "Suc lo" "c ! p"] lo l4 lc c(2-4) cl(1)
      by (simp_all add: a_def swap_nth_def add.commute)
    ultimately show ?thesis
      unfolding qsort_partition_def by (simp only: b Option.bind_lunit prod.case)
  qed
  ultimately show thesis using that c(2-4) d by simp
qed

section \<open>The ranges still to be sorted\<close>

definition separate :: "nat \<times> nat \<Rightarrow> nat \<times> nat \<Rightarrow> bool" where
  "separate r s \<longleftrightarrow> snd r \<le> fst s \<or> snd s \<le> fst r"

fun all_separate :: "(nat \<times> nat) list \<Rightarrow> bool" where
  "all_separate [] \<longleftrightarrow> True"
| "all_separate (r # rs) \<longleftrightarrow> (\<forall>s \<in> set rs. separate r s) \<and> all_separate rs"

definition together :: "(nat \<times> nat) list \<Rightarrow> nat \<Rightarrow> nat \<Rightarrow> bool" where
  "together rs i j \<longleftrightarrow> (\<exists>r \<in> set rs. fst r \<le> i \<and> j < snd r)"

text \<open>Two elements are in order, unless a range still to be sorted holds both.\<close>

definition ordered_but :: "(nat \<times> nat) list \<Rightarrow> 'a::linorder list \<Rightarrow> bool" where
  "ordered_but rs a \<longleftrightarrow> (\<forall>i j. i < j \<and> j < length a \<and> \<not> together rs i j \<longrightarrow> a ! i \<le> a ! j)"

lemma ordered_but_Nil: "ordered_but [] a \<Longrightarrow> sorted a"
  unfolding ordered_but_def together_def sorted_iff_nth_mono_less by auto

lemma together_append: "together (rs @ ss) i j \<longleftrightarrow> together rs i j \<or> together ss i j"
  by (auto simp: together_def)

lemma ordered_but_split:
  assumes o: "ordered_but ((lo, hi) # rs) a" and p: "perm_on lo hi a b" and hi: "hi \<le> length a"
    and s: "\<forall>r \<in> set rs. separate (lo, hi) r"
    and inside: "\<And>i j. lo \<le> i \<Longrightarrow> i < j \<Longrightarrow> j < hi \<Longrightarrow> \<not> together ls i j \<Longrightarrow> b ! i \<le> b ! j"
  shows "ordered_but (ls @ rs) b"
  unfolding ordered_but_def
proof (intro allI impI, elim conjE)
  fix i j assume ij: "i < j" "j < length b" and t: "\<not> together (ls @ rs) i j"
  have l: "length b = length a" by (rule perm_on_length [OF p])
  have out: "b ! k = a ! k" if "k < length a" "k < lo \<or> hi \<le> k" for k using p that by (auto simp: perm_on_def)
  have old: "a ! i' \<le> a ! j'" if "i' < j'" "j' < length a" "\<not> together rs i' j'" "\<not> (lo \<le> i' \<and> j' < hi)" for i' j'
    using o that by (auto simp: ordered_but_def together_def)
  consider "lo \<le> i" "j < hi" | "i < lo" "lo \<le> j" "j < hi" | "lo \<le> i" "i < hi" "hi \<le> j"
    | "i < lo \<or> hi \<le> i" "j < lo \<or> hi \<le> j" using ij by linarith
  then show "b ! i \<le> b ! j"
  proof cases
    case 1
    then show ?thesis using inside ij t by (simp add: together_append)
  next
    case 2
    obtain j' where j': "lo \<le> j'" "j' < hi" "b ! j = a ! j'" using perm_on_ex [OF p hi] 2 by metis
    have "\<not> together rs i j'" using s j' 2 unfolding together_def separate_def by fastforce
    then show ?thesis using old [of i j'] out [of i] 2 j' hi ij l by simp
  next
    case 3
    obtain i' where i': "lo \<le> i'" "i' < hi" "b ! i = a ! i'" using perm_on_ex [OF p hi] 3 by metis
    have "\<not> together rs i' j" using s i' 3 unfolding together_def separate_def by fastforce
    then show ?thesis using old [of i' j] out [of j] 3 i' hi ij l by simp
  next
    case 4
    have "\<not> together rs i j" using t by (simp add: together_append)
    then show ?thesis using old [of i j] out [of i] out [of j] 4 ij l by auto
  qed
qed

text \<open>The stack in memory, and the sizes on it: each range is at most half of the one it came from.\<close>

fun stack_ok :: "int list \<Rightarrow> (nat \<times> nat) list \<Rightarrow> bool" where
  "stack_ok st [] \<longleftrightarrow> True"
| "stack_ok st ((lo, hi) # rs) \<longleftrightarrow> 2 * length rs + 2 < length st \<and> st ! (2 * length rs + 2) = int hi \<and>
     st ! (2 * length rs + 1) = int lo + 1 \<and> stack_ok st rs"

fun depth_ok :: "nat \<Rightarrow> (nat \<times> nat) list \<Rightarrow> bool" where
  "depth_ok n [] \<longleftrightarrow> True"
| "depth_ok n ((lo, hi) # rs) \<longleftrightarrow> lo \<le> hi \<and> hi \<le> n \<and> (hi - lo) * 2 ^ length rs \<le> n \<and> depth_ok n rs"

fun weight :: "(nat \<times> nat) list \<Rightarrow> nat" where
  "weight [] = 0"
| "weight ((lo, hi) # rs) = Suc (2 * (hi - lo)) + weight rs"

lemma stack_ok_update: "2 * length rs < k \<Longrightarrow> stack_ok (st[k := v]) rs = stack_ok st rs"
  by (induction st rs rule: stack_ok.induct) (auto simp: nth_list_update)

lemma stack_ok_push:
  "stack_ok st rs \<Longrightarrow> 2 * length rs + 2 < length st \<Longrightarrow>
   stack_ok (st[2 * length rs + 2 := int hi, 2 * length rs + 1 := int lo + 1]) ((lo, hi) # rs)"
  by (simp add: stack_ok_update)

lemma separate_part: "separate (lo, hi) r \<Longrightarrow> lo \<le> l \<Longrightarrow> h \<le> hi \<Longrightarrow> separate (l, h) r"
  unfolding separate_def by auto

lemma separate_sym: "separate r s = separate s r"
  by (auto simp: separate_def)

text \<open>The invariant of the loop, with the current range in front.\<close>

definition qsort_inv :: "nat \<Rightarrow> int list \<Rightarrow> nat \<times> nat \<Rightarrow> (nat \<times> nat) list \<Rightarrow> 'a::linorder list \<Rightarrow> bool" where
  "qsort_inv n st r rs a \<longleftrightarrow> length a = n \<and> n < 11 * 2 ^ 24 \<and> length st = NSTACK \<and> stack_ok st rs \<and>
     all_separate (r # rs) \<and> depth_ok n (r # rs) \<and> ordered_but (r # rs) a"

lemma qsort_inv_room:
  assumes "qsort_inv n st (lo, hi) rs a" "11 \<le> hi - lo"
  shows "2 * length rs + 2 < length st"
proof -
  have "11 * 2 ^ length rs \<le> (hi - lo) * 2 ^ length rs" using assms(2) by simp
  also have "\<dots> < 11 * 2 ^ 24" using assms(1) by (auto simp: qsort_inv_def)
  finally have "2 ^ length rs < (2 :: nat) ^ 24" by simp
  then have "length rs < 24" by (rule power_less_imp_less_exp [rotated]) simp
  then show ?thesis using assms(1) by (simp add: qsort_inv_def NSTACK_def)
qed

lemma parted_low: "parted a lo p q hi b \<Longrightarrow> lo \<le> i \<Longrightarrow> i < q \<Longrightarrow> b ! i \<le> a"
  by (cases "i \<le> p") (simp_all add: parted_def)

lemma parted_high: "parted a lo p q hi b \<Longrightarrow> b ! p = a \<Longrightarrow> p \<le> j \<Longrightarrow> j < hi \<Longrightarrow> a \<le> b ! j"
  by (cases "q \<le> j"; cases "p = j") (simp_all add: parted_def)

text \<open>Splitting the current range: the smaller part is sorted next, the larger is pushed.\<close>

lemma qsort_inv_split:
  assumes inv: "qsort_inv n st (lo, hi) rs a" and room: "2 * length rs + 2 < length st"
    and s: "lo < p" "p < q" "q < hi" "perm_on lo hi a b" "parted (b ! p) lo p q hi b"
    and c: "(c = (lo, p) \<and> d = (q, hi) \<and> p - lo \<le> hi - q) \<or> (c = (q, hi) \<and> d = (lo, p) \<and> hi - q \<le> p - lo)"
  shows "qsort_inv n (st[2 * length rs + 2 := int (snd d), 2 * length rs + 1 := int (fst d) + 1]) c (d # rs) b"
proof -
  have hi: "hi \<le> length a" "hi \<le> n" using inv by (auto simp: qsort_inv_def)
  have sep: "\<forall>r \<in> set rs. separate (lo, hi) r" using inv by (simp add: qsort_inv_def)
  have "b ! i \<le> b ! j" if "lo \<le> i" "i < j" "j < hi" "\<not> together [c, d] i j" for i j
  proof -
    have "\<not> j < p" "\<not> q \<le> i" using that c by (auto simp: together_def)
    then have "b ! i \<le> b ! p" "b ! p \<le> b ! j"
      using parted_low [OF s(5), of i] parted_high [OF s(5) refl, of j] that by simp_all
    then show ?thesis by (rule order_trans)
  qed
  note inside = this
  have "ordered_but ((lo, hi) # rs) a" using inv by (simp add: qsort_inv_def)
  then have "ordered_but ([c, d] @ rs) b"
    by (rule ordered_but_split [OF _ s(4) hi(1) sep]) (rule inside)
  moreover have "all_separate (c # d # rs)"
    using sep inv c s(1-3) by (auto simp: qsort_inv_def separate_def)
  moreover have "depth_ok n (c # d # rs)"
  proof -
    have "(hi - lo) * 2 ^ length rs \<le> n" using inv by (simp add: qsort_inv_def)
    moreover have "2 * (snd c - fst c) \<le> hi - lo" "snd d - fst d \<le> hi - lo" using c s(1-3) by auto
    ultimately have "2 * (snd c - fst c) * 2 ^ length rs \<le> n" "(snd d - fst d) * 2 ^ length rs \<le> n"
      using mult_le_mono1 le_trans by blast+
    then show ?thesis using inv c s(1-3) hi by (auto simp: qsort_inv_def mult_ac)
  qed
  moreover have "length b = n" using perm_on_length [OF s(4)] inv by (simp add: qsort_inv_def)
  ultimately show ?thesis
    using inv stack_ok_push [OF _ room, of "snd d" "fst d"] by (simp add: qsort_inv_def)
qed

text \<open>When the current range has been sorted, the range on top of the stack is next.\<close>

lemma qsort_inv_sorted:
  assumes "qsort_inv n st (lo, hi) rs a" "perm_on lo hi a b" "sorted_on lo hi b"
  shows "ordered_but rs b"
proof -
  have "ordered_but ([] @ rs) b"
    using assms by (intro ordered_but_split [OF _ assms(2)]) (auto simp: qsort_inv_def sorted_on_def)
  then show ?thesis by simp
qed

lemma qsort_inv_pop:
  assumes "qsort_inv n st (lo, hi) (r # rs) a" "perm_on lo hi a b" "sorted_on lo hi b"
  shows "qsort_inv n st r rs b"
proof -
  have "ordered_but (r # rs) b" by (rule qsort_inv_sorted [OF assms])
  moreover have "length b = n" using perm_on_length [OF assms(2)] assms(1) by (simp add: qsort_inv_def)
  ultimately show ?thesis using assms(1) by (cases r) (simp add: qsort_inv_def)
qed

text \<open>One round of the loop on a long range.\<close>

lemma qsort_loop_split:
  assumes inv: "qsort_inv n st (lo, hi) rs a" and big: "11 \<le> hi - lo"
  obtains st' c d b where "qsort_inv n st' c (d # rs) b" "mset b = mset a"
    "qsort_loop (int hi) (int lo + 1) st (int (2 * length rs)) a =
     qsort_loop (int (snd c)) (int (fst c) + 1) st' (int (2 * length (d # rs))) b"
    "weight (c # d # rs) < weight ((lo, hi) # rs)"
proof -
  have "lo + 3 \<le> hi" "hi \<le> length a" using inv big by (auto simp: qsort_inv_def)
  then obtain p q x b where s: "qsort_partition a (int lo + 1) (int hi) = Some (int q + 1, int p + 1, b)"
    "lo < p" "p < q" "q < hi" "perm_on lo hi a b" "parted x lo p q hi b" "b ! p = x"
    using qsort_partition_spec by metis
  have room: "2 * length rs + 2 < length st" by (rule qsort_inv_room [OF assms])
  let ?st = "\<lambda>v w. st[2 * length rs + 2 := v, 2 * length rs + 1 := w]"
  have push: "wr st (int (2 * length rs) + 2) v = Some (st[2 * length rs + 2 := v])"
    "wr (st[2 * length rs + 2 := v]) (int (2 * length rs) + 2 - 1) w = Some (?st v w)" for v w
    using room wr_nat [of st "2 * length rs + 2" v] wr_nat [of "st[2 * length rs + 2 := v]" "2 * length rs + 1" w]
    by (simp_all add: add.commute)
  have thr: "\<not> int hi - (int lo + 1) < INSERTION_THRESHOLD" using big by (simp add: INSERTION_THRESHOLD_def)
  have m: "mset b = mset a" using s(5) by (simp add: perm_on_def)
  have p: "parted (b ! p) lo p q hi b" using s(6,7) by simp
  note split = qsort_inv_split [OF inv room s(2-5) p]
  show thesis
  proof (cases "p - lo \<le> hi - q")
    case True
    then have e: "int p + 1 - (int lo + 1) \<le> int hi - (int q + 1) + 1" using s(2-4) by linarith
    have w: "weight ((lo, p) # (q, hi) # rs) < weight ((lo, hi) # rs)" using s(2-4) by simp
    have r: "qsort_loop (int hi) (int lo + 1) st (int (2 * length rs)) a =
        qsort_loop (int p) (int lo + 1) (?st (int hi) (int q + 1)) (int (2 * length rs) + 2) b"
      by (subst qsort_loop.simps) (simp only: thr s(1) e push Let_def Option.bind_lunit prod.case if_True if_False add_diff_cancel_right')
    show thesis
      using that [of _ "(lo, p)" "(q, hi)", OF split [of "(lo, p)" "(q, hi)"] m] r w True by (simp add: add.commute)
  next
    case False
    then have e: "\<not> int p + 1 - (int lo + 1) \<le> int hi - (int q + 1) + 1" using s(2-4) by linarith
    have w: "weight ((q, hi) # (lo, p) # rs) < weight ((lo, hi) # rs)" using s(2-4) by simp
    have r: "qsort_loop (int hi) (int lo + 1) st (int (2 * length rs)) a =
        qsort_loop (int hi) (int q + 1) (?st (int p) (int lo + 1)) (int (2 * length rs) + 2) b"
      by (subst qsort_loop.simps) (simp only: thr s(1) e push Let_def Option.bind_lunit prod.case if_True if_False add_diff_cancel_right')
    show thesis
      using that [of _ "(q, hi)" "(lo, p)", OF split [of "(q, hi)" "(lo, p)"] m] r w False by (simp add: add.commute)
  qed
qed

lemma qsort_loop_spec:
  "qsort_inv n st (lo, hi) rs a \<Longrightarrow>
   \<exists>b. qsort_loop (int hi) (int lo + 1) st (int (2 * length rs)) a = Some b \<and> mset b = mset a \<and> sorted b"
proof (induction "weight ((lo, hi) # rs)" arbitrary: lo hi rs st a rule: less_induct)
  case less
  note inv = less.prems
  show ?case
  proof (cases "11 \<le> hi - lo")
    case True
    obtain st' c d b where s: "qsort_inv n st' c (d # rs) b" "mset b = mset a"
      "qsort_loop (int hi) (int lo + 1) st (int (2 * length rs)) a =
       qsort_loop (int (snd c)) (int (fst c) + 1) st' (int (2 * length (d # rs))) b"
      "weight (c # d # rs) < weight ((lo, hi) # rs)"
      using qsort_loop_split [OF inv True] .
    show ?thesis using less.hyps [of "fst c" "snd c" "d # rs" st' b] s by simp
  next
    case False
    have thr: "int hi - (int lo + 1) < INSERTION_THRESHOLD" using False by (simp add: INSERTION_THRESHOLD_def)
    have lh: "lo \<le> hi" "lo + (hi - lo) \<le> length a" using inv by (auto simp: qsort_inv_def)
    obtain b where b: "insertion_sort (int hi - (int lo + 1) + 1) (int lo + 1 - 1) a = Some b"
      "perm_on lo hi a b" "sorted_on lo hi b"
      using insertion_sort_spec [OF lh(2)] lh(1) by (auto simp: of_nat_diff)
    have m: "mset b = mset a" using b(2) by (simp add: perm_on_def)
    show ?thesis
    proof (cases rs)
      case Nil
      then have "qsort_loop (int hi) (int lo + 1) st (int (2 * length rs)) a = Some b"
        using b(1) thr by (subst qsort_loop.simps) simp
      moreover have "sorted b" using qsort_inv_sorted [OF inv b(2,3)] Nil ordered_but_Nil by simp
      ultimately show ?thesis using m by blast
    next
      case (Cons r ss)
      obtain l h where r: "r = (l, h)" by (cases r)
      have st: "rd st (int (2 * length rs)) = Some (int h)" "rd st (int (2 * length rs) - 1) = Some (int l + 1)"
        "int (2 * length rs) - 2 = int (2 * length ss)" "int (2 * length rs) \<noteq> 0"
        using inv Cons r rd_nat [of st "2 * length ss + 2"] rd_nat [of st "2 * length ss + 1"]
        by (simp_all add: qsort_inv_def add.commute)
      have "qsort_loop (int hi) (int lo + 1) st (int (2 * length rs)) a =
          qsort_loop (int h) (int l + 1) st (int (2 * length ss)) b"
        by (subst qsort_loop.simps) (simp only: thr b(1) st Option.bind_lunit if_True if_False)
      moreover have "qsort_inv n st (l, h) ss b" using qsort_inv_pop [OF inv [unfolded Cons r] b(2,3)] .
      moreover have "weight ((l, h) # ss) < weight ((lo, hi) # rs)" by (simp add: Cons r)
      ultimately show ?thesis using less.hyps [of l h ss st b] m by simp
    qed
  qed
qed

interpretation qsort: sorter "\<lambda>a. length a < 11 * 2 ^ 24" "\<lambda>a. qsort (int (length a)) a"
proof
  fix a :: "'a list" assume "length a < 11 * 2 ^ 24"
  then have "qsort_inv (length a) (replicate NSTACK 0) (0, length a) [] a"
    by (auto simp: qsort_inv_def ordered_but_def together_def)
  then show "\<exists>b. qsort (int (length a)) a = Some b \<and> mset b = mset a \<and> sorted b"
    using qsort_loop_spec [of "length a" "replicate NSTACK 0" 0 "length a" "[]" a] by (simp add: qsort_def)
qed

section \<open>Properties\<close>

text \<open>C14: \<open>sort\<close> of \<^verbatim>\<open>gcc/qsort.c\<close> returns for every array of fewer than \<open>11 * 2 ^ 24\<close> elements, with the
  array sorted, without an access outside of the array and without overflowing its stack of 50
  pointers.\<close>

theorem qsort_sorts:
  fixes a :: "int list"
  assumes "length a < 11 * 2 ^ 24"
  shows "qsort (int (length a)) a = Some (sort a)"
  using assms by (rule qsort.is_sort)

lemma qsort_sorts_witness:
  "qsort 12 [9, 3, 7, 1, 12, 5, -4, 8, 2, 6, 11, (0 :: int)] = Some [-4, 0, 1, 2, 3, 5, 6, 7, 8, 9, 11, 12]"
  using qsort_sorts [of "[9, 3, 7, 1, 12, 5, -4, 8, 2, 6, 11, 0]"] by simp

text \<open>C24: the recursive quicksort of \<^verbatim>\<open>gcc/quicksort.c\<close>, the loop of \<^verbatim>\<open>gcc/bubblesort.c\<close> and the insertion
  and selection sorts of \<^verbatim>\<open>gcc/qsort.c\<close> terminate on every array, sort it, and stay inside it.\<close>

theorem comparison_sorts:
  fixes a :: "int list"
  shows "quicksort a 0 (int (length a) - 1) = Some (sort a) \<and>
    bubble_loop (int (length a)) a = Some (sort a) \<and>
    insertion_sort (int (length a)) 0 a = Some (sort a) \<and>
    selection_sort (int (length a)) 0 a = Some (sort a)"
  by (intro conjI quick.is_sort bubble.is_sort insertion.is_sort selection.is_sort TrueI)

text \<open>\<open>partition\<close> of \<^verbatim>\<open>gcc/quicksort.c\<close>, for offsets inside of the array, returns the place of the
  pivot: it rearranges the range only, with nothing larger than the pivot before its place and nothing
  smaller behind it.\<close>

theorem partition_correct:
  fixes a :: "int list"
  assumes "low \<le> high" "high < length a"
  shows "\<exists>p b. Sorts.partition a (int low) (int high) = Some (int p, b) \<and> low \<le> p \<and> p \<le> high \<and>
    b ! p = a ! high \<and> mset b = mset a \<and> (\<forall>k < length a. k < low \<or> high < k \<longrightarrow> b ! k = a ! k) \<and>
    (\<forall>k. low \<le> k \<and> k < p \<longrightarrow> b ! k \<le> b ! p) \<and> (\<forall>k. p < k \<and> k \<le> high \<longrightarrow> b ! p \<le> b ! k)"
proof -
  obtain p b where b: "Sorts.partition a (int low) (int high) = Some (int p, b)" "low \<le> p" "p \<le> high"
    "perm_on low (Suc high) a b" "b ! p = a ! high" "\<forall>k. low \<le> k \<and> k < p \<longrightarrow> b ! k \<le> b ! p"
    "\<forall>k. p < k \<and> k \<le> high \<longrightarrow> b ! p \<le> b ! k"
    using partition_spec [OF assms] by metis
  then show ?thesis by (auto simp: perm_on_def Suc_le_eq)
qed

lemma partition_correct_witness:
  "\<exists>p b. Sorts.partition [4, 1, 3, (2 :: int)] 0 3 = Some (int p, b) \<and> b ! p = 2"
  using partition_correct [of 0 3 "[4, 1, 3, 2]"] by auto

end
