(* ===== verification/Radix.thy ===== *)
theory Radix
  imports CArray Device
begin

text \<open>
  The radix sort \<^verbatim>\<open>gcc/rsort.c\<close>: four passes over the bytes of the keys, each a counting sort that is
  unrolled four times. A pass is shown to be the stable sort by its byte, and four passes to sort the
  array. Pointers are offsets; the counts, at most the number of elements, are kept as integers.
\<close>

section \<open>The code\<close>

definition BASE :: int where
  "BASE = 256"

definition digit :: "nat \<Rightarrow> u32 \<Rightarrow> int" where
  "digit log_exp a = uint (drop_bit log_exp a mod 256)"

text \<open>\<open>fetch_add(ptr, inc)\<close>: adds and returns the old value.\<close>

definition fetch_add :: "int list \<Rightarrow> int \<Rightarrow> int \<Rightarrow> (int \<times> int list) option" where
  "fetch_add b k inc = do { x \<leftarrow> rd b k; b \<leftarrow> wr b k (x + inc); Some (x, b) }"

function count_rest :: "nat \<Rightarrow> u32 list \<Rightarrow> int \<Rightarrow> int \<Rightarrow> int list \<Rightarrow> int list option" where
  "count_rest log_exp arr n p bucket =
     (if p < n
      then do {
        a \<leftarrow> rd arr p;
        (_, bucket) \<leftarrow> fetch_add bucket (digit log_exp a) 1;
        count_rest log_exp arr n (p + 1) bucket }
      else Some bucket)"
  by pat_completeness auto
termination
  by (relation "measure (\<lambda>(e, arr, n, p, b). nat (n - p))") auto

function count_four :: "nat \<Rightarrow> u32 list \<Rightarrow> int \<Rightarrow> int \<Rightarrow> int list \<Rightarrow> int list option" where
  "count_four log_exp arr n p bucket =
     (if p < n - 3
      then do {
        a0 \<leftarrow> rd arr p;
        a1 \<leftarrow> rd arr (p + 1);
        a2 \<leftarrow> rd arr (p + 2);
        a3 \<leftarrow> rd arr (p + 3);
        (_, bucket) \<leftarrow> fetch_add bucket (digit log_exp a0) 1;
        (_, bucket) \<leftarrow> fetch_add bucket (digit log_exp a1) 1;
        (_, bucket) \<leftarrow> fetch_add bucket (digit log_exp a2) 1;
        (_, bucket) \<leftarrow> fetch_add bucket (digit log_exp a3) 1;
        count_four log_exp arr n (p + 4) bucket }
      else count_rest log_exp arr n p bucket)"
  by pat_completeness auto
termination
  by (relation "measure (\<lambda>(e, arr, n, p, b). nat (n - p))") auto

declare count_rest.simps [simp del] count_four.simps [simp del]

function prefix_loop :: "int \<Rightarrow> int \<Rightarrow> int list \<Rightarrow> int list option" where
  "prefix_loop b prev bucket =
     (if b < BASE
      then do {
        (x, bucket) \<leftarrow> fetch_add bucket b prev;
        let prev = prev + x;
        (x, bucket) \<leftarrow> fetch_add bucket (b + 1) prev;
        let prev = prev + x;
        prefix_loop (b + 2) prev bucket }
      else Some bucket)"
  by pat_completeness auto
termination
  by (relation "measure (\<lambda>(b, prev, bucket). nat (BASE - b))") auto

declare prefix_loop.simps [simp del]

definition prefix_sums :: "int list \<Rightarrow> int list option" where
  "prefix_sums bucket = do {
     prev \<leftarrow> rd bucket 0;
     (x, bucket) \<leftarrow> fetch_add bucket 1 prev;
     prefix_loop 2 (prev + x) bucket }"

function scatter_rest :: "nat \<Rightarrow> u32 list \<Rightarrow> int \<Rightarrow> int list \<Rightarrow> u32 list \<Rightarrow> (int list \<times> u32 list) option" where
  "scatter_rest log_exp arr p bucket scratch =
     (if 0 \<le> p
      then do {
        a \<leftarrow> rd arr p;
        (old, bucket) \<leftarrow> fetch_add bucket (digit log_exp a) (- 1);
        scratch \<leftarrow> wr scratch (old - 1) a;
        scatter_rest log_exp arr (p - 1) bucket scratch }
      else Some (bucket, scratch))"
  by pat_completeness auto
termination
  by (relation "measure (\<lambda>(e, arr, p, b, s). nat (p + 1))") auto

function scatter_four :: "nat \<Rightarrow> u32 list \<Rightarrow> int \<Rightarrow> int list \<Rightarrow> u32 list \<Rightarrow> (int list \<times> u32 list) option" where
  "scatter_four log_exp arr p bucket scratch =
     (if 3 \<le> p
      then do {
        a0 \<leftarrow> rd arr p;
        a1 \<leftarrow> rd arr (p - 1);
        a2 \<leftarrow> rd arr (p - 2);
        a3 \<leftarrow> rd arr (p - 3);
        (s0, bucket) \<leftarrow> fetch_add bucket (digit log_exp a0) (- 1);
        (s1, bucket) \<leftarrow> fetch_add bucket (digit log_exp a1) (- 1);
        (s2, bucket) \<leftarrow> fetch_add bucket (digit log_exp a2) (- 1);
        (s3, bucket) \<leftarrow> fetch_add bucket (digit log_exp a3) (- 1);
        scratch \<leftarrow> wr scratch (s0 - 1) a0;
        scratch \<leftarrow> wr scratch (s1 - 1) a1;
        scratch \<leftarrow> wr scratch (s2 - 1) a2;
        scratch \<leftarrow> wr scratch (s3 - 1) a3;
        scatter_four log_exp arr (p - 4) bucket scratch }
      else scatter_rest log_exp arr p bucket scratch)"
  by pat_completeness auto
termination
  by (relation "measure (\<lambda>(e, arr, p, b, s). nat (p + 1))") auto

declare scatter_rest.simps [simp del] scatter_four.simps [simp del]

text \<open>
  The loop over the digits. \<open>arr\<close> and \<open>scratch\<close> change places after every pass; \<open>home\<close> records
  whether \<open>arr\<close> is the array the caller passed.
\<close>

function rsort_loop :: "int \<Rightarrow> nat \<Rightarrow> bool \<Rightarrow> u32 list \<Rightarrow> u32 list \<Rightarrow> (bool \<times> u32 list \<times> u32 list) option" where
  "rsort_loop n log_exp home arr scratch =
     (if log_exp < 8 * 4
      then do {
        let bucket = replicate (nat BASE) 0;
        bucket \<leftarrow> count_four log_exp arr n 0 bucket;
        bucket \<leftarrow> prefix_sums bucket;
        (_, scratch) \<leftarrow> scatter_four log_exp arr (n - 1) bucket scratch;
        rsort_loop n (log_exp + 8) (\<not> home) scratch arr }
      else Some (home, arr, scratch))"
  by pat_completeness auto
termination
  by (relation "measure (\<lambda>(n, e, h, a, s). 32 - e)") auto

declare rsort_loop.simps [simp del]

text \<open>\<open>if (arr != arrIn) memcpy(arr, scratch, n * sizeof(unsigned int))\<close>, then the array is printed.\<close>

definition rsort :: "int \<Rightarrow> u32 list \<Rightarrow> u32 list \<Rightarrow> (u32 list \<times> u32 list) option" where
  "rsort n arrIn scratchIn = do {
     (home, arr, scratch) \<leftarrow> rsort_loop n 0 True arrIn scratchIn;
     Some (if home then arr else scratch, scratch) }"

definition rsort_main :: "dev \<Rightarrow> dev option" where
  "rsort_main d = do {
     (arr, _) \<leftarrow> rsort 4 [3, 4, 2, 1] (replicate 4 0);
     Some (foldl (\<lambda>d x. print x d) d arr) }"

section \<open>Counting\<close>

lemma fetch_add_nat: "k < length b \<Longrightarrow> fetch_add b (int k) v = Some (b ! k, b[k := b ! k + v])"
  by (simp add: fetch_add_def)

definition key :: "nat \<Rightarrow> u32 \<Rightarrow> nat" where
  "key log_exp a = unat (drop_bit log_exp a mod 256)"

lemma digit_key: "digit e a = int (key e a)"
  by (simp add: digit_def key_def)

lemma key_less [simp]: "key e a < 256"
  by (simp add: key_def unat_mod)

definition class_of :: "nat \<Rightarrow> u32 list \<Rightarrow> nat \<Rightarrow> u32 list" where
  "class_of e xs k = filter (\<lambda>x. key e x = k) xs"

text \<open>The counts of a list of keys, as a list of buckets; \<open>tally\<close> adds them to a bucket list.\<close>

definition tally :: "nat \<Rightarrow> u32 list \<Rightarrow> int list \<Rightarrow> int list" where
  "tally e xs b = map (\<lambda>k. b ! k + int (length (class_of e xs k))) [0..<256]"

lemma length_tally [simp]: "length (tally e xs b) = 256"
  by (simp add: tally_def)

lemma tally_Nil: "length b = 256 \<Longrightarrow> tally e [] b = b"
  by (auto intro: nth_equalityI simp: tally_def class_of_def)

lemma tally_Cons: "length b = 256 \<Longrightarrow> tally e (x # xs) b = tally e xs (b[key e x := b ! key e x + 1])"
  by (auto intro!: nth_equalityI simp: tally_def class_of_def nth_list_update)

lemma count_rest_eq:
  "p \<le> length arr \<Longrightarrow> length b = 256 \<Longrightarrow>
   count_rest e arr (int (length arr)) (int p) b = Some (tally e (drop p arr) b)"
proof (induction "length arr - p" arbitrary: p b)
  case 0
  then show ?case by (subst count_rest.simps) (simp add: tally_Nil)
next
  case (Suc d)
  then have p: "p < length arr" "d = length arr - Suc p" by simp_all
  let ?b = "b[key e (arr ! p) := b ! key e (arr ! p) + 1]"
  have "count_rest e arr (int (length arr)) (int p) b = count_rest e arr (int (length arr)) (int (Suc p)) ?b"
    using p Suc.prems by (subst count_rest.simps) (simp add: digit_key fetch_add_nat add.commute)
  also have "\<dots> = Some (tally e (drop (Suc p) arr) ?b)" using Suc.hyps(1) [OF p(2)] p(1) Suc.prems by simp
  also have "\<dots> = Some (tally e (drop p arr) b)"
    using p(1) Suc.prems by (simp add: Cons_nth_drop_Suc [symmetric] tally_Cons)
  finally show ?case .
qed

lemma count_four_eq:
  "p \<le> length arr \<Longrightarrow> length b = 256 \<Longrightarrow>
   count_four e arr (int (length arr)) (int p) b = Some (tally e (drop p arr) b)"
proof (induction "length arr - p" arbitrary: p b rule: less_induct)
  case less
  show ?case
  proof (cases "p + 3 < length arr")
    case False
    then show ?thesis using less.prems by (subst count_four.simps) (simp add: count_rest_eq)
  next
    case True
    let ?a = "\<lambda>i. arr ! (p + i)"
    let ?inc = "\<lambda>x b. b[key e x := b ! key e x + 1]"
    let ?b = "?inc (?a 3) (?inc (?a 2) (?inc (?a 1) (?inc (?a 0) b)))"
    have r: "rd arr (int p + 1) = Some (?a 1)" "rd arr (int p + 2) = Some (?a 2)" "rd arr (int p + 3) = Some (?a 3)"
      using True rd_nat [of arr "p + 1"] rd_nat [of arr "p + 2"] rd_nat [of arr "p + 3"]
      by (simp_all add: add.commute)
    have "count_four e arr (int (length arr)) (int p) b = count_four e arr (int (length arr)) (int (p + 4)) ?b"
      using True less.prems r by (subst count_four.simps) (simp add: digit_key fetch_add_nat add.commute)
    also have "\<dots> = Some (tally e (drop (p + 4) arr) ?b)"
      using less.hyps [of "p + 4" ?b] True less.prems by simp
    also have "\<dots> = Some (tally e (drop p arr) b)"
    proof -
      have "drop p arr = ?a 0 # ?a 1 # ?a 2 # ?a 3 # drop (p + 4) arr"
        using True by (simp add: Cons_nth_drop_Suc numeral_eq_Suc)
      then show ?thesis using less.prems(2) by (simp add: tally_Cons)
    qed
    finally show ?thesis .
  qed
qed

lemma sum_list_take_Suc: "k < length b \<Longrightarrow> sum_list (take (Suc k) b) = sum_list (take k b) + (b ! k :: int)"
  by (simp add: take_Suc_conv_app_nth)

lemma prefix_loop_eq:
  assumes b: "length b = 256"
  shows "k \<le> 256 \<Longrightarrow> even k \<Longrightarrow> length c = 256 \<Longrightarrow> \<forall>j < k. c ! j = sum_list (take (Suc j) b) \<Longrightarrow>
    \<forall>j. k \<le> j \<and> j < 256 \<longrightarrow> c ! j = b ! j \<Longrightarrow>
    prefix_loop (int k) (sum_list (take k b)) c = Some (map (\<lambda>j. sum_list (take (Suc j) b)) [0..<256])"
proof (induction "256 - k" arbitrary: k c rule: less_induct)
  case less
  show ?case
  proof (cases "k < 256")
    case False
    then have "c = map (\<lambda>j. sum_list (take (Suc j) b)) [0..<256]"
      using less.prems by (intro nth_equalityI) auto
    then show ?thesis using False less.prems(1) by (subst prefix_loop.simps) (simp add: BASE_def)
  next
    case True
    then have k: "Suc k < 256" using less.prems(2) by (cases "k = 255") auto
    let ?s = "\<lambda>k. sum_list (take k b)"
    have s: "?s (Suc k) = ?s k + b ! k" "?s (Suc (Suc k)) = ?s (Suc k) + b ! Suc k"
      using k b by (intro sum_list_take_Suc; simp)+
    let ?c = "c[k := ?s (Suc k), Suc k := ?s (Suc (Suc k))]"
    have "fetch_add c (int k) (?s k) = Some (b ! k, c[k := ?s (Suc k)])"
      using k less.prems(3,5) fetch_add_nat [of k c] s(1) by (simp add: add.commute)
    moreover have "fetch_add (c[k := ?s (Suc k)]) (int k + 1) (?s k + b ! k) = Some (b ! Suc k, ?c)"
      using k less.prems(3,5) fetch_add_nat [of "Suc k" "c[k := ?s (Suc k)]"] s
      by (simp add: add_ac)
    ultimately have "prefix_loop (int k) (?s k) c = prefix_loop (int (k + 2)) (?s (k + 2)) ?c"
      using k s by (subst prefix_loop.simps) (simp add: BASE_def Let_def add_ac)
    also have "\<dots> = Some (map (\<lambda>j. ?s (Suc j)) [0..<256])"
      using k less.prems by (intro less.hyps) (auto simp: nth_list_update less_Suc_eq)
    finally show ?thesis .
  qed
qed

lemma prefix_sums_eq:
  assumes b: "length b = 256"
  shows "prefix_sums b = Some (map (\<lambda>j. sum_list (take (Suc j) b)) [0..<256])"
proof -
  have 1: "take (Suc 0) b = [b ! 0]" "take (Suc (Suc 0)) b = [b ! 0, b ! 1]"
    using b by (simp_all add: take_Suc_conv_app_nth)
  have "fetch_add b 1 (b ! 0) = Some (b ! 1, b[1 := b ! 0 + b ! 1])"
    using b fetch_add_nat [of 1 b "b ! 0"] by (simp add: add.commute)
  moreover have "rd b 0 = Some (b ! 0)" using b rd_nat [of b 0] by simp
  ultimately have "prefix_sums b = prefix_loop (int 2) (sum_list (take 2 b)) (b[1 := b ! 0 + b ! 1])"
    using 1 by (simp add: prefix_sums_def numeral_2_eq_2)
  also have "\<dots> = Some (map (\<lambda>j. sum_list (take (Suc j) b)) [0..<256])"
    by (rule prefix_loop_eq [OF b]) (use b 1 in \<open>auto simp: nth_list_update less_Suc_eq numeral_2_eq_2\<close>)
  finally show ?thesis .
qed

section \<open>Scattering\<close>

text \<open>One key, and the keys below \<open>p\<close> from the last to the first.\<close>

definition scatter_one :: "nat \<Rightarrow> u32 list \<Rightarrow> nat \<Rightarrow> int list \<times> u32 list \<Rightarrow> (int list \<times> u32 list) option" where
  "scatter_one e arr p s = do {
     a \<leftarrow> rd arr (int p);
     (old, bucket) \<leftarrow> fetch_add (fst s) (digit e a) (- 1);
     scratch \<leftarrow> wr (snd s) (old - 1) a;
     Some (bucket, scratch) }"

fun scatter_all :: "nat \<Rightarrow> u32 list \<Rightarrow> nat \<Rightarrow> int list \<times> u32 list \<Rightarrow> (int list \<times> u32 list) option" where
  "scatter_all e arr 0 s = Some s"
| "scatter_all e arr (Suc p) s = do { s \<leftarrow> scatter_one e arr p s; scatter_all e arr p s }"

lemma scatter_rest_eq: "scatter_rest e arr (int p - 1) b s = scatter_all e arr p (b, s)"
proof (induction p arbitrary: b s)
  case 0
  show ?case by (subst scatter_rest.simps) simp
next
  case (Suc p)
  show ?case
    by (subst scatter_rest.simps) (simp add: scatter_one_def Suc split: Option.bind_split)
qed

text \<open>The four bucket updates of a round do not depend on the stores.\<close>

lemma scatter_four_eq: "scatter_four e arr (int p - 1) b s = scatter_all e arr p (b, s)"
proof (induction p arbitrary: b s rule: less_induct)
  case (less p)
  show ?case
  proof (cases "4 \<le> p")
    case False
    then show ?thesis by (subst scatter_four.simps) (simp add: scatter_rest_eq)
  next
    case True
    then obtain q where "p = 4 + q" using le_Suc_ex by blast
    then have p: "p = Suc (Suc (Suc (Suc q)))" by simp
    have IH: "scatter_four e arr (int q - 1) b s = scatter_all e arr q (b, s)" for b s
      using less.IH [of q] p by simp
    have i: "int p - 1 = int (Suc (Suc (Suc q)))" "int p - 1 - 1 = int (Suc (Suc q))" "int p - 1 - 2 = int (Suc q)"
      "int p - 1 - 3 = int q" "int p - 1 - 4 = int q - 1" "3 \<le> int p - 1"
      using p by simp_all
    show ?thesis
      unfolding p scatter_all.simps scatter_one_def
      by (subst scatter_four.simps)
        (simp only: i [unfolded p] if_True IH fst_conv snd_conv, auto simp: IH split: Option.bind_splits)
  qed
qed

text \<open>The classes one after the other: what the pass is to leave, and where each class starts.\<close>

definition classes :: "nat \<Rightarrow> u32 list \<Rightarrow> nat \<Rightarrow> u32 list" where
  "classes e xs k = concat (map (class_of e xs) [0..<k])"

definition base :: "nat \<Rightarrow> u32 list \<Rightarrow> nat \<Rightarrow> nat" where
  "base e xs k = length (classes e xs k)"

lemma classes_Suc: "classes e xs (Suc k) = classes e xs k @ class_of e xs k"
  by (simp add: classes_def)

lemma base_Suc: "base e xs (Suc k) = base e xs k + length (class_of e xs k)"
  by (simp add: base_def classes_Suc)

lemma base_mono: "j \<le> k \<Longrightarrow> base e xs j \<le> base e xs k"
  by (induction k) (auto simp: base_Suc le_Suc_eq)

lemma classes_nth:
  "j < k \<Longrightarrow> m < length (class_of e xs j) \<Longrightarrow> classes e xs k ! (base e xs j + m) = class_of e xs j ! m"
proof (induction k)
  case (Suc k)
  show ?case
  proof (cases "j = k")
    case True
    then show ?thesis by (simp add: classes_Suc base_def nth_append)
  next
    case False
    then have "base e xs j + m < base e xs k"
      using Suc.prems base_mono [of "Suc j" k e xs] by (simp add: base_Suc)
    then show ?thesis using Suc False by (simp add: classes_Suc base_def nth_append)
  qed
qed simp

lemma classes_place:
  "i < base e xs k \<Longrightarrow> \<exists>j m. j < k \<and> m < length (class_of e xs j) \<and> i = base e xs j + m"
proof (induction k)
  case 0
  then show ?case by (simp add: base_def classes_def)
next
  case (Suc k)
  show ?case
  proof (cases "i < base e xs k")
    case True
    then show ?thesis using Suc.IH less_SucI by blast
  next
    case False
    then show ?thesis using Suc.prems
      by (intro exI [of _ k] exI [of _ "i - base e xs k"]) (auto simp: base_Suc)
  qed
qed

lemma filter_classes: "filter (\<lambda>x. key e x = k) (classes e xs n) = (if k < n then class_of e xs k else [])"
  by (induction n) (auto simp: classes_Suc classes_def class_of_def less_Suc_eq filter_empty_conv)

lemma sorted_class: "sorted (map (key e) (class_of e xs k))"
proof -
  have "map (key e) (class_of e xs k) = replicate (length (class_of e xs k)) k"
    by (induction xs) (auto simp: class_of_def)
  then show ?thesis by simp
qed

lemma sorted_classes: "sorted (map (key e) (classes e xs k))"
proof (induction k)
  case (Suc k)
  then show ?case
    using sorted_class [of e xs k]
    by (auto simp: classes_Suc sorted_append) (auto simp: classes_def class_of_def)
qed (simp add: classes_def)

lemma set_classes: "set (classes e xs 256) = set xs"
  by (auto simp: classes_def class_of_def)

lemma mset_classes: "mset (classes e xs 256) = mset xs"
proof (rule multiset_eqI)
  fix x
  have "count (mset (classes e xs 256)) x = count (mset (filter (\<lambda>y. key e y = key e x) (classes e xs 256))) x"
    by simp
  also have "\<dots> = count (mset xs) x" by (simp add: filter_classes class_of_def)
  finally show "count (mset (classes e xs 256)) x = count (mset xs) x" .
qed

lemma base_256: "base e xs 256 = length xs"
  unfolding base_def using mset_classes [of e xs] by (metis size_mset)

lemma classes_sort: "classes e xs 256 = sort_key (key e) xs"
proof (rule properties_for_sort_key [symmetric])
  show "mset (classes e xs 256) = mset xs" by (rule mset_classes)
  show "filter (\<lambda>x. key e k = key e x) (classes e xs 256) = filter (\<lambda>x. key e k = key e x) xs" for k
    using filter_classes [of e "key e k" xs 256] by (simp add: class_of_def eq_commute)
  show "sorted (map (key e) (classes e xs 256))" by (rule sorted_classes)
qed

text \<open>
  The invariant of the scattering: with the keys from \<open>p\<close> on done, each bucket holds where the next
  key of its class goes, and the keys of the class that are done follow in their order.
\<close>

definition scattered :: "nat \<Rightarrow> u32 list \<Rightarrow> nat \<Rightarrow> int list \<times> u32 list \<Rightarrow> bool" where
  "scattered e arr p s \<longleftrightarrow> length (fst s) = 256 \<and> length (snd s) = length arr \<and>
     (\<forall>k < 256. fst s ! k = int (base e arr k + length (class_of e (take p arr) k))) \<and>
     (\<forall>k < 256. \<forall>m < length (class_of e (drop p arr) k).
        snd s ! (base e arr k + length (class_of e (take p arr) k) + m) = class_of e (drop p arr) k ! m)"

lemma class_of_split: "class_of e (take p xs) k @ class_of e (drop p xs) k = class_of e xs k"
  unfolding class_of_def by (metis append_take_drop_id filter_append)

lemma class_of_lengths:
  "length (class_of e (take p xs) k) + length (class_of e (drop p xs) k) = length (class_of e xs k)"
  by (metis class_of_split length_append)

lemma scatter_one_scattered:
  assumes s: "scattered e arr (Suc p) s" and p: "p < length arr"
  obtains s' where "scatter_one e arr p s = Some s'" "scattered e arr p s'"
proof -
  let ?x = "arr ! p" and ?t = "\<lambda>q k. length (class_of e (take q arr) k)"
  define k where "k = key e ?x"
  have k: "k < 256" by (simp add: k_def)
  have take: "take (Suc p) arr = take p arr @ [?x]" using p by (rule take_Suc_conv_app_nth)
  have drop: "drop p arr = ?x # drop (Suc p) arr" using p by (rule Cons_nth_drop_Suc [symmetric])
  have t: "?t (Suc p) j = ?t p j + (if j = k then 1 else 0)" for j
    by (simp add: take class_of_def k_def)
  have d: "class_of e (drop p arr) j = (if j = k then ?x # class_of e (drop (Suc p) arr) j else class_of e (drop (Suc p) arr) j)" for j
    unfolding drop by (simp add: class_of_def k_def)
  define o' where "o' = base e arr k + ?t p k"
  have old: "fst s ! k = int o' + 1" using s k t [of k] by (simp add: scattered_def o'_def)
  have end_of: "base e arr j + ?t p j + length (class_of e (drop p arr) j) = base e arr (Suc j)" for j
    using class_of_lengths [of e p arr j] by (simp add: base_Suc)
  have "o' < base e arr (Suc k)" using end_of [of k] d [of k] by (simp add: o'_def)
  also have "base e arr (Suc k) \<le> length arr" using base_mono [of "Suc k" 256 e arr] k by (simp add: base_256)
  finally have o': "o' < length arr" .
  define s' where "s' = ((fst s)[k := int o'], (snd s)[o' := ?x])"
  have "scatter_one e arr p s = Some s'"
    using p k s old o' fetch_add_nat [of k "fst s" "- 1"] wr_nat [of "snd s" o' ?x]
    by (simp add: scatter_one_def digit_key k_def [symmetric] s'_def scattered_def)
  moreover have "scattered e arr p s'"
    unfolding scattered_def
  proof (intro conjI allI impI)
    show "length (fst s') = 256" "length (snd s') = length arr" using s by (simp_all add: s'_def scattered_def)
    show "fst s' ! j = int (base e arr j + ?t p j)" if "j < 256" for j
      using s that t [of j] k by (cases "j = k") (simp_all add: s'_def scattered_def o'_def)
  next
    fix j m assume j: "j < 256" and m: "m < length (class_of e (drop p arr) j)"
    let ?i = "base e arr j + ?t p j + m"
    have ilen: "?i < base e arr (Suc j)" using m end_of [of j] by linarith
    show "snd s' ! ?i = class_of e (drop p arr) j ! m"
    proof (cases "j = k")
      case False
      have "?i \<noteq> o'"
      proof (cases "j < k")
        case True
        then show ?thesis using ilen base_mono [of "Suc j" k e arr] by (simp add: o'_def)
      next
        case False
        then have "Suc k \<le> j" using \<open>j \<noteq> k\<close> by simp
        then show ?thesis using base_mono [of "Suc k" j e arr] \<open>o' < base e arr (Suc k)\<close> by simp
      qed
      moreover have "snd s ! ?i = class_of e (drop (Suc p) arr) j ! m"
      proof -
        have "snd s ! (base e arr j + ?t (Suc p) j + m) = class_of e (drop (Suc p) arr) j ! m"
          using s j m d [of j] False unfolding scattered_def by metis
        then show ?thesis using t [of j] False by simp
      qed
      ultimately show ?thesis using d [of j] False by (simp add: s'_def)
    next
      case True
      show ?thesis
      proof (cases m)
        case 0
        then show ?thesis using True d [of j] o' s by (simp add: s'_def o'_def scattered_def)
      next
        case (Suc m')
        have "snd s ! (base e arr j + ?t (Suc p) j + m') = class_of e (drop (Suc p) arr) j ! m'"
          using s j m Suc d [of j] True by (simp add: scattered_def)
        moreover have "base e arr j + ?t (Suc p) j + m' = ?i" using t [of j] True Suc by simp
        moreover have "?i \<noteq> o'" using True Suc by (simp add: o'_def)
        ultimately show ?thesis using d [of j] True Suc by (simp add: s'_def)
      qed
    qed
  qed
  ultimately show thesis by (rule that)
qed

lemma scatter_all_scattered:
  "p \<le> length arr \<Longrightarrow> scattered e arr p s \<Longrightarrow> \<exists>s'. scatter_all e arr p s = Some s' \<and> scattered e arr 0 s'"
proof (induction p arbitrary: s)
  case (Suc p)
  obtain s1 where "scatter_one e arr p s = Some s1" "scattered e arr p s1"
    using scatter_one_scattered [OF Suc.prems(2)] Suc.prems(1) by auto
  then show ?case using Suc.IH Suc.prems(1) by simp
qed simp

lemma scattered_done:
  assumes "scattered e arr 0 s"
  shows "snd s = sort_key (key e) arr"
proof (rule nth_equalityI)
  show "length (snd s) = length (sort_key (key e) arr)" using assms by (simp add: scattered_def)
  fix i assume "i < length (snd s)"
  then have "i < base e arr 256" using assms by (simp add: scattered_def base_256)
  then obtain j m where jm: "j < 256" "m < length (class_of e arr j)" "i = base e arr j + m"
    using classes_place by blast
  then have "snd s ! i = class_of e arr j ! m" using assms by (simp add: scattered_def class_of_def)
  then show "snd s ! i = sort_key (key e) arr ! i"
    using jm classes_nth [of j 256 m e arr] by (simp add: classes_sort)
qed

text \<open>One pass of the loop is a stable sort by one byte of the keys.\<close>

lemma prefix_tally:
  "prefix_sums (tally e arr (replicate 256 0)) = Some (map (\<lambda>k. int (base e arr (Suc k))) [0..<256])"
proof -
  let ?b = "tally e arr (replicate 256 0)"
  have "sum_list (take k ?b) = int (base e arr k)" if "k \<le> 256" for k
    using that
  proof (induction k)
    case 0
    then show ?case by (simp add: base_def classes_def)
  next
    case (Suc k)
    then have "sum_list (take (Suc k) ?b) = sum_list (take k ?b) + ?b ! k" by (intro sum_list_take_Suc) simp
    then show ?case using Suc by (simp add: base_Suc tally_def)
  qed
  then show ?thesis by (simp add: prefix_sums_eq)
qed

lemma rsort_pass:
  assumes "length scratch = length arr"
  obtains b where "scatter_four e arr (int (length arr) - 1) (map (\<lambda>k. int (base e arr (Suc k))) [0..<256]) scratch =
    Some (b, sort_key (key e) arr)"
proof -
  have "scattered e arr (length arr) (map (\<lambda>k. int (base e arr (Suc k))) [0..<256], scratch)"
    using assms by (auto simp: scattered_def base_Suc class_of_def)
  from scatter_all_scattered [OF order_refl this] obtain s' where
    "scatter_all e arr (length arr) (map (\<lambda>k. int (base e arr (Suc k))) [0..<256], scratch) = Some s'"
    "scattered e arr 0 s'" by blast
  then show thesis
    using that [of "fst s'"] scattered_done [of e arr s'] by (metis scatter_four_eq surjective_pairing)
qed

lemma rsort_loop_step:
  assumes "length scratch = length arr" "e < 32"
  shows "rsort_loop (int (length arr)) e home arr scratch =
    rsort_loop (int (length arr)) (e + 8) (\<not> home) (sort_key (key e) arr) arr"
proof -
  obtain b where b: "scatter_four e arr (int (length arr) - 1) (map (\<lambda>k. int (base e arr (Suc k))) [0..<256]) scratch =
    Some (b, sort_key (key e) arr)"
    using rsort_pass [OF assms(1)] .
  show ?thesis
    using assms(2) count_four_eq [of 0 arr "replicate 256 0" e] prefix_tally [of e arr] b
    by (subst rsort_loop.simps) (simp add: BASE_def)
qed

section \<open>Four passes sort\<close>

definition low :: "nat \<Rightarrow> u32 \<Rightarrow> nat" where
  "low e x = unat x mod 2 ^ e"

lemma low_key: "low (e + 8) x = 2 ^ e * key e x + low e x"
proof -
  have "unat x < 2 ^ 32" using unat_lt_32 [of x] by simp
  then have "take_bit 32 (unat x) = unat x" by (rule take_bit_nat_eq_self)
  then have "key e x = unat x div 2 ^ e mod 256"
    by (simp add: key_def unat_mod unsigned_drop_bit_eq) (simp add: drop_bit_eq_div)
  then show ?thesis
    using mod_mult2_eq [of "unat x" "2 ^ e" "2 ^ 8"] by (simp add: low_def power_add)
qed

lemma low_less: "low e x < 2 ^ e"
  by (simp add: low_def)

lemma low_key_less: "key e x < key e y \<Longrightarrow> low (e + 8) x \<le> low (e + 8) y"
proof -
  assume "key e x < key e y"
  then have "2 ^ e * Suc (key e x) \<le> 2 ^ e * key e y" by (intro mult_le_mono2) simp
  then show ?thesis using low_less [of e x] by (simp add: low_key)
qed

lemma sorted_insort_low:
  "sorted (map (key e) zs) \<Longrightarrow> sorted (map (low (e + 8)) zs) \<Longrightarrow> \<forall>z \<in> set zs. low e x \<le> low e z \<Longrightarrow>
   sorted (map (low (e + 8)) (insort_key (key e) x zs))"
proof (induction zs)
  case (Cons z zs)
  show ?case
  proof (cases "key e x \<le> key e z")
    case True
    have "low (e + 8) x \<le> low (e + 8) y" if "y \<in> set (z # zs)" for y
    proof (cases "key e x = key e y")
      case True
      then show ?thesis using Cons.prems(3) that by (auto simp: low_key)
    next
      case False
      have "key e x \<le> key e y" using True Cons.prems(1) that by (auto intro: order_trans)
      then show ?thesis using False low_key_less by simp
    qed
    then show ?thesis using True Cons.prems(2) by simp
  next
    case False
    then have "low (e + 8) z \<le> low (e + 8) x" using low_key_less by simp
    then show ?thesis using Cons False by (auto simp: set_insort_key)
  qed
qed simp

lemma sorted_sort_low:
  "sorted (map (low e) ys) \<Longrightarrow> sorted (map (low (e + 8)) (sort_key (key e) ys))"
proof (induction ys)
  case (Cons y ys)
  then show ?case using sorted_insort_low [of e "sort_key (key e) ys" y] by simp
qed simp

definition four_passes :: "u32 list \<Rightarrow> u32 list" where
  "four_passes xs = sort_key (key 24) (sort_key (key 16) (sort_key (key 8) (sort_key (key 0) xs)))"

lemma four_passes_sort: "four_passes xs = sort xs"
proof -
  have 0: "sorted (map (low 0) xs)" by (simp add: low_def sorted_iff_nth_mono)
  have "sorted (map (low 32) (four_passes xs))"
    unfolding four_passes_def
    using sorted_sort_low [OF sorted_sort_low [OF sorted_sort_low [OF sorted_sort_low [OF 0]]]] by simp
  moreover have "low 32 = unat" by (simp add: low_def fun_eq_iff)
  ultimately have "sorted (four_passes xs)"
    by (simp add: sorted_iff_nth_mono word_le_nat_alt)
  moreover have "mset (four_passes xs) = mset xs" by (simp add: four_passes_def)
  ultimately show ?thesis by (metis properties_for_sort)
qed

lemma rsort_eq:
  assumes "length scratch = length arr"
  shows "\<exists>s. rsort (int (length arr)) arr scratch = Some (sort arr, s)"
proof -
  let ?n = "int (length arr)"
  have "rsort_loop ?n 0 True arr scratch = rsort_loop ?n 32 True (four_passes arr)
      (sort_key (key 16) (sort_key (key 8) (sort_key (key 0) arr)))"
    using rsort_loop_step [of scratch arr 0 True] assms
      rsort_loop_step [of arr "sort_key (key 0) arr" 8 False]
      rsort_loop_step [of "sort_key (key 0) arr" "sort_key (key 8) (sort_key (key 0) arr)" 16 True]
      rsort_loop_step [of "sort_key (key 8) (sort_key (key 0) arr)"
        "sort_key (key 16) (sort_key (key 8) (sort_key (key 0) arr))" 24 False]
    by (simp add: four_passes_def)
  then show ?thesis by (subst (asm) (2) rsort_loop.simps) (simp add: rsort_def four_passes_sort)
qed

interpretation radix: sorter "\<lambda>_. True" "\<lambda>a. map_option fst (rsort (int (length a)) a (replicate (length a) 0))"
proof
  fix a :: "u32 list"
  obtain s where "rsort (int (length a)) a (replicate (length a) 0) = Some (sort a, s)"
    using rsort_eq [of "replicate (length a) 0" a] by auto
  then show "\<exists>b. map_option fst (rsort (int (length a)) a (replicate (length a) 0)) = Some b \<and> mset b = mset a \<and> sorted b"
    by simp
qed

section \<open>Properties\<close>

text \<open>C16: the radix sort of \<^verbatim>\<open>gcc/rsort.c\<close> sorts every array of unsigned words, whatever the scratch array
  of the same length holds, and stays inside both arrays and the buckets.\<close>

theorem rsort_sorts:
  assumes "length scratch = length arr"
  shows "\<exists>s. rsort (int (length arr)) arr scratch = Some (sort arr, s)"
  using assms by (rule rsort_eq)

lemma rsort_sorts_witness: "\<exists>s. rsort 5 [70000, 3, 513, 2, 0] [9, 9, 9, 9, 9] = Some ([0, 2, 3, 513, 70000], s)"
  using rsort_sorts [of "[9, 9, 9, 9, 9]" "[70000, 3, 513, 2, 0]"] by simp

end
