(* ===== verification/Bench.thy ===== *)
theory Bench
  imports Kernel Sorts
begin

text \<open>
  The benchmark programs under \<^verbatim>\<open>gcc/\<close>: median filter, vector addition, modular exponentiation, sieve,
  Simon rounds, the recursive sums and Fibonacci programs, and the serial loops of \<^verbatim>\<open>quicksort.c\<close> and
  \<^verbatim>\<open>fact.c\<close>, of which one round is modelled. Arrays are those of CArray; where sums or products may
  wrap the elements are 32-bit words.
\<close>

section \<open>median.c and vvad.c\<close>

definition middle :: "int \<Rightarrow> int \<Rightarrow> int \<Rightarrow> int" where
  "middle A B C =
     (if A < B
      then if B < C then B else if C < A then A else C
      else if A < C then A else if C < B then B else C)"

function median_loop :: "int \<Rightarrow> int list \<Rightarrow> int \<Rightarrow> int list \<Rightarrow> int list option" where
  "median_loop n input i results =
     (if i < n - 1
      then do {
        A \<leftarrow> rd input (i - 1);
        B \<leftarrow> rd input i;
        C \<leftarrow> rd input (i + 1);
        results \<leftarrow> wr results i (middle A B C);
        median_loop n input (i + 1) results }
      else Some results)"
  by pat_completeness auto
termination
  by (relation "measure (\<lambda>(n, inp, i, r). nat (n - i))") auto

text \<open>Printing the elements of an array from \<open>i\<close> up to \<open>stop\<close>.\<close>

function print_from :: "i32 list \<Rightarrow> int \<Rightarrow> int \<Rightarrow> dev \<Rightarrow> dev option" where
  "print_from a i stop d =
     (if i < stop then do { x \<leftarrow> rd a i; print_from a (i + 1) stop (print x d) } else Some d)"
  by pat_completeness auto
termination
  by (relation "measure (\<lambda>(a, i, stop, d). nat (stop - i))") auto

declare median_loop.simps [simp del] print_from.simps [simp del]

definition median :: "int \<Rightarrow> int list \<Rightarrow> int list \<Rightarrow> dev \<Rightarrow> (int list \<times> dev) option" where
  "median n input results d = do {
     results \<leftarrow> wr results 0 0;
     results \<leftarrow> wr results (n - 1) 0;
     results \<leftarrow> median_loop n input 1 results;
     d \<leftarrow> print_from (map word_of_int results) 1 (n - 1) d;
     Some (results, d) }"

function vvadd_loop :: "int \<Rightarrow> i32 list \<Rightarrow> i32 list \<Rightarrow> int \<Rightarrow> i32 list \<Rightarrow> i32 list option" where
  "vvadd_loop n a b i c =
     (if i < n
      then do { x \<leftarrow> rd a i; y \<leftarrow> rd b i; c \<leftarrow> wr c i (x + y); vvadd_loop n a b (i + 1) c }
      else Some c)"
  by pat_completeness auto
termination
  by (relation "measure (\<lambda>(n, a, b, i, c). nat (n - i))") auto

declare vvadd_loop.simps [simp del]

definition vvadd :: "int \<Rightarrow> i32 list \<Rightarrow> i32 list \<Rightarrow> i32 list \<Rightarrow> dev \<Rightarrow> (i32 list \<times> dev) option" where
  "vvadd n a b c d = do {
     c \<leftarrow> vvadd_loop n a b 0 c;
     d \<leftarrow> print_from c 0 n d;
     Some (c, d) }"

section \<open>modExp.c\<close>

lemma sint_shift_less: "0 < sint (e :: i32) \<Longrightarrow> sint (signed_drop_bit (Suc 0) e) < sint e"
  by (simp add: sint_signed_drop_bit_eq drop_bit_eq_div)

text \<open>\<open>%\<close> truncates towards 0 and is undefined for a modulus of 0.\<close>

definition rem32 :: "i32 \<Rightarrow> i32 \<Rightarrow> i32 option" where
  "rem32 a b = (if b = 0 then None else Some (word_of_int (sint a smod sint b)))"

function mod_exp_loop :: "i32 \<Rightarrow> i32 \<Rightarrow> i32 \<Rightarrow> i32 \<Rightarrow> i32 option" where
  "mod_exp_loop modulus base exponent result =
     (if 0 <s exponent
      then do {
        odd \<leftarrow> rem32 exponent 2;
        result \<leftarrow> (if odd = 1 then rem32 (result * base) modulus else Some result);
        let exponent = signed_drop_bit 1 exponent;
        base \<leftarrow> rem32 (base * base) modulus;
        mod_exp_loop modulus base exponent result }
      else Some result)"
  by pat_completeness auto
termination
  by (relation "measure (\<lambda>(m, b, e, r). nat (sint e))") (auto simp: word_sless_alt sint_shift_less)

declare mod_exp_loop.simps [simp del]

definition modular_exp :: "i32 \<Rightarrow> i32 \<Rightarrow> i32 \<Rightarrow> i32 option" where
  "modular_exp base exponent modulus =
     (if exponent = 1 then Some 0
      else do { base \<leftarrow> rem32 base modulus; mod_exp_loop modulus base exponent 1 })"

definition modexp_main :: "dev \<Rightarrow> dev option" where
  "modexp_main d = do {
     let d = set_CRAS 1 d;
     let d = zero_counter d;
     val1 \<leftarrow> modular_exp 5 3 13;
     val2 \<leftarrow> modular_exp 2 90 13;
     (c, d) \<leftarrow> read_counter d;
     let d = print c d;
     let d = print val1 d;
     Some (print val2 d) }"

section \<open>eratosthenesSieve.c\<close>

function sieve_init :: "int \<Rightarrow> int \<Rightarrow> int list \<Rightarrow> int list option" where
  "sieve_init n i prime =
     (if i < n then do { prime \<leftarrow> wr prime i (if 1 < i then 1 else 0); sieve_init n (i + 1) prime }
      else Some prime)"
  by pat_completeness auto
termination
  by (relation "measure (\<lambda>(n, i, p). nat (n - i))") auto

function sieve_strike :: "int \<Rightarrow> int \<Rightarrow> int \<Rightarrow> int list \<Rightarrow> int list option" where
  "sieve_strike n i j prime =
     (if 0 < i \<and> i * i + j * i < n
      then do { prime \<leftarrow> wr prime (i * i + j * i) 0; sieve_strike n i (j + 1) prime }
      else Some prime)"
  by pat_completeness auto
termination
proof (relation "measure (\<lambda>(n, i, j, p). nat (n - (i * i + j * i)))")
  fix n i j :: int and prime p :: "int list"
  assume "0 < i \<and> i * i + j * i < n"
  moreover from this have "j * i < (j + 1) * i" by simp
  ultimately show "((n, i, j + 1, p), n, i, j, prime) \<in> measure (\<lambda>(n, i, j, p). nat (n - (i * i + j * i)))"
    by simp
qed simp

function sieve_outer :: "int \<Rightarrow> int \<Rightarrow> int list \<Rightarrow> int list option" where
  "sieve_outer n i prime =
     (if i < 10
      then do {
        x \<leftarrow> rd prime i;
        prime \<leftarrow> (if x = 1 then sieve_strike n i 0 prime else Some prime);
        sieve_outer n (i + 1) prime }
      else Some prime)"
  by pat_completeness auto
termination
  by (relation "measure (\<lambda>(n, i, p). nat (10 - i))") auto

function sieve_count :: "int \<Rightarrow> int list \<Rightarrow> int \<Rightarrow> int \<Rightarrow> int option" where
  "sieve_count n prime i primeCount =
     (if i < n
      then do {
        x \<leftarrow> rd prime i;
        sieve_count n prime (i + 1) (if x \<noteq> 0 then primeCount + 1 else primeCount) }
      else Some primeCount)"
  by pat_completeness auto
termination
  by (relation "measure (\<lambda>(n, p, i, c). nat (n - i))") auto

declare sieve_init.simps [simp del] sieve_strike.simps [simp del] sieve_outer.simps [simp del]
  sieve_count.simps [simp del]

definition sieve_main :: "dev \<Rightarrow> (int list \<times> int \<times> dev) option" where
  "sieve_main d = do {
     let d = zero_counter d;
     prime \<leftarrow> sieve_init 100 0 (replicate 100 0);
     prime \<leftarrow> sieve_outer 100 2 prime;
     primeCount \<leftarrow> sieve_count 100 prime 0 0;
     (c, d) \<leftarrow> read_counter d;
     Some (prime, primeCount, print c d) }"

section \<open>simon.c\<close>

definition ROL :: "u32 \<Rightarrow> nat \<Rightarrow> u32" where
  "ROL a b = push_bit b a OR drop_bit (32 - b) a"

definition simon_round :: "u32 \<Rightarrow> u32 \<Rightarrow> u32 \<Rightarrow> u32" where
  "simon_round x0 x1 k0 =
     (let imm = ROL x1 1 AND ROL x1 8;
          x2 = x0 XOR imm;
          x2 = x2 XOR ROL x1 2
      in x2 XOR k0)"

definition simon_round_dec :: "u32 \<Rightarrow> u32 \<Rightarrow> u32 \<Rightarrow> u32" where
  "simon_round_dec x2 x1 k0 =
     (let x0 = x2 XOR k0;
          x0 = x0 XOR ROL x1 2;
          imm = ROL x1 1 AND ROL x1 8
      in x0 XOR imm)"

section \<open>Recursive sums and Fibonacci numbers\<close>

text \<open>\<open>fact.c\<close> and \<open>recursive.c\<close>: no base case below 1.\<close>

partial_function (option) fact :: "i32 \<Rightarrow> i32 option" where
  "fact n = (if n = 1 then Some n else do { r \<leftarrow> fact (n - 1); Some (n + r) })"

partial_function (option) triangular :: "i32 \<Rightarrow> i32 option" where
  "triangular a = (if a = 1 then Some a else do { r \<leftarrow> triangular (a - 1); Some (a + r) })"

lemma sint_pred_less: "\<not> n \<le>s (1 :: i32) \<Longrightarrow> sint (n - 1) = sint n - 1 \<and> 1 < sint n"
  using sint_lt_32 [of n] by (simp add: word_sle_eq sint_diff_32)

function tri :: "i32 \<Rightarrow> i32" where
  "tri n = (if n \<le>s 1 then n else n + tri (n - 1))"
  by pat_completeness auto
termination
  by (relation "measure (\<lambda>n. nat (sint n))") (auto dest!: sint_pred_less)

lemma sint_pred2_less:
  "\<not> n \<le>s (1 :: i32) \<Longrightarrow> sint (n - 1) = sint n - 1 \<and> sint (n - 2) = sint n - 2 \<and> 1 < sint n"
  using sint_lt_32 [of n] by (simp add: word_sle_eq sint_diff_32)

function fib :: "i32 \<Rightarrow> i32" where
  "fib n = (if n \<le>s 1 then n else fib (n - 1) + fib (n - 2))"
  by pat_completeness auto
termination
  by (relation "measure (\<lambda>n. nat (sint n))") (auto dest!: sint_pred2_less)

function fib_loop :: "int \<Rightarrow> i32 \<Rightarrow> i32 \<Rightarrow> i32 \<times> i32" where
  "fib_loop n a b = (if n < 9 then let tmp = b; b = a + b; a = tmp in fib_loop (n + 1) a b else (a, b))"
  by pat_completeness auto
termination
  by (relation "measure (\<lambda>(n, a, b). nat (9 - n))") auto

declare tri.simps [simp del] fib.simps [simp del] fib_loop.simps [simp del]

definition tri_main :: "dev \<Rightarrow> dev" where
  "tri_main d = print (tri 96) d"

definition fib_main :: "dev \<Rightarrow> dev" where
  "fib_main d = print (fib 9) d"

definition fibloop_main :: "dev \<Rightarrow> ((i32 \<times> i32) \<times> dev) option" where
  "fibloop_main d = do {
     let d = zero_counter d;
     let ab = fib_loop 2 1 1;
     (c, d) \<leftarrow> read_counter d;
     Some (ab, print c d) }"

definition timestwo :: "i32 \<Rightarrow> i32" where
  "timestwo a = a + a"

section \<open>The serial loops of quicksort.c and fact.c\<close>

definition tx_fifo_empty :: "dev \<Rightarrow> (u8 \<times> dev) option" where
  "tx_fifo_empty d = do {
     (c, d) \<leftarrow> uart_poll d;
     Some (if c AND 0x20 \<noteq> 0 then 1 else 0, d) }"

text \<open>\<open>while (!tx_fifo_empty());\<close>\<close>

function tx_wait :: "dev \<Rightarrow> dev option" where
  "tx_wait d = (case tx_fifo_empty d of None \<Rightarrow> None | Some (c, d') \<Rightarrow> if c = 0 then tx_wait d' else Some d')"
  by pat_completeness auto
termination
  by (relation "measure (\<lambda>d. length (resp d))")
    (auto simp: tx_fifo_empty_def uart_poll_def io_read8_Some split: Option.bind_splits)

declare tx_wait.simps [simp del]

function send_loop :: "int \<Rightarrow> int list \<Rightarrow> int \<Rightarrow> dev \<Rightarrow> dev option" where
  "send_loop len arr i d =
     (if i < len
      then do {
        d \<leftarrow> tx_wait d;
        x \<leftarrow> rd arr i;
        let d = send_int (word_of_int x) d;
        (_, d) \<leftarrow> uart_read_blocking d;
        send_loop len arr (i + 1) d }
      else Some d)"
  by pat_completeness auto
termination
  by (relation "measure (\<lambda>(len, arr, i, d). nat (len - i))") auto

declare send_loop.simps [simp del]

text \<open>One round of the endless loop of \<open>main\<close>; the array is filled with \<open>len - i\<close>.\<close>

definition quicksort_round :: "dev \<Rightarrow> dev option" where
  "quicksort_round d = do {
     (en_RAS, d) \<leftarrow> uart_read_blocking d;
     let d = set_CRAS en_RAS d;
     let d = print (ucast en_RAS) d;
     (l, d) \<leftarrow> recv_int d;
     let len = sint l;
     let arr = map (\<lambda>i. len - i) [0..len - 1];
     let d = zero_counter d;
     arr \<leftarrow> quicksort arr 0 (len - 1);
     (cnt, d) \<leftarrow> read_counter d;
     d \<leftarrow> send_loop len arr 0 d;
     let d = send_int cnt d;
     Some (print cnt d) }"

text \<open>\<open>fact.c\<close> has its own copies of the word transfers.\<close>

definition fact_send_int :: "i32 \<Rightarrow> dev \<Rightarrow> dev" where
  "fact_send_int a d =
     (let c = ucast a; d = uart_put c d;
          c = ucast (signed_drop_bit 8 a AND 0xff); d = uart_put c d;
          c = ucast (signed_drop_bit 16 a AND 0xff); d = uart_put c d;
          c = ucast (signed_drop_bit 24 a AND 0xff)
      in uart_put c d)"

definition fact_recv_int :: "dev \<Rightarrow> (i32 \<times> dev) option" where
  "fact_recv_int d = do {
     (c, d) \<leftarrow> uart_read_blocking d;
     let a = (ucast c :: i32);
     (c, d) \<leftarrow> uart_read_blocking d;
     let a = a OR push_bit 8 (ucast c);
     (c, d) \<leftarrow> uart_read_blocking d;
     let a = a OR push_bit 16 (ucast c);
     (c, d) \<leftarrow> uart_read_blocking d;
     let a = a OR push_bit 24 (ucast c);
     Some (a, d) }"

definition fact_round :: "dev \<Rightarrow> dev option" where
  "fact_round d = do {
     (en_RAS, d) \<leftarrow> uart_read_blocking d;
     let d = set_CRAS en_RAS d;
     (n, d) \<leftarrow> fact_recv_int d;
     let d = zero_counter d;
     tot \<leftarrow> fact n;
     (cnt, d) \<leftarrow> read_counter d;
     let d = fact_send_int tot d;
     let d = fact_send_int cnt d;
     Some (print cnt d) }"

text \<open>\<open>n\<close> rounds of the endless loops of the two programs, after \<open>uart_init\<close>.\<close>

fun rounds :: "(dev \<Rightarrow> dev option) \<Rightarrow> nat \<Rightarrow> dev \<Rightarrow> dev option" where
  "rounds round 0 d = Some d"
| "rounds round (Suc n) d = do { d \<leftarrow> round d; rounds round n d }"

definition quicksort_main :: "nat \<Rightarrow> dev \<Rightarrow> dev option" where
  "quicksort_main n d = (let d = snd (uart_init d) in rounds quicksort_round n d)"

definition fact_main :: "nat \<Rightarrow> dev \<Rightarrow> dev option" where
  "fact_main n d = (let d = snd (uart_init d) in rounds fact_round n d)"

section \<open>Properties\<close>

lemma middle_sort: "middle A B C = sort [A, B, C] ! 1"
  by (auto simp: middle_def)

lemma median_loop_spec:
  "1 \<le> i \<Longrightarrow> length input = n \<Longrightarrow> length r = n \<Longrightarrow>
   \<exists>s. median_loop (int n) input (int i) r = Some s \<and> length s = n \<and>
     (\<forall>k < n. s ! k = (if i \<le> k \<and> k < n - 1 then middle (input ! (k - 1)) (input ! k) (input ! (k + 1)) else r ! k))"
proof (induction "n - 1 - i" arbitrary: i r)
  case 0
  then show ?case by (subst median_loop.simps) auto
next
  case (Suc d)
  then have i: "i < n - 1" "d = n - 1 - Suc i" by simp_all
  define v where "v = middle (input ! (i - 1)) (input ! i) (input ! (i + 1))"
  have r: "rd input (int i - 1) = Some (input ! (i - 1))" "rd input (int i + 1) = Some (input ! (i + 1))"
    using i Suc.prems rd_nat [of input "i - 1"] rd_nat [of input "i + 1"] by (simp_all add: of_nat_diff add.commute)
  have "median_loop (int n) input (int i) r = median_loop (int n) input (int (Suc i)) (r[i := v])"
  proof -
    have "int i < int n - 1" using i(1) by linarith
    then show ?thesis using i Suc.prems r by (subst median_loop.simps) (simp add: v_def add.commute)
  qed
  moreover obtain s where s: "median_loop (int n) input (int (Suc i)) (r[i := v]) = Some s" "length s = n"
    "\<forall>k < n. s ! k = (if Suc i \<le> k \<and> k < n - 1 then middle (input ! (k - 1)) (input ! k) (input ! (k + 1)) else r[i := v] ! k)"
    using Suc.hyps(1) [OF i(2), of "r[i := v]"] Suc.prems by auto
  moreover have "s ! k = (if i \<le> k \<and> k < n - 1 then middle (input ! (k - 1)) (input ! k) (input ! (k + 1)) else r ! k)"
    if "k < n" for k
    using s(3) that i Suc.prems by (cases "k = i") (auto simp: v_def)
  ultimately show ?case by auto
qed

lemma print_from_eq:
  "i \<le> stop \<Longrightarrow> stop \<le> length a \<Longrightarrow>
   print_from a (int i) (int stop) d = Some (foldl (\<lambda>d x. print x d) d (take (stop - i) (drop i a)))"
proof (induction "stop - i" arbitrary: i d)
  case 0
  then show ?case by (subst print_from.simps) simp
next
  case (Suc n)
  then have i: "i < stop" "n = stop - Suc i" "i < length a" by simp_all
  have "print_from a (int i) (int stop) d = print_from a (int (Suc i)) (int stop) (print (a ! i) d)"
    using i by (subst print_from.simps) (simp add: add.commute)
  also have "\<dots> = Some (foldl (\<lambda>d x. print x d) (print (a ! i) d) (take (stop - Suc i) (drop (Suc i) a)))"
    using Suc.hyps(1) [OF i(2)] Suc.prems i by simp
  also have "\<dots> = Some (foldl (\<lambda>d x. print x d) d (take (stop - i) (drop i a)))"
  proof -
    have "stop - i = Suc (stop - Suc i)" using i by simp
    then show ?thesis using i by (simp add: Cons_nth_drop_Suc [symmetric])
  qed
  finally show ?case .
qed

text \<open>the median filter writes the middle of every three neighbours, 0 at both ends, and prints what
  lies between the ends.\<close>

theorem median_filters:
  assumes "2 \<le> n" "length input = n" "length results = n"
  shows "\<exists>r. median (int n) input results d =
      Some (r, foldl (\<lambda>d x. print x d) d (map word_of_int (take (n - 2) (drop 1 r)))) \<and>
    length r = n \<and> r ! 0 = 0 \<and> r ! (n - 1) = 0 \<and>
    (\<forall>i. 0 < i \<and> i < n - 1 \<longrightarrow> r ! i = sort [input ! (i - 1), input ! i, input ! (i + 1)] ! 1)"
proof -
  let ?z = "results[0 := 0, n - 1 := 0]"
  have z: "wr results 0 0 = Some (results[0 := 0])" "wr (results[0 := 0]) (int n - 1) 0 = Some ?z"
    using assms wr_nat [of results 0 0] wr_nat [of "results[0 := 0]" "n - 1" 0] by (simp_all add: of_nat_diff)
  obtain r where r: "median_loop (int n) input (int 1) ?z = Some r" "length r = n"
    "\<forall>k < n. r ! k = (if 1 \<le> k \<and> k < n - 1 then middle (input ! (k - 1)) (input ! k) (input ! (k + 1)) else ?z ! k)"
    using median_loop_spec [of 1 input n ?z] assms by auto
  have "print_from (map word_of_int r) (int 1) (int (n - 1)) d =
      Some (foldl (\<lambda>d x. print x d) d (take (n - 2) (drop 1 (map word_of_int r))))"
    using print_from_eq [of 1 "n - 1" "map word_of_int r" d] assms r(2) by (simp add: numeral_2_eq_2)
  then have "median (int n) input results d =
      Some (r, foldl (\<lambda>d x. print x d) d (map word_of_int (take (n - 2) (drop 1 r))))"
    using assms(1) z r(1) by (simp add: median_def of_nat_diff take_map drop_map)
  moreover have "r ! 0 = 0" "r ! (n - 1) = 0" using r(3) assms by auto
  ultimately show ?thesis using r(2,3) by (intro exI [of _ r]) (auto simp: middle_sort)
qed

lemma median_filters_witness:
  "\<exists>r. median 5 [7, 2, 10, 5, 6] [0, 0, 0, 0, 0] (run_dev []) = Some (r, foldl (\<lambda>d x. print x d) (run_dev []) (map word_of_int (take 3 (drop 1 r)))) \<and>
     r ! 1 = 7 \<and> r ! 2 = 5"
proof -
  obtain r where r: "median 5 [7, 2, 10, 5, 6] [0, 0, 0, 0, 0] (run_dev []) =
      Some (r, foldl (\<lambda>d x. print x d) (run_dev []) (map word_of_int (take 3 (drop 1 r))))"
    "\<forall>i. 0 < i \<and> i < 4 \<longrightarrow> r ! i = sort [[7, 2, 10, 5, 6] ! (i - 1), [7, 2, 10, 5, 6] ! i, [7, 2, 10, 5, 6] ! (i + 1)] ! 1"
    using median_filters [of 5 "[7, 2, 10, 5, 6]" "[0, 0, 0, 0, 0]" "run_dev []"] by auto
  have "r ! 1 = 7" "r ! 2 = 5" using r(2) [rule_format, of 1] r(2) [rule_format, of 2] by simp_all
  then show ?thesis using r(1) by blast
qed

text \<open>a decryption round of Simon undoes an encryption round, and the other way around.\<close>

theorem simon_roundtrip:
  "simon_round_dec (simon_round x0 x1 k0) x1 k0 = x0 \<and> simon_round (simon_round_dec x2 x1 k0) x1 k0 = x2"
  by (simp add: simon_round_def simon_round_dec_def Let_def ac_simps)

lemma rem32_pos:
  assumes "0 \<le> sint a" "0 < sint b"
  obtains w where "rem32 a b = Some w" "sint w = sint a mod sint b"
proof (rule that)
  have "b \<noteq> 0" using assms(2) by auto
  then show "rem32 a b = Some (word_of_int (sint a mod sint b))"
    using assms by (simp add: rem32_def smod_mod_positive)
  have "0 \<le> sint a mod sint b" "sint a mod sint b < sint b" using assms(2) by simp_all
  then show "sint (word_of_int (sint a mod sint b) :: i32) = sint a mod sint b"
    using sint_lt_32 [of b] by (intro sint_of_int_32) linarith+
qed

text \<open>A product of two residues of a modulus of at most 46340 is in range.\<close>

lemma rem32_mult:
  assumes m: "0 < sint m" "sint m \<le> 46340" and a: "0 \<le> sint a" "sint a < sint m" and b: "0 \<le> sint b" "sint b < sint m"
  obtains w where "rem32 (a * b) m = Some w" "sint w = sint a * sint b mod sint m" "0 \<le> sint w" "sint w < sint m"
proof -
  have "sint a * sint b \<le> 46339 * 46339" using m a b by (intro mult_mono) linarith+
  moreover have "0 \<le> sint a * sint b" using a b by simp
  ultimately have p: "sint (a * b) = sint a * sint b" by (intro sint_mult_32) linarith+
  obtain w where "rem32 (a * b) m = Some w" "sint w = sint (a * b) mod sint m"
    using rem32_pos [of "a * b" m] p m a b by auto
  then show thesis using that p m by simp
qed

lemma mod_exp_loop_spec:
  assumes m: "0 < sint m" "sint m \<le> 46340"
  shows "sint x = int e \<Longrightarrow> 0 \<le> sint b \<Longrightarrow> sint b < sint m \<Longrightarrow> 0 \<le> sint r \<Longrightarrow> sint r < sint m \<Longrightarrow>
    \<exists>w. mod_exp_loop m b x r = Some w \<and> sint w = sint r * sint b ^ e mod sint m"
proof (induction e arbitrary: x b r rule: less_induct)
  case (less e)
  show ?case
  proof (cases "e = 0")
    case True
    then show ?thesis using less.prems by (subst mod_exp_loop.simps) (simp add: word_sless_alt)
  next
    case False
    then have pos: "0 <s x" using less.prems(1) by (simp add: word_sless_alt)
    obtain odd where odd: "rem32 x 2 = Some odd" "sint odd = int e mod 2"
      using rem32_pos [of x 2] less.prems(1) by auto
    have "sint odd = int (e mod 2)" using odd(2) by (simp add: zmod_int)
    then have odd1: "odd = 1 \<longleftrightarrow> e mod 2 = 1"
      using sint_inject_32 [of odd 1] by auto
    obtain r' where r': "(if odd = 1 then rem32 (r * b) m else Some r) = Some r'"
      "sint r' mod sint m = sint r * sint b ^ (e mod 2) mod sint m" "0 \<le> sint r'" "sint r' < sint m"
    proof (cases "odd = 1")
      case True
      obtain w where "rem32 (r * b) m = Some w" "sint w = sint r * sint b mod sint m" "0 \<le> sint w" "sint w < sint m"
        using rem32_mult [OF m, of r b] less.prems by auto
      then show thesis using that [of w] True odd1 by simp
    next
      case False
      then have "e mod 2 = 0" using odd1 by simp
      then show thesis using that [of r] False less.prems by simp
    qed
    obtain b' where b': "rem32 (b * b) m = Some b'" "sint b' = sint b * sint b mod sint m" "0 \<le> sint b'" "sint b' < sint m"
      using rem32_mult [OF m, of b b] less.prems by auto
    have x': "sint (signed_drop_bit 1 x) = int (e div 2)"
      using less.prems(1) by (simp add: sint_signed_drop_bit_eq drop_bit_eq_div zdiv_int)
    obtain w where w: "mod_exp_loop m b' (signed_drop_bit 1 x) r' = Some w"
      "sint w = sint r' * sint b' ^ (e div 2) mod sint m"
      using less.IH [OF _ x' b'(3,4) r'(3,4)] False by auto
    have "sint b' ^ (e div 2) mod sint m = (sint b * sint b) ^ (e div 2) mod sint m"
      unfolding b'(2) by (rule power_mod)
    then have "sint w = (sint r * sint b ^ (e mod 2)) * (sint b * sint b) ^ (e div 2) mod sint m"
      unfolding w(2) using r'(2) by (metis mod_mult_cong)
    also have "(sint b * sint b) ^ (e div 2) = sint b ^ (2 * (e div 2))"
      by (simp add: power_mult power2_eq_square)
    also have "sint r * sint b ^ (e mod 2) * sint b ^ (2 * (e div 2)) = sint r * sint b ^ e"
      by (simp add: mult.assoc power_add [symmetric])
    finally show ?thesis
      using w(1) pos odd(1) r'(1) b'(1) by (subst mod_exp_loop.simps) (simp add: Let_def)
  qed
qed

text \<open>\<open>modular_exp\<close> computes the power modulo every modulus from 2 to 46340, whose square an \<open>int\<close>
  holds, for a base and an exponent that are not negative, except for the exponent 1, for which it
  returns 0 whatever the base.\<close>

theorem modular_exp_power:
  assumes "2 \<le> sint m" "sint m \<le> 46340" "0 \<le> sint b" "sint x = int e"
  shows "\<exists>w. modular_exp b x m = Some w \<and> sint w = (if e = 1 then 0 else sint b ^ e mod sint m)"
proof (cases "e = 1")
  case True
  then have "x = 1" using assms(4) by (intro sint_inject_32) simp
  then show ?thesis using True by (simp add: modular_exp_def)
next
  case False
  then have x: "x \<noteq> 1" using assms(4) by auto
  obtain b' where b': "rem32 b m = Some b'" "sint b' = sint b mod sint m"
    using rem32_pos [of b m] assms by auto
  have "0 \<le> sint b'" "sint b' < sint m" using assms(1) b'(2) by simp_all
  then obtain w where "mod_exp_loop m b' x 1 = Some w" "sint w = sint b' ^ e mod sint m"
    using mod_exp_loop_spec [of m x e b' 1] assms by auto
  then show ?thesis using b' x False by (simp add: modular_exp_def power_mod)
qed

lemma modular_exp_power_witness: "\<exists>w. modular_exp 2 90 13 = Some w \<and> sint w = 12"
  using modular_exp_power [of 13 2 90 90] by simp

text \<open>the sieve leaves 1 exactly at the primes below 100, and counts 25 of them.\<close>

theorem sieve_primes:
  "\<exists>p. sieve_main d = map_option (\<lambda>(c, d). (p, 25, print c d)) (read_counter (zero_counter d)) \<and> length p = 100 \<and>
    (\<forall>i < 100. p ! i = (if 2 \<le> i \<and> (\<forall>k \<in> {2..<i}. \<not> k dvd i) then 1 else 0))"
proof -
  define p :: "int list" where "p = map (\<lambda>i. if 2 \<le> i \<and> (\<forall>k \<in> {2..<i}. \<not> k dvd i) then 1 else 0) [0..<100]"
  have "do { p \<leftarrow> sieve_init 100 0 (replicate 100 0); sieve_outer 100 2 p } = Some p"
    unfolding p_def by code_simp
  moreover have "sieve_count 100 p 0 0 = Some 25" unfolding p_def by code_simp
  ultimately have "sieve_main d = map_option (\<lambda>(c, d). (p, 25, print c d)) (read_counter (zero_counter d))"
    by (auto simp: sieve_main_def Let_def Option.bind_eq_Some_conv map_option_case split: option.splits)
  then show ?thesis by (intro exI [of _ p]) (simp add: p_def)
qed

lemma word_of_nat_eq_1: "n < 2 ^ 32 \<Longrightarrow> (of_nat n :: i32) = 1 \<longleftrightarrow> n = 1"
  using unat_of_nat_32 [of n] by auto

lemma fact_sum: "0 < n \<Longrightarrow> n < 2 ^ 32 \<Longrightarrow> fact (of_nat n) = Some (of_nat (\<Sum>{1..n}))"
proof (induction n)
  case (Suc n)
  show ?case
  proof (cases "n = 0")
    case True
    then show ?thesis by (subst fact.simps) simp
  next
    case False
    then have "fact (of_nat (Suc n)) = do { r \<leftarrow> fact (of_nat n); Some (of_nat (Suc n) + r) }"
      using word_of_nat_eq_1 [of "Suc n"] Suc.prems by (subst fact.simps) simp
    then show ?thesis using Suc False by (simp add: atLeastAtMostSuc_conv)
  qed
qed simp

lemma triangular_fact: "0 < n \<Longrightarrow> n < 2 ^ 32 \<Longrightarrow> triangular (of_nat n) = fact (of_nat n)"
proof (induction n)
  case (Suc n)
  show ?case
  proof (cases "n = 0")
    case True
    then show ?thesis by (subst fact.simps, subst triangular.simps) simp
  next
    case False
    then show ?thesis
      using word_of_nat_eq_1 [of "Suc n"] Suc by (subst fact.simps, subst triangular.simps) simp
  qed
qed simp

lemma tri_sum: "n < 2 ^ 31 \<Longrightarrow> tri (of_nat n) = of_nat (\<Sum>{1..n})"
proof (induction n)
  case 0
  show ?case by (subst tri.simps) (simp add: word_sle_eq)
next
  case (Suc n)
  show ?case
  proof (cases "n = 0")
    case True
    then show ?thesis by (subst tri.simps) simp
  next
    case False
    then have "\<not> (of_nat (Suc n) :: i32) \<le>s 1"
      using Suc.prems sint_of_nat_32 [of "Suc n"] by (simp add: word_sle_eq del: of_nat_Suc)
    then show ?thesis using Suc by (subst tri.simps) (simp add: atLeastAtMostSuc_conv)
  qed
qed

fun fibonacci :: "nat \<Rightarrow> nat" where
  "fibonacci 0 = 0"
| "fibonacci (Suc 0) = 1"
| "fibonacci (Suc (Suc n)) = fibonacci (Suc n) + fibonacci n"

lemma fib_fibonacci: "n < 2 ^ 31 \<Longrightarrow> fib (of_nat n) = of_nat (fibonacci n)"
proof (induction n rule: fibonacci.induct)
  case 1
  show ?case by (subst fib.simps) (simp add: word_sle_eq)
next
  case 2
  show ?case by (subst fib.simps) (simp add: word_sle_eq)
next
  case (3 n)
  let ?n = "of_nat (Suc (Suc n)) :: i32"
  have "\<not> ?n \<le>s 1"
    using 3(3) sint_of_nat_32 [of "Suc (Suc n)"] by (simp add: word_sle_eq del: of_nat_Suc)
  moreover have "?n - 1 = of_nat (Suc n)" "?n - 2 = of_nat n" by simp_all
  ultimately have "fib ?n = fib (of_nat (Suc n)) + fib (of_nat n)" by (subst fib.simps) (simp del: of_nat_Suc)
  then show ?case using 3 by simp
qed

text \<open>the function \<open>fact\<close> of \<^verbatim>\<open>gcc/fact.c\<close> adds where a factorial multiplies: for every positive \<open>n\<close> it
  returns the sum of the numbers up to \<open>n\<close>, as \<open>triangular\<close> and \<open>tri\<close> do, modulo \<open>2 ^ 32\<close>; \<open>fib\<close> returns
  the Fibonacci numbers modulo \<open>2 ^ 32\<close>.\<close>

theorem recursive_sums:
  assumes "0 < n" "n < 2 ^ 31"
  shows "fact (of_nat n) = Some (of_nat (\<Sum>{1..n})) \<and> triangular (of_nat n) = Some (of_nat (\<Sum>{1..n})) \<and>
    tri (of_nat n) = of_nat (\<Sum>{1..n}) \<and> fib (of_nat n) = of_nat (fibonacci n)"
  using fact_sum [of n] triangular_fact [of n] tri_sum [of n] fib_fibonacci [of n] assms by simp

lemma recursive_sums_witness: "fact 5 = Some 15 \<and> triangular 5 = Some 15 \<and> tri 5 = 15 \<and> fib 5 = 5"
proof -
  have s: "\<Sum>{1..5} = (15 :: nat)" by (simp add: numeral_eq_Suc)
  have f: "fibonacci 5 = 5" by (simp add: numeral_eq_Suc)
  show ?thesis using recursive_sums [of 5, unfolded s f] by simp
qed

end
