(* ===== verification/Printf.thy ===== *)
theory Printf
  imports Uart
begin

text \<open>
  The formatted output of the kernel, \<^verbatim>\<open>os/src/printf.c\<close>, as it is configured there: without floating
  point (\<^verbatim>\<open>PRINTF_SUPPORT_FLOAT\<close> is not defined), with \<open>long long\<close>. The state is the memory, which
  holds the format, the string arguments and the buffer of \<open>sprintf\<close>, and the device. The variable
  arguments are a list of words of 32 or 64 bits; taking one that is not there, or of the other size,
  is \<open>None\<close>. The local buffer of a conversion is the list of its first \<open>len\<close> characters. Loops over
  memory may run on, so they are \<^theory_text>\<open>partial_function (option)\<close>.
\<close>

type_synonym pstate = "mem32 \<times> dev"
type_synonym out_fct_type = "u8 \<Rightarrow> u32 \<Rightarrow> u32 \<Rightarrow> u32 \<Rightarrow> pstate \<Rightarrow> pstate"

datatype va_word = W32 u32 | W64 u64

section \<open>Flags\<close>

definition PRINTF_NTOA_BUFFER_SIZE :: nat where
  "PRINTF_NTOA_BUFFER_SIZE = 32"

definition FLAGS_ZEROPAD :: u32 where "FLAGS_ZEROPAD = push_bit 0 1"
definition FLAGS_LEFT :: u32 where "FLAGS_LEFT = push_bit 1 1"
definition FLAGS_PLUS :: u32 where "FLAGS_PLUS = push_bit 2 1"
definition FLAGS_SPACE :: u32 where "FLAGS_SPACE = push_bit 3 1"
definition FLAGS_HASH :: u32 where "FLAGS_HASH = push_bit 4 1"
definition FLAGS_UPPERCASE :: u32 where "FLAGS_UPPERCASE = push_bit 5 1"
definition FLAGS_CHAR :: u32 where "FLAGS_CHAR = push_bit 6 1"
definition FLAGS_SHORT :: u32 where "FLAGS_SHORT = push_bit 7 1"
definition FLAGS_LONG :: u32 where "FLAGS_LONG = push_bit 8 1"
definition FLAGS_LONG_LONG :: u32 where "FLAGS_LONG_LONG = push_bit 9 1"
definition FLAGS_PRECISION :: u32 where "FLAGS_PRECISION = push_bit 10 1"

definition has :: "u32 \<Rightarrow> u32 \<Rightarrow> bool" where
  "has flags f \<longleftrightarrow> flags AND f \<noteq> 0"

text \<open>The code of a character.\<close>

definition chr :: "char \<Rightarrow> u8" where
  "chr c = of_nat (of_char c)"

section \<open>Output functions\<close>

definition out_buffer :: out_fct_type where
  "out_buffer character buffer idx maxlen st =
     (if idx < maxlen then ((fst st)(buffer + idx := character), snd st) else st)"

definition putchar :: "u8 \<Rightarrow> pstate \<Rightarrow> pstate" where
  "putchar c st = (fst st, os_put c (snd st))"

definition out_null :: out_fct_type where
  "out_null character buffer idx maxlen st = st"

definition out_char :: out_fct_type where
  "out_char character buffer idx maxlen st = (if character \<noteq> 0 then putchar character st else st)"

text \<open>\<open>_out_fct\<close> calls the function the user passed; it is a parameter.\<close>

definition out_fct :: "(u8 \<Rightarrow> u32 \<Rightarrow> pstate \<Rightarrow> pstate) \<Rightarrow> u32 \<Rightarrow> out_fct_type" where
  "out_fct fct arg character buffer idx maxlen st = (if character \<noteq> 0 then fct character arg st else st)"

section \<open>Helpers\<close>

function strnlen_s :: "mem32 \<Rightarrow> u32 \<Rightarrow> u32 \<Rightarrow> u32 \<Rightarrow> u32" where
  "strnlen_s m str s maxsize =
     (if m s \<noteq> 0 \<and> maxsize \<noteq> 0 then strnlen_s m str (s + 1) (maxsize - 1) else s - str)"
  by pat_completeness auto
termination
  by (relation "measure (\<lambda>(m, str, s, n). unat n)") (auto simp: unat_minus_one unat_gt_0)

declare strnlen_s.simps [simp del]

definition fmt_is_digit :: "u8 \<Rightarrow> bool" where
  "fmt_is_digit ch \<longleftrightarrow> chr CHR ''0'' \<le> ch \<and> ch \<le> chr CHR ''9''"

partial_function (option) fmt_atoi :: "mem32 \<Rightarrow> u32 \<Rightarrow> u32 \<Rightarrow> (u32 \<times> u32) option" where
  "fmt_atoi m str i =
     (if fmt_is_digit (m str) then fmt_atoi m (str + 1) (i * 10 + (ucast (m str) - ucast (chr CHR ''0'')))
      else Some (str, i))"

text \<open>\<open>for (size_t i = len; i < width; i++) out(' ', buffer, idx++, maxlen);\<close>\<close>

function pad_from :: "out_fct_type \<Rightarrow> u32 \<Rightarrow> u32 \<Rightarrow> u32 \<Rightarrow> u32 \<Rightarrow> u32 \<Rightarrow> pstate \<Rightarrow> u32 \<times> pstate" where
  "pad_from out buffer maxlen i width idx st =
     (if i < width
      then pad_from out buffer maxlen (i + 1) width (idx + 1) (out (chr CHR '' '') buffer idx maxlen st)
      else (idx, st))"
  by pat_completeness auto
termination
  by (relation "measure (\<lambda>(out, b, m, i, w, idx, st). unat w - unat i)") (auto intro: unat_plus_1)

text \<open>\<open>while (len) out(buf[--len], buffer, idx++, maxlen);\<close> on the reversed characters.\<close>

fun out_text :: "out_fct_type \<Rightarrow> u32 \<Rightarrow> u32 \<Rightarrow> u8 list \<Rightarrow> u32 \<Rightarrow> pstate \<Rightarrow> u32 \<times> pstate" where
  "out_text out buffer maxlen [] idx st = (idx, st)"
| "out_text out buffer maxlen (c # cs) idx st =
     out_text out buffer maxlen cs (idx + 1) (out c buffer idx maxlen st)"

text \<open>\<open>while (idx - start_idx < width) out(' ', buffer, idx++, maxlen);\<close>\<close>

function pad_to :: "out_fct_type \<Rightarrow> u32 \<Rightarrow> u32 \<Rightarrow> u32 \<Rightarrow> u32 \<Rightarrow> u32 \<Rightarrow> pstate \<Rightarrow> u32 \<times> pstate" where
  "pad_to out buffer maxlen start_idx width idx st =
     (if idx - start_idx < width
      then pad_to out buffer maxlen start_idx width (idx + 1) (out (chr CHR '' '') buffer idx maxlen st)
      else (idx, st))"
  by pat_completeness auto
termination
proof (relation "measure (\<lambda>(out, b, m, s, w, idx, st). unat w - unat (idx - s))")
  fix out :: out_fct_type and buffer maxlen start_idx width idx :: u32 and st :: pstate
  assume "idx - start_idx < width"
  from unat_plus_1 [OF this] have "unat width - unat (idx - start_idx + 1) < unat width - unat (idx - start_idx)" .
  moreover have "idx - start_idx + 1 = idx + 1 - start_idx" by simp
  ultimately show "((out, buffer, maxlen, start_idx, width, idx + 1, out (chr CHR '' '') buffer idx maxlen st),
      out, buffer, maxlen, start_idx, width, idx, st)
    \<in> measure (\<lambda>(out, b, m, s, w, idx, st). unat w - unat (idx - s))"
    by (simp add: prod.case)
qed simp

declare pad_from.simps [simp del] pad_to.simps [simp del]

definition out_rev :: "out_fct_type \<Rightarrow> u32 \<Rightarrow> u32 \<Rightarrow> u32 \<Rightarrow> u8 list \<Rightarrow> u32 \<Rightarrow> u32 \<Rightarrow> pstate \<Rightarrow> u32 \<times> pstate" where
  "out_rev out buffer idx maxlen buf width flags st =
     (let start_idx = idx;
          (idx, st) = (if \<not> has flags FLAGS_LEFT \<and> \<not> has flags FLAGS_ZEROPAD
            then pad_from out buffer maxlen (of_nat (length buf)) width idx st else (idx, st));
          (idx, st) = out_text out buffer maxlen (rev buf) idx st
      in if has flags FLAGS_LEFT then pad_to out buffer maxlen start_idx width idx st else (idx, st))"

section \<open>Numbers\<close>

text \<open>\<open>while (len < limit && len < PRINTF_NTOA_BUFFER_SIZE) buf[len++] = '0';\<close>\<close>

function pad_digits :: "u32 \<Rightarrow> u8 list \<Rightarrow> u8 list" where
  "pad_digits limit buf =
     (if length buf < unat limit \<and> length buf < PRINTF_NTOA_BUFFER_SIZE
      then pad_digits limit (buf @ [chr CHR ''0'']) else buf)"
  by pat_completeness auto
termination
  by (relation "measure (\<lambda>(l, buf). PRINTF_NTOA_BUFFER_SIZE - length buf)") auto

declare pad_digits.simps [simp del]

text \<open>\<open>if (len < PRINTF_NTOA_BUFFER_SIZE) buf[len++] = c;\<close>\<close>

definition push_char :: "u8 \<Rightarrow> u8 list \<Rightarrow> u8 list" where
  "push_char c buf = (if length buf < PRINTF_NTOA_BUFFER_SIZE then buf @ [c] else buf)"

definition ntoa_hash :: "u8 list \<Rightarrow> u32 \<Rightarrow> u32 \<Rightarrow> u32 \<Rightarrow> u32 \<Rightarrow> u8 list" where
  "ntoa_hash buf base prec width flags =
     (let buf = (if \<not> has flags FLAGS_PRECISION \<and> buf \<noteq> [] \<and>
            (length buf = unat prec \<or> length buf = unat width)
          then let buf = butlast buf in if buf \<noteq> [] \<and> base = 16 then butlast buf else buf
          else buf);
          buf = (if base = 16 \<and> \<not> has flags FLAGS_UPPERCASE \<and> length buf < PRINTF_NTOA_BUFFER_SIZE
            then buf @ [chr CHR ''x'']
            else if base = 16 \<and> has flags FLAGS_UPPERCASE \<and> length buf < PRINTF_NTOA_BUFFER_SIZE
            then buf @ [chr CHR ''X'']
            else if base = 2 \<and> length buf < PRINTF_NTOA_BUFFER_SIZE then buf @ [chr CHR ''b'']
            else buf)
      in push_char (chr CHR ''0'') buf)"

definition ntoa_sign :: "u8 list \<Rightarrow> bool \<Rightarrow> u32 \<Rightarrow> u8 list" where
  "ntoa_sign buf negative flags =
     (if length buf < PRINTF_NTOA_BUFFER_SIZE
      then if negative then buf @ [chr CHR ''-'']
           else if has flags FLAGS_PLUS then buf @ [chr CHR ''+'']
           else if has flags FLAGS_SPACE then buf @ [chr CHR '' '']
           else buf
      else buf)"

definition ntoa_format :: "out_fct_type \<Rightarrow> u32 \<Rightarrow> u32 \<Rightarrow> u32 \<Rightarrow> u8 list \<Rightarrow> bool \<Rightarrow> u32 \<Rightarrow> u32 \<Rightarrow> u32 \<Rightarrow> u32 \<Rightarrow>
    pstate \<Rightarrow> u32 \<times> pstate" where
  "ntoa_format out buffer idx maxlen buf negative base prec width flags st =
     (let (buf, width) = (if \<not> has flags FLAGS_LEFT
            then let width = (if width \<noteq> 0 \<and> has flags FLAGS_ZEROPAD \<and>
                       (negative \<or> has flags (FLAGS_PLUS OR FLAGS_SPACE)) then width - 1 else width);
                     buf = pad_digits prec buf;
                     buf = (if has flags FLAGS_ZEROPAD then pad_digits width buf else buf)
                 in (buf, width)
            else (buf, width));
          buf = (if has flags FLAGS_HASH then ntoa_hash buf base prec width flags else buf);
          buf = ntoa_sign buf negative flags
      in out_rev out buffer idx maxlen buf width flags st)"

text \<open>The digits of a value, the least first: the loop of both \<open>_ntoa_long\<close> and \<open>_ntoa_long_long\<close>.\<close>

definition digit_char :: "u32 \<Rightarrow> u8 \<Rightarrow> u8" where
  "digit_char flags digit =
     (if digit < 10 then chr CHR ''0'' + digit
      else (if has flags FLAGS_UPPERCASE then chr CHR ''A'' else chr CHR ''a'') + digit - 10)"

function ntoa_digits :: "'a::len word \<Rightarrow> 'a word \<Rightarrow> u32 \<Rightarrow> u8 list \<Rightarrow> u8 list" where
  "ntoa_digits value base flags buf =
     (let digit = ucast (value mod base) :: u8;
          buf = buf @ [digit_char flags digit];
          value = value div base
      in if value \<noteq> 0 \<and> length buf < PRINTF_NTOA_BUFFER_SIZE then ntoa_digits value base flags buf else buf)"
  by pat_completeness auto
termination
  by (relation "measure (\<lambda>(v, b, f, buf). PRINTF_NTOA_BUFFER_SIZE - length buf)") auto

declare ntoa_digits.simps [simp del]

definition ntoa_long :: "out_fct_type \<Rightarrow> u32 \<Rightarrow> u32 \<Rightarrow> u32 \<Rightarrow> u32 \<Rightarrow> bool \<Rightarrow> u32 \<Rightarrow> u32 \<Rightarrow> u32 \<Rightarrow> u32 \<Rightarrow>
    pstate \<Rightarrow> u32 \<times> pstate" where
  "ntoa_long out buffer idx maxlen value negative base prec width flags st =
     (let flags = (if value = 0 then flags AND NOT FLAGS_HASH else flags);
          buf = (if \<not> has flags FLAGS_PRECISION \<or> value \<noteq> 0 then ntoa_digits value base flags [] else [])
      in ntoa_format out buffer idx maxlen buf negative base prec width flags st)"

definition ntoa_long_long :: "out_fct_type \<Rightarrow> u32 \<Rightarrow> u32 \<Rightarrow> u32 \<Rightarrow> u64 \<Rightarrow> bool \<Rightarrow> u64 \<Rightarrow> u32 \<Rightarrow> u32 \<Rightarrow> u32 \<Rightarrow>
    pstate \<Rightarrow> u32 \<times> pstate" where
  "ntoa_long_long out buffer idx maxlen value negative base prec width flags st =
     (let flags = (if value = 0 then flags AND NOT FLAGS_HASH else flags);
          buf = (if \<not> has flags FLAGS_PRECISION \<or> value \<noteq> 0 then ntoa_digits value base flags [] else [])
      in ntoa_format out buffer idx maxlen buf negative (ucast base) prec width flags st)"

section \<open>The format\<close>

definition flag_of :: "u8 \<Rightarrow> u32 option" where
  "flag_of c =
     (if c = chr CHR ''0'' then Some FLAGS_ZEROPAD
      else if c = chr CHR ''-'' then Some FLAGS_LEFT
      else if c = chr CHR ''+'' then Some FLAGS_PLUS
      else if c = chr CHR '' '' then Some FLAGS_SPACE
      else if c = chr CHR ''#'' then Some FLAGS_HASH
      else None)"

partial_function (option) parse_flags :: "mem32 \<Rightarrow> u32 \<Rightarrow> u32 \<Rightarrow> (u32 \<times> u32) option" where
  "parse_flags m format flags =
     (case flag_of (m format) of
        Some f \<Rightarrow> parse_flags m (format + 1) (flags OR f)
      | None \<Rightarrow> Some (format, flags))"

text \<open>\<open>va_arg\<close> for the types of 32 and of 64 bits.\<close>

fun va_arg32 :: "va_word list \<Rightarrow> (u32 \<times> va_word list) option" where
  "va_arg32 (W32 w # va) = Some (w, va)"
| "va_arg32 va = None"

fun va_arg64 :: "va_word list \<Rightarrow> (u64 \<times> va_word list) option" where
  "va_arg64 (W64 w # va) = Some (w, va)"
| "va_arg64 va = None"

definition parse_width :: "mem32 \<Rightarrow> u32 \<Rightarrow> u32 \<Rightarrow> va_word list \<Rightarrow> (u32 \<times> u32 \<times> u32 \<times> va_word list) option" where
  "parse_width m format flags va =
     (if fmt_is_digit (m format) then do { (format, width) \<leftarrow> fmt_atoi m format 0; Some (format, flags, width, va) }
      else if m format = chr CHR ''*''
      then do {
        (w, va) \<leftarrow> va_arg32 va;
        let (flags, width) = (if w <s 0 then (flags OR FLAGS_LEFT, - w) else (flags, w));
        Some (format + 1, flags, width, va) }
      else Some (format, flags, 0, va))"

definition parse_precision :: "mem32 \<Rightarrow> u32 \<Rightarrow> u32 \<Rightarrow> va_word list \<Rightarrow> (u32 \<times> u32 \<times> u32 \<times> va_word list) option" where
  "parse_precision m format flags va =
     (if m format = chr CHR ''.''
      then let flags = flags OR FLAGS_PRECISION; format = format + 1
           in if fmt_is_digit (m format)
              then do { (format, precision) \<leftarrow> fmt_atoi m format 0; Some (format, flags, precision, va) }
              else if m format = chr CHR ''*''
              then do { (prec, va) \<leftarrow> va_arg32 va; Some (format + 1, flags, if 0 <s prec then prec else 0, va) }
              else Some (format, flags, 0, va)
      else Some (format, flags, 0, va))"

text \<open>
  \<open>ptrdiff_t\<close> and \<open>size_t\<close> have the size of \<open>long\<close>, \<open>intmax_t\<close> that of \<open>long long\<close>.
\<close>

definition parse_length :: "mem32 \<Rightarrow> u32 \<Rightarrow> u32 \<Rightarrow> u32 \<times> u32" where
  "parse_length m format flags =
     (if m format = chr CHR ''l''
      then let flags = flags OR FLAGS_LONG; format = format + 1
           in if m format = chr CHR ''l'' then (format + 1, flags OR FLAGS_LONG_LONG) else (format, flags)
      else if m format = chr CHR ''h''
      then let flags = flags OR FLAGS_SHORT; format = format + 1
           in if m format = chr CHR ''h'' then (format + 1, flags OR FLAGS_CHAR) else (format, flags)
      else if m format = chr CHR ''t'' then (format + 1, flags OR FLAGS_LONG)
      else if m format = chr CHR ''j'' then (format + 1, flags OR FLAGS_LONG_LONG)
      else if m format = chr CHR ''z'' then (format + 1, flags OR FLAGS_LONG)
      else (format, flags))"

text \<open>The base and the flags of the integer conversions \<open>d\<close>, \<open>i\<close>, \<open>u\<close>, \<open>x\<close>, \<open>X\<close>, \<open>o\<close>, \<open>b\<close>.\<close>

definition int_base :: "u8 \<Rightarrow> u32" where
  "int_base c =
     (if c = chr CHR ''x'' \<or> c = chr CHR ''X'' then 16
      else if c = chr CHR ''o'' then 8
      else if c = chr CHR ''b'' then 2
      else 10)"

definition signed_conv :: "u8 \<Rightarrow> bool" where
  "signed_conv c \<longleftrightarrow> c = chr CHR ''i'' \<or> c = chr CHR ''d''"

definition int_flags :: "u8 \<Rightarrow> u32 \<Rightarrow> u32" where
  "int_flags c flags =
     (let flags = (if int_base c = 10 then flags AND NOT FLAGS_HASH else flags);
          flags = (if c = chr CHR ''X'' then flags OR FLAGS_UPPERCASE else flags);
          flags = (if \<not> signed_conv c then flags AND NOT (FLAGS_PLUS OR FLAGS_SPACE) else flags)
      in if has flags FLAGS_PRECISION then flags AND NOT FLAGS_ZEROPAD else flags)"

text \<open>\<open>char\<close> is unsigned, \<open>short\<close> has 16 bits.\<close>

definition out_integer :: "out_fct_type \<Rightarrow> u32 \<Rightarrow> u32 \<Rightarrow> u8 \<Rightarrow> u32 \<Rightarrow> u32 \<Rightarrow> u32 \<Rightarrow> u32 \<Rightarrow> va_word list \<Rightarrow> pstate \<Rightarrow>
    (u32 \<times> va_word list \<times> pstate) option" where
  "out_integer out buffer maxlen c flags width precision idx va st =
     (let base = int_base c; flags = int_flags c flags
      in if signed_conv c
         then if has flags FLAGS_LONG_LONG
           then do {
             (value, va) \<leftarrow> va_arg64 va;
             let (idx, st) = ntoa_long_long out buffer idx maxlen (if 0 <s value then value else 0 - value)
               (value <s 0) (ucast base) precision width flags st;
             Some (idx, va, st) }
           else do {
             (v, va) \<leftarrow> va_arg32 va;
             let value = (if has flags FLAGS_LONG then v
               else if has flags FLAGS_CHAR then ucast (ucast v :: u8)
               else if has flags FLAGS_SHORT then scast (ucast v :: 16 word) else v);
             let (idx, st) = ntoa_long out buffer idx maxlen (if 0 <s value then value else 0 - value)
               (value <s 0) base precision width flags st;
             Some (idx, va, st) }
         else if has flags FLAGS_LONG_LONG
           then do {
             (value, va) \<leftarrow> va_arg64 va;
             let (idx, st) = ntoa_long_long out buffer idx maxlen value False (ucast base) precision width flags st;
             Some (idx, va, st) }
           else do {
             (v, va) \<leftarrow> va_arg32 va;
             let value = (if has flags FLAGS_LONG then v
               else if has flags FLAGS_CHAR then ucast (ucast v :: u8)
               else if has flags FLAGS_SHORT then ucast (ucast v :: 16 word) else v);
             let (idx, st) = ntoa_long out buffer idx maxlen value False base precision width flags st;
             Some (idx, va, st) })"

text \<open>\<open>while (l++ < width) out(' ', buffer, idx++, maxlen);\<close> starting at \<open>l\<close>.\<close>

definition out_chr :: "out_fct_type \<Rightarrow> u32 \<Rightarrow> u32 \<Rightarrow> u32 \<Rightarrow> u32 \<Rightarrow> u32 \<Rightarrow> va_word list \<Rightarrow> pstate \<Rightarrow>
    (u32 \<times> va_word list \<times> pstate) option" where
  "out_chr out buffer maxlen flags width idx va st = do {
     let (idx, st) = (if \<not> has flags FLAGS_LEFT then pad_from out buffer maxlen 1 width idx st else (idx, st));
     (v, va) \<leftarrow> va_arg32 va;
     let st = out (ucast v) buffer idx maxlen st;
     let idx = idx + 1;
     let (idx, st) = (if has flags FLAGS_LEFT then pad_from out buffer maxlen 1 width idx st else (idx, st));
     Some (idx, va, st) }"

partial_function (option) str_loop :: "out_fct_type \<Rightarrow> u32 \<Rightarrow> u32 \<Rightarrow> u32 \<Rightarrow> u32 \<Rightarrow> u32 \<Rightarrow> u32 \<Rightarrow> pstate \<Rightarrow>
    (u32 \<times> pstate) option" where
  "str_loop out buffer maxlen flags precision p idx st =
     (if fst st p \<noteq> 0 \<and> (\<not> has flags FLAGS_PRECISION \<or> precision \<noteq> 0)
      then str_loop out buffer maxlen flags (if has flags FLAGS_PRECISION then precision - 1 else precision)
        (p + 1) (idx + 1) (out (fst st p) buffer idx maxlen st)
      else Some (idx, st))"

definition string_len :: "mem32 \<Rightarrow> u32 \<Rightarrow> u32 \<Rightarrow> u32 \<Rightarrow> u32" where
  "string_len m flags precision p =
     (let l = strnlen_s m p p (if precision \<noteq> 0 then precision else - 1)
      in if has flags FLAGS_PRECISION then (if l < precision then l else precision) else l)"

definition out_string :: "out_fct_type \<Rightarrow> u32 \<Rightarrow> u32 \<Rightarrow> u32 \<Rightarrow> u32 \<Rightarrow> u32 \<Rightarrow> u32 \<Rightarrow> va_word list \<Rightarrow> pstate \<Rightarrow>
    (u32 \<times> va_word list \<times> pstate) option" where
  "out_string out buffer maxlen flags width precision idx va st = do {
     (p, va) \<leftarrow> va_arg32 va;
     let l = string_len (fst st) flags precision p;
     let (idx, st) = (if \<not> has flags FLAGS_LEFT then pad_from out buffer maxlen l width idx st else (idx, st));
     (idx, st) \<leftarrow> str_loop out buffer maxlen flags precision p idx st;
     let (idx, st) = (if has flags FLAGS_LEFT then pad_from out buffer maxlen l width idx st else (idx, st));
     Some (idx, va, st) }"

text \<open>\<open>uintptr_t\<close> is not \<open>long long\<close>.\<close>

definition out_pointer :: "out_fct_type \<Rightarrow> u32 \<Rightarrow> u32 \<Rightarrow> u32 \<Rightarrow> u32 \<Rightarrow> u32 \<Rightarrow> va_word list \<Rightarrow> pstate \<Rightarrow>
    (u32 \<times> va_word list \<times> pstate) option" where
  "out_pointer out buffer maxlen flags precision idx va st = do {
     let width = 4 * 2;
     let flags = flags OR (FLAGS_ZEROPAD OR FLAGS_UPPERCASE);
     (v, va) \<leftarrow> va_arg32 va;
     let (idx, st) = ntoa_long out buffer idx maxlen v False 16 precision width flags st;
     Some (idx, va, st) }"

definition out_conversion :: "out_fct_type \<Rightarrow> u32 \<Rightarrow> u32 \<Rightarrow> u8 \<Rightarrow> u32 \<Rightarrow> u32 \<Rightarrow> u32 \<Rightarrow> u32 \<Rightarrow> va_word list \<Rightarrow> pstate \<Rightarrow>
    (u32 \<times> va_word list \<times> pstate) option" where
  "out_conversion out buffer maxlen c flags width precision idx va st =
     (if signed_conv c \<or> c = chr CHR ''u'' \<or> c = chr CHR ''x'' \<or> c = chr CHR ''X'' \<or> c = chr CHR ''o'' \<or> c = chr CHR ''b''
      then out_integer out buffer maxlen c flags width precision idx va st
      else if c = chr CHR ''c'' then out_chr out buffer maxlen flags width idx va st
      else if c = chr CHR ''s'' then out_string out buffer maxlen flags width precision idx va st
      else if c = chr CHR ''p'' then out_pointer out buffer maxlen flags precision idx va st
      else Some (idx + 1, va, out c buffer idx maxlen st))"

section \<open>vsnprintf\<close>

partial_function (option) format_loop :: "out_fct_type \<Rightarrow> u32 \<Rightarrow> u32 \<Rightarrow> u32 \<Rightarrow> u32 \<Rightarrow> va_word list \<Rightarrow> pstate \<Rightarrow>
    (u32 \<times> pstate) option" where
  "format_loop out buffer maxlen format idx va st =
     (if fst st format = 0 then Some (idx, st)
      else if fst st format \<noteq> chr CHR ''%''
      then format_loop out buffer maxlen (format + 1) (idx + 1) va (out (fst st format) buffer idx maxlen st)
      else do {
        (format, flags) \<leftarrow> parse_flags (fst st) (format + 1) 0;
        (format, flags, width, va) \<leftarrow> parse_width (fst st) format flags va;
        (format, flags, precision, va) \<leftarrow> parse_precision (fst st) format flags va;
        let (format, flags) = parse_length (fst st) format flags;
        (idx, va, st) \<leftarrow> out_conversion out buffer maxlen (fst st format) flags width precision idx va st;
        format_loop out buffer maxlen (format + 1) idx va st })"

definition vsnprintf :: "out_fct_type \<Rightarrow> u32 \<Rightarrow> u32 \<Rightarrow> u32 \<Rightarrow> va_word list \<Rightarrow> pstate \<Rightarrow> (i32 \<times> pstate) option" where
  "vsnprintf out buffer maxlen format va st = do {
     let out = (if buffer = 0 then out_null else out);
     (idx, st) \<leftarrow> format_loop out buffer maxlen format 0 va st;
     Some (idx, out 0 buffer (if idx < maxlen then idx else maxlen - 1) maxlen st) }"

text \<open>The entry points. \<open>printf\<close> passes a buffer of one byte on its stack that is not written.\<close>

definition printf :: "u32 \<Rightarrow> u32 \<Rightarrow> va_word list \<Rightarrow> pstate \<Rightarrow> (i32 \<times> pstate) option" where
  "printf stack_buffer format va st = vsnprintf out_char stack_buffer (- 1) format va st"

definition sprintf :: "u32 \<Rightarrow> u32 \<Rightarrow> va_word list \<Rightarrow> pstate \<Rightarrow> (i32 \<times> pstate) option" where
  "sprintf buffer format va st = vsnprintf out_buffer buffer (- 1) format va st"

definition snprintf :: "u32 \<Rightarrow> u32 \<Rightarrow> u32 \<Rightarrow> va_word list \<Rightarrow> pstate \<Rightarrow> (i32 \<times> pstate) option" where
  "snprintf buffer count format va st = vsnprintf out_buffer buffer count format va st"

definition vprintf :: "u32 \<Rightarrow> u32 \<Rightarrow> va_word list \<Rightarrow> pstate \<Rightarrow> (i32 \<times> pstate) option" where
  "vprintf stack_buffer format va st = vsnprintf out_char stack_buffer (- 1) format va st"

definition vsnprintf_entry :: "u32 \<Rightarrow> u32 \<Rightarrow> u32 \<Rightarrow> va_word list \<Rightarrow> pstate \<Rightarrow> (i32 \<times> pstate) option" where
  "vsnprintf_entry buffer count format va st = vsnprintf out_buffer buffer count format va st"

definition fctprintf :: "(u8 \<Rightarrow> u32 \<Rightarrow> pstate \<Rightarrow> pstate) \<Rightarrow> u32 \<Rightarrow> u32 \<Rightarrow> u32 \<Rightarrow> va_word list \<Rightarrow> pstate \<Rightarrow>
    (i32 \<times> pstate) option" where
  "fctprintf out arg wrap_buffer format va st = vsnprintf (out_fct out arg) wrap_buffer (- 1) format va st"

end
