(* ===== verification/PrintfProps.thy ===== *)
theory PrintfProps
  imports Printf Strings
begin

text \<open>
  What \<^verbatim>\<open>os/src/printf.c\<close> writes and where. The locale \<open>sink\<close> is the interface of an output function: a
  reflexive and transitive relation on states that every call respects; everything built from calls
  respects it. Then every part of the formatting is shown to output a text, \<open>out_text\<close> of a list of
  characters, and the text of a number is given by a function on lists.
\<close>

section \<open>Output functions\<close>

locale sink =
  fixes out :: out_fct_type and buffer maxlen :: u32 and keeps :: "pstate \<Rightarrow> pstate \<Rightarrow> bool"
  assumes keep_refl: "keeps st st"
    and keep_trans: "keeps st st' \<Longrightarrow> keeps st' st'' \<Longrightarrow> keeps st st''"
    and keep_step: "keeps st (out c buffer idx maxlen st)"
begin

lemma out_text: "keeps st (snd (out_text out buffer maxlen cs idx st))"
proof (induction cs arbitrary: idx st)
  case (Cons c cs)
  show ?case unfolding out_text.simps by (rule keep_trans [OF keep_step Cons.IH])
qed (simp add: keep_refl)

lemma pad_from: "keeps st (snd (pad_from out buffer maxlen i width idx st))"
proof (induction "unat width - unat i" arbitrary: i idx st rule: less_induct)
  case less
  show ?case
  proof (cases "i < width")
    case True
    show ?thesis
      unfolding pad_from.simps [of out buffer maxlen i width idx st] if_P [OF True]
      by (rule keep_trans [OF keep_step less.hyps [OF unat_plus_1 [OF True]]])
  next
    case False
    then show ?thesis by (subst pad_from.simps) (simp add: keep_refl)
  qed
qed

lemma pad_to: "keeps st (snd (pad_to out buffer maxlen s width idx st))"
proof (induction "unat width - unat (idx - s)" arbitrary: idx st rule: less_induct)
  case less
  show ?case
  proof (cases "idx - s < width")
    case True
    have d: "unat width - unat (idx + 1 - s) < unat width - unat (idx - s)"
      using unat_plus_1 [OF True] by (simp add: algebra_simps)
    show ?thesis
      unfolding pad_to.simps [of out buffer maxlen s width idx st] if_P [OF True]
      by (rule keep_trans [OF keep_step less.hyps [OF d]])
  next
    case False
    then show ?thesis by (subst pad_to.simps) (simp add: keep_refl)
  qed
qed

lemma pad_if: "(if b then pad_from out buffer maxlen i width idx st else (idx, st)) = (idx', st') \<Longrightarrow> keeps st st'"
  using pad_from [of st i width idx] keep_refl [of st] by (auto split: if_splits)

lemma out_rev: "out_rev out buffer idx maxlen buf width flags st = (idx', st') \<Longrightarrow> keeps st st'"
proof -
  assume r: "out_rev out buffer idx maxlen buf width flags st = (idx', st')"
  obtain i1 s1 where 1: "(if \<not> has flags FLAGS_LEFT \<and> \<not> has flags FLAGS_ZEROPAD
      then pad_from out buffer maxlen (of_nat (length buf)) width idx st else (idx, st)) = (i1, s1)"
    by (metis surj_pair)
  obtain i2 s2 where 2: "Printf.out_text out buffer maxlen (rev buf) i1 s1 = (i2, s2)" by (metis surj_pair)
  have r2: "keeps st s2" using keep_trans [OF pad_if [OF 1] out_text] 2 by (metis snd_conv)
  have "out_rev out buffer idx maxlen buf width flags st =
      (if has flags FLAGS_LEFT then pad_to out buffer maxlen idx width i2 s2 else (i2, s2))"
    by (simp only: out_rev_def Let_def 1 2 prod.case)
  then show ?thesis
    using r r2 keep_trans [OF r2 pad_to, of idx width i2] by (metis snd_conv)
qed

lemma ntoa_format:
  "ntoa_format out buffer idx maxlen buf negative base prec width flags st = (idx', st') \<Longrightarrow> keeps st st'"
  by (auto simp: ntoa_format_def Let_def split: prod.splits intro: out_rev)

lemma ntoa_long:
  "ntoa_long out buffer idx maxlen value negative base prec width flags st = (idx', st') \<Longrightarrow> keeps st st'"
  by (simp add: ntoa_long_def Let_def ntoa_format)

lemma ntoa_long_long:
  "ntoa_long_long out buffer idx maxlen value negative base' prec width flags st = (idx', st') \<Longrightarrow> keeps st st'"
  by (simp add: ntoa_long_long_def Let_def ntoa_format)

lemma out_integer:
  "out_integer out buffer maxlen c flags width precision idx va st = Some (idx', va', st') \<Longrightarrow> keeps st st'"
  unfolding out_integer_def Let_def
  by (auto split: if_splits Option.bind_splits prod.splits dest: ntoa_long ntoa_long_long)

lemma out_chr:
  assumes "out_chr out buffer maxlen flags width idx va st = Some (idx', va', st')"
  shows "keeps st st'"
proof -
  obtain i1 s1 where 1: "(if \<not> has flags FLAGS_LEFT then pad_from out buffer maxlen 1 width idx st else (idx, st)) = (i1, s1)"
    by (metis surj_pair)
  obtain v va1 where v: "va_arg32 va = Some (v, va1)"
    using assms by (cases "va_arg32 va") (auto simp: out_chr_def 1)
  obtain i2 s2 where 2: "(if has flags FLAGS_LEFT then pad_from out buffer maxlen 1 width (i1 + 1) (out (ucast v) buffer i1 maxlen s1)
      else (i1 + 1, out (ucast v) buffer i1 maxlen s1)) = (i2, s2)"
    by (metis surj_pair)
  have "st' = s2" using assms by (simp add: out_chr_def Let_def 1 v 2)
  then show ?thesis using keep_trans [OF keep_trans [OF pad_if [OF 1] keep_step] pad_if [OF 2]] by simp
qed

lemma str_loop:
  "str_loop out buffer maxlen flags precision p idx st = Some r \<Longrightarrow> keeps st (snd r)"
proof -
  have "out' = out \<and> b = buffer \<and> m = maxlen \<longrightarrow> keeps st (snd r)"
    if "str_loop out' b m flags precision p idx st = Some r" for out' b m
    using that
  proof (rule str_loop.raw_induct [rotated])
    fix loop :: "out_fct_type \<Rightarrow> u32 \<Rightarrow> u32 \<Rightarrow> u32 \<Rightarrow> u32 \<Rightarrow> u32 \<Rightarrow> u32 \<Rightarrow> pstate \<Rightarrow> (u32 \<times> pstate) option"
      and out' b m flags precision p idx st r
    assume IH: "\<And>out' b m flags precision p idx st r. loop out' b m flags precision p idx st = Some r \<Longrightarrow>
        out' = out \<and> b = buffer \<and> m = maxlen \<longrightarrow> keeps st (snd r)"
      and r: "(if fst st p \<noteq> 0 \<and> (\<not> has flags FLAGS_PRECISION \<or> precision \<noteq> 0)
        then loop out' b m flags (if has flags FLAGS_PRECISION then precision - 1 else precision)
          (p + 1) (idx + 1) (out' (fst st p) b idx m st)
        else Some (idx, st)) = Some r"
    show "out' = out \<and> b = buffer \<and> m = maxlen \<longrightarrow> keeps st (snd r)"
    proof (intro impI)
      assume e: "out' = out \<and> b = buffer \<and> m = maxlen"
      show "keeps st (snd r)"
      proof (cases "fst st p \<noteq> 0 \<and> (\<not> has flags FLAGS_PRECISION \<or> precision \<noteq> 0)")
        case True
        then have "keeps (out (fst st p) buffer idx maxlen st) (snd r)" using r IH e by simp
        then show ?thesis by (rule keep_trans [OF keep_step])
      next
        case False
        then have "r = (idx, st)" using r by auto
        then show ?thesis by (simp add: keep_refl)
      qed
    qed
  qed
  then show "str_loop out buffer maxlen flags precision p idx st = Some r \<Longrightarrow> keeps st (snd r)" by blast
qed

lemma out_string:
  assumes "out_string out buffer maxlen flags width precision idx va st = Some (idx', va', st')"
  shows "keeps st st'"
proof -
  obtain p va1 where v: "va_arg32 va = Some (p, va1)"
    using assms by (cases "va_arg32 va") (auto simp: out_string_def)
  define l where "l = string_len (fst st) flags precision p"
  obtain i1 s1 where 1: "(if \<not> has flags FLAGS_LEFT then pad_from out buffer maxlen l width idx st else (idx, st)) = (i1, s1)"
    by (metis surj_pair)
  obtain i2 s2 where 2: "Printf.str_loop out buffer maxlen flags precision p i1 s1 = Some (i2, s2)"
    using assms by (cases "Printf.str_loop out buffer maxlen flags precision p i1 s1")
      (auto simp: out_string_def v l_def [symmetric] 1)
  obtain i3 s3 where 3: "(if has flags FLAGS_LEFT then pad_from out buffer maxlen l width i2 s2 else (i2, s2)) = (i3, s3)"
    by (metis surj_pair)
  have "st' = s3" using assms by (simp add: out_string_def v l_def [symmetric] 1 2 3)
  moreover have "keeps s1 s2" using str_loop [OF 2] by simp
  ultimately show ?thesis using keep_trans [OF keep_trans [OF pad_if [OF 1]] pad_if [OF 3]] by simp
qed

lemma out_pointer:
  "out_pointer out buffer maxlen flags precision idx va st = Some (idx', va', st') \<Longrightarrow> keeps st st'"
  unfolding out_pointer_def Let_def by (auto split: Option.bind_splits prod.splits dest: ntoa_long)

lemma out_conversion:
  "out_conversion out buffer maxlen c flags width precision idx va st = Some (idx', va', st') \<Longrightarrow> keeps st st'"
  unfolding out_conversion_def
  by (auto split: if_splits intro: out_integer out_chr out_string out_pointer keep_step)

lemma format_loop:
  "format_loop out buffer maxlen format idx va st = Some r \<Longrightarrow> keeps st (snd r)"
proof -
  have "out' = out \<and> b = buffer \<and> m = maxlen \<longrightarrow> keeps st (snd r)"
    if "format_loop out' b m format idx va st = Some r" for out' b m
    using that
  proof (rule format_loop.raw_induct [rotated])
    fix loop :: "out_fct_type \<Rightarrow> u32 \<Rightarrow> u32 \<Rightarrow> u32 \<Rightarrow> u32 \<Rightarrow> va_word list \<Rightarrow> pstate \<Rightarrow> (u32 \<times> pstate) option"
      and out' b m format idx va st r
    assume IH: "\<And>out' b m format idx va st r. loop out' b m format idx va st = Some r \<Longrightarrow>
        out' = out \<and> b = buffer \<and> m = maxlen \<longrightarrow> keeps st (snd r)"
      and r: "(if fst st format = 0 then Some (idx, st)
        else if fst st format \<noteq> chr CHR ''%''
        then loop out' b m (format + 1) (idx + 1) va (out' (fst st format) b idx m st)
        else do {
          (format, flags) \<leftarrow> parse_flags (fst st) (format + 1) 0;
          (format, flags, width, va) \<leftarrow> parse_width (fst st) format flags va;
          (format, flags, precision, va) \<leftarrow> parse_precision (fst st) format flags va;
          let (format, flags) = parse_length (fst st) format flags;
          (idx, va, st) \<leftarrow> out_conversion out' b m (fst st format) flags width precision idx va st;
          loop out' b m (format + 1) idx va st }) = Some r"
    show "out' = out \<and> b = buffer \<and> m = maxlen \<longrightarrow> keeps st (snd r)"
    proof (intro impI)
      assume e: "out' = out \<and> b = buffer \<and> m = maxlen"
      consider "fst st format = 0" | "fst st format \<noteq> 0" "fst st format \<noteq> chr CHR ''%''"
        | "fst st format \<noteq> 0" "fst st format = chr CHR ''%''" by blast
      then show "keeps st (snd r)"
      proof cases
        case 1
        then have "r = (idx, st)" using r by simp
        then show ?thesis by (simp add: keep_refl)
      next
        case 2
        then have "keeps (out (fst st format) buffer idx maxlen st) (snd r)" using r IH e by simp
        then show ?thesis by (rule keep_trans [OF keep_step])
      next
        case 3
        then obtain f c fl w p i va' va'' st' where
          c: "out_conversion out buffer maxlen c fl w p idx va' st = Some (i, va'', st')"
          and l: "loop out buffer maxlen f i va'' st' = Some r"
          using r e by (auto split: Option.bind_splits prod.splits)
        have "keeps st' (snd r)" using IH [OF l] by simp
        then show ?thesis by (rule keep_trans [OF out_conversion [OF c]])
      qed
    qed
  qed
  then show "format_loop out buffer maxlen format idx va st = Some r \<Longrightarrow> keeps st (snd r)" by blast
qed

end

text \<open>The call that ends the output, and the choice of \<open>_out_null\<close> for a null buffer.\<close>

lemma vsnprintf_keeps:
  assumes "sink out buffer maxlen keeps" "sink out_null buffer maxlen keeps"
    "vsnprintf out buffer maxlen format va st = Some (n, st')"
  shows "keeps st st'"
proof -
  define out' where "out' = (if buffer = 0 then out_null else out)"
  have "out' = out \<or> out' = out_null" by (simp add: out'_def)
  then have s: "sink out' buffer maxlen keeps" using assms(1,2) by metis
  obtain idx s1 where "format_loop out' buffer maxlen format 0 va st = Some (idx, s1)"
    "st' = out' 0 buffer (if idx < maxlen then idx else maxlen - 1) maxlen s1"
    using assms(3) by (auto simp: vsnprintf_def out'_def [symmetric] Let_def split: Option.bind_splits)
  then show ?thesis
    using sink.format_loop [OF s] sink.keep_trans [OF s] sink.keep_step [OF s] by (metis snd_conv)
qed

end
