(* ===== verification/PrintfText.thy ===== *)
theory PrintfText
  imports PrintfProps
begin

text \<open>
  What \<^verbatim>\<open>os/src/printf.c\<close> prints. A format is described by a list of directives; \<open>encode\<close> gives the
  characters of the format string, \<open>dir_text\<close> the text the directive stands for, by numbers and lists.
  The loop over the format is then one output of the concatenated texts, whatever the output function
  is, as long as it leaves the format and the strings alone; \<open>printf\<close> and \<open>snprintf\<close> are the two cases.
\<close>

section \<open>Characters and flags\<close>

lemma chr_codes:
  "chr CHR ''0'' = 48" "chr CHR ''9'' = 57" "chr CHR ''-'' = 45" "chr CHR ''+'' = 43" "chr CHR '' '' = 32"
  "chr CHR ''#'' = 35" "chr CHR ''%'' = 37" "chr CHR ''*'' = 42" "chr CHR ''.'' = 46" "chr CHR ''l'' = 108"
  "chr CHR ''h'' = 104" "chr CHR ''t'' = 116" "chr CHR ''j'' = 106" "chr CHR ''z'' = 122"
  "chr CHR ''d'' = 100" "chr CHR ''i'' = 105" "chr CHR ''u'' = 117" "chr CHR ''x'' = 120"
  "chr CHR ''X'' = 88" "chr CHR ''o'' = 111" "chr CHR ''b'' = 98" "chr CHR ''c'' = 99"
  "chr CHR ''s'' = 115" "chr CHR ''p'' = 112" "chr CHR ''A'' = 65" "chr CHR ''a'' = 97"
  by (simp_all add: chr_def)

lemmas flag_defs = FLAGS_ZEROPAD_def FLAGS_LEFT_def FLAGS_PLUS_def FLAGS_SPACE_def FLAGS_HASH_def
  FLAGS_UPPERCASE_def FLAGS_CHAR_def FLAGS_SHORT_def FLAGS_LONG_def FLAGS_LONG_LONG_def FLAGS_PRECISION_def

lemma has_bit: "k < 32 \<Longrightarrow> has f (push_bit k 1) \<longleftrightarrow> bit f k"
proof -
  assume "k < 32"
  have "f AND push_bit k 1 = (if bit f k then push_bit k 1 else 0)"
    by (rule bit_word_eqI) (auto simp: bit_simps bit_1_iff)
  moreover have "bit (push_bit k 1 :: u32) k"
    using \<open>k < 32\<close> by (simp add: bit_simps bit_1_iff)
  then have "push_bit k 1 \<noteq> (0 :: u32)" by (metis bit_0_eq bot_apply bot_bool_def)
  ultimately show ?thesis by (simp add: has_def)
qed

lemma has_or: "has f (a OR b) \<longleftrightarrow> has f a \<or> has f b"
  by (auto simp: has_def bit_eq_iff bit_simps)

lemma has_flags:
  "has f FLAGS_ZEROPAD \<longleftrightarrow> bit f 0" "has f FLAGS_LEFT \<longleftrightarrow> bit f 1" "has f FLAGS_PLUS \<longleftrightarrow> bit f 2"
  "has f FLAGS_SPACE \<longleftrightarrow> bit f 3" "has f FLAGS_HASH \<longleftrightarrow> bit f 4" "has f FLAGS_UPPERCASE \<longleftrightarrow> bit f 5"
  "has f FLAGS_CHAR \<longleftrightarrow> bit f 6" "has f FLAGS_SHORT \<longleftrightarrow> bit f 7" "has f FLAGS_LONG \<longleftrightarrow> bit f 8"
  "has f FLAGS_LONG_LONG \<longleftrightarrow> bit f 9" "has f FLAGS_PRECISION \<longleftrightarrow> bit f 10"
  by (simp_all only: flag_defs has_bit)

lemma bit_flag:
  "bit FLAGS_ZEROPAD k \<longleftrightarrow> k = 0" "bit FLAGS_LEFT k \<longleftrightarrow> k = 1" "bit FLAGS_PLUS k \<longleftrightarrow> k = 2"
  "bit FLAGS_SPACE k \<longleftrightarrow> k = 3" "bit FLAGS_HASH k \<longleftrightarrow> k = 4" "bit FLAGS_UPPERCASE k \<longleftrightarrow> k = 5"
  by (simp_all only: flag_defs bit_push_bit_iff bit_1_iff possible_bit_word) auto

section \<open>Texts\<close>

lemma out_text_append:
  "out_text out buffer maxlen (as @ bs) idx st =
     (case out_text out buffer maxlen as idx st of (i, s) \<Rightarrow> out_text out buffer maxlen bs i s)"
  by (induction as arbitrary: idx st) simp_all

lemma out_text_idx: "fst (out_text out buffer maxlen cs idx st) = idx + of_nat (length cs)"
  by (induction cs arbitrary: idx st) (simp_all add: add.assoc)

lemma out_text_snoc:
  "out_text out buffer maxlen as idx st = (i, s) \<Longrightarrow>
   out_text out buffer maxlen bs i s = out_text out buffer maxlen (as @ bs) idx st"
  by (simp add: out_text_append)

abbreviation spaces :: "nat \<Rightarrow> u8 list" where
  "spaces n \<equiv> replicate n 32"

abbreviation zeros :: "nat \<Rightarrow> u8 list" where
  "zeros n \<equiv> replicate n 48"

lemma pad_from_text:
  "pad_from out buffer maxlen i width idx st = out_text out buffer maxlen (spaces (unat width - unat i)) idx st"
proof (induction "unat width - unat i" arbitrary: i idx st rule: less_induct)
  case less
  show ?case
  proof (cases "i < width")
    case True
    then have "unat width - unat i = Suc (unat width - unat (i + 1))"
      using unat_Suc_less [OF True] by (simp add: word_less_nat_alt)
    then show ?thesis
      using less.hyps [OF unat_plus_1 [OF True]] True
      by (subst pad_from.simps) (simp add: chr_codes)
  next
    case False
    then show ?thesis by (subst pad_from.simps) (simp add: word_less_nat_alt)
  qed
qed

lemma pad_to_text:
  "pad_to out buffer maxlen s width idx st = out_text out buffer maxlen (spaces (unat width - unat (idx - s))) idx st"
proof (induction "unat width - unat (idx - s)" arbitrary: idx st rule: less_induct)
  case less
  show ?case
  proof (cases "idx - s < width")
    case True
    have e: "idx + 1 - s = idx - s + 1" by simp
    have "unat width - unat (idx - s) = Suc (unat width - unat (idx + 1 - s))"
      unfolding e using unat_Suc_less [OF True] True by (simp add: word_less_nat_alt)
    moreover have "unat width - unat (idx + 1 - s) < unat width - unat (idx - s)"
      unfolding e by (rule unat_plus_1 [OF True])
    ultimately show ?thesis
      using less.hyps True by (subst pad_to.simps) (simp add: chr_codes)
  next
    case False
    then show ?thesis by (subst pad_to.simps) (simp add: word_less_nat_alt)
  qed
qed

text \<open>The text \<open>_out_rev\<close> puts out.\<close>

definition rev_text :: "u8 list \<Rightarrow> nat \<Rightarrow> u32 \<Rightarrow> u8 list" where
  "rev_text buf width flags =
     (if \<not> has flags FLAGS_LEFT \<and> \<not> has flags FLAGS_ZEROPAD then spaces (width - length buf) else []) @
     rev buf @
     (if has flags FLAGS_LEFT then spaces (width - length buf) else [])"

lemma out_rev_text:
  assumes "length buf < 2 ^ 32"
  shows "out_rev out buffer idx maxlen buf width flags st =
    out_text out buffer maxlen (rev_text buf (unat width) flags) idx st"
proof -
  have u: "unat (of_nat (length buf) :: u32) = length buf" using assms by (rule unat_of_nat_32)
  show ?thesis
  proof (cases "has flags FLAGS_LEFT")
    case True
    obtain i s where r: "out_text out buffer maxlen (rev buf) idx st = (i, s)" by (metis surj_pair)
    then have "i = idx + of_nat (length buf)"
      using out_text_idx [of out buffer maxlen "rev buf" idx st] by simp
    then have "pad_to out buffer maxlen idx width i s =
        out_text out buffer maxlen (spaces (unat width - length buf)) i s"
      by (simp add: pad_to_text u)
    then show ?thesis using True r by (simp add: out_rev_def rev_text_def out_text_append)
  next
    case False
    then show ?thesis
      by (auto simp: out_rev_def rev_text_def out_text_append pad_from_text u Let_def split: prod.splits)
  qed
qed

section \<open>Numbers\<close>

lemma digits_length_u32: "0 \<le> n \<Longrightarrow> n < 2 ^ 32 \<Longrightarrow> 2 \<le> b \<Longrightarrow> length (digits b n) \<le> 32"
proof (cases "n = 0")
  case False
  assume a: "0 \<le> n" "n < 2 ^ 32" "2 \<le> b"
  then have "(2::int) ^ (length (digits b n) - 1) < 2 ^ 32"
    using digits_length [of n b] False by linarith
  then have "length (digits b n) - 1 < 32" by (rule power_less_imp_less_exp [rotated]) simp
  then show ?thesis by simp
qed (subst digits.simps, simp)

text \<open>The character of a digit, in lower or upper case.\<close>

definition digit_text :: "bool \<Rightarrow> int \<Rightarrow> u8" where
  "digit_text upper x = word_of_int (if x < 10 then 48 + x else if upper then 55 + x else 87 + x)"

lemma digit_char_text:
  assumes "0 \<le> x" "x < 16"
  shows "digit_char flags (word_of_int x) = digit_text (has flags FLAGS_UPPERCASE) x"
proof -
  have "x \<in> {0, 1, 2, 3, 4, 5, 6, 7, 8, 9, 10, 11, 12, 13, 14, 15}"
    using assms by (simp, presburger)
  then show ?thesis by (auto simp: digit_char_def digit_text_def chr_codes)
qed

lemma ntoa_digits_text:
  assumes "2 \<le> b" "b \<le> 16"
  shows "0 \<le> n \<Longrightarrow> n < 2 ^ 32 \<Longrightarrow> length buf + length (digits b n) \<le> 32 \<Longrightarrow>
    ntoa_digits (word_of_int n :: u32) (word_of_int b) flags buf =
      buf @ rev (map (digit_text (has flags FLAGS_UPPERCASE)) (digits b n))"
  using assms
proof (induction b n arbitrary: buf rule: digits.induct)
  case (1 b n)
  let ?t = "digit_text (has flags FLAGS_UPPERCASE)"
  have r: "0 \<le> n mod b" "n mod b < 16"
    using pos_mod_sign [of b n] pos_mod_bound [of b n] \<open>2 \<le> b\<close> \<open>b \<le> 16\<close> by linarith+
  have "uint (word_of_int n :: u32) = n" "uint (word_of_int b :: u32) = b"
    using 1 by (simp_all add: uint_word_of_int)
  note un = this
  have m: "word_of_int n mod word_of_int b = (word_of_int (n mod b) :: u32)"
    by (simp add: word_mod_def un del: uint_word_of_int_eq)
  have d: "word_of_int n div word_of_int b = (word_of_int (n div b) :: u32)"
    by (simp add: word_div_def un del: uint_word_of_int_eq)
  have u: "ucast (word_of_int (n mod b) :: u32) = (word_of_int (n mod b) :: u8)"
    by (rule bit_word_eqI) (simp add: bit_simps)
  have c: "digit_char flags (word_of_int (n mod b)) = ?t (n mod b)" by (rule digit_char_text [OF r])
  show ?case
  proof (cases "b \<le> n")
    case False
    then have "digits b n = [n]" "n mod b = n" "n div b = 0" using 1 by (simp_all add: digits.simps [of b n])
    then show ?thesis using c u by (subst ntoa_digits.simps) (simp add: m d)
  next
    case True
    then have e: "digits b n = digits b (n div b) @ [n mod b]" using 1 by (simp add: digits.simps [of b n])
    have q: "0 < n div b" using True 1 by (simp add: pos_imp_zdiv_pos_iff)
    have q2: "n div b < 2 ^ 32" using 1 q zdiv_mono2 [of n 1 b] by simp
    have nz: "(word_of_int (n div b) :: u32) \<noteq> 0"
      using q q2 by (simp add: word_of_int_eq_0_iff zdvd_not_zless)
    have l: "length buf + 1 + length (digits b (n div b)) \<le> 32" using 1 e by simp
    then have l2: "length buf + 1 < 32" using digits_nonempty [of b "n div b"] by (cases "digits b (n div b)") auto
    have "ntoa_digits (word_of_int n :: u32) (word_of_int b) flags buf =
        ntoa_digits (word_of_int (n div b) :: u32) (word_of_int b) flags (buf @ [?t (n mod b)])"
      using nz l2 by (subst ntoa_digits.simps) (simp add: Let_def m d u c PRINTF_NTOA_BUFFER_SIZE_def)
    also have "\<dots> = (buf @ [?t (n mod b)]) @ rev (map ?t (digits b (n div b)))"
      using 1 True q q2 l by (intro 1(1)) simp_all
    finally show ?thesis by (simp add: e)
  qed
qed

lemma pad_digits_text: "pad_digits limit buf = buf @ zeros (min (unat limit) 32 - length buf)"
proof (induction limit buf rule: pad_digits.induct)
  case (1 limit buf)
  show ?case
  proof (cases "length buf < unat limit \<and> length buf < 32")
    case True
    then have "min (unat limit) 32 - length buf = Suc (min (unat limit) 32 - length (buf @ [48]))" by auto
    then show ?thesis
      using 1 True by (subst pad_digits.simps) (simp add: PRINTF_NTOA_BUFFER_SIZE_def chr_codes)
  next
    case False
    then have "min (unat limit) 32 - length buf = 0" by auto
    then show ?thesis
      using False by (subst pad_digits.simps) (auto simp: PRINTF_NTOA_BUFFER_SIZE_def)
  qed
qed

text \<open>The text of a number in a field: the sign, and the padding on the side the flags ask for.\<close>

definition sign_text :: "bool \<Rightarrow> bool \<Rightarrow> bool \<Rightarrow> u8 list" where
  "sign_text neg pos blank =
     (if neg then [45] else if pos then [43] else if blank then [32] else [])"

definition field :: "bool \<Rightarrow> bool \<Rightarrow> nat \<Rightarrow> u8 list \<Rightarrow> u8 list \<Rightarrow> u8 list" where
  "field left zero width sign ds =
     (let n = width - length (sign @ ds)
      in if left then sign @ ds @ spaces n
         else if zero then sign @ zeros n @ ds
         else spaces n @ sign @ ds)"

lemma ntoa_format_text:
  assumes l: "length ds + length (sign_text negative (has flags FLAGS_PLUS) (has flags FLAGS_SPACE)) \<le> 32"
    and w: "has flags FLAGS_ZEROPAD \<Longrightarrow> \<not> has flags FLAGS_LEFT \<Longrightarrow> unat width \<le> 32"
    and h: "\<not> has flags FLAGS_HASH"
  shows "ntoa_format out buffer idx maxlen (rev ds) negative base 0 width flags st =
    out_text out buffer maxlen (field (has flags FLAGS_LEFT) (has flags FLAGS_ZEROPAD) (unat width) (sign_text negative (has flags FLAGS_PLUS) (has flags FLAGS_SPACE)) ds) idx st"
proof -
  let ?s = "sign_text negative (has flags FLAGS_PLUS) (has flags FLAGS_SPACE)"
  have p0: "pad_digits 0 (rev ds) = rev ds" by (simp add: pad_digits_text)
  show ?thesis
  proof (cases "\<not> has flags FLAGS_LEFT \<and> has flags FLAGS_ZEROPAD")
    case False
    have "ntoa_sign (rev ds) negative flags = rev (?s @ ds)"
      using l by (auto simp: ntoa_sign_def sign_text_def chr_codes PRINTF_NTOA_BUFFER_SIZE_def split: if_splits)
    then have "ntoa_format out buffer idx maxlen (rev ds) negative base 0 width flags st =
        out_rev out buffer idx maxlen (rev (?s @ ds)) width flags st"
      using False h p0 by (auto simp: ntoa_format_def)
    also have "\<dots> = out_text out buffer maxlen (rev_text (rev (?s @ ds)) (unat width) flags) idx st"
      using l by (intro out_rev_text) simp
    also have "rev_text (rev (?s @ ds)) (unat width) flags = field (has flags FLAGS_LEFT) (has flags FLAGS_ZEROPAD) (unat width) ?s ds"
      using False by (auto simp: rev_text_def field_def)
    finally show ?thesis .
  next
    case True
    define v where "v = (if width \<noteq> 0 \<and> has flags FLAGS_ZEROPAD \<and>
      (negative \<or> has flags (FLAGS_PLUS OR FLAGS_SPACE)) then width - 1 else width)"
    have v: "unat v = unat width - length ?s"
      by (auto simp: v_def sign_text_def has_or True unat_minus_one unat_gt_0)
    define n where "n = unat width - length (?s @ ds)"
    have "min (unat v) 32 - length ds = n" using w True v by (auto simp: n_def)
    then have p: "pad_digits v (rev ds) = rev (zeros n @ ds)" by (simp add: pad_digits_text)
    have "length (zeros n @ ds) + length ?s \<le> 32" using l w True by (auto simp: n_def)
    then have "ntoa_sign (rev (zeros n @ ds)) negative flags = rev (?s @ zeros n @ ds)"
      by (auto simp: ntoa_sign_def sign_text_def chr_codes PRINTF_NTOA_BUFFER_SIZE_def split: if_splits)
    then have "ntoa_format out buffer idx maxlen (rev ds) negative base 0 width flags st =
        out_rev out buffer idx maxlen (rev (?s @ zeros n @ ds)) v flags st"
      unfolding ntoa_format_def Let_def v_def [symmetric] using True h p0 p by simp
    also have "\<dots> = out_text out buffer maxlen (rev_text (rev (?s @ zeros n @ ds)) (unat v) flags) idx st"
      using \<open>length (zeros n @ ds) + length ?s \<le> 32\<close> by (intro out_rev_text) simp
    also have "rev_text (rev (?s @ zeros n @ ds)) (unat v) flags = field (has flags FLAGS_LEFT) (has flags FLAGS_ZEROPAD) (unat width) ?s ds"
      using True by (simp add: rev_text_def field_def n_def)
    finally show ?thesis .
  qed
qed

section \<open>Directives\<close>

text \<open>
  A conversion of the format with its argument: an integer with the letter of its conversion, a
  character, or a string with its address. A directive is a character that stands for itself, \<open>%%\<close>,
  or a conversion with its flags and its width.
\<close>

datatype conversion = IntConv u8 u32 | ChrConv u32 | StrConv u32 "u8 list"

datatype directive = Lit u8 | Percent | Conv "u8 list" nat conversion

fun conv_char :: "conversion \<Rightarrow> u8" where
  "conv_char (IntConv c v) = c"
| "conv_char (ChrConv v) = 99"
| "conv_char (StrConv p s) = 115"

fun conv_arg :: "conversion \<Rightarrow> va_word" where
  "conv_arg (IntConv c v) = W32 v"
| "conv_arg (ChrConv v) = W32 v"
| "conv_arg (StrConv p s) = W32 p"

definition width_text :: "nat \<Rightarrow> u8 list" where
  "width_text w = (if w = 0 then [] else map (digit_text False) (digits 10 (int w)))"

fun encode :: "directive \<Rightarrow> u8 list" where
  "encode (Lit b) = [b]"
| "encode Percent = [37, 37]"
| "encode (Conv fl w a) = 37 # fl @ width_text w @ [conv_char a]"

fun dir_args :: "directive \<Rightarrow> va_word list" where
  "dir_args (Conv fl w a) = [conv_arg a]"
| "dir_args d = []"

definition conv_base :: "u8 \<Rightarrow> int" where
  "conv_base c = (if c = 120 \<or> c = 88 then 16 else if c = 111 then 8 else if c = 98 then 2 else 10)"

definition int_text :: "u8 list \<Rightarrow> nat \<Rightarrow> u8 \<Rightarrow> u32 \<Rightarrow> u8 list" where
  "int_text fl w c v =
     (let sgnd = (c = 100 \<or> c = 105); neg = (sgnd \<and> sint v < 0)
      in field (45 \<in> set fl) (48 \<in> set fl) w
           (sign_text neg (sgnd \<and> 43 \<in> set fl) (sgnd \<and> 32 \<in> set fl))
           (map (digit_text (c = 88)) (digits (conv_base c) (if sgnd then \<bar>sint v\<bar> else uint v))))"

fun conv_text :: "u8 list \<Rightarrow> nat \<Rightarrow> conversion \<Rightarrow> u8 list" where
  "conv_text fl w (IntConv c v) = int_text fl w c v"
| "conv_text fl w (ChrConv v) = field (45 \<in> set fl) False w [] [ucast v]"
| "conv_text fl w (StrConv p s) = field (45 \<in> set fl) False w [] s"

fun dir_text :: "directive \<Rightarrow> u8 list" where
  "dir_text (Lit b) = [b]"
| "dir_text Percent = [37]"
| "dir_text (Conv fl w a) = conv_text fl w a"

text \<open>
  The conversions covered: the integers in all bases, characters, and strings that lie in the
  memory; the flags \<open>0\<close>, \<open>-\<close>, \<open>+\<close> and space; a width of 32 bits, at most 32 where zeros fill it.
\<close>

fun conv_ok :: "mem32 \<Rightarrow> u32 set \<Rightarrow> conversion \<Rightarrow> bool" where
  "conv_ok m R (IntConv c v) \<longleftrightarrow> c \<in> {100, 105, 117, 120, 88, 111, 98}"
| "conv_ok m R (ChrConv v) \<longleftrightarrow> True"
| "conv_ok m R (StrConv p s) \<longleftrightarrow>
     c_string m p s \<and> bytes_at p (Suc (length s)) \<subseteq> R \<and> length s < 2 ^ 32 - 1"

fun dir_ok :: "mem32 \<Rightarrow> u32 set \<Rightarrow> directive \<Rightarrow> bool" where
  "dir_ok m R (Lit b) \<longleftrightarrow> b \<noteq> 37"
| "dir_ok m R Percent \<longleftrightarrow> True"
| "dir_ok m R (Conv fl w a) \<longleftrightarrow> set fl \<subseteq> {48, 45, 43, 32} \<and> w < 2 ^ 32 \<and>
     (48 \<in> set fl \<longrightarrow> 45 \<notin> set fl \<longrightarrow> w \<le> 32) \<and> conv_ok m R a"

section \<open>Conversions\<close>

lemma int_digits_length:
  assumes "\<bar>n\<bar> \<le> 2 ^ 31"
  shows "length (digits 10 \<bar>n\<bar>) \<le> 31"
proof (cases "\<bar>n\<bar> = 2 ^ 31")
  case True
  have "length (digits 10 (2 ^ 31)) \<le> 31" by (simp add: digits.simps)
  then show ?thesis using True by simp
next
  case False
  then show ?thesis using assms by (intro digits_length_32) auto
qed

lemma ntoa_long_text:
  assumes b: "2 \<le> b" "b \<le> 16" and n: "0 \<le> n" "n < 2 ^ 32"
    and l: "length (digits b n) + length (sign_text negative (bit flags 2) (bit flags 3)) \<le> 32"
    and w: "bit flags 0 \<Longrightarrow> \<not> bit flags 1 \<Longrightarrow> unat width \<le> 32"
    and f: "\<not> bit flags 4" "\<not> bit flags 10"
  shows "ntoa_long out buffer idx maxlen (word_of_int n) negative (word_of_int b) 0 width flags st =
    out_text out buffer maxlen (field (bit flags 1) (bit flags 0) (unat width)
      (sign_text negative (bit flags 2) (bit flags 3)) (map (digit_text (bit flags 5)) (digits b n))) idx st"
proof -
  have "flags AND NOT FLAGS_HASH = flags"
    using f by (intro bit_word_eqI) (auto simp: bit_simps bit_flag)
  then have h: "(if b then flags AND NOT FLAGS_HASH else flags) = flags" for b by simp
  have d: "ntoa_digits (word_of_int n :: u32) (word_of_int b) flags [] =
      rev (map (digit_text (bit flags 5)) (digits b n))"
    using ntoa_digits_text [of b n "[]" flags] b n digits_length_u32 [of n b] by (simp add: has_flags)
  have "ntoa_format out buffer idx maxlen (rev (map (digit_text (bit flags 5)) (digits b n))) negative
      (word_of_int b) 0 width flags st =
    out_text out buffer maxlen (field (bit flags 1) (bit flags 0) (unat width)
      (sign_text negative (bit flags 2) (bit flags 3)) (map (digit_text (bit flags 5)) (digits b n))) idx st"
    using ntoa_format_text [of "map (digit_text (bit flags 5)) (digits b n)" negative flags width] l w f
    by (simp add: has_flags)
  then show ?thesis unfolding ntoa_long_def h Let_def using d f by (simp add: has_flags)
qed

text \<open>The flags word the loop over the flag characters builds, bit by bit.\<close>

definition flags_word :: "u32 \<Rightarrow> u8 list \<Rightarrow> u32" where
  "flags_word f fl = foldl (\<lambda>f c. f OR (case flag_of c of Some b \<Rightarrow> b | None \<Rightarrow> 0)) f fl"

lemma flags_word_simps:
  "flags_word f [] = f"
  "flags_word f (c # fl) = flags_word (f OR (case flag_of c of Some b \<Rightarrow> b | None \<Rightarrow> 0)) fl"
  by (simp_all add: flags_word_def)

lemma flag_of_codes:
  "flag_of 48 = Some FLAGS_ZEROPAD" "flag_of 45 = Some FLAGS_LEFT" "flag_of 43 = Some FLAGS_PLUS"
  "flag_of 32 = Some FLAGS_SPACE" "flag_of c = None \<longleftrightarrow> c \<notin> {48, 45, 43, 32, 35}"
  by (auto simp: flag_of_def chr_codes)

lemma bit_flags_word:
  "set fl \<subseteq> {48, 45, 43, 32} \<Longrightarrow> bit (flags_word f fl) k \<longleftrightarrow>
     bit f k \<or> k = 0 \<and> 48 \<in> set fl \<or> k = 1 \<and> 45 \<in> set fl \<or> k = 2 \<and> 43 \<in> set fl \<or> k = 3 \<and> 32 \<in> set fl"
proof (induction fl arbitrary: f)
  case Nil
  then show ?case by (simp add: flags_word_simps)
next
  case (Cons c fl)
  then have "c = 48 \<or> c = 45 \<or> c = 43 \<or> c = 32" by auto
  then show ?case
    using Cons by (elim disjE) (auto simp: flags_word_simps flag_of_codes bit_or_iff bit_flag)
qed

text \<open>An integer conversion with its flags.\<close>

lemma bit_int_flags:
  assumes fl: "set fl \<subseteq> {48, 45, 43, 32}" and f_def: "f = int_flags c (flags_word 0 fl)"
  shows "bit f 0 \<longleftrightarrow> 48 \<in> set fl" "bit f 1 \<longleftrightarrow> 45 \<in> set fl"
    "bit f 2 \<longleftrightarrow> signed_conv c \<and> 43 \<in> set fl" "bit f 3 \<longleftrightarrow> signed_conv c \<and> 32 \<in> set fl"
    "bit f 5 \<longleftrightarrow> c = 88" "\<not> bit f 4" "\<not> bit f 6" "\<not> bit f 7" "\<not> bit f 8" "\<not> bit f 9" "\<not> bit f 10"
proof -
  define g where "g = flags_word 0 fl"
  have g: "bit g k \<longleftrightarrow> k = 0 \<and> 48 \<in> set fl \<or> k = 1 \<and> 45 \<in> set fl \<or> k = 2 \<and> 43 \<in> set fl \<or> k = 3 \<and> 32 \<in> set fl" for k
    unfolding g_def using bit_flags_word [OF fl, of 0 k] by simp
  define g1 where "g1 = (if int_base c = 10 then g AND NOT FLAGS_HASH else g)"
  define g2 where "g2 = (if c = 88 then g1 OR FLAGS_UPPERCASE else g1)"
  define g3 where "g3 = (if \<not> signed_conv c then g2 AND NOT (FLAGS_PLUS OR FLAGS_SPACE) else g2)"
  have g1: "k < 32 \<Longrightarrow> bit g1 k \<longleftrightarrow> bit g k \<and> (int_base c = 10 \<longrightarrow> k \<noteq> 4)" for k
    by (simp add: g1_def bit_and_iff bit_not_iff bit_flag)
  have g2: "k < 32 \<Longrightarrow> bit g2 k \<longleftrightarrow> bit g1 k \<or> c = 88 \<and> k = 5" for k
    by (simp add: g2_def bit_or_iff bit_flag)
  have g3: "k < 32 \<Longrightarrow> bit g3 k \<longleftrightarrow> bit g2 k \<and> (signed_conv c \<or> k \<noteq> 2 \<and> k \<noteq> 3)" for k
    by (simp add: g3_def bit_and_iff bit_not_iff bit_or_iff bit_flag)
  have "f = (if has g3 FLAGS_PRECISION then g3 AND NOT FLAGS_ZEROPAD else g3)"
    by (simp only: f_def int_flags_def Let_def chr_codes g3_def g2_def g1_def g_def)
  then have "f = g3" by (simp add: has_flags g3 g2 g1 g)
  then show "bit f 0 \<longleftrightarrow> 48 \<in> set fl" "bit f 1 \<longleftrightarrow> 45 \<in> set fl"
    "bit f 2 \<longleftrightarrow> signed_conv c \<and> 43 \<in> set fl" "bit f 3 \<longleftrightarrow> signed_conv c \<and> 32 \<in> set fl"
    "bit f 5 \<longleftrightarrow> c = 88" "\<not> bit f 4" "\<not> bit f 6" "\<not> bit f 7" "\<not> bit f 8" "\<not> bit f 9" "\<not> bit f 10"
    by (simp_all add: g3 g2 g1 g conj_commute)
qed

lemma out_integer_text:
  assumes fl: "set fl \<subseteq> {48, 45, 43, 32}" and c: "c \<in> {100, 105, 117, 120, 88, 111, 98}"
    and w: "w < 2 ^ 32" "48 \<in> set fl \<longrightarrow> 45 \<notin> set fl \<longrightarrow> w \<le> 32"
  shows "out_integer out buffer maxlen c (flags_word 0 fl) (of_nat w) 0 idx (W32 v # va) st =
    (case out_text out buffer maxlen (int_text fl w c v) idx st of (i, s) \<Rightarrow> Some (i, va, s))"
proof -
  define f where "f = int_flags c (flags_word 0 fl)"
  note f = bit_int_flags [OF fl f_def]
  have sg: "signed_conv c \<longleftrightarrow> c = 100 \<or> c = 105" by (auto simp: signed_conv_def chr_codes)
  have b: "int_base c = word_of_int (conv_base c)" "2 \<le> conv_base c" "conv_base c \<le> 16"
    using c by (auto simp: int_base_def conv_base_def chr_codes)
  have u: "unat (of_nat w :: u32) = w" using w by (intro unat_of_nat_32) simp
  show ?thesis
  proof (cases "signed_conv c")
    case True
    then have b10: "conv_base c = 10" by (auto simp: sg conv_base_def)
    have m: "(if 0 <s v then v else 0 - v) = word_of_int \<bar>sint v\<bar>"
      using sint_inject_32 [of v 0] by (auto simp: word_sless_alt abs_if)
    have a: "\<bar>sint v\<bar> \<le> 2 ^ 31" using sint_lt_32 [of v] sint_ge_32 [of v] by auto
    have l: "length (digits (conv_base c) \<bar>sint v\<bar>) + length (sign_text (v <s 0) (bit f 2) (bit f 3)) \<le> 32"
      using int_digits_length [OF a] by (simp add: b10 sign_text_def)
    have "ntoa_long out buffer idx maxlen (if 0 <s v then v else 0 - v) (v <s 0) (int_base c) 0 (of_nat w) f st =
        out_text out buffer maxlen (int_text fl w c v) idx st"
      unfolding m b(1) using b(2,3) a l w f True
      by (subst ntoa_long_text) (auto simp: u int_text_def sg word_sless_alt Let_def)
    then show ?thesis using True f
      by (simp add: out_integer_def f_def [symmetric] has_flags Let_def)
  next
    case False
    have m: "v = word_of_int (uint v)" by simp
    have l: "length (digits (conv_base c) (uint v)) + length (sign_text False (bit f 2) (bit f 3)) \<le> 32"
      using digits_length_u32 [of "uint v" "conv_base c"] b False f by (simp add: sign_text_def)
    have "ntoa_long out buffer idx maxlen (word_of_int (uint v)) False (int_base c) 0 (of_nat w) f st =
        out_text out buffer maxlen (int_text fl w c v) idx st"
      unfolding b(1) using b(2,3) l w f False
      by (subst ntoa_long_text) (auto simp: u int_text_def sg Let_def)
    then show ?thesis using False f
      by (simp add: out_integer_def f_def [symmetric] has_flags Let_def)
  qed
qed

lemma out_chr_text:
  assumes fl: "set fl \<subseteq> {48, 45, 43, 32}" and w: "w < 2 ^ 32"
  shows "out_chr out buffer maxlen (flags_word 0 fl) (of_nat w) idx (W32 v # va) st =
    (case out_text out buffer maxlen (field (45 \<in> set fl) False w [] [ucast v]) idx st of (i, s) \<Rightarrow> Some (i, va, s))"
proof -
  have u: "unat (of_nat w :: u32) = w" using w by (intro unat_of_nat_32) simp
  show ?thesis
    using bit_flags_word [OF fl, of 0 1]
    by (auto simp: out_chr_def Let_def has_flags pad_from_text u field_def out_text_append split: prod.splits)
qed

section \<open>The format\<close>

lemma c_string_append:
  "c_string m p (as @ bs) \<longleftrightarrow>
     (\<forall>k < length as. m (p + of_nat k) = as ! k \<and> as ! k \<noteq> 0) \<and> c_string m (p + of_nat (length as)) bs"
proof (induction as arbitrary: p)
  case (Cons b as)
  show ?case
    unfolding append_Cons c_string.simps Cons.IH by (simp add: All_less_Suc2 add.assoc) blast
qed simp

lemma c_string_cong:
  assumes "\<And>x. x \<in> bytes_at p (Suc (length s)) \<Longrightarrow> m x = m' x"
  shows "c_string m p s \<longleftrightarrow> c_string m' p s"
proof -
  have "m (p + of_nat k) = m' (p + of_nat k)" if "k \<le> length s" for k
    using assms that by (simp add: bytes_at_def)
  then show ?thesis by (auto simp: c_string_nth)
qed

lemma c_string_head: "c_string m p (b # bs) \<Longrightarrow> m p = b \<and> c_string m (p + 1) bs"
  by simp

lemma parse_flags_string:
  "c_string m p (fl @ c # rest) \<Longrightarrow> set fl \<subseteq> {48, 45, 43, 32} \<Longrightarrow> flag_of c = None \<Longrightarrow>
   parse_flags m p f = Some (p + of_nat (length fl), flags_word f fl)"
proof (induction fl arbitrary: p f)
  case Nil
  then show ?case by (subst parse_flags.simps) (simp add: flags_word_simps)
next
  case (Cons b fl)
  then have "b = 48 \<or> b = 45 \<or> b = 43 \<or> b = 32" "m p = b" "c_string m (p + 1) (fl @ c # rest)" by auto
  then show ?case
    using Cons.IH [of "p + 1"] Cons.prems
    by (subst parse_flags.simps) (auto simp: flags_word_simps flag_of_codes add.assoc)
qed

lemma fmt_is_digit_code: "fmt_is_digit b \<longleftrightarrow> 48 \<le> b \<and> b \<le> 57"
  by (simp add: fmt_is_digit_def chr_codes)

lemma digit_text_10:
  assumes "0 \<le> x" "x < 10"
  shows "digit_text up x = digit_byte x"
  using assms by (simp add: digit_text_def digit_byte_def add.commute)

lemma fmt_atoi_string:
  "c_string m p (map (digit_text False) xs @ c # rest) \<Longrightarrow> \<forall>x \<in> set xs. 0 \<le> x \<and> x < 10 \<Longrightarrow> \<not> fmt_is_digit c \<Longrightarrow>
   fmt_atoi m p (word_of_int i) =
     Some (p + of_nat (length xs), word_of_int (foldl (\<lambda>v x. 10 * v + x) i xs))"
proof (induction xs arbitrary: p i)
  case Nil
  then show ?case by (subst fmt_atoi.simps) simp
next
  case (Cons x xs)
  have x: "0 \<le> x" "x < 10" using Cons.prems by auto
  have m: "m p = digit_byte x" "c_string m (p + 1) (map (digit_text False) xs @ c # rest)"
    using Cons.prems x by (simp_all add: digit_text_10)
  have d: "fmt_is_digit (m p)" using is_digit_byte [OF x] by (simp add: m fmt_is_digit_code is_digit_def)
  have "ucast (digit_byte x) = (word_of_int (x + 48) :: u32)"
    by (rule word_uint_eqI) (use x in \<open>simp add: unsigned_ucast_eq uint_word_of_int take_bit_int_eq_self del: of_int_add\<close>)
  then have "word_of_int i * 10 + (ucast (m p) - ucast (chr CHR ''0'')) = (word_of_int (10 * i + x) :: u32)"
    by (simp add: m chr_codes)
  then have "fmt_atoi m p (word_of_int i) = fmt_atoi m (p + 1) (word_of_int (10 * i + x))"
    using d by (subst fmt_atoi.simps) (simp add: mult.commute)
  then show ?case using Cons.IH [OF m(2), of "10 * i + x"] Cons.prems by (simp add: add.assoc)
qed

lemma digits_hd: "0 < n \<Longrightarrow> 2 \<le> b \<Longrightarrow> hd (digits b n) \<noteq> 0"
proof (induction b n rule: digits.induct)
  case (1 b n)
  show ?case
  proof (cases "b \<le> n")
    case True
    then have "0 < n div b" using 1 by (simp add: pos_imp_zdiv_pos_iff)
    then show ?thesis
      using 1 True digits_nonempty [of b "n div b"] by (subst digits.simps) (simp add: hd_append)
  qed (use 1 in \<open>simp add: digits.simps [of b n]\<close>)
qed

lemma parse_width_string:
  assumes s: "c_string m p (width_text w @ c # rest)" and w: "w < 2 ^ 32"
    and c: "\<not> fmt_is_digit c" "c \<noteq> 42"
  shows "parse_width m p f va = Some (p + of_nat (length (width_text w)), f, of_nat w, va)"
proof (cases "w = 0")
  case True
  then show ?thesis using s c by (simp add: width_text_def parse_width_def chr_codes)
next
  case False
  define xs where "xs = digits 10 (int w)"
  have r: "\<forall>x \<in> set xs. 0 \<le> x \<and> x < 10" using digits_range [of "int w" 10] by (auto simp: xs_def)
  obtain y ys where xs: "xs = y # ys" using digits_nonempty [of 10 "int w"] by (cases xs) (auto simp: xs_def)
  have t: "width_text w = map (digit_text False) xs" using False by (simp add: width_text_def xs_def)
  have "m p = digit_byte y" using s xs r by (simp add: t digit_text_10)
  then have "fmt_is_digit (m p)"
    using is_digit_byte [of y] xs r by (simp add: fmt_is_digit_code is_digit_def)
  moreover have "fmt_atoi m p 0 = Some (p + of_nat (length xs), of_nat w)"
    using fmt_atoi_string [of m p xs c rest 0] s r c digits_value [of "int w" 10]
    by (simp add: t xs_def)
  ultimately show ?thesis by (simp add: parse_width_def t)
qed

text \<open>The character after the flags of a directive is no flag.\<close>

lemma after_flags:
  assumes "c \<in> {100, 105, 117, 120, 88, 111, 98, 99, 115}"
  obtains b t where "width_text w @ [c] = b # t" "flag_of b = None"
proof (cases "w = 0")
  case True
  then show ?thesis using assms that [of c "[]"] by (auto simp: width_text_def flag_of_codes)
next
  case False
  obtain y ys where d: "digits 10 (int w) = y # ys" using digits_nonempty [of 10 "int w"] by (metis neq_Nil_conv)
  have "y \<in> {1, 2, 3, 4, 5, 6, 7, 8, 9}"
    using digits_hd [of "int w" 10] digits_range [of "int w" 10 y] False d by (simp, presburger)
  then have "flag_of (digit_text False y) = None" by (auto simp: flag_of_codes digit_text_def)
  then show ?thesis using that [of "digit_text False y"] False d by (simp add: width_text_def)
qed

text \<open>\<open>_strnlen_s\<close> without a limit is the length of the string.\<close>

lemma strnlen_s_string:
  "c_string m s bs \<Longrightarrow> length bs \<le> unat n \<Longrightarrow> strnlen_s m str s n = s - str + of_nat (length bs)"
proof (induction bs arbitrary: s n)
  case Nil
  then show ?case by (subst strnlen_s.simps) simp
next
  case (Cons b bs)
  then have "n \<noteq> 0" by auto
  then have "length bs \<le> unat (n - 1)" using Cons.prems by (simp add: unat_minus_one)
  then show ?case using Cons.IH [of "s + 1" "n - 1"] Cons.prems \<open>n \<noteq> 0\<close>
    by (subst strnlen_s.simps) (simp add: algebra_simps)
qed

lemma strnlen_string:
  "c_string m p s \<Longrightarrow> length s < 2 ^ 32 - 1 \<Longrightarrow> strnlen_s m p p (- 1) = of_nat (length s)"
  using strnlen_s_string [of m p s "- 1" p] by (simp add: unsigned_minus_1_eq_mask mask_eq_exp_minus_1)

text \<open>
  An output function that respects a set of addresses: the format and the strings, when they lie in
  it, are read as they were.
\<close>

locale printer = sink +
  fixes R :: "u32 set"
  assumes keep_mem: "keeps st st' \<Longrightarrow> x \<in> R \<Longrightarrow> fst st' x = fst st x"
begin

lemma keep_string:
  "keeps st st' \<Longrightarrow> bytes_at p (Suc (length s)) \<subseteq> R \<Longrightarrow> c_string (fst st') p s \<longleftrightarrow> c_string (fst st) p s"
  by (intro c_string_cong) (auto simp: keep_mem)

lemma keep_text:
  "out_text out buffer maxlen cs idx st = (i, s) \<Longrightarrow> keeps st s"
  using out_text [of st cs idx] by simp

lemma str_loop_text:
  "c_string (fst st) p s \<Longrightarrow> bytes_at p (Suc (length s)) \<subseteq> R \<Longrightarrow> \<not> has flags FLAGS_PRECISION \<Longrightarrow>
   str_loop out buffer maxlen flags prec p idx st = Some (Printf.out_text out buffer maxlen s idx st)"
proof (induction s arbitrary: p idx st)
  case Nil
  then show ?case by (subst str_loop.simps) simp
next
  case (Cons b s)
  have r: "bytes_at (p + 1) (Suc (length s)) \<subseteq> R" using Cons.prems by (simp add: bytes_at_Suc)
  have "c_string (fst (out b buffer idx maxlen st)) (p + 1) s"
    using keep_string [OF keep_step r] Cons.prems by simp
  from Cons.IH [OF this r] Cons.prems show ?case by (subst str_loop.simps) simp
qed

lemma out_string_text:
  assumes s: "c_string (fst st) p s" "bytes_at p (Suc (length s)) \<subseteq> R" "length s < 2 ^ 32 - 1"
    and fl: "set fl \<subseteq> {48, 45, 43, 32}" and w: "w < 2 ^ 32"
  shows "out_string out buffer maxlen (flags_word 0 fl) (of_nat w) 0 idx (W32 p # va) st =
    (case Printf.out_text out buffer maxlen (field (45 \<in> set fl) False w [] s) idx st of (i, st) \<Rightarrow> Some (i, va, st))"
proof -
  let ?f = "flags_word 0 fl"
  have u: "unat (of_nat w :: u32) = w" "unat (of_nat (length s) :: u32) = length s"
    using w s(3) by (auto intro!: unat_of_nat_32)
  have b: "has ?f FLAGS_LEFT \<longleftrightarrow> 45 \<in> set fl" "\<not> has ?f FLAGS_PRECISION"
    using bit_flags_word [OF fl, of 0] by (simp_all add: has_flags)
  have l: "string_len (fst st) ?f 0 p = of_nat (length s)"
    using strnlen_string [of "fst st" p s] s b by (simp add: string_len_def)
  show ?thesis
  proof (cases "45 \<in> set fl")
    case True
    then show ?thesis
      using str_loop_text [OF s(1,2) b(2), of 0 idx]
      by (auto simp: out_string_def l b pad_from_text u field_def out_text_append split: prod.splits)
  next
    case False
    obtain i1 s1 where 1: "Printf.out_text out buffer maxlen (spaces (w - length s)) idx st = (i1, s1)"
      by (metis surj_pair)
    have "c_string (fst s1) p s" using keep_string [OF keep_text [OF 1] s(2)] s(1) by simp
    from str_loop_text [OF this s(2) b(2), of 0 i1] False 1 show ?thesis
      by (auto simp: out_string_def l b pad_from_text u field_def out_text_append split: prod.splits)
  qed
qed

lemma out_conversion_text:
  assumes "dir_ok (fst st) R (Conv fl w a)"
  shows "out_conversion out buffer maxlen (conv_char a) (flags_word 0 fl) (of_nat w) 0 idx (conv_arg a # va) st =
    (case Printf.out_text out buffer maxlen (conv_text fl w a) idx st of (i, s) \<Rightarrow> Some (i, va, s))"
proof (cases a)
  case (IntConv c v)
  then have "out_conversion out buffer maxlen c (flags_word 0 fl) (of_nat w) 0 idx (W32 v # va) st =
      out_integer out buffer maxlen c (flags_word 0 fl) (of_nat w) 0 idx (W32 v # va) st"
    using assms by (auto simp: out_conversion_def signed_conv_def chr_codes)
  then show ?thesis using assms out_integer_text [of fl c w] IntConv by simp
next
  case (ChrConv v)
  then show ?thesis using assms out_chr_text [of fl w]
    by (simp add: out_conversion_def signed_conv_def chr_codes)
next
  case (StrConv p s)
  then show ?thesis using assms out_string_text [of st p s fl w]
    by (simp add: out_conversion_def signed_conv_def chr_codes)
qed

end

text \<open>The part of the loop before the conversion, on the characters of a directive.\<close>

lemma parse_directive:
  assumes s: "c_string m p (fl @ width_text w @ c # rest)" and fl: "set fl \<subseteq> {48, 45, 43, 32}"
    and w: "w < 2 ^ 32" and c: "c \<in> {100, 105, 117, 120, 88, 111, 98, 99, 115}"
  defines "q \<equiv> p + of_nat (length fl + length (width_text w))"
  shows "parse_flags m p 0 = Some (p + of_nat (length fl), flags_word 0 fl)"
    "parse_width m (p + of_nat (length fl)) f va = Some (q, f, of_nat w, va)"
    "parse_precision m q f va = Some (q, f, 0, va)" "parse_length m q f = (q, f)" "m q = c"
    "c_string m (q + 1) rest"
proof -
  obtain b t where b: "width_text w @ [c] = b # t" "flag_of b = None" by (rule after_flags [OF c])
  have e: "fl @ width_text w @ c # rest = fl @ b # t @ rest" using b by (metis append_Cons append_assoc append_Nil)
  show "parse_flags m p 0 = Some (p + of_nat (length fl), flags_word 0 fl)"
    using s unfolding e by (rule parse_flags_string) (use fl b in auto)
  have s2: "c_string m (p + of_nat (length fl)) (width_text w @ c # rest)"
    using s c_string_append [of m p fl] by blast
  have "\<not> fmt_is_digit c" "c \<noteq> 42" using c by (auto simp: fmt_is_digit_code)
  from parse_width_string [OF s2 w this, of f va]
  show "parse_width m (p + of_nat (length fl)) f va = Some (q, f, of_nat w, va)"
    by (simp add: q_def add.assoc)
  have "c_string m q (c # rest)"
    using s2 c_string_append [of m "p + of_nat (length fl)" "width_text w"] by (simp add: q_def add.assoc)
  then show q: "m q = c" "c_string m (q + 1) rest" by simp_all
  show "parse_precision m q f va = Some (q, f, 0, va)" "parse_length m q f = (q, f)"
    using c by (auto simp: parse_precision_def parse_length_def q chr_codes)
qed

lemma conv_char_ok: "conv_ok m R a \<Longrightarrow> conv_char a \<in> {100, 105, 117, 120, 88, 111, 98, 99, 115}"
  by (cases a) auto

context printer
begin

lemma keep_ok: "keeps st st' \<Longrightarrow> dir_ok (fst st) R d \<Longrightarrow> dir_ok (fst st') R d"
proof (cases d)
  case (Conv fl w a)
  then show "keeps st st' \<Longrightarrow> dir_ok (fst st) R d \<Longrightarrow> dir_ok (fst st') R d"
    by (cases a) (auto simp: keep_string)
qed auto

lemma directive_step:
  assumes s: "c_string (fst st) p (encode d @ rest)" and ok: "dir_ok (fst st) R d"
  shows "format_loop out buffer maxlen p idx (dir_args d @ va) st =
    (case Printf.out_text out buffer maxlen (dir_text d) idx st of
       (i, s) \<Rightarrow> format_loop out buffer maxlen (p + of_nat (length (encode d))) i va s)"
proof (cases d)
  case (Lit b)
  then show ?thesis using s ok by (subst format_loop.simps) (simp add: chr_codes)
next
  case Percent
  then have m: "fst st p = 37" "fst st (p + 1) = 37" using s by auto
  have f: "parse_flags (fst st) (p + 1) 0 = Some (p + 1, 0)"
    by (subst parse_flags.simps) (simp add: m flag_of_def chr_codes)
  have o: "out_conversion out buffer maxlen 37 0 0 0 idx va st = Some (idx + 1, va, out 37 buffer idx maxlen st)"
    by (simp add: out_conversion_def signed_conv_def chr_codes)
  show ?thesis using m f o Percent
    by (subst format_loop.simps)
      (simp add: chr_codes parse_width_def parse_precision_def parse_length_def fmt_is_digit_code add.assoc)
next
  case (Conv fl w a)
  have s1: "c_string (fst st) (p + 1) (fl @ width_text w @ conv_char a # rest)" "fst st p = 37"
    using s Conv by simp_all
  have fl: "set fl \<subseteq> {48, 45, 43, 32}" and w: "w < 2 ^ 32" and a: "conv_ok (fst st) R a" using ok Conv by auto
  note parse = parse_directive [OF s1(1) fl w conv_char_ok [OF a]]
  have e: "p + 1 + of_nat (length fl + length (width_text w)) + 1 = p + of_nat (length (encode d))"
    by (simp add: Conv)
  have "format_loop out buffer maxlen p idx (dir_args d @ va) st =
    (case Printf.out_text out buffer maxlen (dir_text d) idx st of
       (i, s) \<Rightarrow> format_loop out buffer maxlen
         (p + 1 + of_nat (length fl + length (width_text w)) + 1) i va s)"
    using out_conversion_text [OF ok [unfolded Conv], of idx va] s1(2)
    by (subst format_loop.simps)
      (simp add: chr_codes Conv parse del: of_nat_add split_paired_All split: prod.splits)
  then show ?thesis unfolding e .
qed

theorem format_loop_text:
  "c_string (fst st) p (concat (map encode ds)) \<Longrightarrow> bytes_at p (Suc (length (concat (map encode ds)))) \<subseteq> R \<Longrightarrow>
   list_all (dir_ok (fst st) R) ds \<Longrightarrow>
   format_loop out buffer maxlen p idx (concat (map dir_args ds) @ va) st =
     Some (Printf.out_text out buffer maxlen (concat (map dir_text ds)) idx st)"
proof (induction ds arbitrary: p idx st)
  case Nil
  then show ?case by (subst format_loop.simps) simp
next
  case (Cons d ds)
  let ?p = "p + of_nat (length (encode d))" and ?r = "concat (map encode ds)"
  obtain i s where t: "Printf.out_text out buffer maxlen (dir_text d) idx st = (i, s)" by (metis surj_pair)
  have k: "keeps st s" by (rule keep_text [OF t])
  have r: "bytes_at ?p (Suc (length ?r)) \<subseteq> R"
    using Cons.prems(2) bytes_at_add [of p "length (encode d)" "Suc (length ?r)"] by simp
  have "c_string (fst st) ?p ?r" using Cons.prems(1) c_string_append [of "fst st" p "encode d" ?r] by simp
  then have c: "c_string (fst s) ?p ?r" using keep_string [OF k r] by blast
  have ok: "list_all (dir_ok (fst s) R) ds"
    using Cons.prems(3) keep_ok [OF k] by (auto simp: list_all_iff)
  have "format_loop out buffer maxlen p idx (dir_args d @ concat (map dir_args ds) @ va) st =
      format_loop out buffer maxlen ?p i (concat (map dir_args ds) @ va) s"
    using directive_step [of st p d ?r idx "concat (map dir_args ds) @ va"] Cons.prems t by simp
  then show ?case using Cons.IH [OF c r ok, of i] by (simp add: t out_text_append)
qed

end

section \<open>The output functions\<close>

interpretation chars: printer out_char buffer maxlen "\<lambda>st st'. fst st' = fst st" UNIV for buffer maxlen
  by unfold_locales (simp_all add: out_char_def putchar_def)

interpretation null_chars: sink out_null buffer maxlen "\<lambda>st st'. fst st' = fst st" for buffer maxlen
  by unfold_locales (simp_all add: out_null_def)

text \<open>\<open>_out_buffer\<close> stays in the buffer.\<close>

definition outside_same :: "u32 \<Rightarrow> u32 \<Rightarrow> pstate \<Rightarrow> pstate \<Rightarrow> bool" where
  "outside_same buffer maxlen st st' \<longleftrightarrow>
     snd st' = snd st \<and> (\<forall>x. x \<notin> bytes_at buffer (unat maxlen) \<longrightarrow> fst st' x = fst st x)"

lemma in_buffer: "idx < maxlen \<Longrightarrow> buffer + idx \<in> bytes_at buffer (unat maxlen)"
  unfolding bytes_at_def by (rule image_eqI [of _ _ "unat idx"]) (simp_all add: word_less_nat_alt)

interpretation buffers: printer out_buffer buffer maxlen "outside_same buffer maxlen"
    "- bytes_at buffer (unat maxlen)" for buffer maxlen
  by unfold_locales (auto simp: outside_same_def out_buffer_def in_buffer)

interpretation null_buffers: sink out_null buffer maxlen "outside_same buffer maxlen" for buffer maxlen
  by unfold_locales (auto simp: outside_same_def out_null_def)

lemma out_char_texts:
  "out_text out_char buffer maxlen cs idx (m, d) =
     (idx + of_nat (length cs), m, fold os_put (filter (\<lambda>b. b \<noteq> 0) cs) d)"
  by (induction cs arbitrary: idx d) (simp_all add: out_char_def putchar_def add.assoc)

lemma out_buffer_texts:
  "i + length cs < 2 ^ 32 \<Longrightarrow> count < 2 ^ 32 \<Longrightarrow>
   out_text out_buffer buffer (of_nat count) cs (of_nat i) (m, d) =
     (of_nat (i + length cs), put_bytes m (buffer + of_nat i) (take (count - i) cs), d)"
proof (induction cs arbitrary: i m)
  case (Cons c cs)
  have l: "(of_nat i :: u32) < of_nat count \<longleftrightarrow> i < count"
    using Cons.prems by (simp add: word_less_nat_alt unat_of_nat_32)
  have o: "out_buffer c buffer (of_nat i) (of_nat count) (m, d) =
      (if i < count then (store8 m (buffer + of_nat i) c, d) else (m, d))"
    by (simp add: out_buffer_def store8_def l)
  have t: "take (count - i) (c # cs) = (if i < count then c # take (count - Suc i) cs else [])"
    using Suc_diff_Suc [of i count] by (auto simp: take_Suc_Cons [symmetric] simp del: take_Suc_Cons)
  show ?case
    using Cons.IH [of "Suc i" "store8 m (buffer + of_nat i) c"] Cons.IH [of "Suc i" m] Cons.prems
    by (simp add: o t add_ac)
qed simp

lemma bytes_from_terminated:
  assumes "j \<le> length t" "j < count" "count \<le> 2 ^ 32"
  shows "bytes_from ((put_bytes m b (take count t))(b + of_nat j := 0)) b (Suc j) = take j t @ [0]"
proof (rule nth_equalityI)
  fix k assume "k < length (bytes_from ((put_bytes m b (take count t))(b + of_nat j := 0)) b (Suc j))"
  then have k: "k < j \<or> k = j" by auto
  have "(of_nat k :: u32) = of_nat j \<longleftrightarrow> k = j"
    using assms k by (metis le_imp_less_Suc less_le_trans less_or_eq_imp_le less_trans unat_of_nat_32)
  moreover have "put_bytes m b (take count t) (b + of_nat k) = t ! k" if "k < j"
    using assms that by (subst put_bytes_nth) auto
  ultimately show "bytes_from ((put_bytes m b (take count t))(b + of_nat j := 0)) b (Suc j) ! k =
      (take j t @ [0]) ! k"
    using k assms by (auto simp: bytes_from_def nth_append simp del: upt_Suc)
qed (use assms in simp)

section \<open>The properties\<close>

text \<open>C11: \<open>printf\<close> sends the text of the format to the UART, in order and complete, leaves the memory
  alone and returns the length of the text, for every format of the directives covered.\<close>

theorem printf_prints:
  assumes "buffer \<noteq> 0" "c_string m format (concat (map encode ds))" "list_all (dir_ok m UNIV) ds"
  defines "txt \<equiv> concat (map dir_text ds)"
  shows "printf buffer format (concat (map dir_args ds) @ va) (m, d) =
    Some (of_nat (length txt), m, fold os_put (filter (\<lambda>b. b \<noteq> 0) txt) d)"
  using chars.format_loop_text [of "(m, d)" format ds buffer "- 1" 0 va] assms
  by (simp add: printf_def vsnprintf_def out_char_texts out_char_def)

text \<open>C12: \<open>snprintf\<close> leaves in the buffer the first \<open>count - 1\<close> characters of the text and a NUL, returns
  the length of the whole text, and writes nothing outside the buffer and nothing to the device.\<close>

theorem snprintf_formats:
  assumes "buffer \<noteq> 0" "c_string m format (concat (map encode ds))"
    "bytes_at format (Suc (length (concat (map encode ds)))) \<inter> bytes_at buffer count = {}"
    "list_all (dir_ok m (- bytes_at buffer count)) ds" "0 < count" "count < 2 ^ 32"
    "length (concat (map dir_text ds)) < 2 ^ 32"
  defines "txt \<equiv> concat (map dir_text ds)"
  shows "\<exists>m'. snprintf buffer (of_nat count) format (concat (map dir_args ds) @ va) (m, d) =
      Some (of_nat (length txt), m', d) \<and>
    bytes_from m' buffer (Suc (min (length txt) (count - 1))) = take (count - 1) txt @ [0] \<and>
    (\<forall>x. x \<notin> bytes_at buffer count \<longrightarrow> m' x = m x)"
proof -
  let ?c = "of_nat count :: u32" and ?j = "min (length txt) (count - 1)"
  let ?m = "(put_bytes m buffer (take count txt))(buffer + of_nat ?j := 0)"
  have u: "unat ?c = count" using assms by (intro unat_of_nat_32)
  have "format_loop out_buffer buffer ?c format 0 (concat (map dir_args ds) @ va) (m, d) =
      Some (of_nat (length txt), put_bytes m buffer (take count txt), d)"
    using buffers.format_loop_text [of "(m, d)" format ds buffer ?c 0 va]
      out_buffer_texts [of 0 "txt" count buffer m d] assms by (auto simp: u txt_def)
  moreover have i: "(if of_nat (length txt) < ?c then of_nat (length txt) else ?c - 1) = (of_nat ?j :: u32)"
    using assms by (auto simp: word_less_nat_alt unat_of_nat_32 txt_def of_nat_diff min_def)
  moreover have "(of_nat ?j :: u32) < ?c"
    using assms by (simp add: word_less_nat_alt unat_of_nat_32 txt_def)
  ultimately have r: "snprintf buffer ?c format (concat (map dir_args ds) @ va) (m, d) =
      Some (of_nat (length txt), ?m, d)"
    using assms(1) by (simp add: snprintf_def vsnprintf_def out_buffer_def)
  moreover have "bytes_from ?m buffer (Suc ?j) = take (count - 1) txt @ [0]"
  proof -
    have j: "?j \<le> length txt" "?j < count" "count \<le> 2 ^ 32" using assms(5,6) by auto
    have "take ?j txt = take (count - 1) txt" by (cases "length txt \<le> count - 1") (auto simp: min_def)
    then show ?thesis using bytes_from_terminated [OF j, of m buffer] by (simp only:)
  qed
  moreover have "?m x = m x" if x: "x \<notin> bytes_at buffer count" for x
  proof -
    have "x \<noteq> buffer + of_nat ?j" using in_buffer [of "of_nat ?j" ?c buffer] \<open>of_nat ?j < ?c\<close> x u by auto
    moreover have "x \<notin> bytes_at buffer (length (take count txt))"
      using x bytes_at_mono [of "length (take count txt)" count buffer] by auto
    ultimately show ?thesis by (simp add: put_bytes_frame)
  qed
  ultimately show ?thesis by blast
qed

text \<open>C28: Whatever the format and the arguments, when \<open>snprintf\<close> returns it has written only inside the
  buffer of \<open>count\<close> bytes and nothing to the device.\<close>

theorem snprintf_in_bounds:
  assumes "snprintf buffer count format va (m, d) = Some (n, m', d')"
  shows "d' = d \<and> (\<forall>x. x \<notin> bytes_at buffer (unat count) \<longrightarrow> m' x = m x)"
  using vsnprintf_keeps [OF buffers.sink_axioms null_buffers.sink_axioms assms [unfolded snprintf_def]]
  by (simp add: outside_same_def)

section \<open>Witnesses\<close>

text \<open>The format \<open>=%06d%%\<close> with \<open>-42\<close> prints \<open>=-00042%\<close>.\<close>

lemma printf_prints_witness:
  "\<forall>d. printf 0x900 0x100 [W32 (- 42)] (lit_mem [61, 37, 48, 54, 100, 37, 37], d) =
     Some (8, lit_mem [61, 37, 48, 54, 100, 37, 37], fold os_put [61, 45, 48, 48, 48, 52, 50, 37] d)"
proof
  fix d
  let ?ds = "[Lit 61, Conv [48] 6 (IntConv 100 (- 42)), Percent]"
  have e: "concat (map encode ?ds) = [61, 37, 48, 54, 100, 37, 37]"
    by code_simp
  have t: "concat (map dir_text ?ds) = [61, 45, 48, 48, 48, 52, 50, 37]"
    by code_simp
  show "printf 0x900 0x100 [W32 (- 42)] (lit_mem [61, 37, 48, 54, 100, 37, 37], d) =
     Some (8, lit_mem [61, 37, 48, 54, 100, 37, 37], fold os_put [61, 45, 48, 48, 48, 52, 50, 37] d)"
    using printf_prints [of "0x900" "lit_mem [61, 37, 48, 54, 100, 37, 37]" "0x100" ?ds "[]" d]
      lit_mem_string [of "[61, 37, 48, 54, 100, 37, 37]"] unfolding e t by simp
qed

text \<open>\<open>%x\<close> of \<open>0xbeef\<close> into a buffer of four bytes.\<close>

lemma snprintf_formats_witness:
  "\<forall>d. \<exists>m'. snprintf 0x200 4 0x100 [W32 0xbeef] (lit_mem [37, 120], d) = Some (4, m', d) \<and>
     bytes_from m' 0x200 (Suc (Suc (Suc (Suc 0)))) = [98, 101, 101, 0]"
proof
  fix d
  let ?ds = "[Conv [] 0 (IntConv 120 0xbeef)]"
  have e: "concat (map encode ?ds) = [37, 120]" by (simp add: width_text_def)
  have t: "concat (map dir_text ?ds) = [98, 101, 101, 102]"
    by (simp add: int_text_def field_def sign_text_def digits.simps digit_text_def conv_base_def)
  have b: "bytes_at 0x100 3 \<inter> bytes_at (0x200 :: u32) 4 = {}"
    by (rule bytes_at_disjoint) simp_all
  have c: "list_all (dir_ok m R) ?ds" for m R by simp
  show "\<exists>m'. snprintf 0x200 4 0x100 [W32 0xbeef] (lit_mem [37, 120], d) = Some (4, m', d) \<and>
     bytes_from m' 0x200 (Suc (Suc (Suc (Suc 0)))) = [98, 101, 101, 0]"
    using snprintf_formats [of "0x200" "lit_mem [37, 120]" "0x100" ?ds 4 "[]" d]
      lit_mem_string [of "[37, 120]"] b [unfolded numeral_3_eq_3] c unfolding e t by auto
qed

lemma snprintf_in_bounds_witness:
  "\<forall>d. case snprintf 0x200 2 0x100 [] (lit_mem [65, 66, 67], d) of
     None \<Rightarrow> False
   | Some (n, m', d') \<Rightarrow> n = 3 \<and> d' = d \<and> m' 0x202 = lit_mem [65, 66, 67] 0x202"
proof
  fix d
  have s: "c_string (lit_mem [65, 66, 67]) 0x100 [65, 66, 67]" by (rule lit_mem_string) simp_all
  obtain m' where r: "snprintf 0x200 2 0x100 [] (lit_mem [65, 66, 67], d) = Some (3, m', d)"
    using s by (simp add: snprintf_def vsnprintf_def format_loop.simps chr_codes out_buffer_def)
  have "unat (2 :: u32) = Suc (Suc 0)" by simp
  then have "(0x202 :: u32) \<notin> bytes_at 0x200 (unat (2 :: u32))" by (simp only: bytes_at_Suc) simp
  then show "case snprintf 0x200 2 0x100 [] (lit_mem [65, 66, 67], d) of
     None \<Rightarrow> False
   | Some (n, m', d') \<Rightarrow> n = 3 \<and> d' = d \<and> m' 0x202 = lit_mem [65, 66, 67] 0x202"
    using snprintf_in_bounds [OF r] r by simp
qed

section \<open>A format that ends in a percent sign\<close>

lemma lit_texts: "concat (map encode (map Lit s)) = s" "concat (map dir_text (map Lit s)) = s"
  "concat (map dir_args (map Lit s)) = []"
  by (induction s) simp_all

text \<open>A format that ends in a single \<open>%\<close> is read past its end: the terminating NUL is taken for the
  conversion, and whatever string follows it in memory is printed as well and counted.\<close>

theorem printf_lone_percent:
  assumes "buffer \<noteq> 0" "m format = 37" "m (format + 1) = 0" "c_string m (format + 2) s" "37 \<notin> set s"
  shows "printf buffer format va (m, d) = Some (of_nat (Suc (length s)), m, fold os_put s d)"
proof -
  have f: "parse_flags m (format + 1) 0 = Some (format + 1, 0)"
    by (subst parse_flags.simps) (simp add: assms flag_of_def chr_codes)
  have o: "out_conversion out_char buffer (- 1) 0 0 0 0 0 va (m, d) = Some (1, va, m, d)"
    by (simp add: out_conversion_def signed_conv_def chr_codes out_char_def)
  have "format_loop out_char buffer (- 1) format 0 va (m, d) =
      format_loop out_char buffer (- 1) (format + 2) 1 va (m, d)"
    using f o by (subst format_loop.simps)
      (simp add: assms chr_codes parse_width_def parse_precision_def parse_length_def fmt_is_digit_code add.assoc)
  also have "\<dots> = Some (of_nat (Suc (length s)), m, fold os_put (filter (\<lambda>b. b \<noteq> 0) s) d)"
    using chars.format_loop_text [of "(m, d)" "format + 2" "map Lit s" buffer "- 1" 1 va] assms
    by (simp only: lit_texts) (auto simp: list_all_iff out_char_texts)
  also have "filter (\<lambda>b. b \<noteq> 0) s = s"
    using assms(4) by (intro filter_True) (auto simp: c_string_nth in_set_conv_nth)
  finally have "format_loop out_char buffer (- 1) format 0 va (m, d) =
      Some (of_nat (Suc (length s)), m, fold os_put s d)" .
  then have "printf buffer format va (m, d) = Some (of_nat (Suc (length s)),
      out_char 0 buffer (if of_nat (Suc (length s)) < (- 1 :: u32) then of_nat (Suc (length s)) else - 1 - 1)
        (- 1) (m, fold os_put s d))"
    using assms(1) by (simp add: printf_def vsnprintf_def)
  then show ?thesis by (simp add: out_char_def)
qed

lemma printf_lone_percent_witness:
  "\<exists>m. m 0x100 = 37 \<and> m 0x101 = 0 \<and> (\<forall>d. printf 0x900 0x100 [] (m, d) = Some (3, m, fold os_put [72, 105] d))"
proof (intro exI conjI allI)
  let ?m = "(lit_mem [1, 1, 72, 105])(0x100 := 37, 0x101 := 0)"
  have "c_string (lit_mem [1, 1, 72, 105]) 0x100 [1, 1, 72, 105]" by (rule lit_mem_string) simp_all
  then have s: "c_string ?m (0x100 + 2) [72, 105]" by simp
  show "?m 0x100 = 37" "?m 0x101 = 0" by simp_all
  fix d
  show "printf 0x900 0x100 [] (?m, d) = Some (3, ?m, fold os_put [72, 105] d)"
    using printf_lone_percent [OF _ _ _ s, of "0x900" "[]" d] by simp
qed

end
