(* ===== verification/Double.thy ===== *)
theory Double
  imports CBase Complex_Main
begin

text \<open>
  The C type \<open>double\<close>, IEEE 754 binary64 with rounding to nearest, ties to even, in integer
  arithmetic: \<open>Fin m e\<close> is the number \<open>m * 2 ^ e\<close>. A number has many such forms, so the model compares
  with \<open>dlt\<close>, never with \<open>=\<close>. The two zeros are one value: no operation of the program tells them
  apart. An operation computes its exact result and rounds it once, with \<open>rnd\<close>.
\<close>

datatype double = NaN | Inf bool | Fin int int

section \<open>Rounding\<close>

text \<open>The number of bits of a magnitude.\<close>

function nbits :: "int \<Rightarrow> int" where
  "nbits n = (if n \<le> 0 then 0 else 1 + nbits (n div 2))"
  by pat_completeness auto
termination
  by (relation "measure nat") auto

declare nbits.simps [simp del]

abbreviation ibits :: "int \<Rightarrow> int" where
  "ibits m \<equiv> nbits \<bar>m\<bar>"

text \<open>Drop \<open>k\<close> bits to the nearest integer, to the even one on a tie.\<close>

definition drop_round :: "nat \<Rightarrow> int \<Rightarrow> int" where
  "drop_round k m =
     (let q = m div 2 ^ k; r = m mod 2 ^ k
      in if 2 * r < 2 ^ k \<or> (2 * r = 2 ^ k \<and> even q) then q else q + 1)"

text \<open>At most 53 bits, no exponent below -1074, infinity from \<open>2 ^ 1024\<close> on.\<close>

definition fit :: "int \<Rightarrow> int \<Rightarrow> double" where
  "fit m e = (if m \<noteq> 0 \<and> 1024 < ibits m + e then Inf (m < 0) else Fin m e)"

definition rnd :: "int \<Rightarrow> int \<Rightarrow> double" where
  "rnd m e =
     (let k = max (ibits m - 53) (- 1074 - e)
      in if k \<le> 0 then fit m e else fit (drop_round (nat k) m) (e + k))"

section \<open>Operations\<close>

definition dint :: "int \<Rightarrow> double" where
  "dint n = rnd n 0"

fun dneg :: "double \<Rightarrow> double" where
  "dneg NaN = NaN"
| "dneg (Inf s) = Inf (\<not> s)"
| "dneg (Fin m e) = Fin (- m) e"

fun dadd :: "double \<Rightarrow> double \<Rightarrow> double" where
  "dadd (Fin m1 e1) (Fin m2 e2) =
     (let e = min e1 e2 in rnd (m1 * 2 ^ nat (e1 - e) + m2 * 2 ^ nat (e2 - e)) e)"
| "dadd (Inf s) (Inf t) = (if s = t then Inf s else NaN)"
| "dadd (Inf s) (Fin m e) = Inf s"
| "dadd (Fin m e) (Inf s) = Inf s"
| "dadd NaN y = NaN"
| "dadd x NaN = NaN"

definition dsub :: "double \<Rightarrow> double \<Rightarrow> double" where
  "dsub x y = dadd x (dneg y)"

fun dmul :: "double \<Rightarrow> double \<Rightarrow> double" where
  "dmul (Fin m1 e1) (Fin m2 e2) = rnd (m1 * m2) (e1 + e2)"
| "dmul (Inf s) (Inf t) = Inf (s \<noteq> t)"
| "dmul (Inf s) (Fin m e) = (if m = 0 then NaN else Inf (s \<noteq> (m < 0)))"
| "dmul (Fin m e) (Inf s) = (if m = 0 then NaN else Inf (s \<noteq> (m < 0)))"
| "dmul NaN y = NaN"
| "dmul x NaN = NaN"

text \<open>
  The quotient of two integers: at least 55 bits of it and a last bit that tells whether it is
  inexact are enough to round it as the exact quotient.
\<close>

definition quot_bits :: "int \<Rightarrow> int \<Rightarrow> nat" where
  "quot_bits m1 m2 = nat (55 + ibits m2 - ibits m1)"

definition rnd_quot :: "int \<Rightarrow> int \<Rightarrow> int \<Rightarrow> double" where
  "rnd_quot m1 m2 e =
     (let s = quot_bits m1 m2; q = (m1 * 2 ^ s) div m2; r = (m1 * 2 ^ s) mod m2
      in rnd (2 * q + (if r = 0 then 0 else 1)) (e - int s - 1))"

fun ddiv :: "double \<Rightarrow> double \<Rightarrow> double" where
  "ddiv (Fin m1 e1) (Fin m2 e2) =
     (if m2 = 0 then if m1 = 0 then NaN else Inf (m1 < 0) else rnd_quot m1 m2 (e1 - e2))"
| "ddiv (Inf s) (Inf t) = NaN"
| "ddiv (Inf s) (Fin m e) = Inf (s \<noteq> (m < 0))"
| "ddiv (Fin m e) (Inf s) = Fin 0 0"
| "ddiv NaN y = NaN"
| "ddiv x NaN = NaN"

text \<open>A decimal literal \<open>p / q\<close>.\<close>

definition dlit :: "int \<Rightarrow> int \<Rightarrow> double" where
  "dlit p q = rnd_quot p q 0"

fun dlt :: "double \<Rightarrow> double \<Rightarrow> bool" where
  "dlt (Fin m1 e1) (Fin m2 e2) =
     (let e = min e1 e2 in m1 * 2 ^ nat (e1 - e) < m2 * 2 ^ nat (e2 - e))"
| "dlt (Inf s) (Inf t) \<longleftrightarrow> s \<and> \<not> t"
| "dlt (Inf s) (Fin m e) \<longleftrightarrow> s"
| "dlt (Fin m e) (Inf s) \<longleftrightarrow> \<not> s"
| "dlt NaN y \<longleftrightarrow> False"
| "dlt x NaN \<longleftrightarrow> False"

text \<open>\<open>x >= y\<close>.\<close>

definition dge :: "double \<Rightarrow> double \<Rightarrow> bool" where
  "dge x y \<longleftrightarrow> x \<noteq> NaN \<and> y \<noteq> NaN \<and> \<not> dlt x y"

definition DBL_MAX :: double where
  "DBL_MAX = Fin (2 ^ 53 - 1) 971"

section \<open>Conversions\<close>

text \<open>Towards zero; a value that is not one of the integer type is undefined behaviour, \<open>None\<close>.\<close>

definition trunc :: "int \<Rightarrow> int \<Rightarrow> int" where
  "trunc m e = (if 0 \<le> e then m * 2 ^ nat e else sgn m * (\<bar>m\<bar> div 2 ^ nat (- e)))"

fun d_to_i32 :: "double \<Rightarrow> i32 option" where
  "d_to_i32 (Fin m e) =
     (if - (2 ^ 31) \<le> trunc m e \<and> trunc m e < 2 ^ 31 then Some (word_of_int (trunc m e)) else None)"
| "d_to_i32 x = None"

fun d_to_u32 :: "double \<Rightarrow> u32 option" where
  "d_to_u32 (Fin m e) = (if 0 \<le> trunc m e \<and> trunc m e < 2 ^ 32 then Some (word_of_int (trunc m e)) else None)"
| "d_to_u32 x = None"

text \<open>The encoding of a number of at most 53 significant bits, and the number of an encoding.\<close>

fun d_bits :: "double \<Rightarrow> u64" where
  "d_bits NaN = 0x7FF8000000000000"
| "d_bits (Inf s) = (if s then 0xFFF0000000000000 else 0x7FF0000000000000)"
| "d_bits (Fin m e) =
     (let s = (if m < 0 then 2 ^ 63 else 0); a = \<bar>m\<bar>; x = ibits m + e - 1
      in if a = 0 then 0
         else if - 1022 \<le> x then word_of_int (s + (x + 1023) * 2 ^ 52 + (a * 2 ^ nat (53 - ibits m) div 2 ^ nat (ibits m - 53) - 2 ^ 52))
         else word_of_int (s + a * 2 ^ nat (e + 1074)))"

definition bits_d :: "u64 \<Rightarrow> double" where
  "bits_d w =
     (let x = uint (drop_bit 52 w AND 0x7FF); f = uint (w AND (2 ^ 52 - 1)); g = (if bit w 63 then - 1 else 1)
      in if x = 0x7FF then if f = 0 then Inf (bit w 63) else NaN
         else if x = 0 then Fin (g * f) (- 1074)
         else Fin (g * (f + 2 ^ 52)) (x - 1075))"

section \<open>Bounds\<close>

lemma nbits_bounds:
  "0 < n \<Longrightarrow> 0 < nbits n \<and> 2 ^ nat (nbits n - 1) \<le> n \<and> n < 2 ^ nat (nbits n)"
proof (induction n rule: nbits.induct)
  case (1 n)
  show ?case
  proof (cases "n = 1")
    case True
    then show ?thesis by (simp add: nbits.simps)
  next
    case False
    define b where "b = nbits (n div 2)"
    from False 1(2) have "0 < n div 2" by simp
    then have IH: "0 < b" "2 ^ nat (b - 1) \<le> n div 2" "n div 2 < 2 ^ nat b"
      using 1(1) 1(2) by (simp_all add: b_def)
    have e: "nbits n = 1 + b" using 1(2) by (simp add: nbits.simps [of n] b_def)
    have "nat b = Suc (nat (b - 1))" "nat (1 + b) = Suc (nat b)" using IH(1) by linarith+
    then have "(2::int) ^ nat b = 2 * 2 ^ nat (b - 1)" "(2::int) ^ nat (1 + b) = 2 * 2 ^ nat b" by simp_all
    then have "2 ^ nat b \<le> n" "n < 2 ^ nat (1 + b)" using IH by linarith+
    then show ?thesis using IH(1) e by simp
  qed
qed

lemma nbits_le:
  assumes "0 \<le> n" "n < 2 ^ k"
  shows "nbits n \<le> int k"
proof (cases "n = 0")
  case False
  then have n: "0 < nbits n" "2 ^ nat (nbits n - 1) \<le> n" using nbits_bounds [of n] assms by auto
  with assms have "(2::int) ^ nat (nbits n - 1) < 2 ^ k" by linarith
  then have "nat (nbits n - 1) < k" by (rule power_less_imp_less_exp [rotated]) simp
  then show ?thesis by linarith
qed (simp add: nbits.simps)

lemma drop_round_le: "m \<le> N * 2 ^ k \<Longrightarrow> drop_round k m \<le> N"
proof -
  assume a: "m \<le> N * 2 ^ k"
  have q: "m div 2 ^ k \<le> N" using zdiv_mono1 [OF a, of "2 ^ k"] by simp
  show ?thesis
  proof (cases "m div 2 ^ k = N")
    case True
    then have "m = N * 2 ^ k + m mod 2 ^ k" using div_mult_mod_eq [of m "2 ^ k"] by simp
    moreover have "0 \<le> m mod 2 ^ k" by simp
    ultimately have "m mod 2 ^ k = 0" using a by linarith
    then show ?thesis using True by (simp add: drop_round_def Let_def)
  next
    case False
    then show ?thesis using q by (simp add: drop_round_def Let_def)
  qed
qed

lemma drop_round_ge: "- N * 2 ^ k \<le> m \<Longrightarrow> - N \<le> drop_round k m"
proof -
  assume a: "- N * 2 ^ k \<le> m"
  have "- N * 2 ^ k div 2 ^ k = - N" by (rule nonzero_mult_div_cancel_right) simp
  then have "- N \<le> m div 2 ^ k" using zdiv_mono1 [OF a, of "2 ^ k"] by simp
  then show ?thesis by (simp add: drop_round_def Let_def)
qed

lemma drop_round_ge0: "0 \<le> m \<Longrightarrow> 0 \<le> drop_round k m"
  by (simp add: drop_round_def Let_def pos_imp_zdiv_nonneg_iff)

lemma drop_round_nearest: "2 * \<bar>drop_round k m * 2 ^ k - m\<bar> \<le> 2 ^ k"
proof -
  define q r and p :: int where "q = m div 2 ^ k" and "r = m mod 2 ^ k" and "p = 2 ^ k"
  have "m = q * p + r" unfolding q_def r_def p_def by (rule div_mult_mod_eq [symmetric])
  moreover have "0 \<le> r" "r < p" by (simp_all add: r_def p_def)
  moreover have "drop_round k m = (if 2 * r < p \<or> (2 * r = p \<and> even q) then q else q + 1)"
    by (simp add: drop_round_def Let_def q_def r_def p_def)
  ultimately show ?thesis unfolding p_def [symmetric] by (auto simp: distrib_right)
qed

text \<open>\<open>m * 2 ^ e\<close> is not above the integer \<open>N\<close>.\<close>

definition at_most :: "int \<Rightarrow> int \<Rightarrow> int \<Rightarrow> bool" where
  "at_most m e N \<longleftrightarrow> (if 0 \<le> e then m * 2 ^ nat e \<le> N else m \<le> N * 2 ^ nat (- e))"

lemma at_most_nbits:
  assumes "at_most m e N" "0 \<le> m" "N < 2 ^ 53"
  shows "nbits m + e \<le> 53 \<or> m = 0"
proof (cases "m = 0")
  case False
  then have m: "0 < m" using assms by simp
  note b = nbits_bounds [OF m]
  show ?thesis
  proof (cases "0 \<le> e")
    case True
    have "(2::int) ^ (nat (nbits m - 1) + nat e) \<le> m * 2 ^ nat e" using b by (simp add: power_add)
    also have "\<dots> < 2 ^ 53" using True assms by (simp add: at_most_def)
    finally have "nat (nbits m - 1) + nat e < 53" by (rule power_less_imp_less_exp [rotated]) simp
    then show ?thesis using True b by linarith
  next
    case False
    have "m \<le> N * 2 ^ nat (- e)" using False assms(1) by (simp add: at_most_def)
    also have "\<dots> < 2 ^ 53 * 2 ^ nat (- e)" using assms(3) by (rule mult_strict_right_mono) simp
    finally have "m < 2 ^ 53 * 2 ^ nat (- e)" .
    then have "nbits m \<le> int (53 + nat (- e))" using m by (intro nbits_le) (simp_all add: power_add)
    then show ?thesis using False by linarith
  qed
qed simp

lemma fit_small: "nbits \<bar>m\<bar> + e \<le> 1024 \<or> m = 0 \<Longrightarrow> fit m e = Fin m e"
  by (auto simp: fit_def)

lemma rnd_exact:
  assumes "\<bar>m\<bar> < 2 ^ 53" "- 1074 \<le> e" "e \<le> 971"
  shows "rnd m e = Fin m e"
proof -
  have "nbits \<bar>m\<bar> \<le> 53" using nbits_le [of "\<bar>m\<bar>" 53] assms by simp
  then show ?thesis using assms by (simp add: rnd_def fit_small)
qed

lemma dint_exact: "\<bar>n\<bar> < 2 ^ 53 \<Longrightarrow> dint n = Fin n 0"
  by (simp add: dint_def rnd_exact)

text \<open>Rounding does not pass an integer.\<close>

lemma rnd_abs:
  assumes "at_most \<bar>m\<bar> e N" "0 \<le> N" "N < 2 ^ 53"
  obtains m' e' where "rnd m e = Fin m' e'" "at_most \<bar>m'\<bar> e' N" "0 \<le> m \<longrightarrow> 0 \<le> m'"
proof -
  define k where "k = max (nbits \<bar>m\<bar> - 53) (- 1074 - e)"
  have n: "nbits \<bar>m\<bar> + e \<le> 53 \<or> m = 0" using at_most_nbits [OF assms(1) _ assms(3)] by simp
  show thesis
  proof (cases "k \<le> 0")
    case True
    then have "rnd m e = Fin m e"
      using n by (auto simp: rnd_def k_def fit_small)
    then show thesis using that assms by blast
  next
    case False
    have r: "rnd m e = fit (drop_round (nat k) m) (e + k)"
      unfolding rnd_def Let_def using False by (auto simp: k_def)
    show thesis
    proof (cases "m = 0")
      case True
      then have "rnd m e = Fin 0 (e + k)" using r by (simp add: drop_round_def Let_def fit_def)
      then show thesis using assms by (intro that [of 0 "e + k"]) (auto simp: at_most_def)
    next
      case nz: False
      have ek: "e + k \<le> 0" using n nz by (auto simp: k_def)
      define M where "M = N * 2 ^ nat (- (e + k))"
      have "\<bar>m\<bar> \<le> N * 2 ^ nat (- e)" using assms ek False by (auto simp: at_most_def split: if_splits)
      also have "nat (- e) = nat (- (e + k)) + nat k" using ek False by simp
      finally have "\<bar>m\<bar> \<le> M * 2 ^ nat k" by (simp add: power_add M_def)
      then have "\<bar>drop_round (nat k) m\<bar> \<le> M"
        using drop_round_le [of m M "nat k"] drop_round_ge [of M "nat k" m] by (simp add: abs_le_iff)
      then have u: "at_most \<bar>drop_round (nat k) m\<bar> (e + k) N" using ek by (auto simp: at_most_def M_def split: if_splits)
      have "rnd m e = Fin (drop_round (nat k) m) (e + k)"
        unfolding r using at_most_nbits [OF u _ assms(3)] by (intro fit_small) auto
      then show thesis using that u drop_round_ge0 by blast
    qed
  qed
qed

lemma rnd_between:
  assumes "0 \<le> m" "at_most m e N" "0 \<le> N" "N < 2 ^ 53"
  obtains m' e' where "rnd m e = Fin m' e'" "0 \<le> m'" "at_most m' e' N"
proof -
  have "at_most \<bar>m\<bar> e N" using assms(1,2) by simp
  from rnd_abs [OF this assms(3,4)] obtain m' e' where r: "rnd m e = Fin m' e'" "at_most \<bar>m'\<bar> e' N" "0 \<le> m \<longrightarrow> 0 \<le> m'" .
  then have "0 \<le> m'" using assms(1) by blast
  then show thesis using that r(1,2) by simp
qed

lemma trunc_between: "0 \<le> m \<Longrightarrow> at_most m e N \<Longrightarrow> 0 \<le> N \<Longrightarrow> 0 \<le> trunc m e \<and> trunc m e \<le> N"
proof -
  assume a: "0 \<le> m" "at_most m e N" "0 \<le> N"
  show ?thesis
  proof (cases "0 \<le> e")
    case False
    then have "m \<le> N * 2 ^ nat (- e)" using a by (simp add: at_most_def)
    then have "m div 2 ^ nat (- e) \<le> N" using zdiv_mono1 [of m "N * 2 ^ nat (- e)" "2 ^ nat (- e)"] by simp
    then show ?thesis using a False by (auto simp: trunc_def sgn_if pos_imp_zdiv_nonneg_iff)
  qed (use a in \<open>auto simp: trunc_def at_most_def\<close>)
qed

lemma at_most_real: "at_most m e N \<longleftrightarrow> of_int m * 2 powi e \<le> (of_int N :: real)"
proof (cases "0 \<le> e")
  case True
  have "of_int m * 2 powi e \<le> (of_int N :: real) \<longleftrightarrow> real_of_int (m * 2 ^ nat e) \<le> of_int N"
    using True by (simp add: power_int_def)
  then show ?thesis using True by (simp only: at_most_def if_True of_int_le_iff)
next
  case False
  have "of_int m * 2 powi e \<le> (of_int N :: real) \<longleftrightarrow> real_of_int m \<le> of_int N * 2 ^ nat (- e)"
    using False by (simp add: power_int_def field_simps)
  also have "\<dots> \<longleftrightarrow> real_of_int m \<le> real_of_int (N * 2 ^ nat (- e))" by simp
  finally show ?thesis using False by (simp only: at_most_def if_False of_int_le_iff)
qed

lemma at_most_mono: "at_most m e N \<Longrightarrow> m' \<le> m \<Longrightarrow> N \<le> N' \<Longrightarrow> at_most m' e N'"
proof -
  assume a: "at_most m e N" "m' \<le> m" "N \<le> N'"
  have "real_of_int m' * 2 powi e \<le> of_int m * 2 powi e" using a(2) by (intro mult_right_mono) simp_all
  also have "\<dots> \<le> of_int N" using a(1) unfolding at_most_real .
  also have "\<dots> \<le> of_int N'" using a(3) by simp
  finally show ?thesis unfolding at_most_real .
qed

lemma real_shift: "e \<le> d \<Longrightarrow> real_of_int (a * 2 ^ nat (d - e)) * 2 powi e = of_int a * 2 powi d"
proof -
  assume "e \<le> d"
  have "(2::real) powi (int (nat (d - e)) + e) = 2 powi int (nat (d - e)) * 2 powi e" by (rule power_int_add) simp
  then show ?thesis using \<open>e \<le> d\<close> by (simp add: power_int_def [where n = "d - e"])
qed

lemma dlt_real: "dlt (Fin m1 e1) (Fin m2 e2) \<longleftrightarrow> of_int m1 * 2 powi e1 < (of_int m2 * 2 powi e2 :: real)"
proof -
  define e where "e = min e1 e2"
  have "dlt (Fin m1 e1) (Fin m2 e2) \<longleftrightarrow> real_of_int (m1 * 2 ^ nat (e1 - e)) < of_int (m2 * 2 ^ nat (e2 - e))"
    by (simp only: dlt.simps Let_def e_def of_int_less_iff)
  also have "\<dots> \<longleftrightarrow> real_of_int (m1 * 2 ^ nat (e1 - e)) * 2 powi e < of_int (m2 * 2 ^ nat (e2 - e)) * 2 powi e"
    by (rule mult_less_cancel_right_pos [symmetric]) simp
  finally show ?thesis by (simp only: real_shift e_def min.cobounded1 min.cobounded2)
qed

text \<open>A finite number of magnitude at most \<open>N\<close>.\<close>

definition dbound :: "int \<Rightarrow> double \<Rightarrow> bool" where
  "dbound N x \<longleftrightarrow> (\<exists>m e. x = Fin m e \<and> at_most \<bar>m\<bar> e N)"

lemma dbound_nonneg: "dbound N x \<Longrightarrow> 0 \<le> N"
proof -
  assume "dbound N x"
  then obtain m e where "at_most \<bar>m\<bar> e N" by (auto simp: dbound_def)
  then have "real_of_int \<bar>m\<bar> * 2 powi e \<le> of_int N" unfolding at_most_real .
  moreover have "0 \<le> real_of_int \<bar>m\<bar> * 2 powi e" by (intro mult_nonneg_nonneg) simp_all
  ultimately have "0 \<le> real_of_int N" by linarith
  then show "0 \<le> N" by simp
qed

lemma dbound_rnd: "at_most \<bar>m\<bar> e N \<Longrightarrow> 0 \<le> N \<Longrightarrow> N < 2 ^ 53 \<Longrightarrow> dbound N (rnd m e)"
  by (rule rnd_abs [of m e N]) (auto simp: dbound_def)

lemma dbound_dadd:
  assumes "dbound N x" "dbound M y" "N + M < 2 ^ 53"
  shows "dbound (N + M) (dadd x y)"
proof -
  obtain m1 e1 m2 e2 where x: "x = Fin m1 e1" "at_most \<bar>m1\<bar> e1 N" and y: "y = Fin m2 e2" "at_most \<bar>m2\<bar> e2 M"
    using assms by (auto simp: dbound_def)
  define e where "e = min e1 e2"
  define m where "m = m1 * 2 ^ nat (e1 - e) + m2 * 2 ^ nat (e2 - e)"
  have "\<bar>m\<bar> \<le> \<bar>m1\<bar> * 2 ^ nat (e1 - e) + \<bar>m2\<bar> * 2 ^ nat (e2 - e)"
    unfolding m_def using abs_triangle_ineq [of "m1 * 2 ^ nat (e1 - e)" "m2 * 2 ^ nat (e2 - e)"] by (simp add: abs_mult)
  then have "real_of_int \<bar>m\<bar> \<le> of_int (\<bar>m1\<bar> * 2 ^ nat (e1 - e) + \<bar>m2\<bar> * 2 ^ nat (e2 - e))"
    by (simp only: of_int_le_iff)
  then have "real_of_int \<bar>m\<bar> * 2 powi e \<le>
      of_int (\<bar>m1\<bar> * 2 ^ nat (e1 - e) + \<bar>m2\<bar> * 2 ^ nat (e2 - e)) * 2 powi e"
    by (rule mult_right_mono) simp
  also have "\<dots> = of_int \<bar>m1\<bar> * 2 powi e1 + of_int \<bar>m2\<bar> * 2 powi e2"
    unfolding of_int_add distrib_right by (simp only: real_shift e_def min.cobounded1 min.cobounded2)
  also have "\<dots> \<le> of_int N + of_int M" using x(2) y(2) unfolding at_most_real by (rule add_mono)
  finally have "at_most \<bar>m\<bar> e (N + M)" unfolding at_most_real by simp
  then have "dbound (N + M) (rnd m e)"
    using dbound_nonneg [OF assms(1)] dbound_nonneg [OF assms(2)] assms(3) by (intro dbound_rnd) simp_all
  then show ?thesis by (simp add: x(1) y(1) e_def m_def Let_def)
qed

lemma dbound_dneg: "dbound N x \<Longrightarrow> dbound N (dneg x)"
  by (auto simp: dbound_def)

lemma dbound_dsub: "dbound N x \<Longrightarrow> dbound M y \<Longrightarrow> N + M < 2 ^ 53 \<Longrightarrow> dbound (N + M) (dsub x y)"
  unfolding dsub_def by (intro dbound_dadd dbound_dneg)

lemma dbound_dmul:
  assumes "dbound N x" "dbound M y" "N * M < 2 ^ 53"
  shows "dbound (N * M) (dmul x y)"
proof -
  obtain m1 e1 m2 e2 where x: "x = Fin m1 e1" "at_most \<bar>m1\<bar> e1 N" and y: "y = Fin m2 e2" "at_most \<bar>m2\<bar> e2 M"
    using assms by (auto simp: dbound_def)
  have "real_of_int \<bar>m1\<bar> * 2 powi e1 * (of_int \<bar>m2\<bar> * 2 powi e2) \<le> of_int N * of_int M"
    using x(2) y(2) dbound_nonneg [OF assms(1)] unfolding at_most_real by (intro mult_mono) simp_all
  then have "at_most \<bar>m1 * m2\<bar> (e1 + e2) (N * M)"
    by (simp add: at_most_real abs_mult power_int_add mult_ac)
  then have "dbound (N * M) (rnd (m1 * m2) (e1 + e2))"
    using dbound_nonneg [OF assms(1)] dbound_nonneg [OF assms(2)] assms(3) by (intro dbound_rnd) simp_all
  then show ?thesis by (simp add: x(1) y(1))
qed

lemma dbound_to_i32:
  assumes "dbound N x" "N < 2 ^ 31"
  obtains w where "d_to_i32 x = Some w" "\<bar>sint w\<bar> \<le> N"
proof -
  obtain m e where x: "x = Fin m e" "at_most \<bar>m\<bar> e N" using assms(1) by (auto simp: dbound_def)
  have t: "0 \<le> trunc \<bar>m\<bar> e" "trunc \<bar>m\<bar> e \<le> N"
    using trunc_between [OF abs_ge_zero x(2) dbound_nonneg [OF assms(1)]] by simp_all
  have "trunc m e = sgn m * trunc \<bar>m\<bar> e" by (cases "m = 0") (simp_all add: trunc_def sgn_if)
  then have b: "\<bar>trunc m e\<bar> \<le> N" using t by (cases "0 < m") (auto simp: sgn_if)
  then have c: "- (2 ^ 31) \<le> trunc m e \<and> trunc m e < 2 ^ 31" using assms(2) by linarith
  have "d_to_i32 x = Some (word_of_int (trunc m e))" using c by (simp only: x(1) d_to_i32.simps if_True simp_thms)
  moreover have "sint (word_of_int (trunc m e) :: i32) = trunc m e"
    by (rule sint_of_int_32) (use c in simp_all)
  ultimately show thesis using that b by metis
qed

lemma dbound_dint: "\<bar>n\<bar> \<le> N \<Longrightarrow> N < 2 ^ 53 \<Longrightarrow> dbound N (dint n)"
  by (simp add: dbound_def dint_exact at_most_def)

end
