(* ===== verification/PrintfFloat.thy ===== *)
theory PrintfFloat
  imports PrintfText Double
begin

text \<open>
  The floating point part of \<^verbatim>\<open>os/src/printf.c\<close>: \<open>_ftoa\<close>, \<open>_etoa\<close> and the conversions that call them.
  The source keeps it under \<^verbatim>\<open>PRINTF_SUPPORT_FLOAT\<close> and \<^verbatim>\<open>PRINTF_SUPPORT_EXPONENTIAL\<close>, whose
  definitions are commented out; the two macros it needs, commented out as well, have the values given
  there. A buffer is the list of its characters, an array read out of bounds and a conversion of a
  value the integer type has not are \<open>None\<close>.
\<close>

section \<open>Configuration\<close>

definition PRINTF_FTOA_BUFFER_SIZE :: nat where "PRINTF_FTOA_BUFFER_SIZE = 32"
definition PRINTF_DEFAULT_FLOAT_PRECISION :: u32 where "PRINTF_DEFAULT_FLOAT_PRECISION = 6"
definition PRINTF_MAX_FLOAT :: double where "PRINTF_MAX_FLOAT = dint (10 ^ 9)"
definition FLAGS_ADAPT_EXP :: u32 where "FLAGS_ADAPT_EXP = push_bit 11 1"

text \<open>\<open>static const double pow10[]\<close>.\<close>

definition pow10 :: "double list" where
  "pow10 = [dint 1, dint 10, dint 100, dint 1000, dint 10000, dint 100000, dint 1000000, dint 10000000,
    dint 100000000, dint 1000000000]"

definition d_of_i32 :: "i32 \<Rightarrow> double" where "d_of_i32 w = dint (sint w)"
definition d_of_u32 :: "u32 \<Rightarrow> double" where "d_of_u32 w = dint (uint w)"
definition half :: double where "half = dlit 5 10"

section \<open>Fixed notation\<close>

text \<open>\<open>while ((len < PRINTF_FTOA_BUFFER_SIZE) && (prec > 9U)) { buf[len++] = '0'; prec--; }\<close>\<close>

function limit_prec :: "u32 \<Rightarrow> u8 list \<Rightarrow> u32 \<times> u8 list" where
  "limit_prec prec buf =
     (if length buf < PRINTF_FTOA_BUFFER_SIZE \<and> 9 < prec
      then limit_prec (prec - 1) (buf @ [chr CHR ''0'']) else (prec, buf))"
  by pat_completeness auto
termination
  by (relation "measure (\<lambda>(p, buf). PRINTF_FTOA_BUFFER_SIZE - length buf)") auto

text \<open>The whole part and the fraction, as an integer of \<open>prec\<close> digits, rounded.\<close>

definition split_value :: "double \<Rightarrow> u32 \<Rightarrow> (i32 \<times> u32) option" where
  "split_value value prec = do {
     whole \<leftarrow> d_to_i32 value;
     p \<leftarrow> (if unat prec < length pow10 then Some (pow10 ! unat prec) else None);
     let tmp = dmul (dsub value (d_of_i32 whole)) p;
     fraction \<leftarrow> d_to_u32 tmp;
     let diff = dsub tmp (d_of_u32 fraction);
     Some (if dlt half diff
           then let fraction = fraction + 1 in if dge (d_of_u32 fraction) p then (whole + 1, 0) else (whole, fraction)
           else if dlt diff half then (whole, fraction)
           else if fraction = 0 \<or> fraction AND 1 \<noteq> 0 then (whole, fraction + 1)
           else (whole, fraction)) }"

text \<open>The digits of the fraction and \<open>count\<close>, the number of places left after them.\<close>

function frac_digits :: "u32 \<Rightarrow> u32 \<Rightarrow> u8 list \<Rightarrow> u32 \<times> u8 list" where
  "frac_digits count fraction buf =
     (if length buf < PRINTF_FTOA_BUFFER_SIZE
      then let count = count - 1; buf = buf @ [ucast (48 + fraction mod 10)]; fraction = fraction div 10
           in if fraction = 0 then (count, buf) else frac_digits count fraction buf
      else (count, buf))"
  by pat_completeness auto
termination
  by (relation "measure (\<lambda>(c, f, buf). PRINTF_FTOA_BUFFER_SIZE - length buf)") auto

text \<open>\<open>while ((len < PRINTF_FTOA_BUFFER_SIZE) && (count-- > 0U)) buf[len++] = '0';\<close>\<close>

function extra_zeros :: "u32 \<Rightarrow> u8 list \<Rightarrow> u8 list" where
  "extra_zeros count buf =
     (if length buf < PRINTF_FTOA_BUFFER_SIZE \<and> 0 < count
      then extra_zeros (count - 1) (buf @ [chr CHR ''0'']) else buf)"
  by pat_completeness auto
termination
  by (relation "measure (\<lambda>(c, buf). PRINTF_FTOA_BUFFER_SIZE - length buf)") auto

function whole_digits :: "i32 \<Rightarrow> u8 list \<Rightarrow> u8 list" where
  "whole_digits whole buf =
     (if length buf < PRINTF_FTOA_BUFFER_SIZE
      then let buf = buf @ [ucast (48 + (word_of_int (sint whole smod 10) :: i32))];
               whole = word_of_int (sint whole sdiv 10)
           in if whole = 0 then buf else whole_digits whole buf
      else buf)"
  by pat_completeness auto
termination
  by (relation "measure (\<lambda>(w, buf). PRINTF_FTOA_BUFFER_SIZE - length buf)") auto

text \<open>\<open>while ((len < width) && (len < PRINTF_FTOA_BUFFER_SIZE)) buf[len++] = '0';\<close>\<close>

function float_zeros :: "u32 \<Rightarrow> u8 list \<Rightarrow> u8 list" where
  "float_zeros width buf =
     (if length buf < unat width \<and> length buf < PRINTF_FTOA_BUFFER_SIZE
      then float_zeros width (buf @ [chr CHR ''0'']) else buf)"
  by pat_completeness auto
termination
  by (relation "measure (\<lambda>(w, buf). PRINTF_FTOA_BUFFER_SIZE - length buf)") auto

declare limit_prec.simps [simp del] frac_digits.simps [simp del] extra_zeros.simps [simp del]
  whole_digits.simps [simp del] float_zeros.simps [simp del]

definition float_pad :: "u8 list \<Rightarrow> bool \<Rightarrow> u32 \<Rightarrow> u32 \<Rightarrow> u8 list \<times> u32" where
  "float_pad buf negative width flags =
     (if \<not> has flags FLAGS_LEFT \<and> has flags FLAGS_ZEROPAD
      then let width = (if width \<noteq> 0 \<and> (negative \<or> has flags (FLAGS_PLUS OR FLAGS_SPACE)) then width - 1 else width)
           in (float_zeros width buf, width)
      else (buf, width))"

definition float_sign :: "u8 list \<Rightarrow> bool \<Rightarrow> u32 \<Rightarrow> u8 list" where
  "float_sign buf negative flags =
     (if length buf < PRINTF_FTOA_BUFFER_SIZE
      then if negative then buf @ [chr CHR ''-'']
           else if has flags FLAGS_PLUS then buf @ [chr CHR ''+'']
           else if has flags FLAGS_SPACE then buf @ [chr CHR '' '']
           else buf
      else buf)"

text \<open>The fraction with its point, or the rounding of the whole part when there is none.\<close>

definition float_fraction :: "double \<Rightarrow> u32 \<Rightarrow> i32 \<Rightarrow> u32 \<Rightarrow> u8 list \<Rightarrow> i32 \<times> u8 list" where
  "float_fraction value prec whole fraction buf =
     (if prec = 0
      then let diff = dsub value (d_of_i32 whole)
           in (if (\<not> dlt diff half \<or> dlt half diff) \<and> whole AND 1 \<noteq> 0 then whole + 1 else whole, buf)
      else let (count, buf) = frac_digits prec fraction buf;
               buf = extra_zeros count buf
           in (whole, if length buf < PRINTF_FTOA_BUFFER_SIZE then buf @ [chr CHR ''.''] else buf))"

text \<open>The characters of a value of moderate size, in reverse, and the width that is left.\<close>

definition ftoa_chars :: "double \<Rightarrow> u32 \<Rightarrow> u32 \<Rightarrow> u32 \<Rightarrow> (u8 list \<times> u32) option" where
  "ftoa_chars value prec width flags = do {
     let negative = dlt value (dint 0);
     let value = (if negative then dsub (dint 0) value else value);
     let prec = (if \<not> has flags FLAGS_PRECISION then PRINTF_DEFAULT_FLOAT_PRECISION else prec);
     let (prec, buf) = limit_prec prec [];
     (whole, fraction) \<leftarrow> split_value value prec;
     let (whole, buf) = float_fraction value prec whole fraction buf;
     let buf = whole_digits whole buf;
     let (buf, width) = float_pad buf negative width flags;
     Some (float_sign buf negative flags, width) }"

section \<open>Exponential notation\<close>

text \<open>The decimal exponent \<open>expval\<close> of a positive value and the power of ten \<open>conv.F\<close>.\<close>

definition decimal_exponent :: "double \<Rightarrow> (i32 \<times> double) option" where
  "decimal_exponent value = do {
     let U = d_bits value;
     let exp2 = ucast (drop_bit 52 U AND 0x07FF) - (1023 :: i32);
     let F = bits_d ((U AND (push_bit 52 1 - 1)) OR push_bit 52 1023);
     expval \<leftarrow> d_to_i32 (dadd (dadd (dlit 1760912590558 (10 ^ 13))
         (dmul (d_of_i32 exp2) (dlit 301029995663981 (10 ^ 15))))
         (dmul (dsub F (dlit 15 10)) (dlit 289529654602168 (10 ^ 15))));
     exp2 \<leftarrow> d_to_i32 (dadd (dmul (d_of_i32 expval) (dlit 3321928094887362 (10 ^ 15))) half);
     let z = dsub (dmul (d_of_i32 expval) (dlit 2302585092994046 (10 ^ 15)))
       (dmul (d_of_i32 exp2) (dlit 6931471805599453 (10 ^ 16)));
     let z2 = dmul z z;
     let F = bits_d (push_bit 52 (scast (exp2 + 1023)));
     let F = dmul F (dadd (dint 1) (ddiv (dmul (dint 2) z) (dadd (dsub (dint 2) z)
       (ddiv z2 (dadd (dint 6) (ddiv z2 (dadd (dint 10) (ddiv z2 (dint 14)))))))));
     Some (if dlt value F then (expval - 1, ddiv F (dint 10)) else (expval, F)) }"

text \<open>The precision, the flags, the width of the exponent and the exponent, as \<open>%g\<close> adapts them.\<close>

definition adapt_exponent :: "double \<Rightarrow> i32 \<Rightarrow> u32 \<Rightarrow> u32 \<Rightarrow> u32 \<times> u32 \<times> u32 \<times> i32" where
  "adapt_exponent value expval prec flags =
     (let minwidth = (if expval <s 100 \<and> - 100 <s expval then 4 else 5)
      in if has flags FLAGS_ADAPT_EXP
         then if dge value (dlit 1 10000) \<and> dlt value (dlit 1000000 1)
           then (if expval <s prec then prec - expval - 1 else 0, flags OR FLAGS_PRECISION, 0, 0)
           else (if 0 < prec \<and> has flags FLAGS_PRECISION then prec - 1 else prec, flags, minwidth, expval)
         else (prec, flags, minwidth, expval))"

definition float_width :: "u32 \<Rightarrow> u32 \<Rightarrow> u32 \<Rightarrow> u32" where
  "float_width width minwidth flags =
     (let fwidth = (if minwidth < width then width - minwidth else 0)
      in if has flags FLAGS_LEFT \<and> minwidth \<noteq> 0 then 0 else fwidth)"

text \<open>The value to print before the exponent, with its precision, width and flags.\<close>

definition scale_value :: "double \<Rightarrow> u32 \<Rightarrow> u32 \<Rightarrow> u32 \<Rightarrow> (double \<times> u32 \<times> u32 \<times> u32 \<times> u32 \<times> i32) option" where
  "scale_value value prec width flags = do {
     let negative = dlt value (dint 0);
     let value = (if negative then dneg value else value);
     let prec = (if \<not> has flags FLAGS_PRECISION then PRINTF_DEFAULT_FLOAT_PRECISION else prec);
     (expval, F) \<leftarrow> decimal_exponent value;
     let (prec, flags, minwidth, expval) = adapt_exponent value expval prec flags;
     let fwidth = float_width width minwidth flags;
     let value = (if expval \<noteq> 0 then ddiv value F else value);
     Some (if negative then dneg value else value, prec, fwidth, flags, minwidth, expval) }"

definition out_exponent :: "out_fct_type \<Rightarrow> u32 \<Rightarrow> u32 \<Rightarrow> u32 \<Rightarrow> u32 \<Rightarrow> i32 \<Rightarrow> u32 \<Rightarrow> u32 \<Rightarrow> u32 \<Rightarrow> pstate \<Rightarrow> u32 \<times> pstate" where
  "out_exponent out buffer start_idx maxlen minwidth expval width flags idx st =
     (if minwidth \<noteq> 0
      then let st = out (if has flags FLAGS_UPPERCASE then chr CHR ''E'' else chr CHR ''e'') buffer idx maxlen st;
               (idx, st) = ntoa_long out buffer (idx + 1) maxlen (if expval <s 0 then - expval else expval)
                 (expval <s 0) 10 0 (minwidth - 1) (FLAGS_ZEROPAD OR FLAGS_PLUS) st
           in if has flags FLAGS_LEFT then pad_to out buffer maxlen start_idx width idx st else (idx, st)
      else (idx, st))"

section \<open>The two functions\<close>

text \<open>
  \<open>_ftoa\<close> and \<open>_etoa\<close> call each other: one function with a flag that tells them apart.
\<close>

partial_function (option) float_conv :: "bool \<Rightarrow> out_fct_type \<times> u32 \<times> u32 \<Rightarrow> u32 \<Rightarrow> double \<Rightarrow> u32 \<Rightarrow> u32 \<Rightarrow> u32 \<Rightarrow>
    pstate \<Rightarrow> (u32 \<times> pstate) option" where
  "float_conv exponential dst idx value prec width flags st =
     (let (out, buffer, maxlen) = dst
      in if exponential
      then if value = NaN \<or> dlt DBL_MAX value \<or> dlt value (dneg DBL_MAX)
        then float_conv False dst idx value prec width flags st
        else do {
          (value, prec, fwidth, flags, minwidth, expval) \<leftarrow> scale_value value prec width flags;
          (idx', st) \<leftarrow> float_conv False dst idx value prec fwidth (flags AND NOT FLAGS_ADAPT_EXP) st;
          Some (out_exponent out buffer idx maxlen minwidth expval width flags idx' st) }
      else if value = NaN then Some (out_rev out buffer idx maxlen (map chr ''nan'') width flags st)
      else if dlt value (dneg DBL_MAX) then Some (out_rev out buffer idx maxlen (map chr ''fni-'') width flags st)
      else if dlt DBL_MAX value
      then Some (out_rev out buffer idx maxlen (if has flags FLAGS_PLUS then map chr ''fni+'' else map chr ''fni'')
        width flags st)
      else if dlt PRINTF_MAX_FLOAT value \<or> dlt value (dneg PRINTF_MAX_FLOAT)
      then float_conv True dst idx value prec width flags st
      else do {
        (buf, width) \<leftarrow> ftoa_chars value prec width flags;
        Some (out_rev out buffer idx maxlen buf width flags st) })"

definition ftoa :: "out_fct_type \<Rightarrow> u32 \<Rightarrow> u32 \<Rightarrow> u32 \<Rightarrow> double \<Rightarrow> u32 \<Rightarrow> u32 \<Rightarrow> u32 \<Rightarrow> pstate \<Rightarrow> (u32 \<times> pstate) option" where
  "ftoa out buffer idx maxlen = float_conv False (out, buffer, maxlen) idx"

definition etoa :: "out_fct_type \<Rightarrow> u32 \<Rightarrow> u32 \<Rightarrow> u32 \<Rightarrow> double \<Rightarrow> u32 \<Rightarrow> u32 \<Rightarrow> u32 \<Rightarrow> pstate \<Rightarrow> (u32 \<times> pstate) option" where
  "etoa out buffer idx maxlen = float_conv True (out, buffer, maxlen) idx"

text \<open>The conversions of the format that take a \<open>double\<close>.\<close>

definition out_float :: "out_fct_type \<Rightarrow> u32 \<Rightarrow> u32 \<Rightarrow> u8 \<Rightarrow> u32 \<Rightarrow> u32 \<Rightarrow> u32 \<Rightarrow> u32 \<Rightarrow> va_word list \<Rightarrow> pstate \<Rightarrow>
    (u32 \<times> va_word list \<times> pstate) option" where
  "out_float out buffer maxlen c flags width precision idx va st =
     (if c = chr CHR ''f'' \<or> c = chr CHR ''F''
      then do {
        let flags = (if c = chr CHR ''F'' then flags OR FLAGS_UPPERCASE else flags);
        (w, va) \<leftarrow> va_arg64 va;
        (idx, st) \<leftarrow> ftoa out buffer idx maxlen (bits_d w) precision width flags st;
        Some (idx, va, st) }
      else if c = chr CHR ''e'' \<or> c = chr CHR ''E'' \<or> c = chr CHR ''g'' \<or> c = chr CHR ''G''
      then do {
        let flags = (if c = chr CHR ''g'' \<or> c = chr CHR ''G'' then flags OR FLAGS_ADAPT_EXP else flags);
        let flags = (if c = chr CHR ''E'' \<or> c = chr CHR ''G'' then flags OR FLAGS_UPPERCASE else flags);
        (w, va) \<leftarrow> va_arg64 va;
        (idx, st) \<leftarrow> etoa out buffer idx maxlen (bits_d w) precision width flags st;
        Some (idx, va, st) }
      else None)"

section \<open>The buffer\<close>

text \<open>The characters of a number: digits, blank, plus, minus and point.\<close>

definition float_codes :: "u8 set" where
  "float_codes = {48..57} \<union> {32, 43, 45, 46}"

definition fits :: "u8 list \<Rightarrow> bool" where
  "fits buf \<longleftrightarrow> length buf \<le> PRINTF_FTOA_BUFFER_SIZE \<and> set buf \<subseteq> float_codes"

lemma fits_snoc [intro, simp]:
  "fits buf \<Longrightarrow> length buf < PRINTF_FTOA_BUFFER_SIZE \<Longrightarrow> c \<in> float_codes \<Longrightarrow> fits (buf @ [c])"
  by (simp add: fits_def)

lemma codes_simps [simp]:
  "chr CHR ''0'' \<in> float_codes" "chr CHR '' '' \<in> float_codes" "chr CHR ''+'' \<in> float_codes"
  "chr CHR ''-'' \<in> float_codes" "chr CHR ''.'' \<in> float_codes"
  by (simp_all add: float_codes_def chr_codes)

lemma code_digit: "0 \<le> x \<Longrightarrow> x < 10 \<Longrightarrow> ucast (48 + word_of_int x :: u32) = (word_of_int (48 + x) :: u8)"
proof -
  assume "0 \<le> x" "x < 10"
  then have "x \<in> {0, 1, 2, 3, 4, 5, 6, 7, 8, 9}" by (simp, presburger)
  then show ?thesis by auto
qed

lemma code_digit_in: "0 \<le> x \<Longrightarrow> x < 10 \<Longrightarrow> (word_of_int (48 + x) :: u8) \<in> float_codes"
proof -
  assume "0 \<le> x" "x < 10"
  then have "x \<in> {0, 1, 2, 3, 4, 5, 6, 7, 8, 9}" by (simp, presburger)
  then show ?thesis by (auto simp: float_codes_def)
qed

lemma mod_10_word: "(w :: u32) mod 10 = word_of_int (uint w mod 10)"
  by (simp add: word_mod_def)

lemma div_10_word: "(w :: u32) div 10 = word_of_int (uint w div 10)"
  by (simp add: word_div_def)

lemma frac_digit: "ucast (48 + fraction mod 10 :: u32) = (word_of_int (48 + uint fraction mod 10) :: u8)"
  unfolding mod_10_word by (rule code_digit) simp_all

lemma frac_digits_fits: "fits buf \<Longrightarrow> fits (snd (frac_digits count fraction buf))"
proof (induction count fraction buf rule: frac_digits.induct)
  case (1 count fraction buf)
  let ?b = "buf @ [ucast (48 + fraction mod 10)]"
  have "length buf < PRINTF_FTOA_BUFFER_SIZE \<Longrightarrow> fits ?b"
    using 1(2) code_digit_in [of "uint fraction mod 10"] by (auto simp: frac_digit)
  then show ?case using 1 by (subst frac_digits.simps) (simp add: Let_def)
qed

lemma extra_zeros_fits: "fits buf \<Longrightarrow> fits (extra_zeros count buf)"
proof (induction count buf rule: extra_zeros.induct)
  case (1 count buf)
  then show ?case by (subst extra_zeros.simps) auto
qed

lemma float_zeros_fits: "fits buf \<Longrightarrow> fits (float_zeros width buf)"
proof (induction width buf rule: float_zeros.induct)
  case (1 width buf)
  then show ?case by (subst float_zeros.simps) auto
qed

lemma sint_div_10: "0 \<le> sint (w :: i32) \<Longrightarrow> sint (word_of_int (sint w sdiv 10) :: i32) = sint w div 10"
  using sint_lt_32 [of w] by (subst sint_of_int_32) (auto simp: signed_divide_int_def sgn_if)

lemma sint_mod_10: "0 \<le> sint (w :: i32) \<Longrightarrow> sint w smod 10 = sint w mod 10"
  by (simp add: signed_modulo_int_def signed_divide_int_def sgn_if minus_div_mult_eq_mod)

lemma whole_digits_fits: "0 \<le> sint whole \<Longrightarrow> fits buf \<Longrightarrow> fits (whole_digits whole buf)"
proof (induction whole buf rule: whole_digits.induct)
  case (1 whole buf)
  let ?b = "buf @ [ucast (48 + (word_of_int (sint whole smod 10) :: i32))]"
  have "length buf < PRINTF_FTOA_BUFFER_SIZE \<Longrightarrow> fits ?b"
    using 1(2,3) code_digit_in [of "sint whole mod 10"] by (auto simp: sint_mod_10 code_digit)
  moreover have "0 \<le> sint (word_of_int (sint whole sdiv 10) :: i32)" using 1(2) by (simp add: sint_div_10)
  ultimately show ?case using 1 by (subst whole_digits.simps) (simp add: Let_def)
qed

lemma float_sign_fits: "fits buf \<Longrightarrow> fits (float_sign buf negative flags)"
  by (auto simp: float_sign_def)

lemma float_pad_fits: "fits buf \<Longrightarrow> fits (fst (float_pad buf negative width flags))"
  by (simp add: float_pad_def Let_def float_zeros_fits)

lemma limit_prec_eq:
  "length buf \<le> PRINTF_FTOA_BUFFER_SIZE \<Longrightarrow>
   limit_prec prec buf = (let j = min (PRINTF_FTOA_BUFFER_SIZE - length buf) (unat prec - 9)
     in (prec - of_nat j, buf @ zeros j))"
proof (induction prec buf rule: limit_prec.induct)
  case (1 prec buf)
  show ?case
  proof (cases "length buf < PRINTF_FTOA_BUFFER_SIZE \<and> 9 < prec")
    case True
    define j where "j = min (PRINTF_FTOA_BUFFER_SIZE - length buf - 1) (unat prec - 10)"
    have u: "unat (prec - 1) = unat prec - 1" using True by (intro unat_minus_one) auto
    have "9 < unat prec" using True by (simp add: word_less_nat_alt)
    then have j: "min (PRINTF_FTOA_BUFFER_SIZE - length buf) (unat prec - 9) = Suc j"
      using True by (auto simp: j_def)
    have "limit_prec (prec - 1) (buf @ [chr CHR ''0'']) = (prec - 1 - of_nat j, (buf @ [48]) @ zeros j)"
      using 1(1) True u by (simp add: Let_def j_def chr_codes)
    then show ?thesis using True by (subst limit_prec.simps) (simp add: j Let_def)
  next
    case False
    then have "PRINTF_FTOA_BUFFER_SIZE - length buf = 0 \<or> unat prec - 9 = 0"
      by (auto simp: word_less_nat_alt)
    then show ?thesis using False by (subst limit_prec.simps) (auto simp: Let_def)
  qed
qed

lemma limit_prec_bounds:
  assumes "limit_prec prec [] = (prec', buf)"
  shows "fits buf" "prec \<le> 41 \<Longrightarrow> prec' \<le> 9" "41 < prec \<Longrightarrow> 9 < prec'"
proof -
  define j where "j = min 32 (unat prec - 9)"
  have e: "prec' = prec - of_nat j" "buf = zeros j"
    using assms limit_prec_eq [of "[]" prec] by (simp_all add: Let_def PRINTF_FTOA_BUFFER_SIZE_def j_def)
  show "fits buf" by (auto simp: fits_def e j_def PRINTF_FTOA_BUFFER_SIZE_def float_codes_def)
  have "unat (of_nat j :: u32) = j" by (rule unat_of_nat_32) (simp add: j_def)
  then have "unat prec' = unat prec - j" unfolding e by (subst unat_sub) (auto simp: word_le_nat_alt j_def)
  then show "prec \<le> 41 \<Longrightarrow> prec' \<le> 9" "41 < prec \<Longrightarrow> 9 < prec'"
    by (auto simp: word_le_nat_alt word_less_nat_alt j_def)
qed

section \<open>The parts of a value\<close>

lemma pow10_nth: "n < 10 \<Longrightarrow> pow10 ! n = Fin (10 ^ n) 0"
proof -
  assume "n < 10"
  then have "n \<in> {0, 1, 2, 3, 4, 5, 6, 7, 8, 9}" by auto
  then show ?thesis by (auto simp: pow10_def dint_exact)
qed

lemma pow10_length [simp]: "length pow10 = 10"
  by (simp add: pow10_def)

lemma dint_values [simp]: "dint 0 = Fin 0 0" "d_of_i32 w = Fin (sint w) 0" "d_of_u32 v = Fin (uint v) 0"
proof -
  have "\<bar>uint v\<bar> < 2 ^ 53" using uint_lt_32 [of v] by (simp del: uint_lt_32)
  moreover have "\<bar>sint w\<bar> < 2 ^ 53" using sint_lt_32 [of w] sint_ge_32 [of w] by simp
  ultimately show "dint 0 = Fin 0 0" "d_of_i32 w = Fin (sint w) 0" "d_of_u32 v = Fin (uint v) 0"
    unfolding d_of_i32_def d_of_u32_def by (auto intro: dint_exact)
qed

lemma not_above: "\<not> dlt (Fin N 0) (Fin m e) \<longleftrightarrow> at_most m e N"
  by (auto simp: at_most_def min_def Let_def not_less)

lemma max_float: "PRINTF_MAX_FLOAT = Fin (10 ^ 9) 0"
  by (simp add: PRINTF_MAX_FLOAT_def dint_exact)

text \<open>The fraction of a non-negative number is not above 1.\<close>

lemma fraction_between:
  assumes "0 \<le> m" "trunc m e < 2 ^ 31"
  obtains m' e' where "dsub (Fin m e) (d_of_i32 (word_of_int (trunc m e))) = Fin m' e'" "0 \<le> m'" "at_most m' e' 1"
proof -
  have t: "0 \<le> trunc m e" using assms by (simp add: trunc_def sgn_if pos_imp_zdiv_nonneg_iff)
  then have w: "sint (word_of_int (trunc m e) :: i32) = trunc m e" using assms by (intro sint_of_int_32) auto
  define f where "f = (if 0 \<le> e then 0 else m mod 2 ^ nat (- e))"
  have "dsub (Fin m e) (d_of_i32 (word_of_int (trunc m e))) = rnd f (min e 0)"
  proof (cases "0 \<le> e")
    case False
    have "m - m div 2 ^ nat (- e) * 2 ^ nat (- e) = m mod 2 ^ nat (- e)" by (simp add: minus_div_mult_eq_mod)
    moreover have "trunc m e = m div 2 ^ nat (- e)" using False assms(1) by (simp add: trunc_def sgn_if)
    ultimately show ?thesis using False w by (simp add: dsub_def f_def)
  next
    case True
    moreover have "trunc m e = m * 2 ^ nat e" using True by (simp add: trunc_def)
    ultimately show ?thesis using w by (simp add: dsub_def f_def)
  qed
  moreover have "0 \<le> f" "at_most f (min e 0) 1"
    using pos_mod_bound [of "2 ^ nat (- e)" m] by (auto simp: f_def at_most_def simp del: pos_mod_bound)
  ultimately show thesis using rnd_between [of f "min e 0" 1] that by auto
qed

lemma at_most_scale: "at_most m e 1 \<Longrightarrow> 0 \<le> c \<Longrightarrow> at_most (m * c) e c"
proof (cases "0 \<le> e")
  case True
  assume "at_most m e 1" "0 \<le> c"
  then show ?thesis using True mult_left_mono [of "m * 2 ^ nat e" 1 c] by (simp add: at_most_def mult_ac)
next
  case False
  assume "at_most m e 1" "0 \<le> c"
  then show ?thesis using False mult_left_mono [of m "2 ^ nat (- e)" c] by (simp add: at_most_def mult_ac)
qed

lemma split_value_eq:
  assumes "d_to_i32 value = Some whole" "unat prec < 10"
    and "dmul (dsub value (d_of_i32 whole)) (pow10 ! unat prec) = tmp" "d_to_u32 tmp = Some fraction"
  shows "split_value value prec = Some
    (if dlt half (dsub tmp (d_of_u32 fraction))
     then if dge (d_of_u32 (fraction + 1)) (pow10 ! unat prec) then (whole + 1, 0) else (whole, fraction + 1)
     else if dlt (dsub tmp (d_of_u32 fraction)) half \<or> \<not> (fraction = 0 \<or> fraction AND 1 \<noteq> 0) then (whole, fraction)
     else (whole, fraction + 1))"
  unfolding split_value_def assms(1) using assms(2-) by (simp add: Let_def del: dint_values)

lemma split_value_some:
  assumes "0 \<le> m" "at_most m e (10 ^ 9)" "prec \<le> 9"
  obtains whole fraction where "split_value (Fin m e) prec = Some (whole, fraction)" "0 \<le> sint whole" "sint whole \<le> 10 ^ 9 + 1"
proof -
  define w where "w = (word_of_int (trunc m e) :: i32)"
  have t: "0 \<le> trunc m e" "trunc m e \<le> 1000000000"
    using trunc_between [OF assms(1,2)] by simp_all
  then have w: "sint w = trunc m e" unfolding w_def by (intro sint_of_int_32) simp_all
  have "- (2 ^ 31) \<le> trunc m e \<and> trunc m e < 2 ^ 31" using t by simp
  then have wi: "d_to_i32 (Fin m e) = Some w" by (simp only: d_to_i32.simps w_def if_True simp_thms)
  have p: "unat prec < 10" using assms(3) by (simp add: word_le_nat_alt)
  have lt: "trunc m e < 2 ^ 31" using t by simp
  obtain m1 e1 where d: "dsub (Fin m e) (d_of_i32 w) = Fin m1 e1" "0 \<le> m1" "at_most m1 e1 1"
    unfolding w_def by (rule fraction_between [OF assms(1) lt])
  define P where "P = (10::int) ^ unat prec"
  have "P \<le> 10 ^ 9" unfolding P_def using p by (intro power_increasing) simp_all
  then have P: "0 \<le> P" "P \<le> 1000000000" by (simp_all add: P_def)
  have u: "at_most (m1 * P) e1 P" by (rule at_most_scale [OF d(3) P(1)])
  have "0 \<le> m1 * P" using d(2) P(1) by simp
  moreover have "P < 2 ^ 53" using P(2) by simp
  ultimately obtain m2 e2 where r: "rnd (m1 * P) e1 = Fin m2 e2" "0 \<le> m2" "at_most m2 e2 P"
    by (rule rnd_between [OF _ u P(1)])
  have "0 \<le> trunc m2 e2" "trunc m2 e2 \<le> 1000000000" using trunc_between [OF r(2,3) P(1)] P(2) by simp_all
  then have "0 \<le> trunc m2 e2 \<and> trunc m2 e2 < 2 ^ 32" by simp
  then have f: "d_to_u32 (Fin m2 e2) = Some (word_of_int (trunc m2 e2))" by (simp only: d_to_u32.simps if_True simp_thms)
  have "dmul (dsub (Fin m e) (d_of_i32 w)) (pow10 ! unat prec) = Fin m2 e2"
    using r(1) pow10_nth [OF p] by (simp add: P_def d(1) del: dint_values)
  from split_value_eq [OF wi p this f]
  have "\<exists>whole fraction. split_value (Fin m e) prec = Some (whole, fraction) \<and> (whole = w \<or> whole = w + 1)"
    by (simp del: dint_values split: if_split)
  moreover have "sint (w + 1) = trunc m e + 1" using t by (subst sint_add_32) (simp_all add: w)
  ultimately show thesis using that t w by force
qed

section \<open>Every value of moderate size\<close>

lemma moderate_value:
  assumes "\<not> dlt PRINTF_MAX_FLOAT (Fin m e)" "\<not> dlt (Fin m e) (dneg PRINTF_MAX_FLOAT)"
  obtains m' e' where "(if dlt (Fin m e) (dint 0) then dsub (dint 0) (Fin m e) else Fin m e) = Fin m' e'"
    "0 \<le> m'" "at_most m' e' (10 ^ 9)"
proof (cases "m < 0")
  case False
  have "at_most m e (10 ^ 9)" using assms(1) unfolding max_float not_above .
  moreover have "\<not> dlt (Fin m e) (dint 0)" using False by (simp add: mult_less_0_iff)
  ultimately show thesis using that [of m e] False by simp
next
  case True
  then have l: "dlt (Fin m e) (dint 0)" by (simp add: mult_less_0_iff)
  define f where "f = - m * 2 ^ nat (e - min e 0)"
  have "dsub (dint 0) (Fin m e) = rnd f (min e 0)" by (simp add: dsub_def f_def Let_def min.commute)
  moreover have "0 \<le> f" using True by (simp add: f_def mult_le_0_iff)
  moreover have "at_most f (min e 0) (10 ^ 9)"
    using assms(2) by (auto simp: f_def at_most_def max_float min_def not_less split: if_splits)
  ultimately show thesis using that l rnd_between [of f "min e 0" "10 ^ 9"] by auto
qed

lemma float_fraction_fits:
  assumes "float_fraction value prec whole fraction buf = (whole', buf')" "fits buf" "0 \<le> sint whole" "sint whole \<le> 10 ^ 9 + 1"
  shows "0 \<le> sint whole' \<and> fits buf'"
proof (cases "prec = 0")
  case True
  have "sint (whole + 1) = sint whole + 1" using assms(3,4) by (subst sint_add_32) simp_all
  then show ?thesis using assms True by (auto simp: float_fraction_def Let_def simp del: dint_values split: if_splits)
next
  case False
  obtain count b where f: "frac_digits prec fraction buf = (count, b)" by (metis surj_pair)
  then have "fits (extra_zeros count b)" using frac_digits_fits [OF assms(2), of prec fraction] extra_zeros_fits by simp
  then show ?thesis using assms False f by (auto simp: float_fraction_def Let_def split: if_splits)
qed

lemma ftoa_chars_fits:
  assumes "\<not> dlt PRINTF_MAX_FLOAT (Fin m e)" "\<not> dlt (Fin m e) (dneg PRINTF_MAX_FLOAT)"
    and "\<not> has flags FLAGS_PRECISION \<or> prec \<le> 41"
  obtains buf width' where "ftoa_chars (Fin m e) prec width flags = Some (buf, width')" "fits buf" "width' \<le> width"
proof -
  define q where "q = (if \<not> has flags FLAGS_PRECISION then PRINTF_DEFAULT_FLOAT_PRECISION else prec)"
  have q: "q \<le> 41" using assms(3) by (auto simp: q_def PRINTF_DEFAULT_FLOAT_PRECISION_def)
  obtain m1 e1 where v: "(if dlt (Fin m e) (dint 0) then dsub (dint 0) (Fin m e) else Fin m e) = Fin m1 e1"
    "0 \<le> m1" "at_most m1 e1 (10 ^ 9)" by (rule moderate_value [OF assms(1,2)])
  obtain p b0 where l: "limit_prec q [] = (p, b0)" by (metis surj_pair)
  note lb = limit_prec_bounds [OF l]
  obtain whole fraction where s: "split_value (Fin m1 e1) p = Some (whole, fraction)" "0 \<le> sint whole" "sint whole \<le> 10 ^ 9 + 1"
    by (rule split_value_some [OF v(2,3) lb(2) [OF q]])
  obtain w1 b1 where f: "float_fraction (Fin m1 e1) p whole fraction b0 = (w1, b1)" by (metis surj_pair)
  note fb = float_fraction_fits [OF f lb(1) s(2,3)]
  let ?n = "dlt (Fin m e) (dint 0)"
  let ?b = "whole_digits w1 b1"
  have "ftoa_chars (Fin m e) prec width flags =
      Some (float_sign (fst (float_pad ?b ?n width flags)) ?n flags, snd (float_pad ?b ?n width flags))"
    unfolding ftoa_chars_def Let_def v(1) q_def [symmetric] l using s(1) f by (simp add: case_prod_beta)
  moreover have "fits (float_sign (fst (float_pad ?b ?n width flags)) ?n flags)"
    using fb by (intro float_sign_fits float_pad_fits whole_digits_fits) simp_all
  moreover have "snd (float_pad ?b ?n width flags) \<le> width"
    by (auto simp: float_pad_def Let_def word_le_nat_alt unat_minus_one)
  ultimately show thesis by (rule that)
qed

lemma ftoa_chars_none:
  assumes "\<not> dlt PRINTF_MAX_FLOAT (Fin m e)" "\<not> dlt (Fin m e) (dneg PRINTF_MAX_FLOAT)"
    and "has flags FLAGS_PRECISION" "41 < prec"
  shows "ftoa_chars (Fin m e) prec width flags = None"
proof -
  obtain p b0 where l: "limit_prec prec [] = (p, b0)" by (metis surj_pair)
  then have "9 < p" using limit_prec_bounds(3) assms(4) by blast
  then have "split_value v p = None" for v
    by (auto simp: split_value_def word_less_nat_alt Option.bind_eq_None_conv)
  then show ?thesis unfolding ftoa_chars_def Let_def using assms(3) l by (simp add: Let_def)
qed

lemma dlt_dneg: "dlt (Fin m e) (dneg (Fin N k)) \<longleftrightarrow> dlt (Fin N k) (Fin (- m) e)"
  by (auto simp: Let_def min.commute)

lemma not_above_max:
  assumes "at_most m e N" "N < 2 ^ 53"
  shows "\<not> dlt DBL_MAX (Fin m e)"
proof -
  define d where "d = min 971 e"
  have N: "N \<le> 2 ^ 53 - 1" using assms(2) by simp
  have "m * 2 ^ nat (e - d) \<le> (2 ^ 53 - 1) * 2 ^ nat (971 - d)"
  proof (cases "m \<le> 0")
    case True
    then have "m * 2 ^ nat (e - d) \<le> 0" by (simp add: mult_le_0_iff)
    also have "(0::int) \<le> (2 ^ 53 - 1) * 2 ^ nat (971 - d)" by simp
    finally show ?thesis .
  next
    case False
    show ?thesis
    proof (cases "0 \<le> e")
      case True
      then have "(2::int) ^ nat (e - d) \<le> 2 ^ nat e" by (intro power_increasing) (auto simp: d_def)
      then have "m * 2 ^ nat (e - d) \<le> m * 2 ^ nat e" using False by (intro mult_left_mono) simp_all
      also have "\<dots> \<le> (2 ^ 53 - 1) * 1" using assms(1) True N by (simp add: at_most_def)
      also have "\<dots> \<le> (2 ^ 53 - 1) * 2 ^ nat (971 - d)" by (intro mult_left_mono) simp_all
      finally show ?thesis .
    next
      case neg: False
      have "m \<le> N * 2 ^ nat (- e)" using assms(1) neg by (simp add: at_most_def)
      also have "\<dots> \<le> (2 ^ 53 - 1) * 2 ^ nat (971 - d)"
        using N neg by (intro mult_mono power_increasing) (auto simp: d_def)
      finally show ?thesis using neg by (simp add: d_def)
    qed
  qed
  then show ?thesis unfolding DBL_MAX_def dlt.simps Let_def d_def [symmetric] by (simp only: not_less)
qed

lemmas ftoa_simps = ftoa_def float_conv.simps [of False]

text \<open>What is not above the limit of \<open>_ftoa\<close> is no special value.\<close>

lemma ftoa_moderate:
  assumes "\<not> dlt PRINTF_MAX_FLOAT (Fin m e)" "\<not> dlt (Fin m e) (dneg PRINTF_MAX_FLOAT)"
  shows "ftoa out buffer idx maxlen (Fin m e) prec width flags st = do {
    (buf, width) \<leftarrow> ftoa_chars (Fin m e) prec width flags;
    Some (out_rev out buffer idx maxlen buf width flags st) }"
proof -
  have "at_most m e (10 ^ 9)" using assms(1) unfolding max_float not_above .
  then have "\<not> dlt DBL_MAX (Fin m e)" by (rule not_above_max) simp
  moreover have "at_most (- m) e (10 ^ 9)" using assms(2) unfolding max_float dlt_dneg not_above .
  then have "\<not> dlt (Fin m e) (dneg DBL_MAX)"
    unfolding DBL_MAX_def dlt_dneg by (rule not_above_max [unfolded DBL_MAX_def]) simp
  ultimately show ?thesis using assms by (simp add: ftoa_simps)
qed

lemma rev_text_codes:
  "length (rev_text buf w flags) \<le> max (length buf) w \<and> set (rev_text buf w flags) \<subseteq> insert 32 (set buf)"
  by (auto simp: rev_text_def)

text \<open>A value above the limit that is infinite is written as a word.\<close>

lemma ftoa_special:
  "ftoa out buffer idx maxlen NaN prec width flags st =
    Some (out_rev out buffer idx maxlen (map chr ''nan'') width flags st)"
  "ftoa out buffer idx maxlen (Inf True) prec width flags st =
    Some (out_rev out buffer idx maxlen (map chr ''fni-'') width flags st)"
  "ftoa out buffer idx maxlen (Inf False) prec width flags st =
    Some (out_rev out buffer idx maxlen (if has flags FLAGS_PLUS then map chr ''fni+'' else map chr ''fni'') width flags st)"
  by (simp_all add: ftoa_simps DBL_MAX_def)

text \<open>C29: whatever the precision, the width and the flags, \<open>_ftoa\<close> of a value of magnitude at most \<open>1e9\<close> stays inside its
  buffer of 32 characters and converts no value out of range, and sends out digits, blanks, signs and
  the point only; from a precision of 42 on it reads behind \<open>pow10\<close>.\<close>

theorem ftoa_in_bounds:
  assumes "\<not> dlt PRINTF_MAX_FLOAT (Fin m e)" "\<not> dlt (Fin m e) (dneg PRINTF_MAX_FLOAT)"
  shows "if has flags FLAGS_PRECISION \<and> 41 < prec
    then ftoa out buffer idx maxlen (Fin m e) prec width flags st = None
    else \<exists>cs. ftoa out buffer idx maxlen (Fin m e) prec width flags st = Some (out_text out buffer maxlen cs idx st) \<and>
      length cs \<le> max PRINTF_FTOA_BUFFER_SIZE (unat width) \<and> set cs \<subseteq> float_codes"
proof (cases "has flags FLAGS_PRECISION \<and> 41 < prec")
  case True
  then show ?thesis using assms by (simp add: ftoa_moderate ftoa_chars_none)
next
  case False
  then obtain buf w where c: "ftoa_chars (Fin m e) prec width flags = Some (buf, w)" "fits buf" "w \<le> width"
    using ftoa_chars_fits [OF assms] by (metis linorder_not_less)
  let ?cs = "rev_text buf (unat w) flags"
  have "length buf \<le> 32" using c(2) by (simp add: fits_def PRINTF_FTOA_BUFFER_SIZE_def)
  then have "ftoa out buffer idx maxlen (Fin m e) prec width flags st = Some (out_text out buffer maxlen ?cs idx st)"
    using assms c(1) by (simp add: ftoa_moderate out_rev_text)
  moreover have "length ?cs \<le> max PRINTF_FTOA_BUFFER_SIZE (unat width)" "set ?cs \<subseteq> float_codes"
    using rev_text_codes [of buf "unat w" flags] c(2,3)
    by (auto simp: fits_def word_le_nat_alt float_codes_def)
  ultimately show ?thesis using False by auto
qed

theorem ftoa_in_bounds_witness:
  "\<exists>cs. ftoa out_null 256 0 9 (Fin (- 7) (- 1)) 41 0 FLAGS_PRECISION ((\<lambda>_. 0), run_dev []) = Some (out_text out_null 256 9 cs 0 ((\<lambda>_. 0), run_dev [])) \<and>
     length cs \<le> 32 \<and> set cs \<subseteq> float_codes"
  using ftoa_in_bounds [of "- 7" "- 1" FLAGS_PRECISION 41 out_null 256 0 9 0 "((\<lambda>_. 0), run_dev [])"]
  by (simp add: max_float PRINTF_FTOA_BUFFER_SIZE_def)

end
