(* ===== verification/FloatText.thy ===== *)
theory FloatText
  imports PrintfFloat
begin

text \<open>
  What the floating point conversions of \<^verbatim>\<open>os/src/printf.c\<close> print: \<open>_ftoa\<close> prints the nearest decimal of a
  value whose fraction is short enough to be multiplied exactly, in the field of the integer conversions;
  \<open>%g\<close> of a number of moderate size is \<open>_ftoa\<close> with the precision the decimal exponent leaves; and some
  values the two functions print wrongly, by running the model.
\<close>

section \<open>The text of a value\<close>

text \<open>The decimal digits of a number, and its last \<open>p\<close> ones.\<close>

definition dec :: "int \<Rightarrow> u8 list" where
  "dec n = map (\<lambda>d. word_of_int (48 + d)) (digits 10 n)"

definition dec_fixed :: "nat \<Rightarrow> int \<Rightarrow> u8 list" where
  "dec_fixed p n = zeros (p - length (dec n)) @ dec n"

lemma digits_10:
  "0 \<le> n \<Longrightarrow> digits 10 n = (if n div 10 = 0 then [] else digits 10 (n div 10)) @ [n mod 10]"
  by (subst digits.simps) (auto simp: div_pos_pos_trivial mod_pos_pos_trivial)

lemma dec_step: "0 \<le> n \<Longrightarrow> dec n = (if n div 10 = 0 then [] else dec (n div 10)) @ [word_of_int (48 + n mod 10)]"
  by (simp add: dec_def digits_10 [of n])

lemma dec_digits_length: "0 \<le> n \<Longrightarrow> n < 10 ^ k \<Longrightarrow> 1 \<le> k \<Longrightarrow> length (dec n) \<le> k"
proof (induction k arbitrary: n)
  case (Suc k)
  show ?case
  proof (cases "n div 10 = 0")
    case False
    then have "k \<noteq> 0" using Suc.prems by (cases "k = 0") (simp_all add: div_pos_pos_trivial)
    moreover have "n div 10 < 10 ^ k" using Suc.prems by simp
    ultimately have "length (dec (n div 10)) \<le> k" using Suc.prems by (intro Suc.IH) auto
    then show ?thesis using False Suc.prems by (simp add: dec_step [of n])
  qed (use Suc.prems in \<open>simp add: dec_step [of n]\<close>)
qed simp

lemma word_eq_0: "0 \<le> n \<Longrightarrow> n < 2 ^ 32 \<Longrightarrow> (word_of_int n :: u32) = 0 \<longleftrightarrow> n = 0"
  using zdvd_imp_le [of "2 ^ 32" n] by (auto simp: word_of_int_eq_0_iff)

lemma whole_digits_dec:
  "0 \<le> n \<Longrightarrow> n < 2 ^ 31 \<Longrightarrow> length buf + length (dec n) \<le> 32 \<Longrightarrow>
   whole_digits (word_of_int n) buf = buf @ rev (dec n)"
proof (induction "nat n" arbitrary: n buf rule: less_induct)
  case 1: (less n buf)
  let ?c = "word_of_int (48 + n mod 10) :: u8"
  have s: "sint (word_of_int n :: i32) = n" using 1 by (intro sint_of_int_32) simp_all
  have m: "n smod 10 = n mod 10" using sint_mod_10 [of "word_of_int n"] s 1 by simp
  have d: "n sdiv 10 = n div 10" using 1 by (simp add: signed_divide_int_def sgn_if)
  have c: "ucast (48 + (word_of_int (n smod 10) :: i32)) = ?c" unfolding m by (rule code_digit) simp_all
  have z: "(word_of_int (n div 10) :: i32) = 0 \<longleftrightarrow> n div 10 = 0" using 1 by (intro word_eq_0) auto
  have l: "length buf < PRINTF_FTOA_BUFFER_SIZE"
    using 1 by (simp add: dec_step [of n] PRINTF_FTOA_BUFFER_SIZE_def)
  have "n div 10 \<noteq> 0 \<Longrightarrow> whole_digits (word_of_int (n div 10)) (buf @ [?c]) = (buf @ [?c]) @ rev (dec (n div 10))"
    using 1(2-) by (intro 1(1)) (auto simp: dec_step [of n])
  then show ?case
    using 1 l by (subst whole_digits.simps) (simp add: Let_def s d c z dec_step [of n])
qed

lemma frac_digits_dec:
  "0 \<le> n \<Longrightarrow> n < 2 ^ 32 \<Longrightarrow> length buf + length (dec n) \<le> 32 \<Longrightarrow>
   frac_digits count (word_of_int n) buf = (count - of_nat (length (dec n)), buf @ rev (dec n))"
proof (induction "nat n" arbitrary: n count buf rule: less_induct)
  case 1: (less n count buf)
  let ?c = "word_of_int (48 + n mod 10) :: u8"
  have u: "uint (word_of_int n :: u32) = n" using 1 by (simp add: uint_word_of_int)
  have c: "ucast (48 + word_of_int n mod 10 :: u32) = ?c" unfolding frac_digit u ..
  have d: "(word_of_int n :: u32) div 10 = word_of_int (n div 10)" unfolding div_10_word u ..
  have z: "(word_of_int (n div 10) :: u32) = 0 \<longleftrightarrow> n div 10 = 0" using 1 by (intro word_eq_0) auto
  have l: "length buf < PRINTF_FTOA_BUFFER_SIZE"
    using 1 by (simp add: dec_step [of n] PRINTF_FTOA_BUFFER_SIZE_def)
  have "n div 10 \<noteq> 0 \<Longrightarrow> frac_digits (count - 1) (word_of_int (n div 10)) (buf @ [?c]) =
      (count - 1 - of_nat (length (dec (n div 10))), (buf @ [?c]) @ rev (dec (n div 10)))"
    using 1(2-) by (intro 1(1)) (auto simp: dec_step [of n])
  then show ?case
    using 1 l by (subst frac_digits.simps) (simp add: Let_def c d z dec_step [of n])
qed

lemma extra_zeros_eq:
  "length buf \<le> 32 \<Longrightarrow> extra_zeros count buf = buf @ zeros (min (unat count) (32 - length buf))"
proof (induction count buf rule: extra_zeros.induct)
  case (1 count buf)
  show ?case
  proof (cases "length buf < 32 \<and> 0 < count")
    case True
    then have "count \<noteq> 0" by auto
    then have u: "unat (count - 1) = unat count - 1" "0 < unat count"
      by (simp_all add: unat_minus_one unat_gt_0)
    then have "min (unat count) (32 - length buf) = Suc (min (unat (count - 1)) (32 - length (buf @ [48])))"
      using True by auto
    then show ?thesis
      using 1 True by (subst extra_zeros.simps) (simp add: PRINTF_FTOA_BUFFER_SIZE_def chr_codes)
  next
    case False
    then have "min (unat count) (32 - length buf) = 0" by (auto simp: word_gt_0)
    then show ?thesis using False by (subst extra_zeros.simps) (auto simp: PRINTF_FTOA_BUFFER_SIZE_def)
  qed
qed

lemma float_fraction_dec:
  assumes "1 \<le> unat prec" "unat prec \<le> 9" "0 \<le> n" "n < 10 ^ unat prec"
  shows "float_fraction value prec whole (word_of_int n) [] = (whole, rev (46 # dec_fixed (unat prec) n))"
proof -
  have l: "length (dec n) \<le> unat prec" using assms dec_digits_length by blast
  have "n < 10 ^ 9" using assms(2,4) power_increasing [of "unat prec" 9 "10::int"] by simp
  then have f: "frac_digits prec (word_of_int n) [] = (prec - of_nat (length (dec n)), rev (dec n))"
    using l assms by (subst frac_digits_dec) simp_all
  have "unat (of_nat (length (dec n)) :: u32) = length (dec n)" using l assms(2) by (intro unat_of_nat_32) simp
  then have "unat (prec - of_nat (length (dec n))) = unat prec - length (dec n)"
    using l by (subst unat_sub) (simp_all add: word_le_nat_alt)
  then have "extra_zeros (prec - of_nat (length (dec n))) (rev (dec n)) = rev (dec_fixed (unat prec) n)"
    using l assms(2) by (simp add: extra_zeros_eq dec_fixed_def)
  then show ?thesis
    using assms(1,2) l by (auto simp: float_fraction_def f Let_def PRINTF_FTOA_BUFFER_SIZE_def chr_codes dec_fixed_def)
qed

text \<open>The sign and the padding are those of the integer conversions.\<close>

lemma float_zeros_pad: "float_zeros width buf = pad_digits width buf"
proof (induction width buf rule: float_zeros.induct)
  case (1 width buf)
  then show ?case
    by (subst float_zeros.simps, subst pad_digits.simps) (simp add: PRINTF_FTOA_BUFFER_SIZE_def PRINTF_NTOA_BUFFER_SIZE_def)
qed

lemma float_field:
  assumes "length ds + length (sign_text negative (has flags FLAGS_PLUS) (has flags FLAGS_SPACE)) \<le> 32"
    and "has flags FLAGS_ZEROPAD \<Longrightarrow> \<not> has flags FLAGS_LEFT \<Longrightarrow> unat width \<le> 32"
  shows "(let (buf, width) = float_pad (rev ds) negative width flags
      in out_rev out buffer idx maxlen (float_sign buf negative flags) width flags st) =
    out_text out buffer maxlen (field (has flags FLAGS_LEFT) (has flags FLAGS_ZEROPAD) (unat width)
      (sign_text negative (has flags FLAGS_PLUS) (has flags FLAGS_SPACE)) ds) idx st"
proof -
  define f where "f = flags AND NOT FLAGS_HASH"
  have h [simp]: "has f FLAGS_LEFT = has flags FLAGS_LEFT" "has f FLAGS_ZEROPAD = has flags FLAGS_ZEROPAD"
    "has f FLAGS_PLUS = has flags FLAGS_PLUS" "has f FLAGS_SPACE = has flags FLAGS_SPACE" "\<not> has f FLAGS_HASH"
    by (simp_all add: f_def has_flags bit_simps bit_flag)
  have o: "out_rev out buffer idx maxlen buf width f st = out_rev out buffer idx maxlen buf width flags st" for buf width
    by (simp add: out_rev_def)
  have s: "ntoa_sign buf negative f = float_sign buf negative flags" for buf
    by (simp add: ntoa_sign_def float_sign_def PRINTF_FTOA_BUFFER_SIZE_def PRINTF_NTOA_BUFFER_SIZE_def)
  have "(let (buf, width) = float_pad (rev ds) negative width flags
      in out_rev out buffer idx maxlen (float_sign buf negative flags) width flags st) =
    ntoa_format out buffer idx maxlen (rev ds) negative 10 0 width f st"
    by (auto simp: ntoa_format_def float_pad_def Let_def o s float_zeros_pad pad_digits_text has_or)
  also have "\<dots> = out_text out buffer maxlen (field (has flags FLAGS_LEFT) (has flags FLAGS_ZEROPAD) (unat width)
      (sign_text negative (has flags FLAGS_PLUS) (has flags FLAGS_SPACE)) ds) idx st"
    using assms by (subst ntoa_format_text) simp_all
  finally show ?thesis .
qed

section \<open>Rounding to the nearest decimal\<close>

lemma half_eq: "half = Fin (2 ^ 52) (- 53)"
  by code_simp

lemma half_compare:
  assumes "k \<le> 53"
  shows "dlt half (Fin d (- int k)) \<longleftrightarrow> 2 ^ k < 2 * d" "dlt (Fin d (- int k)) half \<longleftrightarrow> 2 * d < 2 ^ k"
proof -
  define j where "j = 53 - k"
  have e: "min (- 53) (- int k) = - 53" "nat (- int k - - 53) = j" "nat (53 - int k) = j" using assms by (simp_all add: j_def)
  have p: "(2::int) ^ 53 = 2 ^ k * 2 ^ j" using assms by (simp add: j_def flip: power_add)
  have "(2::int) ^ 52 < d * 2 ^ j \<longleftrightarrow> 2 ^ 53 < 2 * d * 2 ^ j" by simp
  also have "\<dots> \<longleftrightarrow> 2 ^ k < 2 * d" unfolding p by (rule mult_less_cancel_right_pos) simp
  finally show "dlt half (Fin d (- int k)) \<longleftrightarrow> 2 ^ k < 2 * d" by (simp add: half_eq Let_def e)
  have "d * 2 ^ j < (2::int) ^ 52 \<longleftrightarrow> 2 * d * 2 ^ j < 2 ^ 53" by simp
  also have "\<dots> \<longleftrightarrow> 2 * d < 2 ^ k" unfolding p by (rule mult_less_cancel_right_pos) simp
  finally show "dlt (Fin d (- int k)) half \<longleftrightarrow> 2 * d < 2 ^ k"
    by (simp add: half_eq Let_def e min.commute [of "- int k"])
qed

lemma trunc_frac: "0 \<le> m \<Longrightarrow> trunc m (- int k) = m div 2 ^ k"
  by (cases "k = 0") (auto simp: trunc_def sgn_if)

text \<open>Exact arithmetic on numbers with \<open>k\<close> binary places.\<close>

lemma dsub_exact:
  "\<bar>m - w * 2 ^ k\<bar> < 2 ^ 53 \<Longrightarrow> k \<le> 53 \<Longrightarrow> dsub (Fin m (- int k)) (Fin w 0) = Fin (m - w * 2 ^ k) (- int k)"
  by (simp add: dsub_def Let_def rnd_exact)

lemma to_i32_exact:
  "0 \<le> m \<Longrightarrow> m div 2 ^ k < 2 ^ 31 \<Longrightarrow> d_to_i32 (Fin m (- int k)) = Some (word_of_int (m div 2 ^ k))"
  by (simp add: trunc_frac pos_imp_zdiv_nonneg_iff order_trans [of _ 0])

lemma to_u32_exact:
  "0 \<le> m \<Longrightarrow> m div 2 ^ k < 2 ^ 32 \<Longrightarrow> d_to_u32 (Fin m (- int k)) = Some (word_of_int (m div 2 ^ k))"
  by (simp add: trunc_frac pos_imp_zdiv_nonneg_iff)

text \<open>The integer nearest to \<open>a / 2 ^ k\<close>.\<close>

definition nearest :: "int \<Rightarrow> nat \<Rightarrow> int" where
  "nearest a k = a div 2 ^ k + (if 2 ^ k < 2 * (a mod 2 ^ k) then 1 else 0)"

lemma nearest_bound: "2 * \<bar>nearest a k * 2 ^ k - a\<bar> \<le> 2 ^ k"
proof -
  define q r and p :: int where "q = a div 2 ^ k" and "r = a mod 2 ^ k" and "p = 2 ^ k"
  have "a = q * p + r" unfolding q_def r_def p_def by (rule div_mult_mod_eq [symmetric])
  moreover have "0 \<le> r" "r < p" by (simp_all add: r_def p_def)
  ultimately show ?thesis unfolding nearest_def q_def [symmetric] r_def [symmetric] p_def [symmetric]
    by (auto simp: distrib_right)
qed

lemma nearest_parts:
  fixes m :: int and p k :: nat
  defines "r \<equiv> m mod 2 ^ k * 10 ^ p"
  shows "m * 10 ^ p div 2 ^ k = m div 2 ^ k * 10 ^ p + r div 2 ^ k" "m * 10 ^ p mod 2 ^ k = r mod 2 ^ k"
    "0 \<le> r div 2 ^ k" "r div 2 ^ k < 10 ^ p"
proof -
  have "m * 10 ^ p = (m div 2 ^ k * 2 ^ k + m mod 2 ^ k) * 10 ^ p" by (simp only: div_mult_mod_eq)
  also have "\<dots> = r + m div 2 ^ k * 10 ^ p * 2 ^ k" unfolding r_def distrib_right by (simp only: mult_ac add_ac)
  finally have e: "m * 10 ^ p = r + m div 2 ^ k * 10 ^ p * 2 ^ k" .
  show "m * 10 ^ p div 2 ^ k = m div 2 ^ k * 10 ^ p + r div 2 ^ k" unfolding e by simp
  show "m * 10 ^ p mod 2 ^ k = r mod 2 ^ k" unfolding e by simp
  show "0 \<le> r div 2 ^ k" by (simp add: r_def pos_imp_zdiv_nonneg_iff)
  have "r < 10 ^ p * 2 ^ k" unfolding r_def by (simp add: mult.commute [of "10 ^ p"])
  moreover have "r div 2 ^ k * 2 ^ k \<le> r"
    using div_mult_mod_eq [of r "2 ^ k"] pos_mod_sign [of "2 ^ k" r, OF zero_less_power [OF zero_less_numeral]] by linarith
  ultimately have "r div 2 ^ k * 2 ^ k < 10 ^ p * 2 ^ k" by linarith
  then show "r div 2 ^ k < 10 ^ p" by (simp only: mult_less_cancel_right_pos zero_less_power zero_less_numeral)
qed

text \<open>Rounding the fraction \<open>q\<close> up may carry into the whole part.\<close>

lemma decimal_cases:
  fixes n w q d :: int
  assumes n: "n = w * 10 ^ p + q + (if 2 ^ k < 2 * d then 1 else 0)" and q: "0 \<le> q" "q < 10 ^ p" and c: "2 * d \<noteq> 2 ^ k"
  obtains (carry) "2 ^ k < 2 * d" "q + 1 = 10 ^ p" "n div 10 ^ p = w + 1" "n mod 10 ^ p = 0"
    | (up) "2 ^ k < 2 * d" "q + 1 \<noteq> 10 ^ p" "n div 10 ^ p = w" "n mod 10 ^ p = q + 1"
    | (down) "2 * d < 2 ^ k" "n div 10 ^ p = w" "n mod 10 ^ p = q"
proof (cases "2 ^ k < 2 * d")
  case False
  then have "n = q + w * 10 ^ p" "2 * d < 2 ^ k" using n c by simp_all
  then show thesis using down q by simp
next
  case True
  show thesis
  proof (cases "q + 1 = 10 ^ p")
    case carries: True
    then have "n = (w + 1) * 10 ^ p" using n True by (simp add: distrib_right)
    then show thesis using carry True carries by simp
  next
    case False
    then have "n = q + 1 + w * 10 ^ p" "0 \<le> q + 1" "q + 1 < 10 ^ p" using n True q by simp_all
    then show thesis using up True False by simp
  qed
qed

lemma split_value_nearest:
  assumes m: "0 \<le> m" "m < 2 ^ 53" "m div 2 ^ k \<le> 10 ^ 9"
    and p: "unat prec = p" "p \<le> 9" "2 ^ k * 10 ^ p \<le> (2::int) ^ 53"
    and t: "2 * (m * 10 ^ p mod 2 ^ k) \<noteq> 2 ^ k"
  defines "n \<equiv> nearest (m * 10 ^ p) k"
  shows "split_value (Fin m (- int k)) prec = Some (word_of_int (n div 10 ^ p), word_of_int (n mod 10 ^ p))"
proof -
  define w r where "w = m div 2 ^ k" and "r = m mod 2 ^ k * 10 ^ p"
  define q d where "q = r div 2 ^ k" and "d = r mod 2 ^ k"
  note np = nearest_parts [where m = m and p = p and k = k, folded r_def q_def w_def d_def]
  have "(2::int) ^ k * 1 \<le> 2 ^ k * 10 ^ p" by (intro mult_left_mono) simp_all
  then have "(2::int) ^ k \<le> 2 ^ 53" using p(3) by linarith
  then have k: "k \<le> 53" by (simp only: power_increasing_iff)
  have w: "0 \<le> w" "w \<le> 10 ^ 9" using m by (simp_all add: w_def pos_imp_zdiv_nonneg_iff)
  have sw: "sint (word_of_int w :: i32) = w" using w by (intro sint_of_int_32) simp_all
  have "(10::int) ^ p \<le> 10 ^ 9" using p(2) by (intro power_increasing) simp_all
  then have q: "0 \<le> q" "q < 10 ^ 9" "q < 10 ^ p" using np(3,4) by simp_all
  have uq: "uint (word_of_int q :: u32) = q" "uint (word_of_int q + 1 :: u32) = q + 1"
    using q by (simp_all add: uint_word_ariths uint_word_of_int)
  have mm: "m - w * 2 ^ k = m mod 2 ^ k" by (simp add: w_def minus_div_mult_eq_mod)
  have l: "m mod 2 ^ k < 2 ^ 53" using pos_mod_bound [of "2 ^ k" m] \<open>2 ^ k \<le> 2 ^ 53\<close> by (simp del: pos_mod_bound)
  have s: "dsub (Fin m (- int k)) (d_of_i32 (word_of_int w)) = Fin (m mod 2 ^ k) (- int k)"
    using k l mm by (simp add: dsub_exact sw)
  have r: "0 \<le> r" "r < 2 ^ 53"
  proof -
    have "r < 2 ^ k * 10 ^ p" by (simp add: r_def)
    then show "r < 2 ^ 53" using p(3) by linarith
  qed (simp add: r_def)
  have x: "dmul (dsub (Fin m (- int k)) (d_of_i32 (word_of_int w))) (pow10 ! unat prec) = Fin r (- int k)"
    using p r k by (simp add: s pow10_nth rnd_exact del: dint_values flip: r_def)
  have u: "d_to_u32 (Fin r (- int k)) = Some (word_of_int q)"
    using to_u32_exact [OF r(1), of k] q by (simp add: q_def)
  have i: "d_to_i32 (Fin m (- int k)) = Some (word_of_int w)"
    using to_i32_exact [OF m(1), of k] w by (simp add: w_def)
  have dd: "dsub (Fin r (- int k)) (d_of_u32 (word_of_int q)) = Fin d (- int k)"
  proof -
    have "r - q * 2 ^ k = d" by (simp add: q_def d_def minus_div_mult_eq_mod)
    moreover have "0 \<le> d" "d < 2 ^ 53"
      using pos_mod_bound [of "2 ^ k" r] \<open>2 ^ k \<le> 2 ^ 53\<close> by (simp_all add: d_def del: pos_mod_bound)
    ultimately show ?thesis using k by (simp add: dsub_exact uq)
  qed
  have n: "n = w * 10 ^ p + q + (if 2 ^ k < 2 * d then 1 else 0)"
    by (simp add: n_def nearest_def np(1,2))
  have p10: "unat prec < 10" using p(1,2) by simp
  have P: "pow10 ! unat prec = Fin (10 ^ p) 0" using pow10_nth [OF p10] by (simp add: p(1))
  have ge: "dge (Fin (q + 1) 0) (Fin (10 ^ p) 0) \<longleftrightarrow> q + 1 = 10 ^ p" using q by (auto simp: dge_def)
  have w1: "word_of_int w + 1 = (word_of_int (w + 1) :: i32)" "word_of_int q + 1 = (word_of_int (q + 1) :: u32)"
    by simp_all
  note e = split_value_eq [OF i p10 x u, unfolded dd, unfolded half_compare [OF k] P dint_values,
    unfolded uq, unfolded ge w1]
  have c: "2 * d \<noteq> 2 ^ k" using t by (simp add: np(2))
  from n q(1,3) c consider (carry) "2 ^ k < 2 * d" "q + 1 = 10 ^ p" "n div 10 ^ p = w + 1" "n mod 10 ^ p = 0"
    | (up) "2 ^ k < 2 * d" "q + 1 \<noteq> 10 ^ p" "n div 10 ^ p = w" "n mod 10 ^ p = q + 1"
    | (down) "2 * d < 2 ^ k" "n div 10 ^ p = w" "n mod 10 ^ p = q"
    by (rule decimal_cases)
  then show ?thesis by cases (simp_all add: e)
qed

lemma dlt_dint_0: "dlt (Fin m e) (dint 0) \<longleftrightarrow> m < 0"
  by (simp add: Let_def mult_less_0_iff)

lemma nonneg_part:
  "\<bar>m\<bar> < 2 ^ 53 \<Longrightarrow> k \<le> 53 \<Longrightarrow>
   (if dlt (Fin m (- int k)) (dint 0) then dsub (dint 0) (Fin m (- int k)) else Fin m (- int k)) = Fin \<bar>m\<bar> (- int k)"
  by (auto simp: dlt_dint_0 dsub_def Let_def rnd_exact simp del: dint_values) (simp add: rnd_exact)

lemma moderate_places:
  assumes "\<bar>m\<bar> \<le> 10 ^ 9 * 2 ^ k"
  shows "\<not> dlt PRINTF_MAX_FLOAT (Fin m (- int k))" "\<not> dlt (Fin m (- int k)) (dneg PRINTF_MAX_FLOAT)"
  unfolding max_float dlt_dneg not_above using assms by (cases "k = 0"; simp add: at_most_def)+

lemma nearest_range: "0 \<le> a \<Longrightarrow> a \<le> N * 2 ^ k \<Longrightarrow> 0 \<le> nearest a k \<and> nearest a k \<le> N + 1"
  using zdiv_mono1 [of a "N * 2 ^ k" "2 ^ k"] by (simp add: nearest_def pos_imp_zdiv_nonneg_iff)

lemma ftoa_chars_nearest:
  assumes m: "\<bar>m\<bar> \<le> 10 ^ 9 * 2 ^ k" "\<bar>m\<bar> < 2 ^ 53"
    and p: "p = (if has flags FLAGS_PRECISION then unat prec else 6)" "1 \<le> p" "p \<le> 9"
    and k: "2 ^ k * 10 ^ p \<le> (2::int) ^ 53" and t: "2 * (\<bar>m\<bar> * 10 ^ p mod 2 ^ k) \<noteq> 2 ^ k"
  defines "n \<equiv> nearest (\<bar>m\<bar> * 10 ^ p) k"
  defines "ds \<equiv> dec (n div 10 ^ p) @ 46 # dec_fixed p (n mod 10 ^ p)"
  shows "ftoa_chars (Fin m (- int k)) prec width flags =
      Some (let (buf, width) = float_pad (rev ds) (m < 0) width flags in (float_sign buf (m < 0) flags, width))"
    and "length ds \<le> 20"
proof -
  define q where "q = (if \<not> has flags FLAGS_PRECISION then PRINTF_DEFAULT_FLOAT_PRECISION else prec)"
  have q: "unat q = p" using p(1) by (simp add: q_def PRINTF_DEFAULT_FLOAT_PRECISION_def)
  have l: "limit_prec q [] = (q, [])"
    using p(3) q by (simp add: limit_prec_eq PRINTF_FTOA_BUFFER_SIZE_def Let_def)
  have "(2::int) ^ k * 1 \<le> 2 ^ k * 10 ^ p" by (intro mult_left_mono) simp_all
  then have "(2::int) ^ k \<le> 2 ^ 53" using k by linarith
  then have k53: "k \<le> 53" by (simp only: power_increasing_iff)
  have w: "\<bar>m\<bar> div 2 ^ k \<le> 10 ^ 9" using zdiv_mono1 [OF m(1), of "2 ^ k"] by simp
  have s: "split_value (Fin \<bar>m\<bar> (- int k)) q = Some (word_of_int (n div 10 ^ p), word_of_int (n mod 10 ^ p))"
    unfolding n_def using m(2) w q p(3) k t by (intro split_value_nearest) simp_all
  have f: "float_fraction (Fin \<bar>m\<bar> (- int k)) q (word_of_int (n div 10 ^ p)) (word_of_int (n mod 10 ^ p)) [] =
      (word_of_int (n div 10 ^ p), rev (46 # dec_fixed p (n mod 10 ^ p)))"
    using p(2,3) by (subst float_fraction_dec) (simp_all add: q)
  have "\<bar>m\<bar> * 10 ^ p \<le> 10 ^ 9 * 2 ^ k * 10 ^ p" using m(1) by (rule mult_right_mono) simp
  then have b: "0 \<le> n" "n \<le> 10 ^ 9 * 10 ^ p + 1"
    using nearest_range [of "\<bar>m\<bar> * 10 ^ p" "10 ^ 9 * 10 ^ p" k] by (simp_all add: n_def mult_ac)
  have "10 ^ 9 * 10 ^ p + 1 \<le> (10 ^ 9 + 1) * (10::int) ^ p" unfolding distrib_right by simp
  then have "n \<le> (10 ^ 9 + 1) * 10 ^ p" using b(2) by (rule order_trans [rotated])
  then have "n div 10 ^ p \<le> (10 ^ 9 + 1) * 10 ^ p div 10 ^ p" by (intro zdiv_mono1) simp_all
  then have n: "0 \<le> n" "n div 10 ^ p \<le> 10 ^ 9 + 1" using b(1) by simp_all
  have ld: "length (dec (n div 10 ^ p)) \<le> 10" using n by (intro dec_digits_length) (simp_all add: pos_imp_zdiv_nonneg_iff)
  have lf: "length (dec_fixed p (n mod 10 ^ p)) = p"
    using dec_digits_length [of "n mod 10 ^ p" p] p(2) by (simp add: dec_fixed_def)
  have "whole_digits (word_of_int (n div 10 ^ p)) (rev (46 # dec_fixed p (n mod 10 ^ p))) = rev ds"
    using n ld lf p(3) by (subst whole_digits_dec) (simp_all add: ds_def pos_imp_zdiv_nonneg_iff)
  then show "ftoa_chars (Fin m (- int k)) prec width flags =
      Some (let (buf, width) = float_pad (rev ds) (m < 0) width flags in (float_sign buf (m < 0) flags, width))"
    unfolding ftoa_chars_def Let_def nonneg_part [OF m(2) k53] q_def [symmetric]
    by (simp add: l s f dlt_dint_0 case_prod_beta del: dint_values)
  show "length ds \<le> 20" using ld lf p(3) by (simp add: ds_def)
qed

text \<open>C30: a value whose fraction has so few binary places that its product with the power of ten is exact is
  printed as the nearest decimal with the precision asked for, in its field, whatever the output function;
  a tie, which \<open>_ftoa\<close> rounds by parity, is excluded.\<close>

theorem ftoa_prints_nearest:
  assumes "\<bar>m\<bar> \<le> 10 ^ 9 * 2 ^ k" "\<bar>m\<bar> < 2 ^ 53"
    and "p = (if has flags FLAGS_PRECISION then unat prec else 6)" "1 \<le> p" "p \<le> 9"
    and "2 ^ k * 10 ^ p \<le> (2::int) ^ 53" "2 * (\<bar>m\<bar> * 10 ^ p mod 2 ^ k) \<noteq> 2 ^ k"
    and w: "unat width \<le> 32 \<or> \<not> has flags FLAGS_ZEROPAD"
  shows "let n = nearest (\<bar>m\<bar> * 10 ^ p) k in
    2 * \<bar>n * 2 ^ k - \<bar>m\<bar> * 10 ^ p\<bar> \<le> 2 ^ k \<and>
    ftoa out buffer idx maxlen (Fin m (- int k)) prec width flags st =
      Some (out_text out buffer maxlen (field (has flags FLAGS_LEFT) (has flags FLAGS_ZEROPAD) (unat width)
        (sign_text (m < 0) (has flags FLAGS_PLUS) (has flags FLAGS_SPACE))
        (dec (n div 10 ^ p) @ 46 # dec_fixed p (n mod 10 ^ p))) idx st)"
proof -
  define ds where "ds = dec (nearest (\<bar>m\<bar> * 10 ^ p) k div 10 ^ p) @ 46 # dec_fixed p (nearest (\<bar>m\<bar> * 10 ^ p) k mod 10 ^ p)"
  note c = ftoa_chars_nearest [OF assms(1-7), folded ds_def]
  have l: "length ds + length (sign_text (m < 0) (has flags FLAGS_PLUS) (has flags FLAGS_SPACE)) \<le> 32"
    using c(2) by (simp add: sign_text_def)
  have "ftoa out buffer idx maxlen (Fin m (- int k)) prec width flags st =
      Some (let (buf, width) = float_pad (rev ds) (m < 0) width flags
        in out_rev out buffer idx maxlen (float_sign buf (m < 0) flags) width flags st)"
    using c(1) by (simp add: ftoa_moderate [OF moderate_places [OF assms(1)]] case_prod_beta Let_def)
  also have "\<dots> = Some (out_text out buffer maxlen (field (has flags FLAGS_LEFT) (has flags FLAGS_ZEROPAD) (unat width)
        (sign_text (m < 0) (has flags FLAGS_PLUS) (has flags FLAGS_SPACE)) ds) idx st)"
    using w by (subst float_field [OF l]) simp_all
  finally show ?thesis by (simp add: Let_def nearest_bound ds_def)
qed

text \<open>\<open>printf("%9.3f", -2.71875)\<close>: the value is \<open>-87 * 2 ^ -5\<close>.\<close>

theorem ftoa_prints_nearest_witness:
  "ftoa out_null 256 0 9 (Fin (- 87) (- 5)) 3 9 FLAGS_PRECISION ((\<lambda>_. 0), run_dev []) =
    Some (out_text out_null 256 9 [32, 32, 32, 45, 50, 46, 55, 49, 57] 0 ((\<lambda>_. 0), run_dev []))"
proof -
  have n: "nearest (87 * 10 ^ 3) 5 = 2719" by (simp add: nearest_def)
  have h: "has FLAGS_PRECISION FLAGS_PRECISION" "\<not> has FLAGS_PRECISION FLAGS_LEFT" "\<not> has FLAGS_PRECISION FLAGS_ZEROPAD"
    "\<not> has FLAGS_PRECISION FLAGS_PLUS" "\<not> has FLAGS_PRECISION FLAGS_SPACE" by code_simp+
  have d: "dec 2 = [50]" "dec_fixed 3 719 = [55, 49, 57]"
    "spaces 3 = [32, 32, 32]"
    by (simp_all add: dec_def dec_fixed_def digits.simps numeral_eq_Suc)
  show ?thesis
    using ftoa_prints_nearest [where m = "- 87" and k = 5 and p = 3 and flags = FLAGS_PRECISION and prec = 3 and
      width = 9 and out = out_null and buffer = 256 and idx = 0 and maxlen = 9 and st = "((\<lambda>_. 0), run_dev [])"]
    unfolding Let_def abs_minus_cancel abs_numeral n
    by (simp add: field_def sign_text_def d h del: out_text.simps)
qed

section \<open>Exponents\<close>

text \<open>The exponent \<open>_etoa\<close> appends: the letter, the sign and the digits in a field of \<open>minwidth - 1\<close>.\<close>

definition exponent_text :: "bool \<Rightarrow> nat \<Rightarrow> int \<Rightarrow> u8 list" where
  "exponent_text upper w x =
     (if upper then 69 else 101) # field False True w (sign_text (x < 0) True False) (map (digit_text False) (digits 10 \<bar>x\<bar>))"

lemma out_exponent_text:
  assumes "minwidth \<noteq> 0" "unat minwidth \<le> 33" "\<not> has flags FLAGS_LEFT" "- (2 ^ 31) < sint expval"
  shows "out_exponent out buffer start_idx maxlen minwidth expval width flags idx st =
    out_text out buffer maxlen (exponent_text (has flags FLAGS_UPPERCASE) (unat minwidth - 1) (sint expval)) idx st"
proof -
  let ?f = "FLAGS_ZEROPAD OR FLAGS_PLUS"
  define y where "y = \<bar>sint expval\<bar>"
  have ch: "chr CHR ''E'' = 69" "chr CHR ''e'' = 101" by code_simp+
  have b: "bit ?f 0" "\<not> bit ?f 1" "\<not> bit ?f (Suc 0)" "bit ?f 2" "\<not> bit ?f 3" "\<not> bit ?f 4" "\<not> bit ?f 5" "\<not> bit ?f 10" by code_simp+
  have n: "expval <s 0 \<longleftrightarrow> sint expval < 0" by (simp add: word_sless_alt)
  have v: "(if expval <s 0 then - expval else expval) = word_of_int y"
    by (simp add: n y_def)
  have x: "0 \<le> y" "y < 2 ^ 31" using assms(4) sint_lt_32 [of expval] by (simp_all add: y_def)
  have d: "length (digits 10 y) \<le> 31" using int_digits_length [of y] x by simp
  have w: "unat (minwidth - 1) = unat minwidth - 1" using assms(1) by (intro unat_minus_one)
  have "ntoa_long out buffer (idx + 1) maxlen (word_of_int y) (expval <s 0) 10 0 (minwidth - 1) ?f s =
      out_text out buffer maxlen (field False True (unat minwidth - 1) (sign_text (sint expval < 0) True False)
        (map (digit_text False) (digits 10 y))) (idx + 1) s" for s
    using ntoa_long_text [of 10 y "expval <s 0" ?f "minwidth - 1" out buffer "idx + 1" maxlen s] x d assms(2)
    by (simp add: b n w sign_text_def)
  then show ?thesis
    using assms(1,3) by (simp add: out_exponent_def v exponent_text_def ch Let_def flip: y_def)
qed

lemma etoa_finite:
  assumes "\<not> dlt DBL_MAX (Fin m e)" "\<not> dlt (Fin m e) (dneg DBL_MAX)"
  shows "etoa out buffer idx maxlen (Fin m e) prec width flags st = do {
    (value, prec, fwidth, flags, minwidth, expval) \<leftarrow> scale_value (Fin m e) prec width flags;
    (idx', st) \<leftarrow> ftoa out buffer idx maxlen value prec fwidth (flags AND NOT FLAGS_ADAPT_EXP) st;
    Some (out_exponent out buffer idx maxlen minwidth expval width flags idx' st) }"
  unfolding etoa_def ftoa_def using assms by (subst float_conv.simps) (simp only: prod.case Let_def double.distinct simp_thms if_True if_False)

lemma etoa_text:
  assumes "\<not> dlt DBL_MAX (Fin m e)" "\<not> dlt (Fin m e) (dneg DBL_MAX)"
    and s: "scale_value (Fin m e) prec width flags = Some (Fin m' e', prec', fwidth, flags', minwidth, expval)"
    and v: "\<not> dlt PRINTF_MAX_FLOAT (Fin m' e')" "\<not> dlt (Fin m' e') (dneg PRINTF_MAX_FLOAT)"
    and c: "ftoa_chars (Fin m' e') prec' fwidth (flags' AND NOT FLAGS_ADAPT_EXP) = Some (buf, w)" "length buf \<le> 32"
    and f: "minwidth \<noteq> 0" "unat minwidth \<le> 33" "\<not> has flags' FLAGS_LEFT" "- (2 ^ 31) < sint expval"
  shows "etoa out buffer idx maxlen (Fin m e) prec width flags st =
    Some (out_text out buffer maxlen (rev_text buf (unat w) (flags' AND NOT FLAGS_ADAPT_EXP) @
      exponent_text (has flags' FLAGS_UPPERCASE) (unat minwidth - 1) (sint expval)) idx st)"
  using c(2) by (simp add: etoa_finite [OF assms(1,2)] s ftoa_moderate [OF v] c(1) out_rev_text
      out_exponent_text [OF f] out_text_append split: prod.split)

section \<open>Values the functions get wrong\<close>

text \<open>
  A product that rounding makes a tie, with a fraction of nines: the carry is lost, \<open>count\<close> wraps
  and zeros fill the buffer.
\<close>

lemma ties_run:
  "ftoa_chars (dlit 95 100) 1 0 FLAGS_PRECISION = Some ([48, 49] @ zeros 30, 0)"
  "ftoa_chars (dlit 995 1000) 2 0 FLAGS_PRECISION = Some ([48, 48, 49] @ zeros 29, 0)"
  by code_simp+

lemma ties_moderate:
  "dlit 95 100 = Fin 8556839292003942 (- 53)" "dlit 995 1000 = Fin 8962163258467287 (- 53)"
  by code_simp+

lemma ftoa_loses_carry:
  "ftoa out buffer idx maxlen (dlit 95 100) 1 0 FLAGS_PRECISION st =
     Some (out_text out buffer maxlen (zeros 30 @ [49, 48]) idx st) \<and>
   ftoa out buffer idx maxlen (dlit 995 1000) 2 0 FLAGS_PRECISION st =
     Some (out_text out buffer maxlen (zeros 29 @ [49, 48, 48]) idx st)"
proof -
  have f: "\<not> has FLAGS_PRECISION FLAGS_LEFT" by code_simp
  note m = moderate_places [of 8556839292003942 53] moderate_places [of 8962163258467287 53]
  show ?thesis
    using m ties_run unfolding ties_moderate
    by (simp add: ftoa_moderate out_rev_text rev_text_def f del: out_text.simps)
qed

lemma etoa_scaled:
  "scale_value (dlit 12345678 1000) 0 0 0 = Some (Fin 5559999084043714 (- 52), 6, 0, 0, 4, 4)"
  "scale_value (dneg (dlit 25 100000)) 0 0 0 = Some (Fin (- 5629499528150792) (- 51), 6, 0, 0, 4, - 4)"
  "scale_value (dlit 99999999 10000000) 0 0 0 = Some (Fin 5629499477918125 (- 49), 6, 0, 0, 4, 0)"
  "scale_value (dlit 0 1) 0 0 0 = Some (Fin 0 910, 6, 0, 0, 5, - 308)"
  by code_simp+

lemma etoa_chars:
  "ftoa_chars (Fin 5559999084043714 (- 52)) 6 0 0 = Some ([56, 54, 53, 52, 51, 50, 46, 49], 0)"
  "ftoa_chars (Fin (- 5629499528150792) (- 51)) 6 0 0 = Some ([48, 48, 48, 48, 48, 53, 46, 50, 45], 0)"
  "ftoa_chars (Fin 5629499477918125 (- 49)) 6 0 0 = Some ([48, 48, 48, 48, 48, 48, 46, 48, 49], 0)"
  "ftoa_chars (Fin 0 910) 6 0 0 = Some ([48, 48, 48, 48, 48, 48, 46, 48], 0)"
  by code_simp+

lemma etoa_args:
  "dlit 12345678 1000 = Fin 6787108256889176 (- 39)" "dneg (dlit 25 100000) = Fin (- 4611686018427388) (- 64)"
  "dlit 99999999 10000000 = Fin 5629499477918125 (- 49)" "dlit 0 1 = Fin 0 (- 57)"
  by code_simp+

lemma exponent_texts:
  "exponent_text False 3 4 = [101, 43, 48, 52]" "exponent_text False 3 (- 4) = [101, 45, 48, 52]"
  "exponent_text False 3 0 = [101, 43, 48, 48]" "exponent_text False 4 (- 308) = [101, 45, 51, 48, 56]"
  by (simp_all add: exponent_text_def field_def sign_text_def digit_text_def digits.simps)

lemma moderate_at_most:
  assumes "at_most m e (10 ^ 9)" "at_most (- m) e (10 ^ 9)"
  shows "\<not> dlt PRINTF_MAX_FLOAT (Fin m e)" "\<not> dlt (Fin m e) (dneg PRINTF_MAX_FLOAT)"
    "\<not> dlt DBL_MAX (Fin m e)" "\<not> dlt (Fin m e) (dneg DBL_MAX)"
  using assms not_above_max [OF assms(1)] not_above_max [OF assms(2)]
  unfolding max_float DBL_MAX_def dlt_dneg not_above by simp_all

lemma etoa_run:
  assumes m: "at_most m e (10 ^ 9)" "at_most (- m) e (10 ^ 9)" "at_most m' e' (10 ^ 9)" "at_most (- m') e' (10 ^ 9)"
    and s: "scale_value (Fin m e) 0 0 0 = Some (Fin m' e', prec', 0, 0, minwidth, expval)"
    and c: "ftoa_chars (Fin m' e') prec' 0 0 = Some (buf, 0)" "length buf \<le> 32"
    and f: "minwidth \<noteq> 0" "unat minwidth \<le> 33" "- (2 ^ 31) < sint expval"
  shows "etoa out buffer idx maxlen (Fin m e) 0 0 0 st =
    Some (out_text out buffer maxlen (rev buf @ exponent_text False (unat minwidth - 1) (sint expval)) idx st)"
proof -
  have h: "\<not> has 0 F" for F by (simp add: has_def)
  show ?thesis
    using etoa_text [OF moderate_at_most(3,4) [OF m(1,2)] s moderate_at_most(1,2) [OF m(3,4)] _ c(2) f(1,2) h f(3)] c(1)
    by (simp add: h rev_text_def)
qed

text \<open>
  The texts of \<open>%e\<close> for 12345.678, -0.00025, 9.9999999 and 0: the last two are \<open>10.000000e+00\<close>, which
  is not normalised again after rounding, and \<open>0.000000e-308\<close>.
\<close>

lemma etoa_runs:
  "etoa out buffer idx maxlen (dlit 12345678 1000) 0 0 0 st =
     Some (out_text out buffer maxlen [49, 46, 50, 51, 52, 53, 54, 56, 101, 43, 48, 52] idx st) \<and>
   etoa out buffer idx maxlen (dneg (dlit 25 100000)) 0 0 0 st =
     Some (out_text out buffer maxlen [45, 50, 46, 53, 48, 48, 48, 48, 48, 101, 45, 48, 52] idx st) \<and>
   etoa out buffer idx maxlen (dlit 99999999 10000000) 0 0 0 st =
     Some (out_text out buffer maxlen [49, 48, 46, 48, 48, 48, 48, 48, 48, 101, 43, 48, 48] idx st) \<and>
   etoa out buffer idx maxlen (dlit 0 1) 0 0 0 st =
     Some (out_text out buffer maxlen [48, 46, 48, 48, 48, 48, 48, 48, 101, 45, 51, 48, 56] idx st)"
proof -
  have a: "rev [x] = [x]" for x :: u8 by simp
  note r = etoa_run [OF _ _ _ _ etoa_scaled(1) [unfolded etoa_args] etoa_chars(1), of out buffer idx maxlen st]
    etoa_run [OF _ _ _ _ etoa_scaled(2) [unfolded etoa_args] etoa_chars(2), of out buffer idx maxlen st]
    etoa_run [OF _ _ _ _ etoa_scaled(3) [unfolded etoa_args] etoa_chars(3), of out buffer idx maxlen st]
    etoa_run [OF _ _ _ _ etoa_scaled(4) [unfolded etoa_args] etoa_chars(4), of out buffer idx maxlen st]
  show ?thesis unfolding etoa_args
    using r by (simp add: at_most_def exponent_texts del: out_text.simps)
qed

text \<open>C32: two values whose product with the power of ten rounds to a tie under nines, and two that \<open>%e\<close>
  gets wrong: \<open>%.1f\<close> of 0.95 and \<open>%.2f\<close> of 0.995 are printed as 10 and 100 behind thirty and twenty-nine zeros, 9.9999999
  as \<open>10.000000e+00\<close> and 0 as \<open>0.000000e-308\<close>.\<close>

theorem float_misprints:
  "ftoa out buffer idx maxlen (dlit 95 100) 1 0 FLAGS_PRECISION st =
     Some (out_text out buffer maxlen (zeros 30 @ [49, 48]) idx st) \<and>
   ftoa out buffer idx maxlen (dlit 995 1000) 2 0 FLAGS_PRECISION st =
     Some (out_text out buffer maxlen (zeros 29 @ [49, 48, 48]) idx st) \<and>
   etoa out buffer idx maxlen (dlit 99999999 10000000) 0 0 0 st =
     Some (out_text out buffer maxlen [49, 48, 46, 48, 48, 48, 48, 48, 48, 101, 43, 48, 48] idx st) \<and>
   etoa out buffer idx maxlen (dlit 0 1) 0 0 0 st =
     Some (out_text out buffer maxlen [48, 46, 48, 48, 48, 48, 48, 48, 101, 45, 51, 48, 56] idx st)"
  by (intro conjI ftoa_loses_carry [THEN conjunct1] ftoa_loses_carry [THEN conjunct2]
      etoa_runs [THEN conjunct2, THEN conjunct2, THEN conjunct1] etoa_runs [THEN conjunct2, THEN conjunct2, THEN conjunct2])

section \<open>The decimal exponent\<close>

lemma literal_fins:
  "dlit 1760912590558 (10 ^ 13) = Fin 6344356229335219 (- 55)" "dlit 301029995663981 (10 ^ 15) = Fin 5422874305198587 (- 54)"
  "dlit 15 10 = Fin 6755399441055744 (- 52)" "dlit 289529654602168 (10 ^ 15) = Fin 5215702578316129 (- 54)"
  "dlit 3321928094887362 (10 ^ 15) = Fin 7480317065143153 (- 51)" "dlit 2302585092994046 (10 ^ 15) = Fin 5184960683398422 (- 51)"
  "dlit 6931471805599453 (10 ^ 16) = Fin 6243314768165359 (- 53)" "dlit 1 10000 = Fin 7378697629483821 (- 66)"
  by code_simp+

lemma literals_bounded:
  "dbound 1 (dlit 1760912590558 (10 ^ 13))" "dbound 1 (dlit 301029995663981 (10 ^ 15))" "dbound 2 (dlit 15 10)"
  "dbound 1 (dlit 289529654602168 (10 ^ 15))" "dbound 4 (dlit 3321928094887362 (10 ^ 15))" "dbound 1 half"
  unfolding literal_fins half_eq by (simp_all add: dbound_def at_most_def)

lemma word_11_bits: "uint ((w :: u64) AND 0x07FF) \<le> 2047"
  by (simp add: uint_and)

text \<open>With the exponent field 1023 an encoding is a number from 1 up to 2.\<close>

lemma bits_d_unit:
  obtains f where "bits_d ((U AND (push_bit 52 1 - 1)) OR push_bit 52 1023) = Fin (f + 2 ^ 52) (- 52)" "0 \<le> f" "f < 2 ^ 52"
proof -
  define w where "w = (U AND (push_bit 52 1 - 1)) OR (push_bit 52 1023 :: u64)"
  have "drop_bit 52 w AND 0x7FF = 1023"
    by (simp add: w_def bit_simps drop_bit_or drop_bit_and)
  then have x: "uint (drop_bit 52 w AND 0x7FF) = 1023" by simp
  have s: "\<not> bit w 63" by (simp add: w_def bit_or_iff bit_and_iff)
  have "uint (w AND (2 ^ 52 - 1)) \<le> 2 ^ 52 - 1" by (simp add: uint_and)
  then have f: "0 \<le> uint (w AND (2 ^ 52 - 1))" "uint (w AND (2 ^ 52 - 1)) < 2 ^ 52" by simp_all
  have "bits_d w = Fin (uint (w AND (2 ^ 52 - 1)) + 2 ^ 52) (- 52)"
    unfolding bits_d_def x using s by simp
  then show thesis using that f unfolding w_def by blast
qed

lemma bits_d_one: "dbound 2 (bits_d ((U AND (push_bit 52 1 - 1)) OR push_bit 52 1023))"
  by (rule bits_d_unit [of U]) (simp add: dbound_def at_most_def)

lemma exponent_field:
  fixes U :: u64
  shows "\<bar>sint (ucast (drop_bit 52 U AND 0x07FF) - 1023 :: i32)\<bar> \<le> 1024"
proof -
  define v where "v = (ucast (drop_bit 52 U AND 0x07FF) :: i32)"
  have "uint v \<le> 2047"
    using word_11_bits [of "drop_bit 52 U"] by (simp add: v_def unsigned_ucast_eq take_bit_int_eq_self)
  then have "sint v = uint v" by (simp add: sint_uint_32)
  then have "sint (v - 1023) = uint v - 1023"
    using \<open>uint v \<le> 2047\<close> by (subst sint_diff_32) simp_all
  then show ?thesis using \<open>uint v \<le> 2047\<close> unsigned_greater_eq [of v, where ?'a = int] unfolding v_def [symmetric] by linarith
qed

lemma d_of_i32_bounded: "\<bar>sint w\<bar> \<le> N \<Longrightarrow> N < 2 ^ 53 \<Longrightarrow> dbound N (d_of_i32 w)"
  unfolding d_of_i32_def by (rule dbound_dint)

lemma decimal_exponent_total:
  obtains expval F where "decimal_exponent value = Some (expval, F)"
proof -
  define U where "U = d_bits value"
  define e where "e = (ucast (drop_bit 52 U AND 0x07FF) - 1023 :: i32)"
  define G where "G = bits_d ((U AND (push_bit 52 1 - 1)) OR push_bit 52 1023)"
  define x where "x = dadd (dadd (dlit 1760912590558 (10 ^ 13)) (dmul (d_of_i32 e) (dlit 301029995663981 (10 ^ 15))))
    (dmul (dsub G (dlit 15 10)) (dlit 289529654602168 (10 ^ 15)))"
  have b: "dbound 1024 (d_of_i32 e)" unfolding e_def by (intro d_of_i32_bounded exponent_field) simp
  have "dbound (1 + 1024 * 1 + (2 + 2) * 1) x"
    unfolding x_def using b literals_bounded bits_d_one [of U, folded G_def]
    by (intro dbound_dadd dbound_dmul dbound_dsub) simp_all
  then obtain expval where v: "d_to_i32 x = Some expval" "\<bar>sint expval\<bar> \<le> 1029"
    by (rule dbound_to_i32) simp_all
  define y where "y = dadd (dmul (d_of_i32 expval) (dlit 3321928094887362 (10 ^ 15))) half"
  have "dbound (1029 * 4 + 1) y"
    unfolding y_def using v(2) literals_bounded
    by (intro dbound_dadd dbound_dmul d_of_i32_bounded) simp_all
  then obtain exp2 where w: "d_to_i32 y = Some exp2" by (rule dbound_to_i32) simp_all
  have "decimal_exponent value \<noteq> None"
    unfolding decimal_exponent_def Let_def U_def [symmetric] e_def [symmetric] G_def [symmetric] x_def [symmetric]
      v(1) Option.bind.bind_lunit y_def [symmetric] w by (rule option.discI [OF refl])
  then show thesis using that by (cases "decimal_exponent value") (simp, metis surj_pair)
qed

section \<open>The adaptive notation\<close>

text \<open>C31: the decimal exponent of every value \<open>u\<close> is found without a conversion out of range, and \<open>%g\<close> of a number
  from \<open>1e-4\<close> up to \<open>1e6\<close> is printed by \<open>_ftoa\<close>, unscaled, with the precision the exponent leaves.\<close>

theorem etoa_adapts:
  assumes "has flags FLAGS_ADAPT_EXP"
    and v: "v = (if dlt (Fin m e) (dint 0) then dneg (Fin m e) else Fin m e)"
    and "dge v (dlit 1 10000)" "dlt v (dlit 1000000 1)"
  shows "(\<exists>expval F. decimal_exponent u = Some (expval, F)) \<and>
    (\<exists>expval F. decimal_exponent v = Some (expval, F) \<and>
    etoa out buffer idx maxlen (Fin m e) prec width flags st =
      (let P = (if has flags FLAGS_PRECISION then prec else PRINTF_DEFAULT_FLOAT_PRECISION)
       in ftoa out buffer idx maxlen (Fin m e) (if expval <s P then P - expval - 1 else 0) width
         ((flags OR FLAGS_PRECISION) AND NOT FLAGS_ADAPT_EXP) st))"
proof (intro conjI)
  obtain expval F where "decimal_exponent u = Some (expval, F)" by (rule decimal_exponent_total)
  then show "\<exists>expval F. decimal_exponent u = Some (expval, F)" by blast
next
  obtain expval F where x: "decimal_exponent v = Some (expval, F)" by (rule decimal_exponent_total)
  define P where "P = (if has flags FLAGS_PRECISION then prec else PRINTF_DEFAULT_FLOAT_PRECISION)"
  have neg: "(if dlt (Fin m e) (dint 0) then dneg v else v) = Fin m e" by (simp add: v)
  have a: "adapt_exponent v expval P flags = (if expval <s P then P - expval - 1 else 0, flags OR FLAGS_PRECISION, 0, 0)"
    using assms(1,3,4) by (simp add: adapt_exponent_def)
  have p: "(if \<not> has flags FLAGS_PRECISION then PRINTF_DEFAULT_FLOAT_PRECISION else prec) = P" by (simp add: P_def)
  have w: "float_width width 0 f = width" for f by (simp add: float_width_def word_gt_0)
  have s: "scale_value (Fin m e) prec width flags =
      Some (Fin m e, if expval <s P then P - expval - 1 else 0, width, flags OR FLAGS_PRECISION, 0, 0)"
    unfolding scale_value_def Let_def v [symmetric] p x Option.bind.bind_lunit prod.case a w
    by (simp only: not_True_eq_False if_False neg simp_thms)
  have "at_most \<bar>m\<bar> e (10 ^ 6)"
  proof -
    have "v = Fin \<bar>m\<bar> e" by (simp add: v dlt_dint_0 del: dint_values)
    moreover have "dlit 1000000 1 = Fin 8589934592000000 (- 33)" by code_simp
    moreover have "real_of_int 8589934592000000 * 2 powi - 33 = 10 ^ 6" by (simp add: power_int_minus)
    ultimately have "real_of_int \<bar>m\<bar> * 2 powi e < 10 ^ 6"
      using assms(4) by (simp only: dlt_real)
    then show ?thesis by (simp add: at_most_real)
  qed
  then have "at_most m e (10 ^ 9)" "at_most (- m) e (10 ^ 9)" by (rule at_most_mono; simp)+
  note f = etoa_finite [OF moderate_at_most(3,4) [OF this]]
  show "\<exists>expval F. decimal_exponent v = Some (expval, F) \<and>
    etoa out buffer idx maxlen (Fin m e) prec width flags st =
      (let P = (if has flags FLAGS_PRECISION then prec else PRINTF_DEFAULT_FLOAT_PRECISION)
       in ftoa out buffer idx maxlen (Fin m e) (if expval <s P then P - expval - 1 else 0) width
         ((flags OR FLAGS_PRECISION) AND NOT FLAGS_ADAPT_EXP) st)"
    using x by (auto simp: f s Let_def out_exponent_def P_def split: option.splits)
qed

text \<open>\<open>printf("%g", 100.5)\<close> prints three places: the decimal exponent is 2.\<close>

theorem etoa_adapts_witness:
  "decimal_exponent (Fin 1 1023) \<noteq> None \<and>
   etoa out_null 256 0 9 (Fin 201 (- 1)) 0 0 FLAGS_ADAPT_EXP ((\<lambda>_. 0), run_dev []) =
    ftoa out_null 256 0 9 (Fin 201 (- 1)) 3 0 FLAGS_PRECISION ((\<lambda>_. 0), run_dev [])"
proof -
  have d: "map_option fst (decimal_exponent (Fin 201 (- 1))) = Some 2" by code_simp
  have f: "has FLAGS_ADAPT_EXP FLAGS_ADAPT_EXP" "\<not> has FLAGS_ADAPT_EXP FLAGS_PRECISION"
    "(FLAGS_ADAPT_EXP OR FLAGS_PRECISION) AND NOT FLAGS_ADAPT_EXP = FLAGS_PRECISION"
    "dge (Fin 201 (- 1)) (dlit 1 10000)" "dlt (Fin 201 (- 1)) (dlit 1000000 1)"
    "(2 :: i32) <s PRINTF_DEFAULT_FLOAT_PRECISION" "PRINTF_DEFAULT_FLOAT_PRECISION - 2 - 1 = 3"
    by code_simp+
  have v: "Fin 201 (- 1) = (if dlt (Fin 201 (- 1)) (dint 0) then dneg (Fin 201 (- 1)) else Fin 201 (- 1))"
    by (simp add: dlt_dint_0 del: dint_values)
  note a = etoa_adapts [OF f(1) v f(4,5), of "Fin 1 1023" out_null 256 0 9 0 0 "((\<lambda>_. 0), run_dev [])"]
  from a [THEN conjunct2] obtain expval F where
    x: "decimal_exponent (Fin 201 (- 1)) = Some (expval, F)" and
    e: "etoa out_null 256 0 9 (Fin 201 (- 1)) 0 0 FLAGS_ADAPT_EXP ((\<lambda>_. 0), run_dev []) =
      (let P = (if has FLAGS_ADAPT_EXP FLAGS_PRECISION then 0 else PRINTF_DEFAULT_FLOAT_PRECISION)
       in ftoa out_null 256 0 9 (Fin 201 (- 1)) (if expval <s P then P - expval - 1 else 0) 0
         ((FLAGS_ADAPT_EXP OR FLAGS_PRECISION) AND NOT FLAGS_ADAPT_EXP) ((\<lambda>_. 0), run_dev []))" by blast
  have "expval = 2" using d x by simp
  then show ?thesis unfolding e Let_def using f a [THEN conjunct1] by (auto simp: PRINTF_DEFAULT_FLOAT_PRECISION_def)
qed

end
