(* ===== verification/DoubleError.thy ===== *)
theory DoubleError
  imports Double
begin

text \<open>
  What rounding costs: the real number a finite \<open>double\<close> stands for, and how far the result of an operation is
  from the exact one.
\<close>


section \<open>Values and errors\<close>

text \<open>The number a finite double stands for.\<close>

fun dval :: "double \<Rightarrow> real" where
  "dval (Fin m e) = of_int m * 2 powi e"
| "dval x = 0"

fun finite_double :: "double \<Rightarrow> bool" where
  "finite_double (Fin m e) \<longleftrightarrow> True"
| "finite_double x \<longleftrightarrow> False"

lemma powi_less: "(2::real) powi a < 2 powi b \<Longrightarrow> a < b"
  using power_int_increasing [of b a "2 :: real"] by (cases "b \<le> a") auto

lemma powi_le: "a \<le> b \<Longrightarrow> (2::real) powi a \<le> 2 powi b"
  by (rule power_int_increasing) simp_all

lemma powi_add: "(2::real) powi (a + b) = 2 powi a * 2 powi b"
  by (rule power_int_add) simp

lemma powi_pos [simp]: "\<not> (2::real) powi e < 0" "\<not> (2::real) powi e \<le> 0"
  by (simp_all add: not_less not_le)

lemma powi_nat: "0 \<le> k \<Longrightarrow> (2::real) powi k = of_int (2 ^ nat k)"
  by (simp add: power_int_def)

lemma dval_0: "dval (Fin m e) = 0 \<longleftrightarrow> m = 0"
  by simp

lemma dval_nbits:
  assumes "m \<noteq> 0" "\<bar>dval (Fin m e)\<bar> < 2 powi B"
  shows "nbits \<bar>m\<bar> + e \<le> B"
proof -
  have b: "0 < nbits \<bar>m\<bar>" "2 ^ nat (nbits \<bar>m\<bar> - 1) \<le> \<bar>m\<bar>" using nbits_bounds [of "\<bar>m\<bar>"] assms(1) by auto
  have "(2::real) powi (nbits \<bar>m\<bar> - 1) \<le> of_int \<bar>m\<bar>"
    using b by (simp only: powi_nat of_int_le_iff)
  then have "(2::real) powi (nbits \<bar>m\<bar> - 1) * 2 powi e \<le> of_int \<bar>m\<bar> * 2 powi e" by (rule mult_right_mono) simp
  also have "\<dots> < 2 powi B" using assms(2) by (simp add: abs_mult)
  finally have "(2::real) powi (nbits \<bar>m\<bar> - 1 + e) < 2 powi B" unfolding powi_add .
  then show ?thesis using powi_less by force
qed

text \<open>Rounding drops \<open>k\<close> bits.\<close>

lemma rnd_drops:
  fixes m e :: int
  defines "k \<equiv> max 0 (max (nbits \<bar>m\<bar> - 53) (- 1074 - e))"
  obtains m' where "rnd m e = fit m' (e + k)" "0 \<le> m \<longrightarrow> 0 \<le> m'" "m \<le> 0 \<longrightarrow> m' \<le> 0"
    "\<bar>dval (Fin m' (e + k)) - dval (Fin m e)\<bar> \<le> (if k = 0 then 0 else 2 powi (e + k - 1))"
proof (cases "k = 0")
  case True
  then have "rnd m e = fit m e" by (auto simp: rnd_def k_def Let_def)
  then show thesis using that [of m] True by simp
next
  case False
  then have k: "0 < k" "k = max (nbits \<bar>m\<bar> - 53) (- 1074 - e)" by (auto simp: k_def)
  define m' where "m' = drop_round (nat k) m"
  have r: "rnd m e = fit m' (e + k)" using k by (auto simp: rnd_def m'_def Let_def)
  have "real_of_int (2 * \<bar>m' * 2 ^ nat k - m\<bar>) \<le> of_int (2 ^ nat k)"
    unfolding m'_def of_int_le_iff by (rule drop_round_nearest)
  then have d: "2 * \<bar>of_int m' * 2 powi k - of_int m\<bar> \<le> (2 powi k :: real)" using k(1) by (simp add: power_int_def)
  have "dval (Fin m' (e + k)) - dval (Fin m e) = (of_int m' * 2 powi k - of_int m) * 2 powi e"
    by (simp add: powi_add left_diff_distrib)
  then have "2 * \<bar>dval (Fin m' (e + k)) - dval (Fin m e)\<bar> = (2 * \<bar>of_int m' * 2 powi k - of_int m\<bar>) * 2 powi e"
    by (simp add: abs_mult)
  also have "\<dots> \<le> 2 powi k * 2 powi e" using d by (rule mult_right_mono) simp
  also have "\<dots> = 2 powi (1 + (e + k - 1))" by (simp add: add.commute flip: powi_add)
  also have "\<dots> = 2 * 2 powi (e + k - 1)" unfolding powi_add [of 1] by simp
  finally have "\<bar>dval (Fin m' (e + k)) - dval (Fin m e)\<bar> \<le> 2 powi (e + k - 1)" by simp
  moreover have "0 \<le> m \<longrightarrow> 0 \<le> m'" "m \<le> 0 \<longrightarrow> m' \<le> 0"
    using drop_round_ge0 [of m "nat k"] drop_round_le [of m 0 "nat k"] by (simp_all add: m'_def)
  ultimately show thesis using that [of m'] r False by simp
qed

lemma rnd_error:
  assumes "\<bar>dval (Fin m e)\<bar> < 2 powi B" "- 1021 \<le> B" "B \<le> 1023"
  shows "finite_double (rnd m e) \<and> \<bar>dval (rnd m e) - dval (Fin m e)\<bar> \<le> 2 powi (B - 54)"
proof -
  define k where "k = max 0 (max (nbits \<bar>m\<bar> - 53) (- 1074 - e))"
  obtain m' where m': "rnd m e = fit m' (e + k)"
    "\<bar>dval (Fin m' (e + k)) - dval (Fin m e)\<bar> \<le> (if k = 0 then 0 else 2 powi (e + k - 1))"
    unfolding k_def by (rule rnd_drops)
  have n: "nbits \<bar>m\<bar> + e \<le> B \<or> m = 0" using dval_nbits [OF _ assms(1)] by blast
  have z: "nbits 0 = 0" by (simp add: nbits.simps)
  have "(if k = 0 then 0 else 2 powi (e + k - 1)) \<le> (2 powi (B - 54) :: real)"
  proof (cases "k = 0")
    case False
    then have "e + k - 1 \<le> B - 54" using n assms(2) z by (auto simp: k_def)
    then show ?thesis using False by (simp add: powi_le)
  qed simp
  then have err: "\<bar>dval (Fin m' (e + k)) - dval (Fin m e)\<bar> \<le> 2 powi (B - 54)" using m'(2) by linarith
  have "(2::real) powi (B - 54) \<le> 2 powi B" by (intro powi_le) simp
  then have "\<bar>dval (Fin m' (e + k))\<bar> < 2 * 2 powi B" using err assms(1) by linarith
  also have "2 * 2 powi B = (2 powi (B + 1) :: real)" by (simp add: powi_add)
  finally have "m' \<noteq> 0 \<Longrightarrow> nbits \<bar>m'\<bar> + (e + k) \<le> B + 1" using dval_nbits by blast
  then have "fit m' (e + k) = Fin m' (e + k)" using assms(3) by (intro fit_small) auto
  then show ?thesis using err m'(1) by simp
qed

text \<open>However large a number is, rounding keeps its sign and at least half of it.\<close>

definition halved :: "real \<Rightarrow> real \<Rightarrow> double \<Rightarrow> bool" where
  "halved c x y \<longleftrightarrow> y = Inf (x < 0) \<or> finite_double y \<and> \<bar>x\<bar> \<le> c * \<bar>dval y\<bar> \<and> (0 < dval y \<longleftrightarrow> 0 < x)"

lemma rnd_half:
  assumes "2 powi - 1073 \<le> \<bar>dval (Fin m e)\<bar>"
  shows "halved 2 (dval (Fin m e)) (rnd m e)"
proof -
  define k where "k = max 0 (max (nbits \<bar>m\<bar> - 53) (- 1074 - e))"
  define x where "x = dval (Fin m e)"
  obtain m' where m': "rnd m e = fit m' (e + k)" "0 \<le> m \<longrightarrow> 0 \<le> m'" "m \<le> 0 \<longrightarrow> m' \<le> 0"
    "\<bar>dval (Fin m' (e + k)) - x\<bar> \<le> (if k = 0 then 0 else 2 powi (e + k - 1))"
    unfolding k_def x_def by (rule rnd_drops [of m e])
  have p: "(0::real) < 2 powi - 1073" by simp
  then have x0: "x \<noteq> 0" "m \<noteq> 0" using assms by (auto simp: x_def)
  have "(if k = 0 then 0 else 2 powi (e + k - 1)) \<le> \<bar>x\<bar> / 2"
  proof -
    consider "k = 0" | "0 < k" "k = nbits \<bar>m\<bar> - 53" | "0 < k" "k = - 1074 - e" unfolding k_def by linarith
    then show ?thesis
    proof cases
      case 2
      have b: "0 < nbits \<bar>m\<bar>" "2 ^ nat (nbits \<bar>m\<bar> - 1) \<le> \<bar>m\<bar>" using nbits_bounds [of "\<bar>m\<bar>"] x0 by auto
      have "(2::real) powi k \<le> 2 powi (nbits \<bar>m\<bar> - 1)" using 2 by (intro powi_le) simp
      also have "\<dots> \<le> of_int \<bar>m\<bar>" using b by (simp only: powi_nat of_int_le_iff)
      finally have "2 powi k * 2 powi e \<le> \<bar>x\<bar>" unfolding x_def by (simp add: abs_mult mult_right_mono)
      moreover have "(2::real) powi k * 2 powi e = 2 * 2 powi (e + k - 1)"
        using powi_add [of 1 "e + k - 1"] by (simp add: add.commute flip: powi_add)
      ultimately show ?thesis using 2 by simp
    next
      case 3
      have "(2::real) powi - 1073 = 4 * 2 powi - 1075" using powi_add [of 2 "- 1075"] by simp
      moreover have "e + k - 1 = - 1075" using 3 by simp
      ultimately show ?thesis using 3 assms p unfolding x_def [symmetric] by simp
    qed simp
  qed
  then have err: "\<bar>dval (Fin m' (e + k)) - x\<bar> \<le> \<bar>x\<bar> / 2" using m'(4) by linarith
  then have s: "\<bar>x\<bar> \<le> 2 * \<bar>dval (Fin m' (e + k))\<bar>" "0 < dval (Fin m' (e + k)) \<longleftrightarrow> 0 < x" "m' \<noteq> 0"
    using x0 by (auto simp: abs_if split: if_splits)
  have "m' < 0 \<longleftrightarrow> x < 0" using s(3) m'(2,3) x0 by (auto simp: x_def mult_less_0_iff)
  then have "fit m' (e + k) = Inf (x < 0) \<or> fit m' (e + k) = Fin m' (e + k)" by (auto simp: fit_def)
  then show ?thesis unfolding m'(1) x_def [symmetric] halved_def using s(1,2) by auto
qed

section \<open>Operations\<close>

text \<open>\<open>y\<close> is the finite number \<open>c\<close>, up to a millionth.\<close>

definition near :: "double \<Rightarrow> real \<Rightarrow> bool" where
  "near y c \<longleftrightarrow> finite_double y \<and> \<bar>dval y - c\<bar> \<le> 1 / 1000000"

lemma near_finite: "near y c \<Longrightarrow> finite_double y"
  by (simp add: near_def)

lemma near_bounds: "near y c \<Longrightarrow> c - 1 / 1000000 \<le> dval y \<and> dval y \<le> c + 1 / 1000000"
  unfolding near_def by linarith

lemma finite_cases: "finite_double x \<Longrightarrow> (\<And>m e. x = Fin m e \<Longrightarrow> thesis) \<Longrightarrow> thesis"
  by (cases x) simp_all

lemma rnd_near: "\<bar>dval (Fin m e)\<bar> < 4096 \<Longrightarrow> near (rnd m e) (dval (Fin m e))"
  using rnd_error [of m e 12] by (simp add: near_def power_int_minus)

lemma dadd_near:
  assumes "finite_double x" "finite_double y" "\<bar>dval x + dval y\<bar> < 4096"
  shows "near (dadd x y) (dval x + dval y)"
proof -
  obtain m1 e1 m2 e2 where xy: "x = Fin m1 e1" "y = Fin m2 e2" using assms by (meson finite_cases)
  define e where "e = min e1 e2"
  have "dval (Fin (m1 * 2 ^ nat (e1 - e) + m2 * 2 ^ nat (e2 - e)) e) = dval x + dval y"
    unfolding xy dval.simps of_int_add distrib_right by (simp only: real_shift e_def min.cobounded1 min.cobounded2)
  then show ?thesis
    using rnd_near [of "m1 * 2 ^ nat (e1 - e) + m2 * 2 ^ nat (e2 - e)" e] assms(3)
    by (simp only: xy dadd.simps Let_def e_def)
qed

lemma dneg_val: "dval (dneg x) = - dval x" "finite_double (dneg x) = finite_double x"
  by (cases x; simp)+

lemma dsub_near: "finite_double x \<Longrightarrow> finite_double y \<Longrightarrow> \<bar>dval x - dval y\<bar> < 4096 \<Longrightarrow> near (dsub x y) (dval x - dval y)"
  using dadd_near [of x "dneg y"] by (simp add: dsub_def dneg_val)

lemma dmul_val: "dval (Fin (m1 * m2) (e1 + e2)) = dval (Fin m1 e1) * dval (Fin m2 e2)"
  by (simp add: powi_add mult_ac)

lemma dmul_near:
  assumes "finite_double x" "finite_double y" "\<bar>dval x * dval y\<bar> < 4096"
  shows "near (dmul x y) (dval x * dval y)"
proof -
  obtain m1 e1 m2 e2 where "x = Fin m1 e1" "y = Fin m2 e2" using assms by (meson finite_cases)
  then show ?thesis
    using rnd_near [of "m1 * m2" "e1 + e2"] assms(3) unfolding dmul_val by simp
qed

text \<open>The integer that \<open>rnd_quot\<close> rounds is the quotient up to the last of its 55 bits.\<close>

lemma quot_drops:
  assumes "0 < m2"
  obtains n s where "rnd_quot m1 m2 e = rnd n (e - s - 1)"
    "\<bar>dval (Fin n (e - s - 1)) - of_int m1 / of_int m2 * 2 powi e\<bar> \<le> \<bar>of_int m1 / of_int m2 * 2 powi e\<bar> / 1000000000000"
    "0 \<le> m1 \<longrightarrow> 0 \<le> n"
proof -
  define s where "s = quot_bits m1 m2"
  define q r where "q = (m1 * 2 ^ s) div m2" and "r = (m1 * 2 ^ s) mod m2"
  define n where "n = 2 * q + (if r = 0 then 0 else 1)"
  define Q where "Q = (of_int m1 / of_int m2 :: real)"
  have "m1 * 2 ^ s = m2 * q + r" "0 \<le> r" "r < m2" using assms by (simp_all add: q_def r_def)
  then have "m2 * n \<le> 2 * (m1 * 2 ^ s) + m2" "2 * (m1 * 2 ^ s) - m2 \<le> m2 * n" "r = 0 \<longrightarrow> m2 * n = 2 * (m1 * 2 ^ s)"
    by (auto simp: n_def algebra_simps)
  then have "\<bar>m2 * n - 2 * (m1 * 2 ^ s)\<bar> \<le> m2" by linarith
  then have "real_of_int \<bar>m2 * n - 2 * (m1 * 2 ^ s)\<bar> \<le> of_int m2" by (simp only: of_int_le_iff)
  moreover have "real_of_int (m2 * n - 2 * (m1 * 2 ^ s)) = of_int m2 * (of_int n - 2 * (Q * 2 ^ s))"
    using assms by (simp add: Q_def field_simps)
  ultimately have "of_int m2 * \<bar>of_int n - 2 * (Q * 2 ^ s)\<bar> \<le> of_int m2 * (1::real)"
    using assms by (simp only: of_int_abs abs_mult)
  then have d: "\<bar>of_int n - 2 * (Q * 2 ^ s)\<bar> \<le> 1" using assms by (simp only: mult_le_cancel_left_pos of_int_0_less_iff)
  have big: "2 ^ 54 \<le> \<bar>Q\<bar> * 2 ^ s \<or> m1 = 0"
  proof (cases "m1 = 0")
    case False
    have b: "0 < ibits m1" "2 ^ nat (ibits m1 - 1) \<le> \<bar>m1\<bar>" "0 < nbits m2" "m2 < 2 ^ nat (nbits m2)"
      using nbits_bounds [of "\<bar>m1\<bar>"] nbits_bounds [of m2] False assms by auto
    have "54 + nat (nbits m2) \<le> nat (ibits m1 - 1) + s"
      using b(1,3) assms by (simp add: s_def quot_bits_def)
    then have "(2::int) ^ (54 + nat (nbits m2)) \<le> 2 ^ (nat (ibits m1 - 1) + s)" by (intro power_increasing) simp_all
    also have "\<dots> \<le> \<bar>m1\<bar> * 2 ^ s" using b(2) by (simp add: power_add)
    finally have "2 ^ 54 * m2 \<le> \<bar>m1\<bar> * 2 ^ s" using b(4) by (simp add: power_add)
    then have "real_of_int (2 ^ 54 * m2) \<le> of_int (\<bar>m1\<bar> * 2 ^ s)" by (simp only: of_int_le_iff)
    then show ?thesis using assms by (simp add: Q_def field_simps)
  qed simp
  define u where "u = (2::real) powi (e - int s - 1)"
  have u: "0 < u" "2 powi e = 2 * (2 ^ s * u)"
    using powi_add [of 1 "e - 1"] powi_add [of "int s" "e - int s - 1"] by (simp_all add: u_def)
  have "dval (Fin n (e - int s - 1)) - Q * 2 powi e = (of_int n - 2 * (Q * 2 ^ s)) * u"
    unfolding u(2) dval.simps u_def [symmetric] by (simp add: left_diff_distrib)
  then have "\<bar>dval (Fin n (e - int s - 1)) - Q * 2 powi e\<bar> \<le> 1 * u"
    using mult_right_mono [OF d, of u] u(1) by (simp add: abs_mult)
  moreover have "1000000000000 * u \<le> \<bar>Q\<bar> * 2 ^ s * u \<or> m1 = 0"
  proof (cases "m1 = 0")
    case False
    then have "1000000000000 \<le> \<bar>Q\<bar> * 2 ^ s" using big by simp
    then show ?thesis using u(1) by (auto intro: mult_right_mono)
  qed simp
  moreover have "\<bar>Q * 2 powi e\<bar> = 2 * (\<bar>Q\<bar> * 2 ^ s * u)" using u(1) unfolding u(2) by (simp add: abs_mult)
  ultimately have "m1 \<noteq> 0 \<Longrightarrow> \<bar>dval (Fin n (e - int s - 1)) - Q * 2 powi e\<bar> \<le> \<bar>Q * 2 powi e\<bar> / 1000000000000"
    using u(1) by linarith
  moreover have "m1 = 0 \<Longrightarrow> n = 0 \<and> Q = 0" by (simp add: n_def q_def r_def Q_def)
  ultimately have "\<bar>dval (Fin n (e - int s - 1)) - Q * 2 powi e\<bar> \<le> \<bar>Q * 2 powi e\<bar> / 1000000000000"
    by (cases "m1 = 0") simp_all
  moreover have "rnd_quot m1 m2 e = rnd n (e - int s - 1)"
    by (simp add: rnd_quot_def Let_def s_def q_def r_def n_def)
  moreover have "0 \<le> m1 \<longrightarrow> 0 \<le> n" using assms by (auto simp: n_def q_def pos_imp_zdiv_nonneg_iff)
  ultimately show thesis using that unfolding Q_def by blast
qed

lemma quot_val: "dval (Fin m1 e1) / dval (Fin m2 e2) = of_int m1 / of_int m2 * 2 powi (e1 - e2)"
  by (simp add: power_int_diff)

lemma ddiv_near:
  assumes "finite_double x" "finite_double y" "0 < dval y" "\<bar>dval x / dval y\<bar> < 20000"
  shows "near (ddiv x y) (dval x / dval y)"
proof -
  obtain m1 e1 m2 e2 where xy: "x = Fin m1 e1" "y = Fin m2 e2" using assms by (meson finite_cases)
  have m: "0 < m2" using assms(3) by (simp add: xy zero_less_mult_iff)
  define Q where "Q = dval x / dval y"
  obtain n s where n: "rnd_quot m1 m2 (e1 - e2) = rnd n (e1 - e2 - s - 1)"
    "\<bar>dval (Fin n (e1 - e2 - s - 1)) - Q\<bar> \<le> \<bar>Q\<bar> / 1000000000000"
    using quot_drops [OF m, of m1 "e1 - e2"] unfolding Q_def xy quot_val by metis
  have q: "\<bar>Q\<bar> < 20000" using assms(4) by (simp only: Q_def)
  from n(2) q have b: "\<bar>dval (Fin n (e1 - e2 - s - 1)) - Q\<bar> \<le> 1 / 10000000"
    by linarith
  then have "\<bar>dval (Fin n (e1 - e2 - s - 1))\<bar> < 32768" using q by linarith
  then have "\<bar>dval (Fin n (e1 - e2 - s - 1))\<bar> < 2 powi 15" by simp
  from rnd_error [OF this] have r: "finite_double (rnd n (e1 - e2 - s - 1))"
    "\<bar>dval (rnd n (e1 - e2 - s - 1)) - dval (Fin n (e1 - e2 - s - 1))\<bar> \<le> 2 powi - 39" by simp_all
  have "(2::real) powi - 39 \<le> 1 / 10000000" by (simp add: power_int_minus)
  then have "\<bar>dval (rnd n (e1 - e2 - s - 1)) - Q\<bar> \<le> 1 / 1000000" using r(2) b by linarith
  then show ?thesis using m n(1) r(1) unfolding Q_def [symmetric] near_def by (simp add: xy)
qed

text \<open>A quotient of any size: an infinity, or at least a quarter of it.\<close>

lemma ddiv_half:
  assumes "finite_double x" "finite_double y" "0 < dval y" "2 powi - 1072 \<le> dval x / dval y"
  shows "ddiv x y = Inf False \<or> finite_double (ddiv x y) \<and> dval x / dval y \<le> 4 * dval (ddiv x y)"
proof -
  obtain m1 e1 m2 e2 where xy: "x = Fin m1 e1" "y = Fin m2 e2" using assms by (meson finite_cases)
  have m: "0 < m2" using assms(3) by (simp add: xy zero_less_mult_iff)
  define Q where "Q = dval x / dval y"
  obtain n s where n: "rnd_quot m1 m2 (e1 - e2) = rnd n (e1 - e2 - s - 1)"
    "\<bar>dval (Fin n (e1 - e2 - s - 1)) - Q\<bar> \<le> \<bar>Q\<bar> / 1000000000000"
    using quot_drops [OF m, of m1 "e1 - e2"] unfolding Q_def xy quot_val by metis
  define X where "X = dval (Fin n (e1 - e2 - s - 1))"
  have p: "(2::real) powi - 1072 = 2 * 2 powi - 1073" "(0::real) < 2 powi - 1073" using powi_add [of 1 "- 1073"] by simp_all
  have q: "2 powi - 1072 \<le> Q" using assms(4) by (simp only: Q_def)
  then have "Q \<le> 2 * X" using n(2) p unfolding X_def [symmetric] by linarith
  then have X: "0 < X" "2 powi - 1073 \<le> \<bar>X\<bar>" "Q \<le> 2 * X" using q p by linarith+
  have "halved 2 X (rnd n (e1 - e2 - s - 1))" using X(2) unfolding X_def by (rule rnd_half)
  moreover have "ddiv x y = rnd n (e1 - e2 - s - 1)" using m n(1) by (simp add: xy)
  ultimately have "halved 2 X (ddiv x y)" by (simp only:)
  then show ?thesis using X unfolding halved_def Q_def [symmetric] by auto
qed

lemma dmul_half:
  assumes "finite_double x" "finite_double y" "2 powi - 1073 \<le> dval x * dval y"
  shows "dmul x y = Inf False \<or> finite_double (dmul x y) \<and> dval x * dval y \<le> 2 * dval (dmul x y)"
proof -
  obtain m1 e1 m2 e2 where xy: "x = Fin m1 e1" "y = Fin m2 e2" using assms by (meson finite_cases)
  have p: "(0::real) < 2 powi - 1073" by simp
  define X where "X = dval x * dval y"
  have X: "0 < X" "2 powi - 1073 \<le> \<bar>X\<bar>" using assms(3) p unfolding X_def by linarith+
  have "halved 2 X (dmul x y)"
    using X(2) unfolding X_def xy dmul.simps dmul_val [symmetric] by (rule rnd_half)
  then show ?thesis using X unfolding halved_def X_def [symmetric] by auto
qed

text \<open>Truncation.\<close>

lemma trunc_real:
  "0 \<le> m \<Longrightarrow> of_int (trunc m e) \<le> dval (Fin m e) \<and> dval (Fin m e) < of_int (trunc m e) + 1"
proof -
  assume m: "0 \<le> m"
  show ?thesis
  proof (cases "0 \<le> e")
    case True
    then show ?thesis by (simp add: trunc_def power_int_def)
  next
    case False
    define p where "p = (2::int) ^ nat (- e)"
    have "dval (Fin m e) = of_int m / of_int p" using False by (simp add: p_def power_int_def field_simps)
    moreover have "trunc m e = \<lfloor>of_int m / of_int p :: real\<rfloor>"
      unfolding floor_divide_of_int_eq using False m by (simp add: trunc_def p_def sgn_if)
    ultimately show ?thesis using floor_correct [of "of_int m / of_int p :: real"] by (simp only: of_int_add of_int_1)
  qed
qed

lemma trunc_neg: "trunc (- m) e = - trunc m e"
  by (simp add: trunc_def sgn_if)

lemma to_i32_near:
  assumes "finite_double x" "\<bar>dval x\<bar> < 4096"
  obtains w where "d_to_i32 x = Some w" "\<bar>sint w\<bar> < 4096"
    "0 \<le> dval x \<longrightarrow> of_int (sint w) \<le> dval x \<and> dval x < of_int (sint w) + 1"
    "dval x \<le> 0 \<longrightarrow> dval x \<le> of_int (sint w) \<and> of_int (sint w) - 1 < dval x"
proof -
  obtain m e where x: "x = Fin m e" using assms(1) by (rule finite_cases)
  define t where "t = trunc m e"
  have t: "(0 \<le> dval x \<longrightarrow> of_int t \<le> dval x \<and> dval x < of_int t + 1) \<and>
      (dval x \<le> 0 \<longrightarrow> dval x \<le> of_int t \<and> of_int t - 1 < dval x)"
  proof (cases "0 \<le> m")
    case True
    then show ?thesis using trunc_real [of m e] by (auto simp: x t_def mult_le_0_iff trunc_def)
  next
    case False
    then show ?thesis using trunc_real [of "- m" e] by (auto simp: x t_def trunc_neg zero_le_mult_iff)
  qed
  then have "\<bar>of_int t :: real\<bar> < 4096" using assms(2) by (cases "0 \<le> dval x") (auto simp: abs_if split: if_splits)
  then have "\<bar>t\<bar> < 4096" by simp
  then have "d_to_i32 x = Some (word_of_int t)" "sint (word_of_int t :: i32) = t"
    unfolding x d_to_i32.simps t_def [symmetric] by (auto simp: sint_of_int_32 abs_less_iff)
  then show thesis using that [of "word_of_int t"] t \<open>\<bar>t\<bar> < 4096\<close> by simp
qed

end
