(* ===== verification/FloatExponent.thy ===== *)
theory FloatExponent
  imports FloatText DoubleError
begin

text \<open>
  How good the decimal exponent of \<open>_etoa\<close> is: the fields of an encoding, and bounds on each step of the
  approximation, from the error of a single operation. The power of ten that the value is divided by is
  within a constant factor of the value.
\<close>

section \<open>Encodings\<close>

lemma uint_of_int_64: "0 \<le> k \<Longrightarrow> k < 2 ^ 64 \<Longrightarrow> uint (word_of_int k :: u64) = k"
  by (simp add: take_bit_int_eq_self unsigned_of_int)

lemma high_bits:
  assumes "0 \<le> x" "x < 2 ^ 11" "0 \<le> f" "f < 2 ^ 52" "U = word_of_int (x * 2 ^ 52 + f)"
  shows "uint (drop_bit 52 (U :: u64) AND 0x7FF) = x"
proof -
  have "x * 2 ^ 52 + f < 2 ^ 64" "0 \<le> x * 2 ^ 52 + f" using assms(1-4) by auto
  then have "uint U = x * 2 ^ 52 + f" using uint_of_int_64 unfolding assms(5) by blast
  then have "drop_bit 52 (uint U) = x" using assms(3,4) by (simp add: drop_bit_eq_div)
  moreover have "drop_bit 52 U AND 0x7FF = take_bit 11 (drop_bit 52 U)" by (simp add: take_bit_eq_mask mask_eq_exp_minus_1)
  moreover have "uint (take_bit 11 (drop_bit 52 U)) = take_bit 11 (drop_bit 52 (uint U))"
    using take_bit_int_eq_self [of "uint U" 64] uint_lt2p [of U]
    by (simp add: unsigned_take_bit_eq unsigned_drop_bit_eq)
  ultimately show ?thesis using assms(1,2) by (simp only: take_bit_int_eq_self)
qed

text \<open>The integer and the exponent of the fields of an encoding.\<close>

definition field_int :: "int \<Rightarrow> int \<Rightarrow> int" where
  "field_int x f = (if x = 0 then f else f + 2 ^ 52)"

definition field_exp :: "int \<Rightarrow> int" where
  "field_exp x = (if x = 0 then - 1074 else x - 1075)"

lemma bits_d_cases:
  obtains "bits_d w = NaN" | s where "bits_d w = Inf s"
  | x f where "bits_d w = Fin (field_int x f) (field_exp x)" "0 \<le> x" "x < 2047" "0 \<le> f" "f < 2 ^ 52"
  | x f where "bits_d w = Fin (- field_int x f) (field_exp x)" "0 \<le> x" "x < 2047" "0 \<le> f" "f < 2 ^ 52"
proof -
  define x where "x = uint (drop_bit 52 w AND 0x7FF)"
  define f where "f = uint (w AND (2 ^ 52 - 1))"
  have x: "0 \<le> x" "x \<le> 2047" using word_11_bits [of "drop_bit 52 w"] by (simp_all add: x_def)
  have "uint (w AND (2 ^ 52 - 1)) \<le> 2 ^ 52 - 1" by (simp add: uint_and)
  then have f: "0 \<le> f" "f < 2 ^ 52" by (simp_all add: f_def)
  have w: "bits_d w = (if x = 2047 then if f = 0 then Inf (bit w 63) else NaN
      else Fin ((if bit w 63 then - 1 else 1) * field_int x f) (field_exp x))"
    unfolding bits_d_def Let_def x_def [symmetric] f_def [symmetric] field_int_def field_exp_def by simp
  show thesis
  proof (cases "x = 2047")
    case True
    then show thesis using w that(1,2) by (cases "f = 0") simp_all
  next
    case False
    then have "x < 2047" using x by simp
    then show thesis using w False x f that(3,4) by (cases "bit w 63") simp_all
  qed
qed

lemma d_bits_fields:
  assumes "0 \<le> x" "x < 2047" "0 \<le> f" "f < 2 ^ 52"
  shows "d_bits (Fin (field_int x f) (field_exp x)) = word_of_int (x * 2 ^ 52 + f)"
proof (cases "field_int x f = 0")
  case True
  then show ?thesis using assms by (auto simp: field_int_def split: if_splits)
next
  case False
  define a where "a = field_int x f"
  have a: "0 < a" "a < 2 ^ 53" using False assms by (auto simp: a_def field_int_def split: if_splits)
  show ?thesis
  proof (cases "x = 0")
    case True
    then have "nbits a \<le> int 52" using a assms by (intro nbits_le) (auto simp: a_def field_int_def)
    then show ?thesis using True a by (simp add: a_def [symmetric] field_exp_def) (simp add: a_def field_int_def)
  next
    case x: False
    have "nbits a \<le> int 53" using a by (intro nbits_le) simp_all
    moreover have "52 < nat (nbits a)"
    proof -
      have "(2::int) ^ 52 \<le> a" using x assms by (simp add: a_def field_int_def)
      also have "a < 2 ^ nat (nbits a)" using nbits_bounds [OF a(1)] by simp
      finally show ?thesis by (rule power_less_imp_less_exp [rotated]) simp
    qed
    ultimately have "nbits a = 53" by simp
    then show ?thesis using x a assms(1) by (simp add: a_def [symmetric] field_exp_def) (simp add: a_def field_int_def)
  qed
qed

lemma exponent_of_fields:
  assumes "0 \<le> x" "x < 2047" "0 \<le> f" "f < 2 ^ 52" "U = word_of_int (x * 2 ^ 52 + f)"
  shows "sint (ucast (drop_bit 52 (U :: u64) AND 0x07FF) - (1023 :: i32)) = x - 1023"
proof -
  define v where "v = (ucast (drop_bit 52 U AND 0x07FF) :: i32)"
  have "uint v = x"
    using high_bits [of x f U] assms by (simp add: v_def unsigned_ucast_eq take_bit_int_eq_self)
  then have "sint v = x" using assms(2) by (simp add: sint_uint_32)
  then show ?thesis using assms(1,2) unfolding v_def [symmetric] by (subst sint_diff_32) simp_all
qed

lemma unit_value:
  obtains g where "bits_d ((U AND (push_bit 52 1 - 1)) OR push_bit 52 1023) = g"
    "finite_double g" "1 \<le> dval g" "dval g < 2"
proof -
  obtain f where g: "bits_d ((U AND (push_bit 52 1 - 1)) OR push_bit 52 1023) = Fin (f + 2 ^ 52) (- 52)" "0 \<le> f" "f < 2 ^ 52"
    by (rule bits_d_unit)
  have "2 ^ 52 \<le> real_of_int (f + 2 ^ 52)" "real_of_int (f + 2 ^ 52) < 2 * 2 ^ 52" using g(2,3) by simp_all
  then have "1 \<le> of_int (f + 2 ^ 52) * inverse ((2::real) ^ 52)" "of_int (f + 2 ^ 52) * inverse ((2::real) ^ 52) < 2"
    by simp_all
  moreover have "(2::real) powi - 52 = inverse (2 ^ 52)" by (simp add: power_int_minus)
  ultimately show thesis using that [OF g(1)] by (simp only: dval.simps finite_double.simps)
qed

text \<open>An exponent field alone is a power of two.\<close>

lemma bits_d_power:
  assumes "- 1022 \<le> sint k" "sint k \<le> 1023"
  shows "bits_d (push_bit 52 (scast (k + 1023 :: i32))) = Fin (2 ^ 52) (sint k - 52)"
proof -
  define x where "x = sint k + 1023"
  have x: "0 < x" "x < 2047" using assms by (simp_all add: x_def)
  have "sint (k + 1023) = x" using assms by (subst sint_add_32) (simp_all add: x_def)
  then have "push_bit 52 (scast (k + 1023)) = (word_of_int (x * 2 ^ 52) :: u64)"
    by (simp add: scast_eq push_bit_eq_mult)
  moreover have "bits_d W = Fin (2 ^ 52) (x - 1075)" if W: "W = word_of_int (x * 2 ^ 52)" for W
  proof -
    have h: "uint (drop_bit 52 W AND 0x7FF) = x" using high_bits [of x 0] x W by simp
    have b: "x * 2 ^ 52 < 2 ^ 63" "0 \<le> x * 2 ^ 52" using x by simp_all
    then have u: "uint W = x * 2 ^ 52" unfolding W by (intro uint_of_int_64) simp_all
    have "bit W 63 \<longleftrightarrow> bit (uint W) 63" by (simp add: bit_uint_iff)
    also have "\<dots> \<longleftrightarrow> odd (uint W div 2 ^ 63)" by (rule bit_iff_odd)
    also have "uint W div 2 ^ 63 = 0" unfolding u using b by (intro div_pos_pos_trivial)
    finally have "\<not> bit W 63" by simp
    moreover have "W AND (2 ^ 52 - 1) = take_bit 52 W" by (simp add: take_bit_eq_mask mask_eq_exp_minus_1)
    then have "uint (W AND (2 ^ 52 - 1)) = 0"
      unfolding \<open>W AND (2 ^ 52 - 1) = take_bit 52 W\<close> unsigned_take_bit_eq u by (simp add: take_bit_eq_mod)
    ultimately show ?thesis unfolding bits_d_def Let_def h using x by simp
  qed
  ultimately show ?thesis by (simp add: x_def)
qed

section \<open>The decimal exponent is close\<close>

lemma powi_minus: "(2::real) powi - numeral n = inverse (2 ^ numeral n)"
  by (simp add: power_int_minus)

lemma literal_finite:
  "finite_double (dlit 1760912590558 (10 ^ 13))"
  "finite_double (dlit 301029995663981 (10 ^ 15))"
  "finite_double (dlit 15 10)"
  "finite_double (dlit 289529654602168 (10 ^ 15))"
  "finite_double (dlit 3321928094887362 (10 ^ 15))"
  "finite_double (dlit 2302585092994046 (10 ^ 15))"
  "finite_double (dlit 6931471805599453 (10 ^ 16))"
  "finite_double half"
  unfolding literal_fins half_eq by simp_all

lemma literal_values:
  "dval (dlit 1760912590558 (10 ^ 13)) = 6344356229335219 / 36028797018963968"
  "dval (dlit 301029995663981 (10 ^ 15)) = 5422874305198587 / 18014398509481984"
  "dval (dlit 15 10) = 3 / 2"
  "dval (dlit 289529654602168 (10 ^ 15)) = 5215702578316129 / 18014398509481984"
  "dval (dlit 3321928094887362 (10 ^ 15)) = 7480317065143153 / 2251799813685248"
  "dval (dlit 2302585092994046 (10 ^ 15)) = 5184960683398422 / 2251799813685248"
  "dval (dlit 6931471805599453 (10 ^ 16)) = 6243314768165359 / 9007199254740992"
  "dval half = 1 / 2"
  unfolding literal_fins half_eq dval.simps powi_minus by simp_all

lemma i32_value: "finite_double (d_of_i32 w)" "dval (d_of_i32 w) = of_int (sint w)"
  by simp_all

lemma i32_real: "\<bar>sint w\<bar> \<le> numeral n \<Longrightarrow> - numeral n \<le> real_of_int (sint w) \<and> real_of_int (sint w) \<le> numeral n"
proof -
  assume "\<bar>sint w\<bar> \<le> numeral n"
  then have "- numeral n \<le> sint w" "sint w \<le> numeral n" by simp_all
  then have "real_of_int (- numeral n) \<le> of_int (sint w)" "real_of_int (sint w) \<le> of_int (numeral n)"
    by (simp_all only: of_int_le_iff)
  then show ?thesis by simp
qed

lemma expval_close:
  assumes "finite_double g" "1 \<le> dval g" "dval g < 2" "\<bar>sint e\<bar> \<le> 1023"
    and x: "x = dadd (dadd (dlit 1760912590558 (10 ^ 13)) (dmul (d_of_i32 e) (dlit 301029995663981 (10 ^ 15))))
      (dmul (dsub g (dlit 15 10)) (dlit 289529654602168 (10 ^ 15)))"
  shows "finite_double x \<and> 0.30103 * of_int (sint e) + 0.0313 \<le> dval x \<and> dval x \<le> 0.30103 * of_int (sint e) + 0.321"
proof -
  define E where "E = real_of_int (sint e)"
  have E: "- 1023 \<le> E" "E \<le> 1023" using i32_real [OF assms(4)] by (simp_all add: E_def del: of_int_sint)
  define p1 where "p1 = dmul (d_of_i32 e) (dlit 301029995663981 (10 ^ 15))"
  have p1: "near p1 (E * (5422874305198587 / 18014398509481984))"
    using dmul_near [of "d_of_i32 e" "dlit 301029995663981 (10 ^ 15)"] E
      literal_finite i32_value(1)
    unfolding p1_def [symmetric] literal_values i32_value(2) E_def [symmetric] by (simp add: abs_less_iff)
  note b1 = near_bounds [OF p1]
  define s1 where "s1 = dadd (dlit 1760912590558 (10 ^ 13)) p1"
  have s1: "near s1 (6344356229335219 / 36028797018963968 + dval p1)"
    using dadd_near [of "dlit 1760912590558 (10 ^ 13)" p1] E b1 near_finite [OF p1] literal_finite
    unfolding s1_def [symmetric] literal_values by (simp add: abs_less_iff)
  note b2 = near_bounds [OF s1]
  define g1 where "g1 = dsub g (dlit 15 10)"
  have g1: "near g1 (dval g - 3 / 2)"
    using dsub_near [of g "dlit 15 10"] assms(1-3) literal_finite unfolding g1_def [symmetric] literal_values by (simp add: abs_less_iff)
  note b3 = near_bounds [OF g1]
  define p2 where "p2 = dmul g1 (dlit 289529654602168 (10 ^ 15))"
  have p2: "near p2 (dval g1 * (5215702578316129 / 18014398509481984))"
    using dmul_near [of g1 "dlit 289529654602168 (10 ^ 15)"] b3 assms(2,3) near_finite [OF g1] literal_finite
    unfolding p2_def [symmetric] literal_values by (simp add: abs_less_iff)
  note b4 = near_bounds [OF p2]
  have xs: "x = dadd s1 p2" by (simp add: x s1_def p1_def p2_def g1_def)
  have n: "near x (dval s1 + dval p2)"
    unfolding xs using E b1 b2 b3 b4 assms(2,3) near_finite [OF s1] near_finite [OF p2]
    by (intro dadd_near) (simp_all add: abs_less_iff)
  note b5 = near_bounds [OF n]
  show ?thesis using near_finite [OF n] b1 b2 b3 b4 b5 E assms(2,3) unfolding E_def [symmetric] by simp
qed

text \<open>The exponent \<open>z\<close> of the correction factor, and the factor.\<close>

lemma remainder_close:
  assumes "\<bar>sint n\<bar> \<le> 308" "\<bar>sint k\<bar> \<le> 1023"
    and "- 1.51 \<le> 3.3219280948873 * of_int (sint n) - real_of_int (sint k)"
    and "3.3219280948873 * of_int (sint n) - real_of_int (sint k) \<le> 0.51"
    and z: "z = dsub (dmul (d_of_i32 n) (dlit 2302585092994046 (10 ^ 15))) (dmul (d_of_i32 k) (dlit 6931471805599453 (10 ^ 16)))"
  shows "finite_double z \<and> - 1.06 \<le> dval z \<and> dval z \<le> 0.36"
proof -
  define N where "N = real_of_int (sint n)"
  define K where "K = real_of_int (sint k)"
  have N: "- 308 \<le> N" "N \<le> 308" using i32_real [OF assms(1)] by (simp_all add: N_def del: of_int_sint)
  have K: "- 1023 \<le> K" "K \<le> 1023" using i32_real [OF assms(2)] by (simp_all add: K_def del: of_int_sint)
  define p1 where "p1 = dmul (d_of_i32 n) (dlit 2302585092994046 (10 ^ 15))"
  have p1: "near p1 (N * (5184960683398422 / 2251799813685248))"
    using dmul_near [of "d_of_i32 n" "dlit 2302585092994046 (10 ^ 15)"] N
      literal_finite i32_value(1)
    unfolding p1_def [symmetric] literal_values i32_value(2) N_def [symmetric] by (simp add: abs_less_iff)
  note b1 = near_bounds [OF p1]
  define p2 where "p2 = dmul (d_of_i32 k) (dlit 6931471805599453 (10 ^ 16))"
  have p2: "near p2 (K * (6243314768165359 / 9007199254740992))"
    using dmul_near [of "d_of_i32 k" "dlit 6931471805599453 (10 ^ 16)"] K
      literal_finite i32_value(1)
    unfolding p2_def [symmetric] literal_values i32_value(2) K_def [symmetric] by (simp add: abs_less_iff)
  note b2 = near_bounds [OF p2]
  have s: "near z (dval p1 - dval p2)"
    unfolding z p1_def [symmetric] p2_def [symmetric] using b1 b2 N K near_finite [OF p1] near_finite [OF p2]
    by (intro dsub_near) (simp_all add: abs_less_iff)
  then show ?thesis
    using near_finite [OF s] near_bounds [OF s] b1 b2 N K assms(3,4) unfolding N_def [symmetric] K_def [symmetric] by simp
qed

lemma factor_close:
  assumes "finite_double z" "- 1.06 \<le> dval z" "dval z \<le> 0.36"
    and r: "r = dadd (dint 1) (ddiv (dmul (dint 2) z) (dadd (dsub (dint 2) z)
      (ddiv (dmul z z) (dadd (dint 6) (ddiv (dmul z z) (dadd (dint 10) (ddiv (dmul z z) (dint 14))))))))"
  shows "finite_double r \<and> 0.2 \<le> dval r \<and> dval r \<le> 2"
proof -
  have ints: "dint 1 = Fin 1 0" "dint 2 = Fin 2 0" "dint 6 = Fin 6 0" "dint 10 = Fin 10 0" "dint 14 = Fin 14 0"
    by (simp_all add: dint_exact)
  define z2 where "z2 = dmul z z"
  obtain Z where Z: "dval z * dval z = Z" by simp
  have sq: "0 \<le> Z" "Z \<le> 1.2"
    using assms(2,3) abs_square_le_1 [of "dval z / 1.06"] by (auto simp: power2_eq_square abs_le_iff simp flip: Z)
  have z2: "near z2 Z" using sq assms(1) unfolding z2_def Z [symmetric] by (intro dmul_near) (simp_all add: Z)
  note b2 = near_bounds [OF z2]
  define q1 where "q1 = ddiv z2 (dint 14)"
  have q1: "near q1 (dval z2 / 14)" using ddiv_near [of z2 "dint 14"] b2 sq near_finite [OF z2] by (simp add: q1_def ints abs_less_iff)
  define d1 where "d1 = dadd (dint 10) q1"
  have d1: "near d1 (10 + dval q1)" using dadd_near [of "dint 10" q1] near_bounds [OF q1] b2 sq near_finite [OF q1] by (simp add: d1_def ints abs_less_iff)
  have c1: "9 \<le> dval d1" "dval d1 \<le> 12" using near_bounds [OF d1] near_bounds [OF q1] b2 sq by simp_all
  define q2 where "q2 = ddiv z2 d1"
  have e2: "- 1 \<le> dval z2 / dval d1" "dval z2 / dval d1 \<le> 1" using c1 b2 sq by (simp_all add: field_simps)
  have q2: "near q2 (dval z2 / dval d1)"
    unfolding q2_def using e2 c1 by (intro ddiv_near near_finite [OF z2] near_finite [OF d1] abs_less_iff [THEN iffD2] conjI; linarith)
  define d2 where "d2 = dadd (dint 6) q2"
  have d2: "near d2 (6 + dval q2)" using dadd_near [of "dint 6" q2] near_bounds [OF q2] e2 near_finite [OF q2] by (simp add: d2_def ints abs_less_iff)
  have c2: "4 \<le> dval d2" "dval d2 \<le> 8" using near_bounds [OF d2] near_bounds [OF q2] e2 by simp_all
  define q3 where "q3 = ddiv z2 d2"
  have e3: "- (1 / 1000000) \<le> dval z2 / dval d2" "dval z2 / dval d2 \<le> 1" using c2 b2 sq by (simp_all add: field_simps)
  have q3: "near q3 (dval z2 / dval d2)"
    unfolding q3_def using e3 c2 by (intro ddiv_near near_finite [OF z2] near_finite [OF d2] abs_less_iff [THEN iffD2] conjI; linarith)
  define d3 where "d3 = dsub (dint 2) z"
  have d3: "near d3 (2 - dval z)" using dsub_near [of "dint 2" z] assms(1-3) by (simp add: d3_def ints abs_less_iff)
  define d4 where "d4 = dadd d3 q3"
  have d4: "near d4 (dval d3 + dval q3)"
    unfolding d4_def using near_bounds [OF d3] near_bounds [OF q3] e3 near_finite [OF d3] near_finite [OF q3] assms(2,3)
    by (intro dadd_near) (simp_all add: abs_less_iff)
  have c4: "2 - dval z - 1 / 100000 \<le> dval d4" "1 \<le> dval d4" "dval d4 \<le> 5"
    using near_bounds [OF d3] near_bounds [OF q3] near_bounds [OF d4] e3 assms(2,3) by simp_all
  define t where "t = dmul (dint 2) z"
  have t: "near t (2 * dval z)" using dmul_near [of "dint 2" z] assms(1-3) by (simp add: t_def ints abs_less_iff)
  define q4 where "q4 = ddiv t d4"
  have e4: "- (3 / 4) \<le> dval t / dval d4" "dval t / dval d4 \<le> 4 / 5"
    using near_bounds [OF t] c4 assms(2,3) by (simp_all add: field_simps)
  have q4: "near q4 (dval t / dval d4)"
    unfolding q4_def using e4 c4 by (intro ddiv_near near_finite [OF t] near_finite [OF d4] abs_less_iff [THEN iffD2] conjI; linarith)
  have rs: "r = dadd (dint 1) q4" by (simp add: r q4_def t_def d4_def d3_def q3_def d2_def q2_def d1_def q1_def z2_def)
  have n: "near r (1 + dval q4)" using dadd_near [of "dint 1" q4] near_bounds [OF q4] e4 near_finite [OF q4] by (simp add: rs ints abs_less_iff)
  show ?thesis using near_finite [OF n] near_bounds [OF n] near_bounds [OF q4] e4 by simp
qed

lemma i32_less: "real_of_int (sint w) < numeral a \<Longrightarrow> sint w < numeral a"
    "- numeral a < real_of_int (sint w) \<Longrightarrow> - numeral a < sint w"
  using of_int_less_iff [where ?'a = real, of "sint w" "numeral a"] of_int_less_iff [where ?'a = real, of "- numeral a" "sint w"]
  by (simp_all del: of_int_sint)

text \<open>The binary exponent of the power of ten.\<close>

lemma binary_exponent:
  assumes "- 307 \<le> sint n" "sint n \<le> 308"
  obtains k where "d_to_i32 (dadd (dmul (d_of_i32 n) (dlit 3321928094887362 (10 ^ 15))) half) = Some k"
    "- 1020 \<le> sint k" "sint k \<le> 1023" "- 1.51 \<le> 3.3219280948873 * of_int (sint n) - real_of_int (sint k)"
    "3.3219280948873 * of_int (sint n) - real_of_int (sint k) \<le> 0.51"
proof -
  define N where "N = real_of_int (sint n)"
  have "real_of_int (- 307) \<le> N" "N \<le> real_of_int 308" unfolding N_def of_int_le_iff using assms by simp_all
  then have N: "- 307 \<le> N" "N \<le> 308" by simp_all
  define p where "p = dmul (d_of_i32 n) (dlit 3321928094887362 (10 ^ 15))"
  have p: "near p (N * (7480317065143153 / 2251799813685248))"
    using dmul_near [of "d_of_i32 n" "dlit 3321928094887362 (10 ^ 15)"] N literal_finite i32_value(1)
    unfolding p_def [symmetric] literal_values i32_value(2) N_def [symmetric] by (simp add: abs_less_iff)
  note b1 = near_bounds [OF p]
  define y where "y = dadd p half"
  have y: "near y (dval p + 1 / 2)"
    using dadd_near [of p half] b1 N near_finite [OF p] literal_finite
    unfolding y_def [symmetric] literal_values by (simp add: abs_less_iff)
  note b2 = near_bounds [OF y]
  have "\<bar>dval y\<bar> < 4096" using b1 b2 N by (simp add: abs_less_iff)
  then obtain k where k: "d_to_i32 y = Some k"
    "0 \<le> dval y \<longrightarrow> of_int (sint k) \<le> dval y \<and> dval y < of_int (sint k) + 1"
    "dval y \<le> 0 \<longrightarrow> dval y \<le> of_int (sint k) \<and> of_int (sint k) - 1 < dval y"
    using to_i32_near [OF near_finite [OF y]] by metis
  define K where "K = real_of_int (sint k)"
  have d: "dval y - 1 < K" "K < dval y + 1" "K \<le> dval y \<or> K < 1" "dval y \<le> K \<or> - 1 < K"
    using k(2,3) unfolding K_def [symmetric] by linarith+
  have "- 1021 < K" "K < 1024" using d b1 b2 N by linarith+
  then have "- 1021 < sint k" "sint k < 1024" unfolding K_def by (simp_all only: i32_less)
  moreover have "- 1.51 \<le> 3.3219280948873 * N - K" "3.3219280948873 * N - K \<le> 0.51"
    using d b1 b2 N by simp_all
  ultimately show thesis using that [of k] k(1) unfolding y_def p_def N_def K_def by simp
qed

lemma powi_mono3: "a \<le> b + 3 \<Longrightarrow> (2::real) powi a \<le> 8 * 2 powi b"
  using powi_le [of a "b + 3"] powi_add [of b 3] by simp

text \<open>The power of ten, before and after its correction.\<close>

lemma power_close:
  assumes "- 1020 \<le> sint k" "sint k \<le> 1023" "finite_double r" "0.2 \<le> dval r"
    and F: "F = dmul (bits_d (push_bit 52 (scast (k + 1023 :: i32)))) r"
  shows "F = Inf False \<or> finite_double F \<and> 2 powi sint k \<le> 10 * dval F"
    "ddiv F (dint 10) = Inf False \<or> finite_double (ddiv F (dint 10)) \<and> 2 powi sint k \<le> 400 * dval (ddiv F (dint 10))"
proof -
  define P where "P = (2::real) powi sint k"
  have P: "2 powi - 1020 \<le> P" "0 < P" using powi_le [OF assms(1)] by (simp_all only: P_def) simp
  define F0 where "F0 = bits_d (push_bit 52 (scast (k + 1023)))"
  have F0: "F0 = Fin (2 ^ 52) (sint k - 52)" unfolding F0_def by (rule bits_d_power) (use assms in simp_all)
  have v: "dval F0 = P" using powi_add [of 52 "sint k - 52"] by (simp add: F0 P_def)
  have "P * (1 / 5) \<le> P * dval r" using assms(4) P(2) by (intro mult_left_mono) simp_all
  then have q: "P / 5 \<le> P * dval r" by simp
  define c where "c = (2::real) powi - 1073"
  have c: "2 powi - 1072 = 2 * c" "2 powi - 1020 = 2 ^ 53 * c" "0 < c" "2 powi - 1073 = c"
    using powi_add [of 1 "- 1073"] powi_add [of 53 "- 1073"] by (simp_all add: c_def)
  have d: "9007199254740992 * c \<le> P" using P(1) unfolding c(2) by simp
  then have "c \<le> P * dval r" using q c(3) by linarith
  then have "F = Inf False \<or> finite_double F \<and> P * dval r \<le> 2 * dval F"
    using dmul_half [of F0 r] assms(3) unfolding F F0_def [symmetric] v c(4) by (simp add: F0)
  moreover have "P * dval r \<le> 2 * dval F \<Longrightarrow> P \<le> 10 * dval F" using q by linarith
  ultimately have 1: "F = Inf False \<or> finite_double F \<and> P \<le> 10 * dval F" by blast
  then show "F = Inf False \<or> finite_double F \<and> 2 powi sint k \<le> 10 * dval F" unfolding P_def .
  have t: "dint 10 = Fin 10 0" by (simp add: dint_exact)
  show "ddiv F (dint 10) = Inf False \<or> finite_double (ddiv F (dint 10)) \<and> 2 powi sint k \<le> 400 * dval (ddiv F (dint 10))"
  proof (cases "F = Inf False")
    case False
    then have f: "finite_double F" "P \<le> 10 * dval F" using 1 by simp_all
    have "2 * c \<le> dval F / dval (dint 10)" using f(2) d c(3) by (simp add: t)
    then show ?thesis
      using ddiv_half [of F "dint 10"] f unfolding P_def [symmetric] c(1) by (auto simp: t)
  qed (simp add: t)
qed

text \<open>
  With \<open>E\<close> the binary exponent of a value, its decimal exponent is between \<open>0.30103 * E - 1.97\<close> and \<open>0.30103 * E + 1.33\<close>, and the
  power of ten is not more than a factor of 3200 below \<open>2 ^ E\<close>.
\<close>

lemma decimal_exponent_close:
  assumes x: "0 \<le> x" "x < 2047" "0 \<le> f" "f < 2 ^ 52"
    and E: "E = x - 1023"
  obtains n F where "decimal_exponent (Fin (field_int x f) (field_exp x)) = Some (n, F)"
    "\<bar>sint n\<bar> \<le> 308" "0.30103 * of_int E - 1.97 < real_of_int (sint n)" "real_of_int (sint n) < 0.30103 * of_int E + 1.33"
    "F = Inf False \<or> finite_double F \<and> 2 powi E \<le> 3200 * dval F"
proof -
  define v where "v = Fin (field_int x f) (field_exp x)"
  define U where "U = d_bits v"
  have U: "U = word_of_int (x * 2 ^ 52 + f)" unfolding U_def v_def by (rule d_bits_fields [OF x])
  define e where "e = (ucast (drop_bit 52 U AND 0x07FF) - 1023 :: i32)"
  have e: "sint e = E" unfolding e_def E by (rule exponent_of_fields [OF x U])
  obtain g where g: "bits_d ((U AND (push_bit 52 1 - 1)) OR push_bit 52 1023) = g" "finite_double g" "1 \<le> dval g" "dval g < 2"
    by (rule unit_value)
  have eb: "\<bar>sint e\<bar> \<le> 1023" using x(1,2) by (simp add: e E)
  define X where "X = dadd (dadd (dlit 1760912590558 (10 ^ 13)) (dmul (d_of_i32 e) (dlit 301029995663981 (10 ^ 15))))
    (dmul (dsub g (dlit 15 10)) (dlit 289529654602168 (10 ^ 15)))"
  note X = expval_close [OF g(2-4) eb X_def]
  define R where "R = real_of_int E"
  have R: "- 1023 \<le> R" "R \<le> 1023" "real_of_int (sint e) = R" using i32_real [OF eb] by (simp_all add: R_def e del: of_int_sint)
  have Xb: "30103 / 100000 * R + 313 / 10000 \<le> dval X" "dval X \<le> 30103 / 100000 * R + 321 / 1000" using X unfolding R(3) by simp_all
  then have "\<bar>dval X\<bar> < 4096" using R by (simp add: abs_less_iff)
  then obtain n where n: "d_to_i32 X = Some n"
    "0 \<le> dval X \<longrightarrow> of_int (sint n) \<le> dval X \<and> dval X < of_int (sint n) + 1"
    "dval X \<le> 0 \<longrightarrow> dval X \<le> of_int (sint n) \<and> of_int (sint n) - 1 < dval X"
    using to_i32_near [of X] X by metis
  define N where "N = real_of_int (sint n)"
  have d: "dval X - 1 < N" "N < dval X + 1" "N \<le> dval X \<or> N < 1" "dval X \<le> N \<or> - 1 < N"
    using n(2,3) unfolding N_def [symmetric] by linarith+
  have "- 308 < N" "N < 309" using d Xb R by linarith+
  then have "- 308 < sint n" "sint n < 309" unfolding N_def by (simp_all only: i32_less)
  then have nb: "- 307 \<le> sint n" "sint n \<le> 308" by simp_all
  obtain k where k: "d_to_i32 (dadd (dmul (d_of_i32 n) (dlit 3321928094887362 (10 ^ 15))) half) = Some k"
    "- 1020 \<le> sint k" "sint k \<le> 1023" "- 1.51 \<le> 3.3219280948873 * of_int (sint n) - real_of_int (sint k)"
    "3.3219280948873 * of_int (sint n) - real_of_int (sint k) \<le> 0.51"
    by (rule binary_exponent [OF nb])
  define z where "z = dsub (dmul (d_of_i32 n) (dlit 2302585092994046 (10 ^ 15))) (dmul (d_of_i32 k) (dlit 6931471805599453 (10 ^ 16)))"
  have z: "finite_double z \<and> - 1.06 \<le> dval z \<and> dval z \<le> 0.36"
    using nb k(2,3) by (intro remainder_close [OF _ _ k(4,5) z_def]) simp_all
  define r where "r = dadd (dint 1) (ddiv (dmul (dint 2) z) (dadd (dsub (dint 2) z)
      (ddiv (dmul z z) (dadd (dint 6) (ddiv (dmul z z) (dadd (dint 10) (ddiv (dmul z z) (dint 14))))))))"
  have r: "finite_double r" "0.2 \<le> dval r" using factor_close [OF _ _ _ r_def] z by simp_all
  define F where "F = dmul (bits_d (push_bit 52 (scast (k + 1023 :: i32)))) r"
  note F = power_close [OF k(2,3) r F_def]
  define K where "K = real_of_int (sint k)"
  have "R - K < 4" using d Xb k(4,5) R(1,2) unfolding N_def [symmetric] K_def [symmetric] by simp
  then have "real_of_int (E - sint k) < of_int 4" unfolding R_def K_def by simp
  then have "E \<le> sint k + 3" unfolding of_int_less_iff by simp
  then have pk: "2 powi E \<le> 8 * (2 powi sint k :: real)" by (rule powi_mono3)
  define res where "res = (if dlt v F then (n - 1, ddiv F (dint 10)) else (n, F))"
  have de: "decimal_exponent v = Some res"
    unfolding decimal_exponent_def Let_def U_def [symmetric] e_def [symmetric] g(1) X_def [symmetric] n(1)
      Option.bind.bind_lunit k(1) z_def [symmetric] r_def [symmetric] F_def [symmetric] res_def ..
  have m: "sint (n - 1) = sint n - 1" using nb by (subst sint_diff_32) simp_all
  have N1: "real_of_int (sint (n - 1)) = N - 1" unfolding m N_def by simp
  have nn: "0.30103 * R - 0.97 < N" "N < 0.30103 * R + 1.33" using d Xb by simp_all
  show thesis
  proof (cases "dlt v F")
    case True
    then have s: "decimal_exponent v = Some (n - 1, ddiv F (dint 10))" using de by (simp add: res_def)
    show thesis
    proof (rule that [OF s [unfolded v_def]])
      show "\<bar>sint (n - 1)\<bar> \<le> 308" using nb m by simp
      show "0.30103 * of_int E - 1.97 < real_of_int (sint (n - 1))" "real_of_int (sint (n - 1)) < 0.30103 * of_int E + 1.33"
        using nn unfolding N1 R_def by simp_all
      show "ddiv F (dint 10) = Inf False \<or> finite_double (ddiv F (dint 10)) \<and> 2 powi E \<le> 3200 * dval (ddiv F (dint 10))"
        using F(2) pk by auto
    qed
  next
    case False
    then have s: "decimal_exponent v = Some (n, F)" using de by (simp add: res_def)
    show thesis
    proof (rule that [OF s [unfolded v_def]])
      show "\<bar>sint n\<bar> \<le> 308" using nb by simp
      show "0.30103 * of_int E - 1.97 < real_of_int (sint n)" "real_of_int (sint n) < 0.30103 * of_int E + 1.33"
        using nn unfolding N_def R_def by simp_all
      show "F = Inf False \<or> finite_double F \<and> 2 powi E \<le> 3200 * dval F"
      proof (cases "F = Inf False")
        case False
        then have "finite_double F" "2 powi sint k \<le> 10 * dval F" using F(1) by simp_all
        moreover have "0 < (2 powi sint k :: real)" by simp
        ultimately show ?thesis using pk by linarith
      qed simp
    qed
  qed
qed

end
