(* ===== verification/FloatEnds.thy ===== *)
theory FloatEnds
  imports FloatExponent
begin

text \<open>
  Why \<open>_ftoa\<close> and \<open>_etoa\<close>, which call each other, return: \<open>_etoa\<close> divides a large value by a power of ten close to it, so
  that \<open>_ftoa\<close> never hands it back.
\<close>

section \<open>Scaled values\<close>

lemma fields_value:
  assumes x: "0 \<le> x" "x < 2047" "0 \<le> f" "f < 2 ^ 52"
  shows "0 \<le> dval (Fin (field_int x f) (field_exp x))" "dval (Fin (field_int x f) (field_exp x)) < 2 powi (x - 1022)"
proof -
  show "0 \<le> dval (Fin (field_int x f) (field_exp x))" using x by (simp add: field_int_def)
  show "dval (Fin (field_int x f) (field_exp x)) < 2 powi (x - 1022)"
  proof (cases "x = 0")
    case True
    have "real_of_int f < of_int (2 ^ 52)" unfolding of_int_less_iff using x by simp
    then have "of_int f * 2 powi - 1074 < (2 ^ 52 * 2 powi - 1074 :: real)" by (intro mult_strict_right_mono) simp_all
    also have "\<dots> = 2 powi - 1022" using powi_add [of 52 "- 1074"] by simp
    finally show ?thesis using True by (simp only: dval.simps field_int_def field_exp_def if_True diff_0 simp_thms)
  next
    case False
    have "real_of_int (f + 2 ^ 52) < of_int (2 ^ 53)" unfolding of_int_less_iff using x by simp
    then have "of_int (f + 2 ^ 52) * 2 powi (x - 1075) < (2 ^ 53 * 2 powi (x - 1075) :: real)" by (intro mult_strict_right_mono) simp_all
    also have "\<dots> = 2 powi (x - 1022)" using powi_add [of 53 "x - 1075"] by simp
    finally show ?thesis using False by (simp only: dval.simps field_int_def field_exp_def if_False)
  qed
qed

definition moderate :: "double \<Rightarrow> bool" where
  "moderate y \<longleftrightarrow> finite_double y \<and> \<bar>dval y\<bar> \<le> 1000000000"

lemma moderate_dneg [simp]: "moderate (dneg y) = moderate y"
  by (simp add: moderate_def dneg_val)

lemma moderate_fin:
  assumes "moderate y"
  obtains m e where "y = Fin m e" "\<not> dlt PRINTF_MAX_FLOAT (Fin m e)" "\<not> dlt (Fin m e) (dneg PRINTF_MAX_FLOAT)"
proof -
  obtain m e where y: "y = Fin m e" using assms by (auto simp: moderate_def elim: finite_cases)
  then have "at_most m e (10 ^ 9)" "at_most (- m) e (10 ^ 9)"
    using assms unfolding at_most_real moderate_def by (simp_all add: abs_le_iff)
  from moderate_at_most(1,2) [OF this] show thesis using that y by blast
qed

text \<open>The quotient by the power of ten, and what is not divided.\<close>

lemma scaled_quotient:
  assumes "finite_double u" "0 \<le> dval u" "dval u < 2 powi (E + 1)"
    "F = Inf False \<or> finite_double F \<and> 2 powi E \<le> 3200 * dval F"
  shows "moderate (ddiv u F)"
proof (cases "F = Inf False")
  case True
  obtain m e where "u = Fin m e" using assms(1) by (rule finite_cases)
  then show ?thesis using True by (simp add: moderate_def)
next
  case False
  then have F: "finite_double F" "2 powi E \<le> 3200 * dval F" using assms(4) by simp_all
  have p: "0 < (2 powi E :: real)" "(2::real) powi (E + 1) = 2 * 2 powi E" using powi_add [of 1 E] by (simp_all add: add.commute)
  then have f: "0 < dval F" using F(2) by linarith
  have "dval u \<le> 6400 * dval F" using assms(3) F(2) p by linarith
  then have "0 \<le> dval u / dval F" "dval u / dval F \<le> 6400" using f assms(2) by (simp_all add: pos_divide_le_eq)
  then have q: "\<bar>dval u / dval F\<bar> \<le> 6400" by simp
  then have "near (ddiv u F) (dval u / dval F)" using ddiv_near [OF assms(1) F(1) f] by linarith
  then show ?thesis using q unfolding near_def moderate_def by (intro conjI) (simp, linarith)
qed

lemma small_exponent:
  assumes "0 \<le> dval u" "dval u < 2 powi (E + 1)" "0.30103 * of_int E - 1.97 < (0 :: real)" "finite_double u"
  shows "moderate u"
proof -
  have "real_of_int E < of_int 7" using assms(3) by simp
  then have "E + 1 \<le> 7" unfolding of_int_less_iff by simp
  then have "(2::real) powi (E + 1) \<le> 2 powi 7" by (rule powi_le)
  then show ?thesis using assms by (simp add: moderate_def)
qed

section \<open>Precision\<close>

lemma has_rest:
  "has (flags AND NOT FLAGS_ADAPT_EXP) FLAGS_PRECISION = has flags FLAGS_PRECISION"
  "has (flags OR FLAGS_PRECISION) FLAGS_PRECISION"
  "has (flags OR FLAGS_ADAPT_EXP) FLAGS_PRECISION = has flags FLAGS_PRECISION"
  "has (flags OR FLAGS_UPPERCASE) FLAGS_PRECISION = has flags FLAGS_PRECISION"
proof -
  have "\<not> bit FLAGS_ADAPT_EXP 10" "bit FLAGS_PRECISION 10" "\<not> bit FLAGS_UPPERCASE 10" by code_simp+
  then show
    "has (flags AND NOT FLAGS_ADAPT_EXP) FLAGS_PRECISION = has flags FLAGS_PRECISION"
    "has (flags OR FLAGS_PRECISION) FLAGS_PRECISION"
    "has (flags OR FLAGS_ADAPT_EXP) FLAGS_PRECISION = has flags FLAGS_PRECISION"
    "has (flags OR FLAGS_UPPERCASE) FLAGS_PRECISION = has flags FLAGS_PRECISION"
    by (simp_all add: has_flags bit_and_iff bit_or_iff bit_not_iff)
qed

lemma adapted_prec:
  assumes "P \<le> 36" "- 6 \<le> sint n" "sint n \<le> 308" "n <s (P :: u32)"
  shows "P - n - 1 \<le> 41"
proof -
  have P: "uint P \<le> 36" using assms(1) by (simp add: word_le_def)
  then have s: "sint P = uint P" by (simp add: sint_uint_32)
  have "sint n < sint P" using assms(4) by (simp add: word_sless_alt)
  then have d: "sint (P - n) = sint P - sint n" "sint (P - n - 1) = sint P - sint n - 1"
    using assms(2) P by (simp_all add: s sint_diff_32)
  then have "0 \<le> sint (P - n - 1)" "sint (P - n - 1) \<le> 41" using P assms(2) \<open>sint n < sint P\<close> by (simp_all add: s)
  then have "uint (P - n - 1) \<le> 41" using uint_lt_32 [of "P - n - 1"]
    by (simp add: sint_uint_32 del: uint_lt_32 split: if_splits)
  then show ?thesis by (simp add: word_le_def)
qed

lemma from_tenth_milli:
  assumes "dge (Fin m e) (dlit 1 10000)" "dval (Fin m e) < 2 powi (E + 1)"
  shows "- 14 \<le> E"
proof (rule ccontr)
  assume "\<not> - 14 \<le> E"
  then have "(2::real) powi (E + 1) \<le> 2 powi - 14" by (intro powi_le) simp
  moreover have "dval (dlit 1 10000) \<le> dval (Fin m e)"
    using assms(1) unfolding dge_def literal_fins dlt_real by simp
  moreover have "(2::real) powi - 14 < dval (dlit 1 10000)"
    unfolding literal_fins dval.simps powi_minus by simp
  ultimately show False using assms(2) by linarith
qed

lemma adapt_cases:
  assumes "adapt_exponent u n P flags = (prec', flags', minwidth, expval)"
  obtains "expval = n" "flags' = flags" "prec' \<le> P"
  | "expval = 0" "has flags' FLAGS_PRECISION" "prec' = (if n <s P then P - n - 1 else 0)" "dge u (dlit 1 10000)" "dlt u (dlit 1000000 1)"
proof (cases "has flags FLAGS_ADAPT_EXP \<and> dge u (dlit 1 10000) \<and> dlt u (dlit 1000000 1)")
  case True
  then show thesis using assms that(2) by (auto simp: adapt_exponent_def has_rest)
next
  case False
  have "0 < P \<Longrightarrow> P - 1 \<le> P" by (simp add: word_le_nat_alt unat_minus_one word_gt_0)
  then show thesis using assms False that(1) by (auto simp: adapt_exponent_def split: if_splits)
qed

section \<open>The functions return\<close>

text \<open>Whatever the finite encoding, \<open>_etoa\<close> hands \<open>_ftoa\<close> a value of magnitude at most \<open>1e9\<close> and a precision it can use.\<close>

lemma scale_value_moderate:
  assumes w: "finite_double (bits_d w)" and p: "\<not> has flags FLAGS_PRECISION \<or> prec \<le> 36"
  obtains y prec' fwidth flags' minwidth expval where
    "scale_value (bits_d w) prec width flags = Some (y, prec', fwidth, flags', minwidth, expval)"
    "moderate y" "\<not> has flags' FLAGS_PRECISION \<or> prec' \<le> 41"
proof -
  define neg where "neg = dlt (bits_d w) (dint 0)"
  obtain x f where u: "(if neg then dneg (bits_d w) else bits_d w) = Fin (field_int x f) (field_exp x)"
    and x: "0 \<le> x" "x < 2047" "0 \<le> f" "f < 2 ^ 52"
  proof (cases rule: bits_d_cases [of w])
    case (3 x f)
    then have "0 \<le> field_int x f" by (simp add: field_int_def)
    then show thesis using 3 that [of x f] by (simp add: neg_def dlt_dint_0 del: dint_values)
  next
    case (4 x f)
    then have "0 \<le> field_int x f" by (simp add: field_int_def)
    then show thesis using 4 that [of x f]
      by (cases "field_int x f = 0") (simp_all add: neg_def dlt_dint_0 del: dint_values)
  qed (use w in simp_all)
  define u where "u = Fin (field_int x f) (field_exp x)"
  define E where "E = x - 1023"
  have uv: "finite_double u" "0 \<le> dval u" "dval u < 2 powi (E + 1)"
    using fields_value [OF x] by (simp_all add: u_def E_def del: dval.simps)
  obtain n F where d: "decimal_exponent u = Some (n, F)" "\<bar>sint n\<bar> \<le> 308"
    "0.30103 * of_int E - 1.97 < real_of_int (sint n)"
    "F = Inf False \<or> finite_double F \<and> 2 powi E \<le> 3200 * dval F"
    using decimal_exponent_close [OF x E_def] unfolding u_def by metis
  define P where "P = (if \<not> has flags FLAGS_PRECISION then PRINTF_DEFAULT_FLOAT_PRECISION else prec)"
  have P: "P \<le> 36" using p by (auto simp: P_def PRINTF_DEFAULT_FLOAT_PRECISION_def)
  obtain prec' flags' minwidth expval where a: "adapt_exponent u n P flags = (prec', flags', minwidth, expval)"
    by (metis surj_pair)
  define y where "y = (if expval \<noteq> 0 then ddiv u F else u)"
  have s: "scale_value (bits_d w) prec width flags =
      Some (if neg then dneg y else y, prec', float_width width minwidth flags', flags', minwidth, expval)"
    unfolding scale_value_def Let_def neg_def [symmetric] u u_def [symmetric] P_def [symmetric] d(1) Option.bind.bind_lunit
      prod.case a y_def ..
  have "moderate y \<and> (\<not> has flags' FLAGS_PRECISION \<or> prec' \<le> 41)"
  proof (cases rule: adapt_cases [OF a])
    case 1
    have "moderate u" if "n = 0" using small_exponent [OF uv(2,3) _ uv(1)] d(3) that by simp
    then have "moderate y" using scaled_quotient [OF uv d(4)] 1(1) by (simp add: y_def)
    moreover have "P \<le> 41" using P by (rule order_trans) simp
    then have "prec' \<le> 41" using 1(3) by (rule order_trans [rotated])
    ultimately show ?thesis by simp
  next
    case 2
    have "dlit 1000000 1 = Fin 8589934592000000 (- 33)" by code_simp
    then have "dval u < of_int 8589934592000000 * 2 powi - 33" using 2(5) unfolding u_def dval.simps by (simp only: dlt_real)
    then have "dval u < 1000000" unfolding powi_minus by simp
    then have m: "moderate y" using uv 2(1) by (simp add: y_def moderate_def)
    have "- 14 \<le> E" using 2(4) uv(3) unfolding u_def by (rule from_tenth_milli)
    then have "real_of_int (- 14) \<le> of_int E" by (simp only: of_int_le_iff)
    then have "real_of_int (- 7) < of_int (sint n)" using d(3) by simp
    then have "- 6 \<le> sint n" unfolding of_int_less_iff by simp
    then have "prec' \<le> 41" using adapted_prec [OF P, of n] d(2) by (simp add: 2(3))
    then show ?thesis using m by simp
  qed
  then show thesis using that [OF s] by simp
qed

lemma ftoa_returns_moderate:
  assumes "moderate y" "\<not> has flags FLAGS_PRECISION \<or> prec \<le> 41"
  obtains r where "ftoa out buffer idx maxlen y prec width flags st = Some r"
proof -
  obtain m e where y: "y = Fin m e" "\<not> dlt PRINTF_MAX_FLOAT (Fin m e)" "\<not> dlt (Fin m e) (dneg PRINTF_MAX_FLOAT)"
    using assms(1) by (rule moderate_fin)
  obtain buf w where "ftoa_chars (Fin m e) prec width flags = Some (buf, w)"
    using ftoa_chars_fits [OF y(2,3) assms(2)] by metis
  then show thesis using that by (simp add: y ftoa_moderate [OF y(2,3)])
qed

lemma etoa_returns_finite:
  assumes "finite_double (bits_d w)" "\<not> has flags FLAGS_PRECISION \<or> prec \<le> 36"
    and b: "\<not> dlt DBL_MAX (bits_d w)" "\<not> dlt (bits_d w) (dneg DBL_MAX)"
  obtains r where "etoa out buffer idx maxlen (bits_d w) prec width flags st = Some r"
proof -
  obtain m e where w: "bits_d w = Fin m e" using assms(1) by (rule finite_cases)
  obtain y prec' fwidth flags' minwidth expval where s:
    "scale_value (bits_d w) prec width flags = Some (y, prec', fwidth, flags', minwidth, expval)"
    "moderate y" "\<not> has flags' FLAGS_PRECISION \<or> prec' \<le> 41"
    using assms(1,2) by (rule scale_value_moderate)
  obtain i s' where "ftoa out buffer idx maxlen y prec' fwidth (flags' AND NOT FLAGS_ADAPT_EXP) st = Some (i, s')"
    using ftoa_returns_moderate [OF s(2)] s(3) unfolding has_rest(1) [of flags', symmetric] by (metis surj_pair)
  then show thesis using that s(1) etoa_finite [OF b [unfolded w]] by (simp add: w)
qed

lemma float_cases:
  obtains "x = NaN" | s where "x = Inf s" | "finite_double x"
  by (cases x) simp_all

lemma ftoa_returns:
  assumes "\<not> has flags FLAGS_PRECISION \<or> prec \<le> 36"
  shows "\<exists>r. ftoa out buffer idx maxlen (bits_d w) prec width flags st = Some r"
proof (cases "bits_d w" rule: float_cases)
  case (2 s)
  then show ?thesis by (cases s) (simp_all add: ftoa_special del: split_paired_Ex)
next
  case 3
  then obtain m e where w: "bits_d w = Fin m e" by (rule finite_cases)
  show ?thesis
  proof (cases "dlt DBL_MAX (Fin m e) \<or> dlt (Fin m e) (dneg DBL_MAX)")
    case True
    then show ?thesis by (auto simp: w ftoa_simps simp del: dlt.simps dneg.simps split_paired_Ex)
  next
    case False
    then obtain r where r: "etoa out buffer idx maxlen (Fin m e) prec width flags st = Some r"
      using etoa_returns_finite [OF 3 assms] unfolding w by metis
    show ?thesis
    proof (cases "dlt PRINTF_MAX_FLOAT (Fin m e) \<or> dlt (Fin m e) (dneg PRINTF_MAX_FLOAT)")
      case True
      then show ?thesis using False r by (simp add: w ftoa_simps etoa_def del: dlt.simps dneg.simps split_paired_Ex)
    next
      case moderate: False
      have "prec \<le> 36 \<Longrightarrow> prec \<le> 41" by (simp add: word_le_nat_alt)
      then obtain buf v where "ftoa_chars (Fin m e) prec width flags = Some (buf, v)"
        using ftoa_chars_fits moderate assms by metis
      then show ?thesis using moderate unfolding w by (simp add: ftoa_moderate del: split_paired_Ex)
    qed
  qed
qed (simp add: ftoa_special del: split_paired_Ex)

lemma etoa_returns:
  assumes "\<not> has flags FLAGS_PRECISION \<or> prec \<le> 36"
  shows "\<exists>r. etoa out buffer idx maxlen (bits_d w) prec width flags st = Some r"
proof (cases "bits_d w = NaN \<or> dlt DBL_MAX (bits_d w) \<or> dlt (bits_d w) (dneg DBL_MAX)")
  case True
  then have "etoa out buffer idx maxlen (bits_d w) prec width flags st = ftoa out buffer idx maxlen (bits_d w) prec width flags st"
    unfolding etoa_def ftoa_def by (subst float_conv.simps) (simp del: dlt.simps dneg.simps)
  then show ?thesis using ftoa_returns [OF assms] by simp
next
  case False
  then have "finite_double (bits_d w)" by (cases "bits_d w") (auto simp: DBL_MAX_def)
  then show ?thesis using False etoa_returns_finite [OF _ assms] by metis
qed

text \<open>C33: every conversion of a \<open>double\<close> returns, for all the \<open>2 ^ 64\<close> encodings and every precision up to 36: the calls
  between \<open>_ftoa\<close>, which hands a value above \<open>1e9\<close> to \<open>_etoa\<close>, and \<open>_etoa\<close>, which hands it back divided by a power
  of ten, come to an end, no step on the way converts a value to an integer type that cannot hold it or reads behind
  \<open>pow10\<close>, and the argument is taken from the list.\<close>

theorem float_conversions_return:
  assumes "c \<in> chr ` {CHR ''f'', CHR ''F'', CHR ''e'', CHR ''E'', CHR ''g'', CHR ''G''}"
    and "\<not> has flags FLAGS_PRECISION \<or> prec \<le> 36"
  shows "\<exists>idx' st'. out_float out buffer maxlen c flags width prec idx (W64 w # va) st = Some (idx', va, st')"
proof -
  have h: "has (flags OR FLAGS_UPPERCASE) FLAGS_PRECISION = has flags FLAGS_PRECISION"
    "has (flags OR FLAGS_ADAPT_EXP) FLAGS_PRECISION = has flags FLAGS_PRECISION" by (rule has_rest)+
  have h3: "has ((flags OR FLAGS_ADAPT_EXP) OR FLAGS_UPPERCASE) FLAGS_PRECISION = has flags FLAGS_PRECISION"
    unfolding has_rest(4) by (rule has_rest(3))
  have f: "\<exists>i s. ftoa out buffer idx maxlen (bits_d w) prec width F st = Some (i, s)" if "has F FLAGS_PRECISION = has flags FLAGS_PRECISION" for F
    using ftoa_returns [of F prec] assms(2) that by (metis surj_pair)
  have e: "\<exists>i s. etoa out buffer idx maxlen (bits_d w) prec width F st = Some (i, s)" if "has F FLAGS_PRECISION = has flags FLAGS_PRECISION" for F
    using etoa_returns [of F prec] assms(2) that by (metis surj_pair)
  from assms(1) consider "c = 102" | "c = 70" | "c = 101" | "c = 69" | "c = 103" | "c = 71" by (auto simp: chr_def)
  then show ?thesis
  proof cases
    case 1
    with f [OF refl] show ?thesis by (auto simp: out_float_def chr_def)
  next
    case 2
    with f [OF h(1)] show ?thesis by (auto simp: out_float_def chr_def)
  next
    case 3
    with e [OF refl] show ?thesis by (auto simp: out_float_def chr_def)
  next
    case 4
    with e [OF h(1)] show ?thesis by (auto simp: out_float_def chr_def)
  next
    case 5
    with e [OF h(2)] show ?thesis by (auto simp: out_float_def chr_def)
  next
    case 6
    with e [OF h3] show ?thesis by (auto simp: out_float_def chr_def)
  qed
qed

text \<open>\<open>printf("%f", DBL_MAX)\<close>, the longest way through both functions.\<close>

theorem float_conversions_return_witness:
  "dlt PRINTF_MAX_FLOAT (bits_d 0x7FEFFFFFFFFFFFFF) \<and>
   (\<exists>idx' st'. out_float out_null 256 9 (chr CHR ''f'') 0 0 0 0 [W64 0x7FEFFFFFFFFFFFFF, W32 7] ((\<lambda>_. 0), run_dev []) =
     Some (idx', [W32 7], st'))"
proof
  show "dlt PRINTF_MAX_FLOAT (bits_d 0x7FEFFFFFFFFFFFFF)" by code_simp
  have "\<not> has 0 FLAGS_PRECISION" by (simp add: has_def)
  then show "\<exists>idx' st'. out_float out_null 256 9 (chr CHR ''f'') 0 0 0 0 [W64 0x7FEFFFFFFFFFFFFF, W32 7] ((\<lambda>_. 0), run_dev []) =
      Some (idx', [W32 7], st')"
    by (intro float_conversions_return) simp_all
qed

end
