(* ===== verification/PageTable.thy ===== *)
theory PageTable
  imports PageSpec Memory "HOL-Library.Monad_Syntax"
begin

text \<open>
  The 64-bit page code, \<^verbatim>\<open>gcc/page.c\<close> and \<^verbatim>\<open>gcc/page.h\<close>: a page allocator over an array of flag
  bytes, as in the 32-bit kernel but with \<open>dealloc\<close>, and the Sv39 page tables built from its pages.
  The state is the memory with the three globals, and the messages printed, oldest first (\<open>printf\<close> is
  not defined in this program: the two calls are kept as data). \<open>PAGE_SIZE\<close> comes from a header that
  is not in the repository: it is a parameter. Undefined behaviour (\<open>vpn[-1]\<close>) is \<open>None\<close>.
\<close>

datatype message = NoBits | InvalidAt u64

record pages64 =
  HEAP_START :: u64
  HEAP_SIZE :: u64
  ALLOC_START :: u64
  mem :: mem64
  printed :: "message list"

section \<open>Page flags\<close>

definition kheap :: "u64 \<Rightarrow> u64 \<Rightarrow> pages64 \<Rightarrow> pages64" where
  "kheap a0 a1 s = s\<lparr>HEAP_START := a0, HEAP_SIZE := a1\<rparr>"

definition new_page :: u8 where
  "new_page = 0"

definition page_is_last :: "u8 \<Rightarrow> u8" where
  "page_is_last p = p AND Last"

definition page_is_taken :: "u8 \<Rightarrow> u8" where
  "page_is_taken p = p AND Taken"

definition page_is_free :: "u8 \<Rightarrow> u8" where
  "page_is_free p = (if page_is_taken p = 0 then 1 else 0)"

definition page_clear :: "u64 \<Rightarrow> mem64 \<Rightarrow> mem64" where
  "page_clear p m = m(p := Empty)"

definition page_set_flag :: "u64 \<Rightarrow> u8 \<Rightarrow> mem64 \<Rightarrow> mem64" where
  "page_set_flag p flag m = m(p := m p OR flag)"

text \<open>\<open>p->flags &= !flag\<close>: the logical negation of the flag.\<close>

definition page_clear_flag :: "u64 \<Rightarrow> u8 \<Rightarrow> mem64 \<Rightarrow> mem64" where
  "page_clear_flag p flag m = m(p := m p AND (if flag = 0 then 1 else 0))"

section \<open>The allocator\<close>

function clear_pages :: "u64 \<Rightarrow> u64 \<Rightarrow> u64 \<Rightarrow> mem64 \<Rightarrow> mem64" where
  "clear_pages ptr i num_pages m =
     (if i < num_pages then clear_pages (ptr + 1) (i + 1) num_pages (page_clear ptr m) else m)"
  by pat_completeness auto
termination
  by (relation "measure (\<lambda>(ptr, i, n, m). unat n - unat i)") (auto intro: unat_plus_1)

declare clear_pages.simps [simp del]

definition page_init :: "u64 \<Rightarrow> pages64 \<Rightarrow> pages64" where
  "page_init PAGE_SIZE s =
     (let num_pages = HEAP_SIZE s div PAGE_SIZE;
          ptr = HEAP_START s
      in s\<lparr>mem := clear_pages ptr 0 num_pages (mem s),
           ALLOC_START := (HEAP_START s + num_pages * 1 + PAGE_SIZE - 1) AND NOT (PAGE_SIZE - 1)\<rparr>)"

text \<open>The loop over \<open>j\<close>: no page of the run is taken.\<close>

function run_untaken :: "mem64 \<Rightarrow> u64 \<Rightarrow> u64 \<Rightarrow> u64 \<Rightarrow> bool" where
  "run_untaken m ptr j stop =
     (if j < stop
      then if page_is_taken (m (ptr + j)) \<noteq> 0 then False else run_untaken m ptr (j + 1) stop
      else True)"
  by pat_completeness auto
termination
  by (relation "measure (\<lambda>(m, ptr, j, stop). unat stop - unat j)") (auto intro: unat_plus_1)

declare run_untaken.simps [simp del]

text \<open>The loop over \<open>k\<close> gives back where it stopped.\<close>

function set_taken :: "u64 \<Rightarrow> u64 \<Rightarrow> u64 \<Rightarrow> mem64 \<Rightarrow> u64 \<times> mem64" where
  "set_taken ptr k stop m =
     (if k < stop then set_taken ptr (k + 1) stop (page_set_flag (ptr + k) Taken m) else (k, m))"
  by pat_completeness auto
termination
  by (relation "measure (\<lambda>(ptr, k, stop, m). unat stop - unat k)") (auto intro: unat_plus_1)

declare set_taken.simps [simp del]

function alloc_scan :: "u64 \<Rightarrow> u64 \<Rightarrow> u64 \<Rightarrow> u64 \<Rightarrow> pages64 \<Rightarrow> u64 \<times> pages64" where
  "alloc_scan PAGE_SIZE pages num_pages i s =
     (if i < num_pages - pages
      then let ptr = HEAP_START s;
               found = (page_is_free (mem s (ptr + i)) \<noteq> 0 \<and> run_untaken (mem s) ptr i (i + pages))
           in if found
              then let (k, m) = set_taken ptr i (i + pages - 1) (mem s);
                       m = page_set_flag (ptr + k) Taken m;
                       m = page_set_flag (ptr + k) Last m
                   in (ALLOC_START s + PAGE_SIZE * i, s\<lparr>mem := m\<rparr>)
              else alloc_scan PAGE_SIZE pages num_pages (i + 1) s
      else (0, s))"
  by pat_completeness auto
termination
  by (relation "measure (\<lambda>(ps, p, n, i, s). unat (n - p) - unat i)") (auto intro: unat_plus_1)

declare alloc_scan.simps [simp del]

definition alloc :: "u64 \<Rightarrow> u64 \<Rightarrow> pages64 \<Rightarrow> u64 \<times> pages64" where
  "alloc PAGE_SIZE pages s = alloc_scan PAGE_SIZE pages (HEAP_SIZE s div PAGE_SIZE) 0 s"

function zero_dwords :: "u64 \<Rightarrow> u64 \<Rightarrow> u64 \<Rightarrow> mem64 \<Rightarrow> mem64" where
  "zero_dwords bigptr i sz m =
     (if i < sz then zero_dwords bigptr (i + 1) sz (store64 m (bigptr + 8 * i) 0) else m)"
  by pat_completeness auto
termination
  by (relation "measure (\<lambda>(p, i, sz, m). unat sz - unat i)") (auto intro: unat_plus_1)

declare zero_dwords.simps [simp del]

definition zalloc :: "u64 \<Rightarrow> u64 \<Rightarrow> pages64 \<Rightarrow> u64 \<times> pages64" where
  "zalloc PAGE_SIZE pages s =
     (let (ptr, s) = alloc PAGE_SIZE pages s;
          sz = (PAGE_SIZE * pages) div 8
      in (ptr, s\<lparr>mem := zero_dwords ptr 0 sz (mem s)\<rparr>))"

partial_function (option) dealloc_loop :: "u64 \<Rightarrow> mem64 \<Rightarrow> (u64 \<times> mem64) option" where
  "dealloc_loop p m =
     (if page_is_taken (m p) \<noteq> 0 \<and> \<not> page_is_last (m p) \<noteq> 0
      then dealloc_loop (p + 1) (page_clear p m)
      else Some (p, m))"

definition dealloc :: "u64 \<Rightarrow> u64 \<Rightarrow> pages64 \<Rightarrow> pages64 option" where
  "dealloc PAGE_SIZE ptr s = do {
     let base = HEAP_START s + (ptr - ALLOC_START s) div PAGE_SIZE;
     (p, m) \<leftarrow> dealloc_loop base (mem s);
     Some (s\<lparr>mem := page_clear p m\<rparr>) }"

section \<open>Page tables\<close>

definition Valid :: u64 where "Valid = push_bit 0 1"
definition Read :: u64 where "Read = push_bit 1 1"
definition Write :: u64 where "Write = push_bit 2 1"
definition Execute :: u64 where "Execute = push_bit 3 1"
definition User :: u64 where "User = push_bit 4 1"
definition Global :: u64 where "Global = push_bit 5 1"
definition Access :: u64 where "Access = push_bit 6 1"
definition Dirty :: u64 where "Dirty = push_bit 7 1"
definition ReadWrite :: u64 where "ReadWrite = push_bit 1 1 OR push_bit 2 1"
definition ReadExecute :: u64 where "ReadExecute = push_bit 1 1 OR push_bit 3 1"
definition ReadWriteExecute :: u64 where "ReadWriteExecute = push_bit 1 1 OR push_bit 2 1 OR push_bit 3 1"
definition UserReadWrite :: u64 where "UserReadWrite = push_bit 1 1 OR push_bit 2 1 OR push_bit 4 1"
definition UserReadExecute :: u64 where "UserReadExecute = push_bit 1 1 OR push_bit 3 1 OR push_bit 4 1"
definition UserReadWriteExecute :: u64 where
  "UserReadWriteExecute = push_bit 1 1 OR push_bit 2 1 OR push_bit 3 1 OR push_bit 4 1"

text \<open>The operations on an entry, by its address.\<close>

definition Entry_set :: "u64 \<Rightarrow> u64 \<Rightarrow> pages64 \<Rightarrow> pages64" where
  "Entry_set v val s = s\<lparr>mem := store64 (mem s) v val\<rparr>"

definition Entry_is_valid :: "u64 \<Rightarrow> pages64 \<Rightarrow> u8" where
  "Entry_is_valid v s = ucast (load64 (mem s) v AND Valid)"

definition Entry_is_invalid :: "u64 \<Rightarrow> pages64 \<Rightarrow> u8" where
  "Entry_is_invalid v s = (if Entry_is_valid v s = 0 then 1 else 0)"

definition Entry_is_leaf :: "u64 \<Rightarrow> pages64 \<Rightarrow> u8" where
  "Entry_is_leaf v s = (if load64 (mem s) v AND 0xe \<noteq> 0 then 1 else 0)"

text \<open>\<open>~Entry_is_leaf(self)\<close>: the bitwise negation.\<close>

definition Entry_is_branch :: "u64 \<Rightarrow> pages64 \<Rightarrow> u8" where
  "Entry_is_branch v s = NOT (Entry_is_leaf v s)"

text \<open>The three nine-bit indices of an address, and \<open>(v->entry & ~(0x3ff)) << 2\<close>.\<close>

definition vpn :: "u64 \<Rightarrow> nat \<Rightarrow> u64" where
  "vpn vaddr i = drop_bit (12 + 9 * i) vaddr AND 0x1ff"

definition next_table :: "u64 \<Rightarrow> u64" where
  "next_table e = push_bit 2 (e AND NOT 0x3ff)"

text \<open>\<open>&(table->entries[i])\<close>\<close>

definition entry_at :: "u64 \<Rightarrow> u64 \<Rightarrow> u64" where
  "entry_at table i = table + 8 * i"

text \<open>The loop of \<open>map\<close>: an entry that is not valid gets a new table. Stepping below level 0 reads
  \<open>vpn[-1]\<close>.\<close>

fun map_walk :: "u64 \<Rightarrow> u64 \<Rightarrow> u64 \<Rightarrow> nat \<Rightarrow> u64 \<Rightarrow> pages64 \<Rightarrow> (u64 \<times> pages64) option" where
  "map_walk PAGE_SIZE vaddr level 0 v s = (if level = 0 then Some (v, s) else None)"
| "map_walk PAGE_SIZE vaddr level (Suc i) v s =
     (if of_nat (Suc i) = level then Some (v, s)
      else let s = (if Entry_is_invalid v s \<noteq> 0
                 then let (p, s) = zalloc PAGE_SIZE 1 s in Entry_set v (drop_bit 2 p OR Valid) s
                 else s);
               nextTable = next_table (load64 (mem s) v)
           in map_walk PAGE_SIZE vaddr level i (entry_at nextTable (vpn vaddr i)) s)"

definition map_page :: "u64 \<Rightarrow> u64 \<Rightarrow> u64 \<Rightarrow> u64 \<Rightarrow> u64 \<Rightarrow> u64 \<Rightarrow> pages64 \<Rightarrow> pages64 option" where
  "map_page PAGE_SIZE root vaddr paddr bits level s = do {
     let s = (if bits AND 0xe = 0 then s\<lparr>printed := printed s @ [NoBits]\<rparr> else s);
     (v, s) \<leftarrow> map_walk PAGE_SIZE vaddr level 2 (entry_at root (vpn vaddr 2)) s;
     let e = push_bit 28 (vpn paddr 2) OR push_bit 19 (vpn paddr 1) OR push_bit 10 (vpn paddr 0) OR
       bits OR Valid OR Dirty OR Access;
     Some (Entry_set v e s) }"

fun virt_walk :: "u64 \<Rightarrow> nat \<Rightarrow> u64 \<Rightarrow> pages64 \<Rightarrow> (u64 \<times> pages64) option" where
  "virt_walk vaddr i v s =
     (if Entry_is_invalid v s \<noteq> 0 then Some (0, s\<lparr>printed := printed s @ [InvalidAt (of_nat i)]\<rparr>)
      else if Entry_is_leaf v s \<noteq> 0
      then let off_mask = push_bit (12 + i * 9) 1 - 1;
               vaddr_pgoff = vaddr AND off_mask;
               addr = push_bit 2 (load64 (mem s) v) AND NOT off_mask
           in Some (addr OR vaddr_pgoff, s)
      else case i of 0 \<Rightarrow> None
        | Suc j \<Rightarrow> virt_walk vaddr j (entry_at (next_table (load64 (mem s) v)) (vpn vaddr j)) s)"

declare virt_walk.simps [simp del]

definition virt_to_phys :: "u64 \<Rightarrow> u64 \<Rightarrow> pages64 \<Rightarrow> (u64 \<times> pages64) option" where
  "virt_to_phys root vaddr s = virt_walk vaddr 2 (entry_at root (vpn vaddr 2)) s"

text \<open>The two loops of \<open>unmap\<close>, over the indices that are left.\<close>

fun unmap_inner :: "u64 \<Rightarrow> u64 \<Rightarrow> nat list \<Rightarrow> pages64 \<Rightarrow> pages64 option" where
  "unmap_inner PAGE_SIZE table [] s = Some s"
| "unmap_inner PAGE_SIZE table (j # js) s =
     (let entry_lvl_1 = entry_at table (of_nat j)
      in if Entry_is_invalid entry_lvl_1 s \<noteq> 0 \<and> Entry_is_branch entry_lvl_1 s \<noteq> 0
         then do {
           s \<leftarrow> dealloc PAGE_SIZE (next_table (load64 (mem s) entry_lvl_1)) s;
           unmap_inner PAGE_SIZE table js s }
         else unmap_inner PAGE_SIZE table js s)"

fun unmap_outer :: "u64 \<Rightarrow> u64 \<Rightarrow> nat list \<Rightarrow> pages64 \<Rightarrow> pages64 option" where
  "unmap_outer PAGE_SIZE root [] s = Some s"
| "unmap_outer PAGE_SIZE root (i # is) s =
     (let entry_lvl_2 = entry_at root (of_nat i)
      in if Entry_is_invalid entry_lvl_2 s \<noteq> 0 \<and> Entry_is_branch entry_lvl_2 s \<noteq> 0
         then do {
           let table_lvl_1 = next_table (load64 (mem s) entry_lvl_2);
           s \<leftarrow> unmap_inner PAGE_SIZE table_lvl_1 [0..<512] s;
           s \<leftarrow> dealloc PAGE_SIZE table_lvl_1 s;
           unmap_outer PAGE_SIZE root is s }
         else unmap_outer PAGE_SIZE root is s)"

definition unmap :: "u64 \<Rightarrow> u64 \<Rightarrow> pages64 \<Rightarrow> pages64 option" where
  "unmap PAGE_SIZE root s = unmap_outer PAGE_SIZE root [0..<512] s"

section \<open>The flags in memory\<close>

definition num_pages :: "u64 \<Rightarrow> pages64 \<Rightarrow> nat" where
  "num_pages PAGE_SIZE s = unat (HEAP_SIZE s div PAGE_SIZE)"

definition flags :: "u64 \<Rightarrow> pages64 \<Rightarrow> u8 list" where
  "flags PAGE_SIZE s = map (\<lambda>i. mem s (HEAP_START s + of_nat i)) [0..<num_pages PAGE_SIZE s]"

definition page_at :: "u64 \<Rightarrow> pages64 \<Rightarrow> nat \<Rightarrow> u64" where
  "page_at PAGE_SIZE s k = ALLOC_START s + PAGE_SIZE * of_nat k"

text \<open>The flags the code leaves, and pages that neither start at the null pointer nor wrap around.\<close>

definition ok_pages :: "u64 \<Rightarrow> pages64 \<Rightarrow> bool" where
  "ok_pages PAGE_SIZE s \<longleftrightarrow> set (flags PAGE_SIZE s) \<subseteq> {Empty, Taken, Last OR Taken} \<and> 0 < PAGE_SIZE \<and>
     0 < ALLOC_START s \<and> unat (ALLOC_START s) + unat PAGE_SIZE * num_pages PAGE_SIZE s \<le> 2 ^ 64"

lemma unat_of_nat_64: "n < 2 ^ 64 \<Longrightarrow> unat (of_nat n :: 64 word) = n"
  by (simp add: unat_of_nat take_bit_nat_eq_self_iff)

lemma length_flags [simp]: "length (flags PS s) = num_pages PS s"
  by (simp add: flags_def)

lemma flags_nth: "i < num_pages PS s \<Longrightarrow> flags PS s ! i = mem s (HEAP_START s + of_nat i)"
  by (simp add: flags_def)

lemma num_pages_less64: "num_pages PS s < 2 ^ 64"
  using unsigned_less [of "HEAP_SIZE s div PS", where ?'a = nat] by (simp add: num_pages_def)

lemma of_nat_less_64: "i < 2 ^ 64 \<Longrightarrow> k < 2 ^ 64 \<Longrightarrow> (of_nat i :: u64) < of_nat k \<longleftrightarrow> i < k"
  by (simp add: word_less_nat_alt unat_of_nat_64)

lemma page_index64: "i < 2 ^ 64 \<Longrightarrow> k < 2 ^ 64 \<Longrightarrow> (p :: u64) + of_nat i = p + of_nat k \<longleftrightarrow> i = k"
  by (metis add_left_cancel unat_of_nat_64)

lemma index_range:
  assumes "i < 2 ^ 64" "b \<le> 2 ^ 64"
  shows "(\<exists>j. a \<le> j \<and> j < b \<and> (p :: u64) + of_nat i = p + of_nat j) \<longleftrightarrow> a \<le> i \<and> i < b"
proof
  assume "\<exists>j. a \<le> j \<and> j < b \<and> p + of_nat i = p + of_nat j"
  then obtain j where j: "a \<le> j" "j < b" "p + of_nat i = p + of_nat j" by blast
  then have "i = j" using page_index64 [of i j p] assms by linarith
  then show "a \<le> i \<and> i < b" using j by simp
qed blast

lemma num_pages_word64: "HEAP_SIZE s div PS = of_nat (num_pages PS s)"
  by (simp add: num_pages_def)

lemma flag_bits [simp]:
  "Empty AND Taken = 0" "Taken AND Taken \<noteq> 0" "(Last OR Taken) AND Taken \<noteq> 0"
  "Taken AND Last = 0" "(Last OR Taken) AND Last \<noteq> 0"
  "Taken \<noteq> 0" "Last \<noteq> 0" "Empty OR f = f" "Taken OR Last = Last OR Taken"
  by (simp_all add: Empty_def Taken_def Last_def)

lemma untaken_empty:
  "ok_pages PS s \<Longrightarrow> i < num_pages PS s \<Longrightarrow>
   page_is_taken (mem s (HEAP_START s + of_nat i)) = 0 \<longleftrightarrow> flags PS s ! i = Empty"
proof -
  assume ok: "ok_pages PS s" and i: "i < num_pages PS s"
  have "flags PS s ! i \<in> set (flags PS s)" using i by simp
  then have "flags PS s ! i \<in> {Empty, Taken, Last OR Taken}" using ok unfolding ok_pages_def by blast
  then show ?thesis using i by (auto simp: page_is_taken_def flags_nth Empty_def Taken_def Last_def)
qed

lemma run_untaken_eq:
  "a \<le> b \<Longrightarrow> b < 2 ^ 64 \<Longrightarrow>
   run_untaken m ptr (of_nat a) (of_nat b) \<longleftrightarrow>
     (\<forall>j. a \<le> j \<and> j < b \<longrightarrow> page_is_taken (m (ptr + of_nat j)) = 0)"
proof (induction "b - a" arbitrary: a)
  case 0
  then show ?case by (subst run_untaken.simps) auto
next
  case (Suc d)
  then have ab: "a < b" "d = b - Suc a" by simp_all
  then have "run_untaken m ptr (of_nat a) (of_nat b) \<longleftrightarrow>
      page_is_taken (m (ptr + of_nat a)) = 0 \<and> run_untaken m ptr (of_nat (Suc a)) (of_nat b)"
    using Suc.prems by (subst run_untaken.simps) (simp add: of_nat_less_64 add.commute)
  also have "\<dots> \<longleftrightarrow> page_is_taken (m (ptr + of_nat a)) = 0 \<and>
      (\<forall>j. Suc a \<le> j \<and> j < b \<longrightarrow> page_is_taken (m (ptr + of_nat j)) = 0)"
    using Suc.hyps(1) [OF ab(2)] ab Suc.prems by simp
  also have "\<dots> \<longleftrightarrow> (\<forall>j. a \<le> j \<and> j < b \<longrightarrow> page_is_taken (m (ptr + of_nat j)) = 0)"
    using ab(1) by (auto simp: Suc_le_eq) (metis le_neq_implies_less)
  finally show ?case .
qed

lemma set_taken_eq:
  "a \<le> b \<Longrightarrow> b < 2 ^ 64 \<Longrightarrow>
   set_taken ptr (of_nat a) (of_nat b) m =
     (of_nat b, \<lambda>x. if \<exists>j. a \<le> j \<and> j < b \<and> x = ptr + of_nat j then m x OR Taken else m x)"
proof (induction "b - a" arbitrary: a m)
  case 0
  then show ?case by (subst set_taken.simps) (auto simp: fun_eq_iff)
next
  case (Suc d)
  then have ab: "a < b" "d = b - Suc a" by simp_all
  have n: "ptr + of_nat a \<noteq> ptr + of_nat j" if "Suc a \<le> j" "j < b" for j
    using that Suc.prems page_index64 [of a j ptr] by simp
  have "set_taken ptr (of_nat a) (of_nat b) m =
      set_taken ptr (of_nat (Suc a)) (of_nat b) (page_set_flag (ptr + of_nat a) Taken m)"
    using Suc.prems ab by (subst set_taken.simps) (simp add: of_nat_less_64 add.commute)
  also have "\<dots> = (of_nat b, \<lambda>x. if \<exists>j. Suc a \<le> j \<and> j < b \<and> x = ptr + of_nat j
      then page_set_flag (ptr + of_nat a) Taken m x OR Taken else page_set_flag (ptr + of_nat a) Taken m x)"
    using Suc.hyps(1) [OF ab(2)] ab Suc.prems by simp
  also have "(\<lambda>x. if \<exists>j. Suc a \<le> j \<and> j < b \<and> x = ptr + of_nat j
      then page_set_flag (ptr + of_nat a) Taken m x OR Taken else page_set_flag (ptr + of_nat a) Taken m x) =
      (\<lambda>x. if \<exists>j. a \<le> j \<and> j < b \<and> x = ptr + of_nat j then m x OR Taken else m x)"
  proof
    fix x
    have "(\<exists>j. a \<le> j \<and> j < b \<and> x = ptr + of_nat j) \<longleftrightarrow>
        x = ptr + of_nat a \<or> (\<exists>j. Suc a \<le> j \<and> j < b \<and> x = ptr + of_nat j)"
      using ab(1) by (metis Suc_le_eq le_neq_implies_less less_imp_le order_refl)
    then show "(if \<exists>j. Suc a \<le> j \<and> j < b \<and> x = ptr + of_nat j
        then page_set_flag (ptr + of_nat a) Taken m x OR Taken else page_set_flag (ptr + of_nat a) Taken m x) =
      (if \<exists>j. a \<le> j \<and> j < b \<and> x = ptr + of_nat j then m x OR Taken else m x)"
      using n by (auto simp: page_set_flag_def)
  qed
  finally show ?case .
qed

lemma clear_pages_eq:
  "a \<le> b \<Longrightarrow> b < 2 ^ 64 \<Longrightarrow>
   clear_pages (ptr + of_nat a) (of_nat a) (of_nat b) m =
     (\<lambda>x. if \<exists>j. a \<le> j \<and> j < b \<and> x = ptr + of_nat j then Empty else m x)"
proof (induction "b - a" arbitrary: a m)
  case 0
  then show ?case by (subst clear_pages.simps) (auto simp: fun_eq_iff)
next
  case (Suc d)
  then have ab: "a < b" "d = b - Suc a" by simp_all
  then have "clear_pages (ptr + of_nat a) (of_nat a) (of_nat b) m =
      clear_pages (ptr + of_nat (Suc a)) (of_nat (Suc a)) (of_nat b) (page_clear (ptr + of_nat a) m)"
    using Suc.prems by (subst clear_pages.simps) (simp add: of_nat_less_64 add_ac)
  also have "\<dots> = (\<lambda>x. if \<exists>j. Suc a \<le> j \<and> j < b \<and> x = ptr + of_nat j then Empty
      else page_clear (ptr + of_nat a) m x)"
    using Suc.hyps(1) [OF ab(2)] ab Suc.prems by simp
  also have "\<dots> = (\<lambda>x. if \<exists>j. a \<le> j \<and> j < b \<and> x = ptr + of_nat j then Empty else m x)"
    using ab(1) by (auto simp: page_clear_def fun_eq_iff Suc_le_eq)
  finally show ?case .
qed

section \<open>The search is the first fit\<close>

definition taken_mem :: "pages64 \<Rightarrow> nat \<Rightarrow> nat \<Rightarrow> mem64" where
  "taken_mem s k n =
     (let (j, m) = set_taken (HEAP_START s) (of_nat k) (of_nat k + of_nat n - 1) (mem s)
      in page_set_flag (HEAP_START s + j) Last (page_set_flag (HEAP_START s + j) Taken m))"

lemma alloc_scan_eq:
  assumes n: "0 < n" "n \<le> num_pages PS s" and ok: "ok_pages PS s"
  shows "i \<le> num_pages PS s - n \<Longrightarrow>
    alloc_scan PS (of_nat n) (of_nat (num_pages PS s)) (of_nat i) s =
      (case find (run_free (flags PS s) n) [i..<num_pages PS s - n] of None \<Rightarrow> (0, s)
       | Some k \<Rightarrow> (page_at PS s k, s\<lparr>mem := taken_mem s k n\<rparr>))"
proof (induction "num_pages PS s - n - i" arbitrary: i)
  case 0
  then have "i = num_pages PS s - n" by simp
  then have "(of_nat i :: u64) = of_nat (num_pages PS s) - of_nat n" using n by (simp add: of_nat_diff)
  then show ?case using 0 by (subst alloc_scan.simps) simp
next
  case (Suc d)
  define N where "N = num_pages PS s"
  have N: "N < 2 ^ 64" unfolding N_def by (rule num_pages_less64)
  have i: "i < N - n" "d = N - n - Suc i" "i + n < N" using Suc.hyps(2) by (simp_all add: N_def)
  have lim: "(of_nat i :: u64) < of_nat N - of_nat n"
    using i(1) n N of_nat_less_64 [of i "N - n"] by (simp add: of_nat_diff N_def)
  have stop: "(of_nat i + of_nat n :: u64) = of_nat (i + n)" by simp
  have t: "page_is_taken (mem s (HEAP_START s + of_nat j)) = 0 \<longleftrightarrow> flags PS s ! j = Empty" if "j < N" for j
    using untaken_empty [OF ok] that by (simp add: N_def)
  have "run_untaken (mem s) (HEAP_START s) (of_nat i) (of_nat (i + n)) \<longleftrightarrow>
      (\<forall>j. i \<le> j \<and> j < i + n \<longrightarrow> page_is_taken (mem s (HEAP_START s + of_nat j)) = 0)"
    using i N by (intro run_untaken_eq) auto
  also have "\<dots> \<longleftrightarrow> (\<forall>j. i \<le> j \<and> j < i + n \<longrightarrow> flags PS s ! j = Empty)"
    using t i(3) by auto
  also have "\<dots> \<longleftrightarrow> run_free (flags PS s) n i"
    unfolding run_free_def by (metis add_less_cancel_left le_add1 le_Suc_ex)
  finally have f: "page_is_free (mem s (HEAP_START s + of_nat i)) \<noteq> 0 \<and>
      run_untaken (mem s) (HEAP_START s) (of_nat i) (of_nat (i + n)) \<longleftrightarrow> run_free (flags PS s) n i"
    using n(1) t [of i] i(3) by (auto simp: run_free_def page_is_free_def dest: spec [of _ 0])
  have step: "alloc_scan PS (of_nat n) (of_nat N) (of_nat i) s =
      (if run_free (flags PS s) n i then (page_at PS s i, s\<lparr>mem := taken_mem s i n\<rparr>)
       else alloc_scan PS (of_nat n) (of_nat N) (of_nat (Suc i)) s)"
    by (subst alloc_scan.simps)
      (simp add: lim stop f taken_mem_def page_at_def Let_def add.commute [of 1] case_prod_unfold del: of_nat_add)
  show ?case
    using step i(1) Suc.hyps(1) [of "Suc i"] i(2)
    by (simp add: N_def find_upt_Suc)
qed

lemma taken_mem_eq:
  assumes "0 < n" "k + n < 2 ^ 64"
  shows "taken_mem s k n =
    (\<lambda>x. if \<exists>j. k \<le> j \<and> j < k + n - 1 \<and> x = HEAP_START s + of_nat j then mem s x OR Taken
      else if x = HEAP_START s + of_nat (k + n - 1) then mem s x OR (Last OR Taken) else mem s x)"
proof -
  have e: "(of_nat k + of_nat n - 1 :: u64) = of_nat (k + n - 1)" using assms by (simp add: of_nat_diff)
  have "HEAP_START s + of_nat (k + n - 1) \<noteq> HEAP_START s + of_nat j" if "j < k + n - 1" for j
    using page_index64 [of "k + n - 1" j "HEAP_START s"] assms that by simp
  then show ?thesis
    using assms unfolding taken_mem_def e
    by (subst set_taken_eq) (auto simp: page_set_flag_def fun_eq_iff or.assoc or.commute or.left_commute simp del: of_nat_diff)
qed

lemma taken_mem_flags64:
  assumes n: "0 < n" "k + n \<le> num_pages PS s" and f: "run_free (flags PS s) n k"
  shows "flags PS (s\<lparr>mem := taken_mem s k n\<rparr>) = mark (flags PS s) k n"
proof (rule nth_equalityI)
  show "length (flags PS (s\<lparr>mem := taken_mem s k n\<rparr>)) = length (mark (flags PS s) k n)"
    by (simp add: num_pages_def)
  fix i assume "i < length (flags PS (s\<lparr>mem := taken_mem s k n\<rparr>))"
  then have i: "i < num_pages PS s" by (simp add: num_pages_def)
  have N: "num_pages PS s < 2 ^ 64" by (rule num_pages_less64)
  have e: "mem s (HEAP_START s + of_nat j) = Empty" if "k \<le> j" "j < k + n" for j
    using f n that by (auto simp: run_free_def flags_nth dest: spec [of _ "j - k"])
  have x: "(\<exists>j. k \<le> j \<and> j < k + n - 1 \<and> HEAP_START s + of_nat i = HEAP_START s + of_nat j) \<longleftrightarrow>
      k \<le> i \<and> i < k + n - 1"
    using i N n by (intro index_range) linarith+
  have l: "HEAP_START s + of_nat i = HEAP_START s + of_nat (k + n - 1) \<longleftrightarrow> i = k + n - 1"
    using page_index64 [of i "k + n - 1" "HEAP_START s"] i N n by linarith
  have "flags PS (s\<lparr>mem := taken_mem s k n\<rparr>) ! i = taken_mem s k n (HEAP_START s + of_nat i)"
    using i by (simp add: flags_def num_pages_def)
  also have "\<dots> = (if k \<le> i \<and> i < k + n - 1 then mem s (HEAP_START s + of_nat i) OR Taken
      else if i = k + n - 1 then mem s (HEAP_START s + of_nat i) OR (Last OR Taken)
      else mem s (HEAP_START s + of_nat i))"
    using n N by (simp only: taken_mem_eq x l)
  also have "\<dots> = mark (flags PS s) k n ! i"
    using i n e [of i] by (auto simp: mark_nth flags_nth simp del: of_nat_diff)
  finally show "flags PS (s\<lparr>mem := taken_mem s k n\<rparr>) ! i = mark (flags PS s) k n ! i" .
qed

lemma alloc_first_fit:
  assumes "0 < n" "n \<le> num_pages PS s" "ok_pages PS s"
  shows "alloc PS (of_nat n) s =
    (case first_fit (flags PS s) n of None \<Rightarrow> (0, s)
     | Some k \<Rightarrow> (page_at PS s k, s\<lparr>mem := taken_mem s k n\<rparr>))"
  using alloc_scan_eq [OF assms, of 0] by (simp add: alloc_def num_pages_word64 first_fit_def)

section \<open>Giving a block back\<close>

lemma dealloc_loop_eq:
  "(\<forall>i. j \<le> i \<and> i < j + d \<longrightarrow> m (p + of_nat i) = Taken) \<Longrightarrow> m (p + of_nat (j + d)) = Last OR Taken \<Longrightarrow>
   j + d < 2 ^ 64 \<Longrightarrow>
   dealloc_loop (p + of_nat j) m =
     Some (p + of_nat (j + d), \<lambda>x. if \<exists>i. j \<le> i \<and> i < j + d \<and> x = p + of_nat i then Empty else m x)"
proof (induction d arbitrary: j m)
  case 0
  then show ?case
    by (subst dealloc_loop.simps)
      (auto simp: page_is_taken_def page_is_last_def fun_eq_iff Taken_def Last_def)
next
  case (Suc d)
  let ?m = "page_clear (p + of_nat j) m"
  have n: "p + of_nat i \<noteq> p + of_nat j" if "Suc j \<le> i" "i < j + Suc (Suc d)" for i
    using that Suc.prems page_index64 [of i j p] by simp
  have "dealloc_loop (p + of_nat j) m = dealloc_loop (p + of_nat (Suc j)) ?m"
    using Suc.prems by (subst dealloc_loop.simps) (simp add: page_is_taken_def page_is_last_def add_ac)
  also have "\<dots> = Some (p + of_nat (Suc j + d),
      \<lambda>x. if \<exists>i. Suc j \<le> i \<and> i < Suc j + d \<and> x = p + of_nat i then Empty else ?m x)"
  proof (rule Suc.IH)
    show "\<forall>i. Suc j \<le> i \<and> i < Suc j + d \<longrightarrow> ?m (p + of_nat i) = Taken"
      using Suc.prems(1) n by (auto simp: page_clear_def)
    show "?m (p + of_nat (Suc j + d)) = Last OR Taken"
      using Suc.prems(2) n [of "Suc j + d"] by (simp add: page_clear_def del: of_nat_Suc of_nat_add)
  qed (use Suc.prems in simp)
  also have "(\<lambda>x. if \<exists>i. Suc j \<le> i \<and> i < Suc j + d \<and> x = p + of_nat i then Empty else ?m x) =
      (\<lambda>x. if \<exists>i. j \<le> i \<and> i < j + Suc d \<and> x = p + of_nat i then Empty else m x)"
  proof
    fix x
    have "(\<exists>i. j \<le> i \<and> i < j + Suc d \<and> x = p + of_nat i) \<longleftrightarrow>
        x = p + of_nat j \<or> (\<exists>i. Suc j \<le> i \<and> i < Suc j + d \<and> x = p + of_nat i)"
      by (metis Suc_le_eq add_Suc_right add_Suc le_add1 le_neq_implies_less less_add_Suc1 less_imp_le order_refl)
    then show "(if \<exists>i. Suc j \<le> i \<and> i < Suc j + d \<and> x = p + of_nat i then Empty else ?m x) =
        (if \<exists>i. j \<le> i \<and> i < j + Suc d \<and> x = p + of_nat i then Empty else m x)"
      by (auto simp: page_clear_def)
  qed
  finally show ?case by simp
qed

lemma dealloc_base:
  assumes "ok_pages PS s" "k < num_pages PS s"
  shows "(page_at PS s k - ALLOC_START s) div PS = of_nat k"
proof -
  have "unat PS * k < unat PS * num_pages PS s"
    using assms by (simp add: ok_pages_def unat_gt_0 word_neq_0_conv)
  moreover have "unat (ALLOC_START s) + unat PS * num_pages PS s \<le> 2 ^ 64"
    using assms(1) unfolding ok_pages_def by blast
  ultimately have l: "unat PS * k < 2 ^ 64" by linarith
  have k: "k < 2 ^ 64" using assms(2) num_pages_less64 [of PS s] by simp
  have "unat (PS * of_nat k) = unat PS * k" using l k by (simp add: unat_word_ariths unat_of_nat_64)
  then have "unat (PS * of_nat k div PS) = k"
    using assms(1) by (simp add: unat_div ok_pages_def unat_gt_0 word_neq_0_conv)
  then show ?thesis by (simp add: page_at_def word_unat_eq_iff unat_of_nat_64 [OF k])
qed

definition cleared_mem :: "pages64 \<Rightarrow> nat \<Rightarrow> nat \<Rightarrow> mem64" where
  "cleared_mem s k n =
     (\<lambda>x. if \<exists>i. k \<le> i \<and> i < k + n \<and> x = HEAP_START s + of_nat i then Empty else mem s x)"

lemma dealloc_eq:
  assumes ok: "ok_pages PS s" and b: "block (flags PS s) k n"
  shows "dealloc PS (page_at PS s k) s = Some (s\<lparr>mem := cleared_mem s k n\<rparr>)"
proof -
  have n: "0 < n" "k + n \<le> num_pages PS s" using b by (simp_all add: block_def)
  have N: "num_pages PS s < 2 ^ 64" by (rule num_pages_less64)
  let ?p = "HEAP_START s"
  let ?m = "\<lambda>x. if \<exists>i. k \<le> i \<and> i < k + n \<and> x = ?p + of_nat i then Empty else mem s x"
  have "dealloc_loop (?p + of_nat k) (mem s) = Some (?p + of_nat (k + (n - 1)),
      \<lambda>x. if \<exists>i. k \<le> i \<and> i < k + (n - 1) \<and> x = ?p + of_nat i then Empty else mem s x)"
    using b n N by (intro dealloc_loop_eq) (auto simp: block_def flags_nth simp del: of_nat_diff)
  moreover have "page_clear (?p + of_nat (k + (n - 1)))
      (\<lambda>x. if \<exists>i. k \<le> i \<and> i < k + (n - 1) \<and> x = ?p + of_nat i then Empty else mem s x) = ?m"
  proof
    fix x
    have "i < k + n \<longleftrightarrow> i = k + (n - 1) \<or> i < k + (n - 1)" for i using n(1) by auto
    then have "(\<exists>i. k \<le> i \<and> i < k + n \<and> x = ?p + of_nat i) \<longleftrightarrow>
        x = ?p + of_nat (k + (n - 1)) \<or> (\<exists>i. k \<le> i \<and> i < k + (n - 1) \<and> x = ?p + of_nat i)"
      by (metis le_add1)
    then show "page_clear (?p + of_nat (k + (n - 1)))
      (\<lambda>x. if \<exists>i. k \<le> i \<and> i < k + (n - 1) \<and> x = ?p + of_nat i then Empty else mem s x) x = ?m x"
      by (auto simp: page_clear_def)
  qed
  ultimately show ?thesis
    using dealloc_base [OF ok, of k] n by (simp add: dealloc_def cleared_mem_def)
qed

lemma dealloc_block:
  assumes ok: "ok_pages PS s" and b: "block (flags PS s) k n"
  shows "\<exists>s'. dealloc PS (page_at PS s k) s = Some s' \<and> flags PS s' = clear_run (flags PS s) k n \<and>
    ok_pages PS s' \<and> (\<forall>i. page_at PS s' i = page_at PS s i)"
proof -
  have n: "0 < n" "k + n \<le> num_pages PS s" using b by (simp_all add: block_def)
  have N: "num_pages PS s < 2 ^ 64" by (rule num_pages_less64)
  have f: "flags PS (s\<lparr>mem := cleared_mem s k n\<rparr>) = clear_run (flags PS s) k n"
  proof (rule nth_equalityI)
    fix i assume "i < length (flags PS (s\<lparr>mem := cleared_mem s k n\<rparr>))"
    then have i: "i < num_pages PS s" by (simp add: num_pages_def)
    have "(\<exists>j. k \<le> j \<and> j < k + n \<and> HEAP_START s + of_nat i = HEAP_START s + of_nat j) \<longleftrightarrow> k \<le> i \<and> i < k + n"
      using i n N by (intro index_range) linarith+
    then show "flags PS (s\<lparr>mem := cleared_mem s k n\<rparr>) ! i = clear_run (flags PS s) k n ! i"
      using i by (simp add: flags_def num_pages_def clear_run_nth cleared_mem_def)
  qed (simp add: num_pages_def)
  then have "set (flags PS (s\<lparr>mem := cleared_mem s k n\<rparr>)) \<subseteq> insert Empty (set (flags PS s))"
    by (auto simp: clear_run_def)
  then have "ok_pages PS (s\<lparr>mem := cleared_mem s k n\<rparr>)" using ok by (auto simp: ok_pages_def num_pages_def)
  then show ?thesis using dealloc_eq [OF ok b] f by (simp add: page_at_def)
qed

section \<open>The contract holds\<close>

lemma unat_page_at:
  assumes "ok_pages PS s" "k < num_pages PS s"
  shows "unat (page_at PS s k) = unat (ALLOC_START s) + unat PS * k"
    "unat (page_at PS s k) + unat PS \<le> 2 ^ 64"
proof -
  have "unat (ALLOC_START s) + unat PS * num_pages PS s \<le> 2 ^ 64" "0 < unat PS"
    using assms(1) unfolding ok_pages_def by (simp_all add: unat_gt_0 word_neq_0_conv)
  moreover have "unat PS * Suc k \<le> unat PS * num_pages PS s" using assms(2) by (intro mult_le_mono2) simp
  ultimately have b: "unat (ALLOC_START s) + unat PS * k + unat PS \<le> 2 ^ 64" "0 < unat PS" by simp_all
  have k: "unat (of_nat k :: u64) = k" using assms(2) num_pages_less64 [of PS s] by (intro unat_of_nat_64) simp
  show "unat (page_at PS s k) = unat (ALLOC_START s) + unat PS * k"
    using b by (simp add: page_at_def unat_word_ariths k)
  then show "unat (page_at PS s k) + unat PS \<le> 2 ^ 64" using b by simp
qed

lemma page_at_nonzero: "ok_pages PS s \<Longrightarrow> k < num_pages PS s \<Longrightarrow> page_at PS s k \<noteq> 0"
proof -
  assume a: "ok_pages PS s" "k < num_pages PS s"
  then have "0 < unat (ALLOC_START s)" by (simp add: ok_pages_def word_less_nat_alt)
  then show ?thesis using unat_page_at(1) [OF a] by auto
qed

lemma ok_pages_mark:
  assumes "ok_pages PS s" "0 < n" "k + n \<le> num_pages PS s" "run_free (flags PS s) n k"
  shows "ok_pages PS (s\<lparr>mem := taken_mem s k n\<rparr>)"
proof -
  have "set (mark (flags PS s) k n) \<subseteq> {Taken, Last OR Taken} \<union> set (flags PS s)"
    by (auto simp: mark_def)
  then show ?thesis
    using assms taken_mem_flags64 [OF assms(2-4)] by (auto simp: ok_pages_def num_pages_def)
qed

text \<open>\<open>alloc\<close> with its null pointer as failure.\<close>

definition page_get :: "u64 \<Rightarrow> nat \<Rightarrow> pages64 \<Rightarrow> (u64 \<times> pages64) option" where
  "page_get PAGE_SIZE n s =
     (let (p, s') = alloc PAGE_SIZE (of_nat n) s in if p = 0 then None else Some (p, s'))"

interpretation pages: page_deallocator "flags PS" "ok_pages PS" "page_at PS" "page_get PS" "dealloc PS" for PS
proof unfold_locales
  fix s n k
  assume s: "ok_pages PS s" "0 < n" "n \<le> length (flags PS s)" and k: "first_fit (flags PS s) n = Some k"
  have f: "k + n < num_pages PS s" "run_free (flags PS s) n k" using first_fit_Some [OF k] by simp_all
  have "page_get PS n s = Some (page_at PS s k, s\<lparr>mem := taken_mem s k n\<rparr>)"
    using s k f page_at_nonzero [OF s(1), of k] alloc_first_fit [of n PS s] by (simp add: page_get_def)
  moreover have "flags PS (s\<lparr>mem := taken_mem s k n\<rparr>) = mark (flags PS s) k n"
    using s f by (intro taken_mem_flags64) simp_all
  moreover have "ok_pages PS (s\<lparr>mem := taken_mem s k n\<rparr>)"
    using s f by (intro ok_pages_mark) simp_all
  ultimately show "\<exists>s'. page_get PS n s = Some (page_at PS s k, s') \<and> flags PS s' = mark (flags PS s) k n \<and>
      ok_pages PS s' \<and> (\<forall>i. page_at PS s' i = page_at PS s i)"
    by (simp add: page_at_def)
next
  fix s n
  assume "ok_pages PS s" "0 < n" "n \<le> length (flags PS s)" "first_fit (flags PS s) n = None"
  then show "page_get PS n s = None" using alloc_first_fit [of n PS s] by (simp add: page_get_def)
qed (rule dealloc_block)

section \<open>Setting up\<close>

lemma and_not_mask: "x AND NOT (mask k) = push_bit k (drop_bit k (x :: u64))"
  by (rule bit_word_eqI) (auto simp: bit_simps)

lemma unat_and_not_mask: "unat (x AND NOT (mask k) :: u64) = unat x div 2 ^ k * 2 ^ k"
proof -
  have "unat x div 2 ^ k * 2 ^ k \<le> unat x" by simp
  moreover have x: "unat x < 2 ^ 64" using unsigned_less [of x, where ?'a = nat] by simp
  ultimately have "unat x div 2 ^ k * 2 ^ k < 2 ^ 64" by (rule le_less_trans)
  note t = take_bit_nat_eq_self [OF this] take_bit_nat_eq_self [OF x]
  show ?thesis
    unfolding and_not_mask unsigned_push_bit_eq unsigned_drop_bit_eq
    by (simp add: push_bit_eq_mult drop_bit_eq_div t)
qed

text \<open>Rounding up to a multiple of a power of two.\<close>

lemma align_up:
  assumes "unat a + 2 ^ k \<le> 2 ^ 64" "k < 64"
  shows "unat ((a + 2 ^ k - 1) AND NOT (2 ^ k - 1 :: u64)) = (unat a + 2 ^ k - 1) div 2 ^ k * 2 ^ k"
proof -
  have m: "(2 ^ k - 1 :: u64) = mask k" by (simp add: mask_eq_exp_minus_1)
  have "(a + 2 ^ k - 1 :: u64) = of_nat (unat a + 2 ^ k - 1)"
    by (subst of_nat_diff) (simp_all add: add_increasing)
  moreover have "unat a + 2 ^ k - 1 < 2 ^ 64" using assms(1) by simp
  ultimately have "unat (a + 2 ^ k - 1) = unat a + 2 ^ k - 1" by (simp only: unat_of_nat_64)
  then show ?thesis unfolding m unat_and_not_mask by (rule arg_cong)
qed

lemma round_up_bounds:
  fixes x d :: nat
  assumes "0 < d"
  shows "x \<le> (x + d - 1) div d * d" "(x + d - 1) div d * d < x + d"
proof -
  have "(x + d - 1) mod d < d" using assms by simp
  moreover have "x + d - 1 = (x + d - 1) div d * d + (x + d - 1) mod d" by simp
  ultimately show "x \<le> (x + d - 1) div d * d" "(x + d - 1) div d * d < x + d" using assms by linarith+
qed

lemma page_init_flags: "flags PS (page_init PS s) = replicate (num_pages PS s) Empty"
proof (rule nth_equalityI)
  have "clear_pages (HEAP_START s) 0 (of_nat (num_pages PS s)) (mem s) =
      (\<lambda>x. if \<exists>j. 0 \<le> j \<and> j < num_pages PS s \<and> x = HEAP_START s + of_nat j then Empty else mem s x)"
    using clear_pages_eq [of 0 "num_pages PS s" "HEAP_START s" "mem s"] num_pages_less64 [of PS s] by simp
  note c = this
  fix i assume "i < length (flags PS (page_init PS s))"
  then have "i < num_pages PS s" by (simp add: page_init_def num_pages_def Let_def)
  then show "flags PS (page_init PS s) ! i = replicate (num_pages PS s) Empty ! i"
    using c by (auto simp: flags_nth page_init_def Let_def num_pages_def)
qed (simp add: page_init_def num_pages_def Let_def)

section \<open>Zeroed pages\<close>

lemma store64_zero: "store64 m a 0 x = (if x \<in> bytes_at a 8 then 0 else m x)"
proof -
  have "store_bytes n m a (0 :: u64) x = (if x \<in> bytes_at a n then 0 else m x)" for n
    by (induction n m a "0 :: u64" rule: store_bytes.induct) (auto simp: bytes_at_Suc)
  then show ?thesis by (simp add: store64_def)
qed

lemma zero_dwords_eq:
  "i \<le> k \<Longrightarrow> k < 2 ^ 64 \<Longrightarrow>
   zero_dwords p (of_nat i) (of_nat k) m x =
     (if x \<in> bytes_at (p + 8 * of_nat i) (8 * (k - i)) then 0 else m x)"
proof (induction "k - i" arbitrary: i m)
  case 0
  then show ?case by (subst zero_dwords.simps) simp
next
  case (Suc d)
  then have i: "i < k" "d = k - Suc i" by simp_all
  have "8 * (k - i) = 8 + 8 * (k - Suc i)" using i by simp
  moreover have "p + 8 * of_nat (Suc i) = p + 8 * of_nat i + of_nat 8" by (simp add: algebra_simps)
  ultimately have b: "bytes_at (p + 8 * of_nat i) (8 * (k - i)) =
      bytes_at (p + 8 * of_nat i) 8 \<union> bytes_at (p + 8 * of_nat (Suc i)) (8 * (k - Suc i))"
    by (simp only: bytes_at_add)
  have "zero_dwords p (of_nat i) (of_nat k) m x =
      zero_dwords p (of_nat (Suc i)) (of_nat k) (store64 m (p + 8 * of_nat i) 0) x"
    using i Suc.prems by (subst zero_dwords.simps) (simp add: of_nat_less_64 add.commute)
  then show ?case
    using Suc.hyps(1) [OF i(2)] i Suc.prems by (simp add: store64_zero b)
qed

section \<open>Runs of zeroed pages\<close>

text \<open>The flags in front of the pages.\<close>

definition flags_first :: "u64 \<Rightarrow> pages64 \<Rightarrow> bool" where
  "flags_first PAGE_SIZE s \<longleftrightarrow> ok_pages PAGE_SIZE s \<and> 8 dvd unat PAGE_SIZE \<and>
     unat (HEAP_START s) + num_pages PAGE_SIZE s \<le> unat (ALLOC_START s)"

text \<open>The bytes of \<open>n\<close> pages from page \<open>k\<close> on.\<close>

lemma run_bytes:
  assumes "ok_pages PS s" "k + n \<le> num_pages PS s" "0 < n"
  shows "x \<in> bytes_at (page_at PS s k) (unat PS * n) \<longleftrightarrow>
    unat (ALLOC_START s) + unat PS * k \<le> unat x \<and> unat x < unat (ALLOC_START s) + unat PS * (k + n)"
proof -
  have "unat PS * (k + n) \<le> unat PS * num_pages PS s" using assms(2) by (rule mult_le_mono2)
  moreover have "unat (ALLOC_START s) + unat PS * num_pages PS s \<le> 2 ^ 64" using assms(1) by (simp add: ok_pages_def)
  moreover have p: "unat (page_at PS s k) = unat (ALLOC_START s) + unat PS * k"
    using unat_page_at(1) [OF assms(1)] assms(2,3) by simp
  moreover have e: "unat PS * (k + n) = unat PS * k + unat PS * n" by (rule distrib_left)
  ultimately have "unat (page_at PS s k) + unat PS * n \<le> 2 ^ LENGTH(64)" unfolding p by simp
  from bytes_at_interval [OF this, of x] show ?thesis unfolding p e by (simp add: add.assoc)
qed

lemma flag_not_page:
  assumes "flags_first PS s" "i < num_pages PS s" "unat (ALLOC_START s) \<le> unat x"
  shows "x \<noteq> HEAP_START s + of_nat i"
proof -
  have "unat (HEAP_START s + of_nat i) = unat (HEAP_START s) + i"
    using assms unsigned_less [of "ALLOC_START s", where ?'a = nat]
    by (intro unat_add_of_nat) (simp add: flags_first_def)
  then show ?thesis using assms by (auto simp: flags_first_def)
qed

text \<open>Memory behind the flags may change.\<close>

lemma flags_first_cong:
  assumes s: "flags_first PS s" and m: "\<And>x. unat x < unat (ALLOC_START s) \<Longrightarrow> m x = mem s x"
  shows "flags_first PS (s\<lparr>mem := m\<rparr>)" "flags PS (s\<lparr>mem := m\<rparr>) = flags PS s"
proof -
  have n: "num_pages PS (s\<lparr>mem := m\<rparr>) = num_pages PS s" by (simp add: num_pages_def)
  have "m (HEAP_START s + of_nat i) = mem s (HEAP_START s + of_nat i)" if "i < num_pages PS s" for i
  proof (rule m, rule ccontr)
    assume "\<not> unat (HEAP_START s + of_nat i) < unat (ALLOC_START s)"
    then show False using flag_not_page [OF s that, of "HEAP_START s + of_nat i"] by simp
  qed
  then show f: "flags PS (s\<lparr>mem := m\<rparr>) = flags PS s" by (simp add: flags_def n)
  show "flags_first PS (s\<lparr>mem := m\<rparr>)"
    using s f n by (simp add: flags_first_def ok_pages_def)
qed

text \<open>\<open>zalloc\<close>: the first free run, marked and filled with zeros.\<close>

lemma zalloc_run:
  assumes s: "flags_first PS s" and n: "0 < n" "n \<le> num_pages PS s" and k: "first_fit (flags PS s) n = Some k"
  shows "\<exists>m. zalloc PS (of_nat n) s = (page_at PS s k, s\<lparr>mem := m\<rparr>) \<and>
    flags_first PS (s\<lparr>mem := m\<rparr>) \<and> flags PS (s\<lparr>mem := m\<rparr>) = mark (flags PS s) k n \<and>
    (\<forall>x \<in> bytes_at (page_at PS s k) (unat PS * n). m x = 0) \<and>
    (\<forall>x. unat (ALLOC_START s) \<le> unat x \<longrightarrow> x \<notin> bytes_at (page_at PS s k) (unat PS * n) \<longrightarrow> m x = mem s x)"
proof -
  let ?m = "taken_mem s k n" and ?l = "unat PS * n"
  let ?m' = "zero_dwords (page_at PS s k) 0 (PS * of_nat n div 8) ?m"
  have ok: "ok_pages PS s" "8 dvd unat PS" using s by (simp_all add: flags_first_def)
  have f: "k + n < num_pages PS s" "run_free (flags PS s) n k" using first_fit_Some [OF k] by simp_all
  have "unat PS * n \<le> unat PS * num_pages PS s" using n(2) by (rule mult_le_mono2)
  moreover have "unat (ALLOC_START s) + unat PS * num_pages PS s \<le> 2 ^ 64" "0 < unat (ALLOC_START s)"
    using ok(1) by (simp_all add: ok_pages_def word_less_nat_alt)
  ultimately have l: "?l < 2 ^ 64" by linarith
  have "PS * of_nat n = of_nat ?l" by simp
  then have "unat (PS * of_nat n) = ?l" using l by (simp only: unat_of_nat_64)
  then have "unat (PS * of_nat n div 8) = ?l div 8" by (simp add: unat_div)
  then have sz: "PS * of_nat n div 8 = of_nat (?l div 8)" by (metis of_nat_unat ucast_id)
  have "8 dvd ?l" using ok(2) by simp
  then have z: "?m' x = (if x \<in> bytes_at (page_at PS s k) ?l then 0 else ?m x)" for x
    using zero_dwords_eq [of 0 "?l div 8" "page_at PS s k" ?m x] l unfolding sz by simp
  have e: "zalloc PS (of_nat n) s = (page_at PS s k, s\<lparr>mem := ?m'\<rparr>)"
    using alloc_first_fit [OF n ok(1)] k by (simp add: zalloc_def)
  have t: "flags_first PS (s\<lparr>mem := ?m\<rparr>)" "flags PS (s\<lparr>mem := ?m\<rparr>) = mark (flags PS s) k n"
    using s ok_pages_mark [OF ok(1) n(1) _ f(2)] taken_mem_flags64 [OF n(1) _ f(2)] f(1)
    by (simp_all add: flags_first_def num_pages_def)
  have "?m' x = ?m x" if "unat x < unat (ALLOC_START s)" for x
    using that f(1) n(1) by (simp add: z run_bytes [OF ok(1)])
  with flags_first_cong [OF t(1), of ?m'] t(2)
  have "flags_first PS (s\<lparr>mem := ?m'\<rparr>)" "flags PS (s\<lparr>mem := ?m'\<rparr>) = mark (flags PS s) k n" by simp_all
  moreover have "?m x = mem s x" if "unat (ALLOC_START s) \<le> unat x" for x
  proof -
    have nf: "x \<noteq> HEAP_START s + of_nat j" if "j < k + n" for j
      using flag_not_page [OF s, of j x] f(1) that \<open>unat (ALLOC_START s) \<le> unat x\<close> by simp
    have "x \<noteq> HEAP_START s + of_nat j" if "j < k + n - 1" for j using nf [of j] that by simp
    then have "(\<exists>j. k \<le> j \<and> j < k + n - 1 \<and> x = HEAP_START s + of_nat j) = False" by blast
    moreover have "(x = HEAP_START s + of_nat (k + n - 1)) = False" using nf [of "k + n - 1"] n(1) by simp
    moreover have "k + n < 2 ^ 64" using f(1) num_pages_less64 [of PS s] by simp
    ultimately show ?thesis by (simp only: taken_mem_eq [OF n(1)] if_False)
  qed
  ultimately show ?thesis using e z by auto
qed

lemma other_page:
  assumes ok: "ok_pages PS s" and j: "k < num_pages PS s" "j < num_pages PS s" "j \<noteq> k"
    and x: "unat (page_at PS s k) \<le> unat x" "unat x < unat (page_at PS s k) + unat PS"
  shows "x \<notin> bytes_at (page_at PS s j) (unat PS * 1)"
proof
  assume "x \<in> bytes_at (page_at PS s j) (unat PS * 1)"
  then have "unat (ALLOC_START s) + unat PS * j \<le> unat x" "unat x < unat (ALLOC_START s) + unat PS * (j + 1)"
    using j(2) run_bytes [OF ok, of j 1 x] by simp_all
  then have "unat PS * j < unat PS * (k + 1)" "unat PS * k < unat PS * (j + 1)"
    using x unat_page_at(1) [OF ok j(1)] unfolding distrib_left by linarith+
  then have "j < k + 1" "k < j + 1" by (simp_all only: mult_less_cancel1)
  then show False using j(3) by simp
qed

section \<open>A small heap\<close>

text \<open>Eight pages behind the flags at \<open>0x1000\<close>, all free.\<close>

definition heap64 :: pages64 where
  "heap64 = \<lparr>HEAP_START = 0x1000, HEAP_SIZE = 0x8000, ALLOC_START = 0x2000, mem = (\<lambda>_. 0), printed = []\<rparr>"

lemma num_pages_heap64 [simp]: "num_pages 0x1000 heap64 = 8"
  by (simp add: num_pages_def heap64_def)

lemma flags_heap64 [simp]: "flags 0x1000 heap64 = replicate 8 Empty"
  by (rule nth_equalityI) (simp_all add: flags_nth, simp add: heap64_def Empty_def)

lemma ok_heap64: "ok_pages 0x1000 heap64"
  by (simp add: ok_pages_def) (simp add: heap64_def)

lemma alloc_heap64:
  assumes "n \<in> {1, 2}"
  shows "alloc 0x1000 (of_nat n) heap64 = (0x2000, heap64\<lparr>mem := taken_mem heap64 0 n\<rparr>)"
proof -
  have "first_fit (replicate 8 Empty) n = Some 0"
    using assms by (auto simp: first_fit_def run_free_def upt_conv_Cons nth_replicate)
  then show ?thesis
    using alloc_first_fit [of n "0x1000" heap64] assms ok_heap64
    by (auto simp: page_at_def) (simp_all add: heap64_def)
qed

section \<open>Properties\<close>

text \<open>\<open>page_init\<close> makes every page free and the first page the next multiple of the page size, a power
  of two, behind the flags: the allocator is ready when the heap has room for them.\<close>

theorem page_init_ready:
  assumes PS: "PS = 2 ^ k" "k < 64" and h: "0 < HEAP_START s"
    and fits: "unat (HEAP_START s) + num_pages PS s + unat PS * Suc (num_pages PS s) \<le> 2 ^ 64"
  shows "ok_pages PS (page_init PS s) \<and> flags PS (page_init PS s) = replicate (num_pages PS s) Empty \<and>
    unat PS dvd unat (ALLOC_START (page_init PS s)) \<and>
    unat (HEAP_START s) + num_pages PS s \<le> unat (ALLOC_START (page_init PS s)) \<and>
    unat (ALLOC_START (page_init PS s)) < unat (HEAP_START s) + num_pages PS s + unat PS"
proof -
  let ?N = "num_pages PS s" and ?A = "ALLOC_START (page_init PS s)"
  have "(2::nat) ^ k < 2 ^ 64" using PS(2) by (rule power_strict_increasing) simp
  then have u: "unat PS = 2 ^ k" using unat_of_nat_64 [of "2 ^ k"] by (simp add: PS(1))
  then have p: "0 < unat PS" by simp
  have x: "unat (HEAP_START s + of_nat ?N) = unat (HEAP_START s) + ?N"
    using fits p by (intro unat_add_of_nat) simp
  have "?A = (HEAP_START s + of_nat ?N + 2 ^ k - 1) AND NOT (2 ^ k - 1)"
    by (simp add: page_init_def Let_def num_pages_word64 PS(1))
  also have "unat \<dots> = (unat (HEAP_START s) + ?N + 2 ^ k - 1) div 2 ^ k * 2 ^ k"
  proof -
    have "unat (HEAP_START s + of_nat ?N) + 2 ^ k \<le> 2 ^ 64" using fits unfolding x u by simp
    from align_up [OF this PS(2)] show ?thesis unfolding x .
  qed
  finally have A: "unat ?A = (unat (HEAP_START s) + ?N + unat PS - 1) div unat PS * unat PS" by (simp add: u)
  have b: "unat (HEAP_START s) + ?N \<le> unat ?A" "unat ?A < unat (HEAP_START s) + ?N + unat PS"
    using round_up_bounds [OF p, of "unat (HEAP_START s) + ?N"] unfolding A .
  moreover have "unat PS dvd unat ?A" unfolding A by simp
  moreover have "0 < ?A" using b(1) h by (simp add: word_less_nat_alt)
  moreover have n: "num_pages PS (page_init PS s) = ?N" by (simp add: page_init_def num_pages_def Let_def)
  moreover have "unat ?A + unat PS * ?N \<le> 2 ^ 64" using b(2) fits by simp
  ultimately show ?thesis
    using page_init_flags [of PS s] p by (auto simp: ok_pages_def word_less_nat_alt)
qed

theorem page_init_ready_witness:
  "ok_pages 0x1000 (page_init 0x1000 heap64) \<and>
   flags 0x1000 (page_init 0x1000 heap64) = replicate 8 Empty"
proof -
  have "(0x1000 :: u64) = 2 ^ 12" "0 < HEAP_START heap64"
    "unat (HEAP_START heap64) + num_pages 0x1000 heap64 + unat (0x1000 :: u64) * Suc (num_pages 0x1000 heap64) \<le> 2 ^ 64"
    by (simp, simp add: heap64_def, simp, simp add: heap64_def)
  from page_init_ready [OF this(1) _ this(2,3)] show ?thesis by simp
qed

text \<open>C10: \<open>dealloc\<close> undoes \<open>alloc\<close>: from any state of the allocator, giving back the pages just granted
  restores the state exactly.\<close>

theorem page_roundtrip:
  assumes ok: "ok_pages PS s" and n: "0 < n" "n \<le> num_pages PS s" and a: "alloc PS (of_nat n) s = (p, s1)" "p \<noteq> 0"
  shows "dealloc PS p s1 = Some s"
proof -
  obtain k where k: "first_fit (flags PS s) n = Some k" "p = page_at PS s k" "s1 = s\<lparr>mem := taken_mem s k n\<rparr>"
    using a alloc_first_fit [OF n ok] by (auto split: option.splits)
  have f: "k + n < num_pages PS s" "run_free (flags PS s) n k" using first_fit_Some [OF k(1)] by simp_all
  have N: "num_pages PS s < 2 ^ 64" by (rule num_pages_less64)
  have ok1: "ok_pages PS s1" unfolding k(3) using ok n f by (intro ok_pages_mark) simp_all
  have "flags PS s1 = mark (flags PS s) k n" unfolding k(3) using n f by (intro taken_mem_flags64) simp_all
  then have "block (flags PS s1) k n" using block_mark [OF n(1)] f by simp
  from dealloc_eq [OF ok1 this] have "dealloc PS p s1 = Some (s1\<lparr>mem := cleared_mem s1 k n\<rparr>)"
    by (simp add: k page_at_def)
  moreover have "cleared_mem s1 k n = mem s"
  proof
    fix x
    show "cleared_mem s1 k n x = mem s x"
    proof (cases "\<exists>i. k \<le> i \<and> i < k + n \<and> x = HEAP_START s + of_nat i")
      case True
      then obtain i where i: "k \<le> i" "i < k + n" "x = HEAP_START s + of_nat i" by blast
      then have "mem s x = Empty"
        using f by (auto simp: run_free_def flags_nth dest: spec [of _ "i - k"])
      then show ?thesis using True by (auto simp: cleared_mem_def k(3))
    next
      case False
      have "k \<le> k + n - 1" "k + n - 1 < k + n" using n(1) by simp_all
      with False have a: "(x = HEAP_START s + of_nat (k + n - 1)) = False" by blast
      have b: "(\<exists>j. k \<le> j \<and> j < k + n - 1 \<and> x = HEAP_START s + of_nat j) = False"
      proof -
        have "j < k + n" if "j < k + n - 1" for j using that by simp
        then show ?thesis using False by blast
      qed
      have l: "k + n < 2 ^ 64" using f N by simp
      have "taken_mem s k n x = mem s x" by (simp only: taken_mem_eq [OF n(1) l] a b if_False)
      moreover have "cleared_mem s1 k n x = taken_mem s k n x" using False by (auto simp: cleared_mem_def k(3))
      ultimately show ?thesis by simp
    qed
  qed
  ultimately show ?thesis by (simp add: k(3))
qed

theorem page_roundtrip_witness:
  "dealloc 0x1000 0x2000 (snd (alloc 0x1000 2 heap64)) = Some heap64"
  using page_roundtrip [OF ok_heap64, of 2] alloc_heap64 [of 2] by simp



end
