(* ===== verification/PageMap.thy ===== *)
theory PageMap
  imports PageTable
begin

text \<open>
  The page tables of \<^verbatim>\<open>gcc/page.c\<close> with pages of 4096 bytes: \<open>map\<close> and \<open>virt_to_phys\<close>. Entries are read
  as a function of a table and an index; a table with its subtables is a tree when no table occurs
  twice. \<open>map\<close> keeps the tree, and changes the translation of the addresses of one page only.
\<close>

section \<open>Entries in memory\<close>

definition sv_ok :: "pages64 \<Rightarrow> bool" where
  "sv_ok s \<longleftrightarrow> ok_pages 4096 s \<and> 4096 dvd unat (ALLOC_START s) \<and>
     unat (HEAP_START s) + num_pages 4096 s \<le> unat (ALLOC_START s)"

definition pages :: "pages64 \<Rightarrow> u64 set" where
  "pages s = page_at 4096 s ` {..<num_pages 4096 s}"

definition held :: "pages64 \<Rightarrow> u64 set" where
  "held s = page_at 4096 s ` {k. k < num_pages 4096 s \<and> flags 4096 s ! k \<noteq> Empty}"

definition ent :: "pages64 \<Rightarrow> u64 \<Rightarrow> nat \<Rightarrow> u64" where
  "ent s t j = load64 (mem s) (entry_at t (of_nat j))"

lemma held_pages: "p \<in> held s \<Longrightarrow> p \<in> pages s"
  by (auto simp: held_def pages_def)

lemma sv_bounds:
  assumes "sv_ok s" "k < num_pages 4096 s"
  shows "unat (page_at 4096 s k) = unat (ALLOC_START s) + 4096 * k"
    "unat (page_at 4096 s k) + 4096 \<le> 2 ^ 64"
  using unat_page_at [of 4096 s k] assms by (simp_all add: sv_ok_def)

lemma page_at_inj:
  assumes "sv_ok s" "j < num_pages 4096 s" "k < num_pages 4096 s"
  shows "page_at 4096 s j = page_at 4096 s k \<longleftrightarrow> j = k"
proof
  assume "page_at 4096 s j = page_at 4096 s k"
  then have "unat (page_at 4096 s j) = unat (page_at 4096 s k)" by (rule arg_cong)
  then show "j = k" unfolding sv_bounds(1) [OF assms(1,2)] sv_bounds(1) [OF assms(1,3)] by simp
qed simp

text \<open>The entries of all pages are an array of double words behind \<open>ALLOC_START\<close>.\<close>

lemma unat_entry:
  assumes "sv_ok s" "k < num_pages 4096 s" "j < 512"
  shows "unat (entry_at (page_at 4096 s k) (of_nat j)) = unat (ALLOC_START s) + 8 * (512 * k + j)"
    "unat (entry_at (page_at 4096 s k) (of_nat j)) + 8 \<le> 2 ^ 64"
proof -
  have "entry_at (page_at 4096 s k) (of_nat j) = page_at 4096 s k + of_nat (8 * j)" by (simp add: entry_at_def)
  moreover have "unat (page_at 4096 s k) + 8 * j < 2 ^ 64" using sv_bounds(2) [OF assms(1,2)] assms(3) by simp
  ultimately have u: "unat (entry_at (page_at 4096 s k) (of_nat j)) = unat (page_at 4096 s k) + 8 * j"
    using unat_add_of_nat [of "page_at 4096 s k" "8 * j"] by simp
  then show "unat (entry_at (page_at 4096 s k) (of_nat j)) = unat (ALLOC_START s) + 8 * (512 * k + j)"
    using sv_bounds(1) [OF assms(1,2)] by simp
  show "unat (entry_at (page_at 4096 s k) (of_nat j)) + 8 \<le> 2 ^ 64"
    using u sv_bounds(2) [OF assms(1,2)] assms(3) by simp
qed

lemma entries_disjoint:
  assumes "sv_ok s" "k < num_pages 4096 s" "j < 512" "k' < num_pages 4096 s" "j' < 512" "k \<noteq> k' \<or> j \<noteq> j'"
  shows "bytes_at (entry_at (page_at 4096 s k) (of_nat j)) 8 \<inter> bytes_at (entry_at (page_at 4096 s k') (of_nat j')) 8 = {}"
proof -
  note u = unat_entry [OF assms(1-3)] unat_entry [OF assms(1,4,5)]
  have "512 * k + j \<noteq> 512 * k' + j'"
  proof
    assume e: "512 * k + j = 512 * k' + j'"
    have "(512 * k + j) div 512 = k" "(512 * k' + j') div 512 = k'" using assms(3,5) by simp_all
    then show False using e assms(6) by simp
  qed
  have d: "bytes_at a 8 \<inter> bytes_at b 8 = {}"
    if "unat a = A + 8 * p" "unat b = A + 8 * q" "p < q" "unat b + 8 \<le> 2 ^ 64" for a b :: u64 and A p q
    using that by (intro bytes_at_disjoint) simp_all
  from \<open>512 * k + j \<noteq> 512 * k' + j'\<close> show ?thesis
    using d [OF u(1,3) _ u(4)] d [OF u(3,1) _ u(2)] by (metis Int_commute nat_neq_iff)
qed

text \<open>A flag is in front of all entries.\<close>

lemma flag_outside:
  assumes "sv_ok s" "k < num_pages 4096 s" "j < 512" "i < num_pages 4096 s"
  shows "HEAP_START s + of_nat i \<notin> bytes_at (entry_at (page_at 4096 s k) (of_nat j)) 8"
proof -
  have b: "unat (HEAP_START s) + num_pages 4096 s \<le> unat (ALLOC_START s)"
    using assms(1) by (simp add: sv_ok_def)
  then have "unat (HEAP_START s + of_nat i) = unat (HEAP_START s) + i"
    using assms(4) unsigned_less [of "ALLOC_START s", where ?'a = nat] by (intro unat_add_of_nat) simp
  then show ?thesis
    using b assms(4) unat_entry [OF assms(1-3)] by (subst bytes_at_interval) simp_all
qed

text \<open>Setting an entry changes that entry only.\<close>

lemma Entry_set_globals [simp]:
  "HEAP_START (Entry_set v e s) = HEAP_START s" "HEAP_SIZE (Entry_set v e s) = HEAP_SIZE s"
  "ALLOC_START (Entry_set v e s) = ALLOC_START s" "num_pages PS (Entry_set v e s) = num_pages PS s"
  "page_at PS (Entry_set v e s) = page_at PS s"
  by (auto simp: Entry_set_def num_pages_def page_at_def fun_eq_iff)

lemma Entry_set_flags:
  assumes "sv_ok s" "t \<in> pages s" "j < 512"
  shows "flags 4096 (Entry_set (entry_at t (of_nat j)) e s) = flags 4096 s"
proof (rule nth_equalityI)
  fix i assume "i < length (flags 4096 (Entry_set (entry_at t (of_nat j)) e s))"
  then have i: "i < num_pages 4096 s" by simp
  obtain k where k: "t = page_at 4096 s k" "k < num_pages 4096 s" using assms(2) by (auto simp: pages_def)
  show "flags 4096 (Entry_set (entry_at t (of_nat j)) e s) ! i = flags 4096 s ! i"
    using i flag_outside [OF assms(1) k(2) assms(3) i]
    by (simp add: flags_nth k(1)) (simp add: Entry_set_def m64.store_frame)
qed simp

lemma Entry_set_ok:
  assumes "sv_ok s" "t \<in> pages s" "j < 512"
  shows "sv_ok (Entry_set (entry_at t (of_nat j)) e s)"
    "held (Entry_set (entry_at t (of_nat j)) e s) = held s"
    "pages (Entry_set (entry_at t (of_nat j)) e s) = pages s"
  using assms Entry_set_flags [OF assms] by (simp_all add: sv_ok_def ok_pages_def held_def pages_def)

lemma Entry_set_ent:
  assumes "sv_ok s" "t \<in> pages s" "j < 512" "p \<in> pages s" "i < 512"
  shows "ent (Entry_set (entry_at t (of_nat j)) e s) p i = (if p = t \<and> i = j then e else ent s p i)"
proof -
  obtain k k' where k: "t = page_at 4096 s k" "k < num_pages 4096 s" "p = page_at 4096 s k'" "k' < num_pages 4096 s"
    using assms by (auto simp: pages_def)
  show ?thesis
  proof (cases "p = t \<and> i = j")
    case True
    then show ?thesis by (simp add: ent_def Entry_set_def m64.load_store)
  next
    case False
    then have "k' \<noteq> k \<or> i \<noteq> j" using k by auto
    then show ?thesis
      using entries_disjoint [OF assms(1) k(4) assms(5) k(2) assms(3)] False
      by (auto simp: ent_def Entry_set_def k(1,3) m64.load_store_other)
  qed
qed

section \<open>A fresh table\<close>

definition fresh :: "pages64 \<Rightarrow> nat \<Rightarrow> pages64" where
  "fresh s k = s\<lparr>mem := zero_dwords (page_at 4096 s k) 0 512 (taken_mem s k 1)\<rparr>"

lemma zalloc_fresh:
  assumes "sv_ok s" "first_fit (flags 4096 s) 1 = Some k"
  shows "zalloc 4096 1 s = (page_at 4096 s k, fresh s k)" "k < num_pages 4096 s - 1" "flags 4096 s ! k = Empty"
proof -
  have "k + 1 < num_pages 4096 s" "run_free (flags 4096 s) 1 k" using first_fit_Some [OF assms(2)] by simp_all
  then show "k < num_pages 4096 s - 1" "flags 4096 s ! k = Empty" by (simp_all add: run_free_def)
  have "alloc 4096 1 s = (page_at 4096 s k, s\<lparr>mem := taken_mem s k 1\<rparr>)"
    using alloc_first_fit [of 1 4096 s] assms \<open>k + 1 < num_pages 4096 s\<close> by (simp add: sv_ok_def)
  then show "zalloc 4096 1 s = (page_at 4096 s k, fresh s k)"
    by (simp add: zalloc_def fresh_def)
qed

lemma fresh_globals [simp]:
  "HEAP_START (fresh s k) = HEAP_START s" "HEAP_SIZE (fresh s k) = HEAP_SIZE s"
  "ALLOC_START (fresh s k) = ALLOC_START s" "num_pages PS (fresh s k) = num_pages PS s"
  "page_at PS (fresh s k) = page_at PS s"
  by (auto simp: fresh_def num_pages_def page_at_def fun_eq_iff)

lemma load64_zero: "(\<And>x. x \<in> bytes_at a 8 \<Longrightarrow> m x = 0) \<Longrightarrow> load64 m a = 0" for m :: mem64
proof -
  assume z: "\<And>x. x \<in> bytes_at a 8 \<Longrightarrow> m x = 0"
  have "load_bytes n (\<lambda>_. 0) b = (0 :: u64)" for n and b :: u64 by (induction n arbitrary: b) simp_all
  then have "load64 (\<lambda>_. 0) a = 0" by (simp add: load64_def)
  moreover have "load64 m a = load64 (\<lambda>_. 0) a" by (rule m64.load_cong) (simp add: z)
  ultimately show ?thesis by simp
qed

lemma fresh_mem:
  "mem (fresh s k) x = (if x \<in> bytes_at (page_at 4096 s k) 4096 then 0 else taken_mem s k 1 x)"
  using zero_dwords_eq [of 0 512 "page_at 4096 s k" "taken_mem s k 1" x] by (simp add: fresh_def)

lemma unat_flag:
  assumes "sv_ok s" "i < num_pages 4096 s"
  shows "unat (HEAP_START s + of_nat i) = unat (HEAP_START s) + i" "unat (HEAP_START s) + i < unat (ALLOC_START s)"
proof -
  have b: "unat (HEAP_START s) + num_pages 4096 s \<le> unat (ALLOC_START s)"
    using assms(1) by (simp add: sv_ok_def)
  then show "unat (HEAP_START s + of_nat i) = unat (HEAP_START s) + i"
    using assms(2) unsigned_less [of "ALLOC_START s", where ?'a = nat] by (intro unat_add_of_nat) simp
  show "unat (HEAP_START s) + i < unat (ALLOC_START s)" using b assms(2) by simp
qed

lemma page_bytes:
  assumes "sv_ok s" "k < num_pages 4096 s"
  shows "x \<in> bytes_at (page_at 4096 s k) 4096 \<longleftrightarrow>
    unat (ALLOC_START s) + 4096 * k \<le> unat x \<and> unat x < unat (ALLOC_START s) + 4096 * k + 4096"
  using sv_bounds [OF assms] by (subst bytes_at_interval) simp_all

lemma fresh_flags:
  assumes "sv_ok s" "k < num_pages 4096 s" "flags 4096 s ! k = Empty"
  shows "flags 4096 (fresh s k) = mark (flags 4096 s) k 1"
proof (rule nth_equalityI)
  fix i assume "i < length (flags 4096 (fresh s k))"
  then have i: "i < num_pages 4096 s" by simp
  have "HEAP_START s + of_nat i \<notin> bytes_at (page_at 4096 s k) 4096"
    using unat_flag [OF assms(1) i] by (simp add: page_bytes [OF assms(1,2)])
  then have "flags 4096 (fresh s k) ! i = flags 4096 (s\<lparr>mem := taken_mem s k 1\<rparr>) ! i"
    using i by (simp add: flags_def num_pages_def) (simp add: fresh_mem)
  then show "flags 4096 (fresh s k) ! i = mark (flags 4096 s) k 1 ! i"
    using taken_mem_flags64 [of 1 k 4096 s] assms by (simp add: run_free_def)
qed simp

lemma fresh_ok:
  assumes "sv_ok s" "k < num_pages 4096 s" "flags 4096 s ! k = Empty"
  shows "sv_ok (fresh s k)" "held (fresh s k) = insert (page_at 4096 s k) (held s)" "pages (fresh s k) = pages s"
proof -
  have "set (mark (flags 4096 s) k 1) \<subseteq> {Taken, Last OR Taken} \<union> set (flags 4096 s)" by (auto simp: mark_def)
  then show "sv_ok (fresh s k)"
    using assms fresh_flags [OF assms] by (auto simp: sv_ok_def ok_pages_def)
  have "flags 4096 (fresh s k) ! i \<noteq> Empty \<longleftrightarrow> i = k \<or> flags 4096 s ! i \<noteq> Empty" if "i < num_pages 4096 s" for i
    unfolding fresh_flags [OF assms] using mark_empty [of i "flags 4096 s" 1 k] that by auto
  then show "held (fresh s k) = insert (page_at 4096 s k) (held s)"
    using assms(2) unfolding held_def by auto
  show "pages (fresh s k) = pages s" by (simp add: pages_def)
qed

lemma fresh_ent:
  assumes s: "sv_ok s" and k: "k < num_pages 4096 s" and p: "p \<in> pages s" and j: "j < 512"
  shows "ent (fresh s k) p j = (if p = page_at 4096 s k then 0 else ent s p j)"
proof -
  obtain i where i: "p = page_at 4096 s i" "i < num_pages 4096 s" using p by (auto simp: pages_def)
  have e: "x \<in> bytes_at (entry_at p (of_nat j)) 8 \<longleftrightarrow>
      unat (ALLOC_START s) + 8 * (512 * i + j) \<le> unat x \<and> unat x < unat (ALLOC_START s) + 8 * (512 * i + j) + 8" for x
    using unat_entry [OF s i(2) j] by (subst bytes_at_interval) (simp_all add: i(1))
  show ?thesis
  proof (cases "i = k")
    case True
    have "mem (fresh s k) x = 0" if "x \<in> bytes_at (entry_at p (of_nat j)) 8" for x
      using that j True by (simp add: e fresh_mem page_bytes [OF s k])
    then have "load64 (mem (fresh s k)) (entry_at p (of_nat j)) = 0" by (rule load64_zero)
    then show ?thesis using True i by (simp add: ent_def)
  next
    case False
    have "mem (fresh s k) x = mem s x" if x: "x \<in> bytes_at (entry_at p (of_nat j)) 8" for x
    proof -
      have b: "unat (ALLOC_START s) + 4096 * i \<le> unat x" "unat x < unat (ALLOC_START s) + 4096 * i + 4096"
        using x j unfolding e by simp_all
      then have "x \<notin> bytes_at (page_at 4096 s k) 4096"
        unfolding page_bytes [OF s k] using False by (auto simp: not_less neq_iff)
      moreover have "x \<noteq> HEAP_START s + of_nat l" if "l < num_pages 4096 s" for l
        using unat_flag [OF s that] b by auto
      then have "taken_mem s k 1 x = mem s x"
        using k num_pages_less64 [of 4096 s] by (auto simp: taken_mem_eq)
      ultimately show ?thesis by (simp add: fresh_mem)
    qed
    then have "ent (fresh s k) p j = ent s p j" unfolding ent_def by (rule m64.load_cong)
    then show ?thesis using False i page_at_inj [OF s i(2) k] by simp
  qed
qed

section \<open>Trees of tables\<close>

definition valid_e :: "u64 \<Rightarrow> bool" where
  "valid_e e \<longleftrightarrow> e AND Valid \<noteq> 0"

definition leaf_e :: "u64 \<Rightarrow> bool" where
  "leaf_e e \<longleftrightarrow> e AND 0xe \<noteq> 0"

definition branch_e :: "u64 \<Rightarrow> bool" where
  "branch_e e \<longleftrightarrow> valid_e e \<and> \<not> leaf_e e"

definition idx :: "u64 \<Rightarrow> nat \<Rightarrow> nat" where
  "idx va i = unat (vpn va i)"

definition page_mask :: "nat \<Rightarrow> u64" where
  "page_mask i = push_bit (12 + i * 9) 1 - 1"

text \<open>The translation over the entries: 0 for an address that is not mapped.\<close>

fun xlate :: "(u64 \<Rightarrow> nat \<Rightarrow> u64) \<Rightarrow> u64 \<Rightarrow> nat \<Rightarrow> u64 \<Rightarrow> u64 option" where
  "xlate E va i t =
     (let e = E t (idx va i)
      in if \<not> valid_e e then Some 0
         else if leaf_e e then Some ((push_bit 2 e AND NOT (page_mask i)) OR (va AND page_mask i))
         else case i of 0 \<Rightarrow> None | Suc j \<Rightarrow> xlate E va j (next_table e))"

declare xlate.simps [simp del]

text \<open>A table of level \<open>i\<close> with its subtables; each is a page of the set \<open>P\<close> and occurs once, and the
  tables of level 0 only have leaves.\<close>

fun tables :: "(u64 \<Rightarrow> nat \<Rightarrow> u64) \<Rightarrow> nat \<Rightarrow> u64 \<Rightarrow> u64 set" where
  "tables E 0 t = {t}"
| "tables E (Suc i) t = insert t (\<Union>j \<in> {j. j < 512 \<and> branch_e (E t j)}. tables E i (next_table (E t j)))"

fun tree :: "(u64 \<Rightarrow> nat \<Rightarrow> u64) \<Rightarrow> u64 set \<Rightarrow> nat \<Rightarrow> u64 \<Rightarrow> bool" where
  "tree E P 0 t \<longleftrightarrow> t \<in> P \<and> (\<forall>j < 512. \<not> branch_e (E t j))"
| "tree E P (Suc i) t \<longleftrightarrow> t \<in> P \<and>
     (\<forall>j < 512. branch_e (E t j) \<longrightarrow>
        tree E P i (next_table (E t j)) \<and> t \<notin> tables E i (next_table (E t j))) \<and>
     (\<forall>j < 512. \<forall>k < 512. j \<noteq> k \<longrightarrow> branch_e (E t j) \<longrightarrow> branch_e (E t k) \<longrightarrow>
        tables E i (next_table (E t j)) \<inter> tables E i (next_table (E t k)) = {})"

lemma idx_less [simp]: "idx va i < 512"
proof -
  have "vpn va i \<le> 0x1ff" unfolding vpn_def by (rule word_and_le1)
  then show ?thesis by (simp add: idx_def word_le_nat_alt)
qed

lemma vpn_idx: "vpn va i = of_nat (idx va i)"
  by (simp add: idx_def)

lemma root_in_tables: "t \<in> tables E i t"
  by (cases i) simp_all

lemma tree_tables: "tree E P i t \<Longrightarrow> tables E i t \<subseteq> P"
  by (induction i arbitrary: t) auto

lemma tree_mono: "tree E P i t \<Longrightarrow> P \<subseteq> P' \<Longrightarrow> tree E P' i t"
  by (induction i arbitrary: t) auto

lemma tree_root: "tree E P i t \<Longrightarrow> t \<in> P"
  by (cases i) simp_all

lemma tables_child: "j < 512 \<Longrightarrow> branch_e (E t j) \<Longrightarrow> tables E i (next_table (E t j)) \<subseteq> tables E (Suc i) t"
  by auto

lemma tables_SucI:
  "t \<in> X \<Longrightarrow> (\<And>k. k < 512 \<Longrightarrow> branch_e (E t k) \<Longrightarrow> tables E i (next_table (E t k)) \<subseteq> X) \<Longrightarrow> tables E (Suc i) t \<subseteq> X"
  by (simp add: UN_subset_iff)

text \<open>Entries outside of the tables do not matter.\<close>

lemma tables_cong:
  "(\<And>p j. p \<in> tables E i t \<Longrightarrow> j < 512 \<Longrightarrow> E' p j = E p j) \<Longrightarrow> tables E' i t = tables E i t"
proof (induction i arbitrary: t)
  case (Suc i)
  have e: "E' t j = E t j" if "j < 512" for j using Suc.prems [of t j] that by simp
  have "tables E' i (next_table (E t j)) = tables E i (next_table (E t j))" if "j < 512" "branch_e (E t j)" for j
    using tables_child [of j E t, OF that, of i] by (intro Suc.IH Suc.prems) auto
  then show ?case using e by auto
qed simp

lemma tree_cong:
  "(\<And>p j. p \<in> tables E i t \<Longrightarrow> j < 512 \<Longrightarrow> E' p j = E p j) \<Longrightarrow> tree E P i t \<Longrightarrow> tree E' P i t"
proof (induction i arbitrary: t)
  case (Suc i)
  have e: "E' t j = E t j" if "j < 512" for j using Suc.prems(1) [of t j] that by simp
  have c: "\<And>p l. p \<in> tables E i (next_table (E t j)) \<Longrightarrow> l < 512 \<Longrightarrow> E' p l = E p l" if "j < 512" "branch_e (E t j)" for j
    using Suc.prems(1) tables_child [of j E t, OF that, of i] by blast
  have "tables E' i (next_table (E t j)) = tables E i (next_table (E t j))" if "j < 512" "branch_e (E t j)" for j
    by (rule tables_cong) (rule c [OF that])
  moreover have "tree E' P i (next_table (E t j))" if "j < 512" "branch_e (E t j)" for j
    using Suc.prems(2) that by (intro Suc.IH c [OF that]) auto
  ultimately show ?case using Suc.prems(2) e by simp
qed simp

lemma xlate_cong:
  "(\<And>p j. p \<in> tables E i t \<Longrightarrow> j < 512 \<Longrightarrow> E' p j = E p j) \<Longrightarrow> xlate E' va i t = xlate E va i t"
proof (induction i arbitrary: t)
  case 0
  then show ?case by (simp add: xlate.simps [of _ _ 0] Let_def)
next
  case (Suc i)
  let ?e = "E t (idx va (Suc i))"
  have e: "E' t (idx va (Suc i)) = ?e" using Suc.prems [of t] by simp
  have "xlate E' va i (next_table ?e) = xlate E va i (next_table ?e)" if "branch_e ?e"
    using tables_child [of "idx va (Suc i)" E t i] that by (intro Suc.IH Suc.prems) auto
  then show ?case by (auto simp: xlate.simps [of _ _ "Suc i"] e Let_def branch_e_def)
qed

text \<open>On a tree the translation never runs off the tables.\<close>

lemma xlate_total: "tree E P i t \<Longrightarrow> \<exists>pa. xlate E va i t = Some pa"
proof (induction i arbitrary: t)
  case 0
  then have "\<not> branch_e (E t (idx va 0))" by simp
  then show ?case by (auto simp: xlate.simps [of _ _ 0] Let_def branch_e_def)
next
  case (Suc i)
  let ?e = "E t (idx va (Suc i))"
  show ?case
  proof (cases "branch_e ?e")
    case True
    then have "tree E P i (next_table ?e)" using Suc.prems by simp
    then show ?thesis using Suc.IH True by (auto simp: xlate.simps [of _ _ "Suc i"] Let_def branch_e_def)
  next
    case False
    then show ?thesis by (auto simp: xlate.simps [of _ _ "Suc i"] Let_def branch_e_def)
  qed
qed

text \<open>A subtree whose entries do not change, and a tree of which one child changes.\<close>

lemma same_subtree:
  assumes "\<And>p l. p \<in> tables E i t \<Longrightarrow> l < 512 \<Longrightarrow> E' p l = E p l"
  shows "tables E' i t = tables E i t" "tree E P i t \<Longrightarrow> P \<subseteq> P' \<Longrightarrow> tree E' P' i t"
    "xlate E' va i t = xlate E va i t"
proof -
  show "tables E' i t = tables E i t" by (rule tables_cong) (rule assms)
  show "xlate E' va i t = xlate E va i t" by (rule xlate_cong) (rule assms)
  assume "tree E P i t" "P \<subseteq> P'"
  from this(1) have "tree E' P i t" by (rule tree_cong [rotated]) (rule assms)
  then show "tree E' P' i t" using \<open>P \<subseteq> P'\<close> by (rule tree_mono)
qed

lemma tree_replace:
  assumes tr: "tree E P (Suc i) t" and P: "P \<subseteq> P'"
    and b: "\<And>m. m < 512 \<Longrightarrow> branch_e (E' t m) \<longleftrightarrow> m = j \<or> branch_e (E t m)"
    and n: "\<And>m. m < 512 \<Longrightarrow> next_table (E' t m) = (if m = j then c else next_table (E t m))"
    and same: "\<And>m q l. m < 512 \<Longrightarrow> branch_e (E t m) \<Longrightarrow> m \<noteq> j \<Longrightarrow>
      q \<in> tables E i (next_table (E t m)) \<Longrightarrow> l < 512 \<Longrightarrow> E' q l = E q l"
    and c: "tree E' P' i c" "t \<notin> tables E' i c"
    and d: "\<And>m. m < 512 \<Longrightarrow> branch_e (E t m) \<Longrightarrow> m \<noteq> j \<Longrightarrow> tables E' i c \<inter> tables E i (next_table (E t m)) = {}"
  shows "tree E' P' (Suc i) t"
proof -
  have to: "tables E' i (next_table (E t m)) = tables E i (next_table (E t m))"
    and tro: "tree E' P' i (next_table (E t m))" if "m < 512" "branch_e (E t m)" "m \<noteq> j" for m
  proof -
    show "tables E' i (next_table (E t m)) = tables E i (next_table (E t m))"
      by (rule same_subtree(1)) (rule same [OF that])
    have "tree E P i (next_table (E t m))" using tr that by simp
    then show "tree E' P' i (next_table (E t m))"
      by (rule same_subtree(2) [rotated, OF _ P]) (rule same [OF that])
  qed
  have "tree E' P' i (next_table (E' t m)) \<and> t \<notin> tables E' i (next_table (E' t m))"
    if m: "m < 512" "branch_e (E' t m)" for m
    using b [OF m(1)] n [OF m(1)] m(2) c tro [OF m(1)] to [OF m(1)] tr m(1) by (cases "m = j") simp_all
  moreover have "tables E' i (next_table (E' t m)) \<inter> tables E' i (next_table (E' t k)) = {}"
    if mk: "m < 512" "k < 512" "m \<noteq> k" "branch_e (E' t m)" "branch_e (E' t k)" for m k
  proof -
    consider "m = j" "k \<noteq> j" | "m \<noteq> j" "k = j" | "m \<noteq> j" "k \<noteq> j" using mk(3) by blast
    then show ?thesis
    proof cases
      case 3
      then have "tables E i (next_table (E t m)) \<inter> tables E i (next_table (E t k)) = {}"
        using tr mk b by simp
      then show ?thesis using 3 mk b n to by simp
    qed (use mk b n to d in \<open>simp_all add: Int_commute\<close>)
  qed
  ultimately show ?thesis using tr P by auto
qed

section \<open>The code over the entries\<close>

lemma entry_tests:
  "Entry_is_invalid v s \<noteq> 0 \<longleftrightarrow> \<not> valid_e (load64 (mem s) v)"
  "Entry_is_leaf v s \<noteq> 0 \<longleftrightarrow> leaf_e (load64 (mem s) v)"
proof -
  have "(ucast (e AND Valid) :: u8) = 0 \<longleftrightarrow> e AND Valid = 0" for e :: u64
  proof -
    have "e AND Valid = (if bit e 0 then 1 else 0)"
      by (rule bit_word_eqI) (auto simp: Valid_def bit_and_iff bit_1_iff intro!: gr0I)
    then show ?thesis by simp
  qed
  then show "Entry_is_invalid v s \<noteq> 0 \<longleftrightarrow> \<not> valid_e (load64 (mem s) v)"
    by (simp add: Entry_is_invalid_def Entry_is_valid_def valid_e_def)
qed (simp add: Entry_is_leaf_def leaf_e_def)

lemma virt_walk_xlate:
  "map_option fst (virt_walk va i (entry_at t (vpn va i)) s) = xlate (ent s) va i t"
proof (induction i arbitrary: t)
  case 0
  show ?case
    by (subst virt_walk.simps, subst xlate.simps)
      (simp add: entry_tests vpn_idx ent_def [symmetric] Let_def page_mask_def)
next
  case (Suc i)
  show ?case
    by (subst virt_walk.simps, subst xlate.simps)
      (simp add: entry_tests vpn_idx [of va "Suc i"] ent_def [symmetric] Let_def page_mask_def Suc.IH)
qed

section \<open>Setting an entry, adding a table\<close>

definition region :: "nat \<Rightarrow> nat \<Rightarrow> u64 \<Rightarrow> u64 \<Rightarrow> bool" where
  "region l i va va' \<longleftrightarrow> (\<forall>k. l \<le> k \<and> k \<le> i \<longrightarrow> idx va' k = idx va k)"

text \<open>What mapping an address with the entry \<open>e\<close> at level \<open>l\<close> does to the tree of a table of level \<open>i\<close>.\<close>

definition mapped :: "pages64 \<Rightarrow> pages64 \<Rightarrow> u64 \<Rightarrow> u64 \<Rightarrow> nat \<Rightarrow> nat \<Rightarrow> u64 \<Rightarrow> bool" where
  "mapped s s' va e l i t \<longleftrightarrow>
     sv_ok s' \<and> pages s' = pages s \<and> held s \<subseteq> held s' \<and> tree (ent s') (held s') i t \<and>
     tables (ent s') i t \<subseteq> tables (ent s) i t \<union> (held s' - held s) \<and>
     (\<forall>p \<in> held s - tables (ent s) i t. \<forall>j < 512. ent s' p j = ent s p j) \<and>
     (\<forall>va'. xlate (ent s') va' i t =
        (if region l i va va' then Some ((push_bit 2 e AND NOT (page_mask l)) OR (va' AND page_mask l))
         else xlate (ent s) va' i t))"

lemma tree_pages: "tree (ent s) (held s) i t \<Longrightarrow> p \<in> tables (ent s) i t \<Longrightarrow> p \<in> pages s"
  using tree_tables held_pages by blast

text \<open>A leaf written to a table: the level of the leaf.\<close>

lemma set_leaf:
  assumes s: "sv_ok s" "tree (ent s) (held s) i t" and e: "valid_e e" "leaf_e e"
  shows "mapped s (Entry_set (entry_at t (of_nat (idx va i))) e s) va e i i t"
proof -
  let ?j = "idx va i" and ?s = "Entry_set (entry_at t (of_nat (idx va i))) e s"
  have t: "t \<in> pages s" using s(2) tree_root held_pages by blast
  note ok = Entry_set_ok [OF s(1) t idx_less, of va i e]
  have E: "ent ?s p l = (if p = t \<and> l = ?j then e else ent s p l)" if "p \<in> pages s" "l < 512" for p l
    using Entry_set_ent [OF s(1) t idx_less that] .
  have tb: "branch_e (ent ?s t l) \<longleftrightarrow> l \<noteq> ?j \<and> branch_e (ent s t l)" if "l < 512" for l
    using E [OF t that] e by (auto simp: branch_e_def)
  have te: "l \<noteq> ?j \<Longrightarrow> l < 512 \<Longrightarrow> ent ?s t l = ent s t l" for l using E [OF t] by simp
  have x: "xlate (ent ?s) va' i t = Some ((push_bit 2 e AND NOT (page_mask i)) OR (va' AND page_mask i))"
    if "idx va' i = ?j" for va'
    using that E [OF t, of ?j] e by (simp add: xlate.simps [of _ _ i] Let_def)
  show ?thesis
  proof (cases i)
    case 0
    have "tree (ent ?s) (held ?s) i t" using s(2) tb ok(2) by (simp add: 0)
    moreover have "xlate (ent ?s) va' i t = xlate (ent s) va' i t" if "idx va' i \<noteq> ?j" for va'
      using te [OF that idx_less] by (simp add: 0 xlate.simps [of _ _ 0] Let_def)
    ultimately show ?thesis
      using ok x E held_pages e by (auto simp: mapped_def region_def 0 branch_e_def)
  next
    case (Suc i')
    have c: "ent ?s p l = ent s p l"
      if "p \<in> tables (ent s) i' (next_table (ent s t m))" "m < 512" "branch_e (ent s t m)" "l < 512" for p l m
    proof -
      have "p \<noteq> t" using s(2) that unfolding Suc by auto
      moreover have "p \<in> pages s"
        using tree_pages [OF s(2)] tables_child [of m "ent s" t i'] that unfolding Suc by blast
      ultimately show ?thesis using E that(4) by simp
    qed
    have tc: "tables (ent ?s) i' (next_table (ent s t m)) = tables (ent s) i' (next_table (ent s t m))"
      and trc: "tree (ent ?s) (held ?s) i' (next_table (ent s t m))"
      and xc: "xlate (ent ?s) va' i' (next_table (ent s t m)) = xlate (ent s) va' i' (next_table (ent s t m))"
      if m: "m < 512" "branch_e (ent s t m)" for m va'
    proof -
      note same = same_subtree [of "ent s" i' "next_table (ent s t m)" "ent ?s", OF c [OF _ m]]
      have "tree (ent s) (held s) i' (next_table (ent s t m))" using s(2) m unfolding Suc by simp
      from same(2) [OF _ _ this] ok(2) show "tree (ent ?s) (held ?s) i' (next_table (ent s t m))" by simp
    qed (use same_subtree [of "ent s" i' "next_table (ent s t m)" "ent ?s", OF c [OF _ m]] in simp_all)
    have "tree (ent ?s) (held ?s) (Suc i') t"
      using s(2) tb te tc trc tree_root ok(2) unfolding Suc by simp
    moreover have "tables (ent ?s) (Suc i') t \<subseteq> tables (ent s) (Suc i') t"
      using tb te tc by fastforce
    moreover have "xlate (ent ?s) va' i t = xlate (ent s) va' i t" if "idx va' i \<noteq> ?j" for va'
      using te [OF that idx_less] xc [of "idx va' i" va']
      by (auto simp: Suc xlate.simps [of _ _ "Suc i'"] Let_def branch_e_def)
    moreover have "\<forall>p \<in> held s - tables (ent s) (Suc i') t. \<forall>l < 512. ent ?s p l = ent s p l"
    proof (intro ballI allI impI)
      fix p l assume p: "p \<in> held s - tables (ent s) (Suc i') t" and l: "l < (512 :: nat)"
      then have "p \<noteq> t" using root_in_tables [of t "ent s" "Suc i'"] by blast
      then show "ent ?s p l = ent s p l" using E [OF held_pages l] p by simp
    qed
    moreover have "region i i va va' \<longleftrightarrow> idx va' i = ?j" for va' by (auto simp: region_def)
    ultimately show ?thesis
      using ok x unfolding mapped_def Suc by (auto simp del: tree.simps tables.simps)
  qed
qed

text \<open>From a subtable up to its table.\<close>

lemma mapped_up:
  assumes tr: "tree (ent s) (held s) (Suc i) t" and b: "branch_e (ent s t (idx va (Suc i)))" and l: "l \<le> i"
    and m: "mapped s s' va e l i (next_table (ent s t (idx va (Suc i))))"
  shows "mapped s s' va e l (Suc i) t"
proof -
  let ?j = "idx va (Suc i)"
  let ?c = "next_table (ent s t ?j)"
  have sub: "held s \<subseteq> held s'" and new: "tables (ent s') i ?c \<subseteq> tables (ent s) i ?c \<union> (held s' - held s)"
    and fr: "\<And>p k. p \<in> held s - tables (ent s) i ?c \<Longrightarrow> k < 512 \<Longrightarrow> ent s' p k = ent s p k"
    and trc: "tree (ent s') (held s') i ?c"
    using m by (auto simp: mapped_def)
  have t: "t \<in> held s" "t \<notin> tables (ent s) i ?c" using tr b by simp_all
  have te: "ent s' t k = ent s t k" if "k < 512" for k using fr t that by simp
  have old: "tables (ent s) i (next_table (ent s t k)) \<subseteq> held s" if "k < 512" "branch_e (ent s t k)" for k
    using tr that tree_tables [of "ent s" "held s" i] by simp
  have o: "ent s' p n = ent s p n"
    if "p \<in> tables (ent s) i (next_table (ent s t k))" "k < 512" "branch_e (ent s t k)" "k \<noteq> ?j" "n < 512" for p k n
  proof -
    have "tables (ent s) i (next_table (ent s t k)) \<inter> tables (ent s) i ?c = {}" using tr b that by simp
    then show ?thesis using old that by (intro fr) auto
  qed
  have to: "tables (ent s') i (next_table (ent s t k)) = tables (ent s) i (next_table (ent s t k))"
    and xo: "xlate (ent s') va' i (next_table (ent s t k)) = xlate (ent s) va' i (next_table (ent s t k))"
    if k: "k < 512" "branch_e (ent s t k)" "k \<noteq> ?j" for k va'
    using same_subtree [of "ent s" i "next_table (ent s t k)" "ent s'", OF o [OF _ k]] by simp_all
  have tree': "tree (ent s') (held s') (Suc i) t"
  proof (rule tree_replace [OF tr sub, where j = ?j and c = ?c])
    show "t \<notin> tables (ent s') i ?c" using new t by blast
    fix m assume m: "m < 512" "branch_e (ent s t m)" "m \<noteq> ?j"
    have "tables (ent s) i ?c \<inter> tables (ent s) i (next_table (ent s t m)) = {}" using tr b m by simp
    then show "tables (ent s') i ?c \<inter> tables (ent s) i (next_table (ent s t m)) = {}" using new old [of m] m by blast
  qed (use te b o trc in auto)
  have "tables (ent s') i (next_table (ent s t k)) \<subseteq> tables (ent s) (Suc i) t \<union> (held s' - held s)"
    if k: "k < 512" "branch_e (ent s t k)" for k
    using new to [OF k] tables_child [of k "ent s" t i, OF k] by (cases "k = ?j") auto
  then have tables': "tables (ent s') (Suc i) t \<subseteq> tables (ent s) (Suc i) t \<union> (held s' - held s)"
    using te root_in_tables by (intro tables_SucI) simp_all
  have frame: "\<forall>p \<in> held s - tables (ent s) (Suc i) t. \<forall>k < 512. ent s' p k = ent s p k"
    using fr tables_child [of ?j "ent s" t i] b by auto
  have x: "xlate (ent s') va' (Suc i) t =
      (if region l (Suc i) va va' then Some ((push_bit 2 e AND NOT (page_mask l)) OR (va' AND page_mask l))
       else xlate (ent s) va' (Suc i) t)" for va'
  proof (cases "idx va' (Suc i) = ?j")
    case True
    then have "region l (Suc i) va va' \<longleftrightarrow> region l i va va'"
      using l by (auto simp: region_def le_Suc_eq)
    moreover have "xlate (ent s') va' (Suc i) t = xlate (ent s') va' i ?c" "xlate (ent s) va' (Suc i) t = xlate (ent s) va' i ?c"
      using True b te by (simp_all add: xlate.simps [of _ _ "Suc i"] branch_e_def)
    ultimately show ?thesis using m by (simp add: mapped_def)
  next
    case False
    then have "\<not> region l (Suc i) va va'" using l unfolding region_def by (metis le_Suc_eq le_refl)
    moreover have "xlate (ent s') va' (Suc i) t = xlate (ent s) va' (Suc i) t"
      using te xo [of "idx va' (Suc i)"] False by (auto simp: xlate.simps [of _ _ "Suc i"] branch_e_def Let_def)
    ultimately show ?thesis by simp
  qed
  show ?thesis using m tree' tables' frame x by (simp only: mapped_def) blast
qed

text \<open>The entry for a page: a branch to it.\<close>

lemma aligned_bit:
  assumes "4096 dvd unat (p :: u64)" "n < 12"
  shows "\<not> bit p n"
proof -
  have "take_bit 12 (unat p) = 0" using assms(1) by (simp add: take_bit_eq_mod mod_eq_0_iff_dvd)
  then have "\<not> bit (take_bit 12 (unat p)) n" by simp
  then show ?thesis using assms(2) by (simp add: bit_take_bit_iff bit_unsigned_iff)
qed

lemma bit_numeral_0x3ff: "bit (0x3ff :: u64) n \<longleftrightarrow> n < 10"
proof -
  have "bit (0x3ff :: u64) n \<longleftrightarrow> bit (mask 10 :: u64) n" by (simp add: mask_eq_exp_minus_1)
  also have "\<dots> \<longleftrightarrow> n < 10" by (auto simp only: bit_mask_iff possible_bit_word) simp
  finally show ?thesis .
qed

lemma bit_next_table: "bit (next_table e) n \<longleftrightarrow> 12 \<le> n \<and> n < 64 \<and> bit e (n - 2)"
  unfolding next_table_def bit_push_bit_iff bit_and_iff bit_not_iff bit_numeral_0x3ff possible_bit_word by auto

lemma leaf_e_bits: "leaf_e e \<longleftrightarrow> bit e 1 \<or> bit e 2 \<or> bit e 3"
proof -
  have b: "bit (0xe :: u64) n \<longleftrightarrow> n = 1 \<or> n = 2 \<or> n = 3" for n
  proof -
    have "bit (0xe :: u64) n \<longleftrightarrow> bit (push_bit 1 (mask 3) :: u64) n" by (simp add: mask_eq_exp_minus_1)
    also have "\<dots> \<longleftrightarrow> n = 1 \<or> n = 2 \<or> n = 3"
      by (simp only: bit_push_bit_iff bit_mask_iff possible_bit_word) auto
    finally show ?thesis .
  qed
  have "e AND 0xe = 0 \<longleftrightarrow> (\<forall>n. \<not> bit (e AND 0xe) n)"
    by (metis bit_0_eq bit_eq_iff bot_apply bot_bool_def)
  then show ?thesis unfolding leaf_e_def bit_and_iff b by auto
qed

lemma valid_e_bit: "valid_e e \<longleftrightarrow> bit e 0"
proof -
  have "e AND Valid = (if bit e 0 then 1 else 0)"
    by (rule bit_word_eqI) (auto simp: Valid_def bit_and_iff bit_1_iff intro!: gr0I)
  then show ?thesis by (simp add: valid_e_def)
qed

lemma new_branch:
  assumes "4096 dvd unat p"
  shows "branch_e (drop_bit 2 p OR Valid)" "next_table (drop_bit 2 p OR Valid) = p"
proof -
  have v: "bit Valid n \<longleftrightarrow> n = 0" for n by (simp add: Valid_def bit_1_iff)
  show "branch_e (drop_bit 2 p OR Valid)"
    using aligned_bit [OF assms] by (simp add: branch_e_def valid_e_bit leaf_e_bits bit_or_iff bit_drop_bit_eq v)
  show "next_table (drop_bit 2 p OR Valid) = p"
  proof (rule bit_word_eqI)
    fix n assume "n < LENGTH(64)"
    then show "bit (next_table (drop_bit 2 p OR Valid)) n \<longleftrightarrow> bit p n"
    proof (cases "n < 12")
      case True
      then show ?thesis using aligned_bit [OF assms] by (simp add: bit_next_table)
    next
      case False
      then have "2 + (n - 2) = n" by simp
      then show ?thesis using False \<open>n < LENGTH(64)\<close> by (simp add: bit_next_table bit_or_iff bit_drop_bit_eq v)
    qed
  qed
qed

lemma page_aligned: "sv_ok s \<Longrightarrow> p \<in> pages s \<Longrightarrow> 4096 dvd unat p"
  using sv_bounds(1) by (auto simp: pages_def sv_ok_def)

text \<open>A new table for an entry that is not valid.\<close>

lemma add_table:
  assumes s: "sv_ok s" and tr: "tree (ent s) (held s) (Suc i) t"
    and iv: "\<not> valid_e (ent s t (idx va (Suc i)))" and k: "k < num_pages 4096 s" "flags 4096 s ! k = Empty"
  defines "p \<equiv> page_at 4096 s k"
  defines "s2 \<equiv> Entry_set (entry_at t (of_nat (idx va (Suc i)))) (drop_bit 2 p OR Valid) (fresh s k)"
  shows "sv_ok s2" "pages s2 = pages s" "held s2 = insert p (held s)" "p \<notin> held s"
    "flags 4096 s2 = mark (flags 4096 s) k 1" "num_pages 4096 s2 = num_pages 4096 s"
    "tree (ent s2) (held s2) (Suc i) t"
    "tables (ent s2) (Suc i) t \<subseteq> insert p (tables (ent s) (Suc i) t)"
    "tables (ent s) (Suc i) t \<subseteq> tables (ent s2) (Suc i) t"
    "branch_e (ent s2 t (idx va (Suc i)))" "next_table (ent s2 t (idx va (Suc i))) = p"
    "\<forall>j < 512. ent s2 p j = 0"
    "\<forall>q \<in> held s - {t}. \<forall>j < 512. ent s2 q j = ent s q j"
    "xlate (ent s2) va' (Suc i) t = xlate (ent s) va' (Suc i) t"
proof -
  let ?j = "idx va (Suc i)"
  have p: "p \<in> pages s" using k by (simp add: p_def pages_def)
  have t: "t \<in> held s" "t \<in> pages s" using tree_root [OF tr] held_pages by auto
  note f = fresh_ok [OF s k]
  have tf: "t \<in> pages (fresh s k)" using t f by simp
  note e = Entry_set_ok [OF f(1) tf idx_less, of va "Suc i" "drop_bit 2 p OR Valid", folded s2_def]
  show "sv_ok s2" and pg: "pages s2 = pages s" and h: "held s2 = insert p (held s)"
    using e f by (simp_all add: p_def)
  show pn: "p \<notin> held s" using page_at_inj [OF s k(1)] k(2) by (auto simp: held_def p_def)
  then have tp: "t \<noteq> p" using t by auto
  show "flags 4096 s2 = mark (flags 4096 s) k 1"
    using Entry_set_flags [OF f(1) tf idx_less, of va "Suc i"] fresh_flags [OF s k] by (simp add: s2_def)
  show "num_pages 4096 s2 = num_pages 4096 s" by (simp add: s2_def)
  have E: "ent s2 q l = (if q = t \<and> l = ?j then drop_bit 2 p OR Valid else if q = p then 0 else ent s q l)"
    if "q \<in> pages s" "l < 512" for q l
    using Entry_set_ent [OF f(1) tf idx_less, of q l va "Suc i" "drop_bit 2 p OR Valid"]
      fresh_ent [OF s k(1) that, folded p_def] f(3) that
    by (simp only: s2_def)
  have te: "ent s2 t l = (if l = ?j then drop_bit 2 p OR Valid else ent s t l)" if "l < 512" for l
    using E [OF t(2) that] tp by simp
  note nb = new_branch [OF page_aligned [OF s p]]
  show tj: "branch_e (ent s2 t ?j)" "next_table (ent s2 t ?j) = p" using te [OF idx_less] nb by simp_all
  show p0: "\<forall>l < 512. ent s2 p l = 0" using E [OF p] tp by auto
  show "\<forall>q \<in> held s - {t}. \<forall>l < 512. ent s2 q l = ent s q l"
    using E held_pages pn by auto
  have p0b: "\<not> branch_e (ent s2 p l)" if "l < 512" for l using p0 that by (simp add: branch_e_def valid_e_bit)
  have Tp: "tables (ent s2) i p = {p}" by (cases i) (auto simp: p0b)
  have Rp: "tree (ent s2) (held s2) i p" by (cases i) (auto simp: p0b h)
  have c: "ent s2 q l = ent s q l"
    if "q \<in> tables (ent s) i (next_table (ent s t m))" "m < 512" "branch_e (ent s t m)" "l < 512" for q l m
  proof -
    have "q \<noteq> t" using tr that by auto
    moreover have "q \<in> held s"
      using tree_tables [OF tr] tables_child [of m "ent s" t i] that by blast
    ultimately show ?thesis using E [OF held_pages that(4)] pn by auto
  qed
  have to: "tables (ent s2) i (next_table (ent s t m)) = tables (ent s) i (next_table (ent s t m))"
    and xo: "xlate (ent s2) va' i (next_table (ent s t m)) = xlate (ent s) va' i (next_table (ent s t m))"
    if m: "m < 512" "branch_e (ent s t m)" for m
    using same_subtree [of "ent s" i "next_table (ent s t m)" "ent s2", OF c [OF _ m]] by simp_all
  have bj: "\<not> branch_e (ent s t ?j)" using iv by (simp add: branch_e_def)
  have cases: "branch_e (ent s2 t m) \<longleftrightarrow> m = ?j \<or> branch_e (ent s t m)"
    "next_table (ent s2 t m) = (if m = ?j then p else next_table (ent s t m))" if "m < 512" for m
    using te [OF that] nb by auto
  show "tree (ent s2) (held s2) (Suc i) t"
  proof (rule tree_replace [OF tr _ cases c Rp])
    show "t \<notin> tables (ent s2) i p" using Tp tp by simp
    fix m assume m: "m < 512" "branch_e (ent s t m)"
    show "tables (ent s2) i p \<inter> tables (ent s) i (next_table (ent s t m)) = {}"
      using Tp pn tree_tables [OF tr] tables_child [of m "ent s" t i, OF m] by auto
  qed (use h in auto)
  show "tables (ent s2) (Suc i) t \<subseteq> insert p (tables (ent s) (Suc i) t)"
  proof (rule tables_SucI)
    fix m assume m: "m < 512" "branch_e (ent s2 t m)"
    show "tables (ent s2) i (next_table (ent s2 t m)) \<subseteq> insert p (tables (ent s) (Suc i) t)"
      using cases [OF m(1)] m Tp to [OF m(1)] tables_child [of m "ent s" t i] by (cases "m = ?j") auto
  qed simp
  show "tables (ent s) (Suc i) t \<subseteq> tables (ent s2) (Suc i) t"
  proof (rule tables_SucI)
    fix m assume m: "m < 512" "branch_e (ent s t m)"
    then have "m \<noteq> ?j" using bj by blast
    then show "tables (ent s) i (next_table (ent s t m)) \<subseteq> tables (ent s2) (Suc i) t"
      using cases [OF m(1)] m to [OF m] tables_child [of m "ent s2" t i] by simp
  qed simp
  show "xlate (ent s2) va' (Suc i) t = xlate (ent s) va' (Suc i) t"
  proof (cases "idx va' (Suc i) = ?j")
    case True
    have "xlate (ent s2) va' i p = Some 0"
      using p0 by (simp add: xlate.simps [of _ _ i] Let_def valid_e_bit)
    then show ?thesis
      using True tj iv by (simp add: xlate.simps [of _ _ "Suc i"] Let_def branch_e_def)
  next
    case False
    then show ?thesis
      using te [OF idx_less, of va' "Suc i"] xo [OF idx_less, of va' "Suc i"]
      by (auto simp: xlate.simps [of _ _ "Suc i"] Let_def branch_e_def)
  qed
qed

section \<open>map\<close>

text \<open>No leaf above level \<open>l\<close> on the way of an address; the pages that single allocations can still get.\<close>

fun clear_path :: "(u64 \<Rightarrow> nat \<Rightarrow> u64) \<Rightarrow> u64 \<Rightarrow> nat \<Rightarrow> nat \<Rightarrow> u64 \<Rightarrow> bool" where
  "clear_path E va l 0 t \<longleftrightarrow> True"
| "clear_path E va l (Suc i) t \<longleftrightarrow> l = Suc i \<or>
     (let e = E t (idx va (Suc i)) in \<not> valid_e e \<or> branch_e e \<and> clear_path E va l i (next_table e))"

definition free_count :: "pages64 \<Rightarrow> nat" where
  "free_count s = card {k. k < num_pages 4096 s - 1 \<and> flags 4096 s ! k = Empty}"

lemma free_first_fit:
  assumes "0 < free_count s"
  obtains k where "first_fit (flags 4096 s) 1 = Some k"
proof (cases "first_fit (flags 4096 s) 1")
  case None
  then have "\<forall>i. i < num_pages 4096 s - 1 \<longrightarrow> flags 4096 s ! i \<noteq> Empty"
    by (auto simp: first_fit_def find_upt_None run_free_def)
  then have "{k. k < num_pages 4096 s - 1 \<and> flags 4096 s ! k = Empty} = {}" by auto
  then have "free_count s = 0" by (simp only: free_count_def card.empty)
  then show thesis using assms by simp
qed

lemma free_count_mark:
  assumes "flags 4096 s2 = mark (flags 4096 s) k 1" "num_pages 4096 s2 = num_pages 4096 s"
    "k < num_pages 4096 s - 1" "flags 4096 s ! k = Empty"
  shows "Suc (free_count s2) = free_count s"
proof -
  let ?A = "\<lambda>s. {k. k < num_pages 4096 s - 1 \<and> flags 4096 s ! k = Empty}"
  have "flags 4096 s2 ! i = Empty \<longleftrightarrow> i \<noteq> k \<and> flags 4096 s ! i = Empty" if "i < num_pages 4096 s" for i
    using mark_empty [of i "flags 4096 s" 1 k] that assms(1) by auto
  then have "?A s2 = ?A s - {k}" using assms(2) by auto
  moreover have "Suc (card (?A s - {k})) = card (?A s)" using assms(3,4) by (intro card_Suc_Diff1) simp_all
  ultimately show ?thesis by (simp only: free_count_def)
qed

text \<open>Mapping after a table has been added maps.\<close>

lemma mapped_new_table:
  assumes m: "mapped s2 s3 va e l (Suc i) t" and h: "pages s2 = pages s" "held s2 = insert p (held s)" "p \<notin> held s"
    and tb: "tables (ent s2) (Suc i) t \<subseteq> insert p (tables (ent s) (Suc i) t)"
    and fr: "\<forall>q \<in> held s - {t}. \<forall>j < 512. ent s2 q j = ent s q j"
    and x: "\<And>va'. xlate (ent s2) va' (Suc i) t = xlate (ent s) va' (Suc i) t"
  shows "mapped s s3 va e l (Suc i) t"
proof -
  have h3: "held s \<subseteq> held s3" "p \<in> held s3" using m h(2) by (auto simp: mapped_def)
  have "tables (ent s3) (Suc i) t \<subseteq> tables (ent s) (Suc i) t \<union> (held s3 - held s)"
    using m h(2,3) tb h3(2) unfolding mapped_def by blast
  moreover have "ent s3 q j = ent s q j" if q: "q \<in> held s - tables (ent s) (Suc i) t" and j: "j < 512" for q j
  proof -
    have "q \<in> held s2 - tables (ent s2) (Suc i) t" using q h(2,3) tb by blast
    then have "ent s3 q j = ent s2 q j" using m j unfolding mapped_def by blast
    moreover have "q \<in> held s - {t}" using q root_in_tables [of t "ent s" "Suc i"] by blast
    then have "ent s2 q j = ent s q j" using fr j by blast
    ultimately show ?thesis by simp
  qed
  ultimately show ?thesis using m h(1) x h3(1) unfolding mapped_def by simp
qed

lemma map_walk_mapped:
  assumes e: "valid_e e" "leaf_e e"
  shows "l \<le> i \<Longrightarrow> i \<le> 2 \<Longrightarrow> sv_ok s \<Longrightarrow> tree (ent s) (held s) i t \<Longrightarrow> clear_path (ent s) va l i t \<Longrightarrow>
    i - l \<le> free_count s \<Longrightarrow>
    \<exists>v s1. map_walk 4096 va (of_nat l) i (entry_at t (vpn va i)) s = Some (v, s1) \<and>
      mapped s (Entry_set v e s1) va e l i t"
proof (induction i arbitrary: s t)
  case 0
  then show ?case using set_leaf [OF 0(3,4) e, of va] by (simp add: vpn_idx)
next
  case (Suc i)
  let ?v = "entry_at t (vpn va (Suc i))" and ?j = "idx va (Suc i)"
  have "unat (of_nat (Suc i) :: u64) = Suc i" "unat (of_nat l :: u64) = l"
    using Suc.prems(1,2) by (intro unat_of_nat_64; simp)+
  then have lev: "(of_nat (Suc i) :: u64) = of_nat l \<longleftrightarrow> Suc i = l" by metis
  show ?case
  proof (cases "Suc i = l")
    case True
    have "map_walk 4096 va (of_nat l) (Suc i) ?v s = Some (?v, s)"
      unfolding map_walk.simps by (rule if_P) (rule iffD2 [OF lev True])
    moreover have "mapped s (Entry_set ?v e s) va e l (Suc i) t"
      using set_leaf [OF Suc.prems(3,4) e, of va] by (simp only: vpn_idx True)
    ultimately show ?thesis by blast
  next
    case False
    then have l: "l \<le> i" "i \<le> 2" using Suc.prems by simp_all
    have le: "load64 (mem s') ?v = ent s' t ?j" for s' by (simp add: ent_def vpn_idx)
    have up: "\<exists>v s1. map_walk 4096 va (of_nat l) i (entry_at (next_table (ent s' t ?j)) (vpn va i)) s' = Some (v, s1) \<and>
        mapped s' (Entry_set v e s1) va e l (Suc i) t"
      if p: "sv_ok s'" "tree (ent s') (held s') (Suc i) t" "branch_e (ent s' t ?j)"
        "clear_path (ent s') va l i (next_table (ent s' t ?j))" "i - l \<le> free_count s'" for s'
    proof -
      have "tree (ent s') (held s') i (next_table (ent s' t ?j))" using p(2,3) by simp
      from Suc.IH [OF l p(1) this p(4,5)] mapped_up [OF p(2,3) l(1), of _ e] show ?thesis by blast
    qed
    show ?thesis
    proof (cases "valid_e (ent s t ?j)")
      case True
      then have b: "branch_e (ent s t ?j)" "clear_path (ent s) va l i (next_table (ent s t ?j))"
        using Suc.prems(5) False by (simp_all add: Let_def)
      have "map_walk 4096 va (of_nat l) (Suc i) ?v s =
          map_walk 4096 va (of_nat l) i (entry_at (next_table (ent s t ?j)) (vpn va i)) s"
        using True lev False by (simp add: entry_tests le)
      then show ?thesis using up [OF Suc.prems(3,4) b] Suc.prems(6) by simp
    next
      case iv: False
      have "0 < free_count s" using Suc.prems(6) l by simp
      then obtain k where k: "first_fit (flags 4096 s) 1 = Some k" by (rule free_first_fit)
      note z = zalloc_fresh [OF Suc.prems(3) k]
      have kn: "k < num_pages 4096 s" using z(2) by simp
      let ?p = "page_at 4096 s k"
      let ?s2 = "Entry_set (entry_at t (of_nat ?j)) (drop_bit 2 ?p OR Valid) (fresh s k)"
      note a = add_table [OF Suc.prems(3,4) iv kn z(3)]
      have w: "map_walk 4096 va (of_nat l) (Suc i) ?v s =
          map_walk 4096 va (of_nat l) i (entry_at (next_table (ent ?s2 t ?j)) (vpn va i)) ?s2"
        using iv lev False z(1) by (simp add: entry_tests le [unfolded vpn_idx] vpn_idx [of va "Suc i"] Let_def)
      have "clear_path (ent ?s2) va l i ?p"
      proof (cases i)
        case (Suc m)
        have "ent ?s2 ?p (idx va (Suc m)) = 0" using a(12) by simp
        then show ?thesis by (simp add: Suc Let_def valid_e_bit)
      qed simp
      moreover have "i - l \<le> free_count ?s2"
        using free_count_mark [OF a(5,6) z(2,3)] Suc.prems(6) by simp
      ultimately obtain v s1 where v: "map_walk 4096 va (of_nat l) (Suc i) ?v s = Some (v, s1)"
        and m: "mapped ?s2 (Entry_set v e s1) va e l (Suc i) t"
        using up [OF a(1,7,10)] unfolding w a(11) by blast
      from mapped_new_table [OF m a(2-4,8,13,14)] v show ?thesis by blast
    qed
  qed
qed

text \<open>The leaf that \<open>map\<close> builds.\<close>

definition map_entry :: "u64 \<Rightarrow> u64 \<Rightarrow> u64" where
  "map_entry paddr bits = push_bit 28 (vpn paddr 2) OR push_bit 19 (vpn paddr 1) OR push_bit 10 (vpn paddr 0) OR
     bits OR Valid OR Dirty OR Access"

lemma bit_0x1ff: "bit (0x1ff :: u64) n \<longleftrightarrow> n < 9"
proof -
  have "(0x1ff :: u64) = mask 9" by (simp add: mask_eq_exp_minus_1)
  then show ?thesis by (simp only: bit_mask_iff possible_bit_word) auto
qed

lemma bit_vpn: "bit (vpn a i) n \<longleftrightarrow> n < 9 \<and> bit a (12 + i * 9 + n)"
  unfolding vpn_def bit_and_iff bit_0x1ff bit_drop_bit_eq by (auto simp: ac_simps)

lemma map_entry_flags: "valid_e (map_entry paddr bits)" "bits AND 0xe \<noteq> 0 \<Longrightarrow> leaf_e (map_entry paddr bits)"
proof -
  show "valid_e (map_entry paddr bits)"
    unfolding valid_e_bit map_entry_def by (simp add: bit_or_iff Valid_def)
  assume "bits AND 0xe \<noteq> 0"
  then have "bit bits 1 \<or> bit bits 2 \<or> bit bits 3" using leaf_e_bits [of bits] by (simp add: leaf_e_def)
  then show "leaf_e (map_entry paddr bits)"
    unfolding leaf_e_bits map_entry_def bit_or_iff by blast
qed

lemma small_bits:
  assumes "(x :: u64) < 2 ^ k" "k \<le> n" "k < 64"
  shows "\<not> bit x n"
proof -
  have "unat (2 ^ k :: u64) = 2 ^ k" 
    using unat_of_nat_64 [of "2 ^ k"] power_strict_increasing [OF assms(3), of "2 :: nat"] by simp
  then have "unat x < 2 ^ k" using assms(1) by (simp only: word_less_nat_alt)
  then have "take_bit k (unat x) = unat x" by (rule take_bit_nat_eq_self)
  then have "\<not> bit (unat x) n" using assms(2) by (metis bit_take_bit_iff not_le)
  then show ?thesis by (auto simp: bit_unsigned_iff dest: bit_imp_le_length)
qed

text \<open>Above the page offset the entry holds the physical address.\<close>

lemma map_entry_address:
  assumes "bits < 0x400" "paddr < 2 ^ 39"
  shows "push_bit 2 (map_entry paddr bits) AND NOT (page_mask l) = paddr AND NOT (page_mask l)"
proof (rule bit_word_eqI)
  fix n assume n: "n < LENGTH(64)"
  have pm: "page_mask l = mask (12 + l * 9)"
    unfolding page_mask_def by (simp add: mask_eq_exp_minus_1 push_bit_eq_mult)
  have flag: "\<not> bit (bits OR Valid OR Dirty OR Access) (n - 2)" if "12 \<le> n"
  proof -
    have "\<not> bit (c :: u64) (n - 2)" if "c < 2 ^ 10" for c using small_bits [OF that] \<open>12 \<le> n\<close> by simp
    from this [of bits] this [of Valid] this [of Dirty] this [of Access] show ?thesis
      using assms(1) unfolding bit_or_iff by (simp add: Valid_def Dirty_def Access_def)
  qed
  have high: "\<not> bit paddr n" if "39 \<le> n" using small_bits [OF assms(2) that] by simp
  have "bit (map_entry paddr bits) (n - 2) = bit paddr n" if k: "12 \<le> n"
  proof -
    consider "n < 21" | "21 \<le> n" "n < 30" | "30 \<le> n" "n < 39" | "39 \<le> n" by linarith
    then show ?thesis
    proof cases
      case 1 then show ?thesis using k flag n
        unfolding map_entry_def bit_or_iff bit_push_bit_iff bit_vpn possible_bit_word by auto
    next
      case 2 then show ?thesis using k flag n
        unfolding map_entry_def bit_or_iff bit_push_bit_iff bit_vpn possible_bit_word by auto
    next
      case 3 then show ?thesis using k flag n
        unfolding map_entry_def bit_or_iff bit_push_bit_iff bit_vpn possible_bit_word by auto
    next
      case 4 then show ?thesis using k flag n high
        unfolding map_entry_def bit_or_iff bit_push_bit_iff bit_vpn possible_bit_word by auto
    qed
  qed
  then show "bit (push_bit 2 (map_entry paddr bits) AND NOT (page_mask l)) n = bit (paddr AND NOT (page_mask l)) n"
    unfolding pm bit_and_iff bit_not_iff bit_mask_iff bit_push_bit_iff possible_bit_word using n by auto
qed

section \<open>Properties\<close>

text \<open>C4: After \<open>map\<close>, \<open>virt_to_phys\<close> sends each address of the mapped region (4 KiB, 2 MiB or 1 GiB by the
  level) to the physical address with the same offset and every other address where it went before; the
  tables stay a tree of taken pages. Needed are a way without leaves above the level and as many free
  pages as levels below the root.\<close>

theorem map_virt_to_phys:
  assumes s: "sv_ok s" "tree (ent s) (held s) 2 root" "l \<le> 2" "clear_path (ent s) vaddr l 2 root"
    and room: "2 - l \<le> free_count s"
    and args: "bits < 0x400" "bits AND 0xe \<noteq> 0" "paddr < 2 ^ 39"
  shows "\<exists>s'. map_page 4096 root vaddr paddr bits (of_nat l) s = Some s' \<and>
    sv_ok s' \<and> tree (ent s') (held s') 2 root \<and>
    (\<forall>va. map_option fst (virt_to_phys root va s') =
      (if region l 2 vaddr va then Some ((paddr AND NOT (page_mask l)) OR (va AND page_mask l))
       else map_option fst (virt_to_phys root va s)))"
proof -
  let ?e = "map_entry paddr bits"
  have e: "valid_e ?e" "leaf_e ?e" using map_entry_flags args(2) by blast+
  obtain v s1 where w: "map_walk 4096 vaddr (of_nat l) 2 (entry_at root (vpn vaddr 2)) s = Some (v, s1)"
    and m: "mapped s (Entry_set v ?e s1) vaddr ?e l 2 root"
    using map_walk_mapped [OF e s(3) _ s(1,2,4) room] by auto
  have "map_page 4096 root vaddr paddr bits (of_nat l) s = Some (Entry_set v ?e s1)"
    using w args(2) by (simp add: map_page_def map_entry_def Let_def)
  then show ?thesis
    using m unfolding mapped_def virt_to_phys_def virt_walk_xlate map_entry_address [OF args(1,3)] by blast
qed

text \<open>A first table in the small heap, with two free pages to map in.\<close>

lemma fresh_root:
  assumes "sv_ok s" "k < num_pages 4096 s" "flags 4096 s ! k = Empty"
  shows "tree (ent (fresh s k)) (held (fresh s k)) 2 (page_at 4096 s k)"
    "clear_path (ent (fresh s k)) va l 2 (page_at 4096 s k)"
proof -
  let ?p = "page_at 4096 s k"
  have p: "?p \<in> pages s" using assms(2) by (simp add: pages_def)
  have z: "\<not> valid_e (ent (fresh s k) ?p j)" if "j < 512" for j
    using fresh_ent [OF assms(1,2) p that] by (simp add: valid_e_bit)
  then show "tree (ent (fresh s k)) (held (fresh s k)) 2 ?p"
    using fresh_ok(2) [OF assms] by (auto simp: numeral_2_eq_2 branch_e_def)
  show "clear_path (ent (fresh s k)) va l 2 ?p"
    using z [OF idx_less] by (simp add: numeral_2_eq_2 Let_def)
qed

lemma sv_heap64: "sv_ok heap64"
  using ok_heap64 by (simp add: sv_ok_def) (simp add: heap64_def)

theorem map_virt_to_phys_witness:
  "\<exists>s'. map_page 4096 0x2000 0x40201000 0x80003000 0x6 0 (fresh heap64 0) = Some s' \<and>
     map_option fst (virt_to_phys 0x2000 0x40201abc s') = Some 0x80003abc"
proof -
  have k: "0 < num_pages 4096 heap64" "flags 4096 heap64 ! 0 = Empty" by simp_all
  have p: "page_at 4096 heap64 0 = 0x2000" by (simp add: page_at_def heap64_def)
  note r = fresh_root [OF sv_heap64 k, unfolded p]
  have "flags 4096 (fresh heap64 0) = mark (replicate 8 Empty) 0 1" using fresh_flags [OF sv_heap64 k] by simp
  then have "{k. k < 7 \<and> flags 4096 (fresh heap64 0) ! k = Empty} = {1..<7}"
    using mark_empty [of _ "replicate 8 Empty" 1 0] by auto
  then have c: "2 - 0 \<le> free_count (fresh heap64 0)" by (simp add: free_count_def)
  have "region 0 2 0x40201000 0x40201abc"
  proof -
    have "idx 0x40201abc k = idx 0x40201000 k" if "k = 0 \<or> k = 1 \<or> k = 2" for k
      using that by (elim disjE) (simp_all, code_simp+)
    then show ?thesis unfolding region_def by (metis One_nat_def le_Suc_eq le_zero_eq numeral_2_eq_2)
  qed
  moreover have "(0x80003000 AND NOT (page_mask 0)) OR (0x40201abc AND page_mask 0) = 0x80003abc" by code_simp
  moreover have "(0x6 :: u64) < 0x400" "(0x6 :: u64) AND 0xe \<noteq> 0" "(0x80003000 :: u64) < 2 ^ 39" by simp_all
  moreover obtain s' where "map_page 4096 0x2000 0x40201000 0x80003000 0x6 0 (fresh heap64 0) = Some s'"
    "map_option fst (virt_to_phys 0x2000 0x40201abc s') =
      (if region 0 2 0x40201000 0x40201abc then Some ((0x80003000 AND NOT (page_mask 0)) OR (0x40201abc AND page_mask 0))
       else map_option fst (virt_to_phys 0x2000 0x40201abc (fresh heap64 0)))"
    using map_virt_to_phys [OF fresh_ok(1) [OF sv_heap64 k] r(1) _ r(2) c, of "0x6" "0x80003000" "0x40201000"] by auto
  ultimately show ?thesis by auto
qed

lemma Entry_is_branch_nonzero: "Entry_is_branch v s \<noteq> 0"
  by (simp add: Entry_is_branch_def Entry_is_leaf_def)

lemma unmap_outer_valid:
  "(\<And>i. i \<in> set is \<Longrightarrow> valid_e (ent s root i)) \<Longrightarrow> unmap_outer PS root is s = Some s"
proof (induction "is")
  case (Cons i "is")
  then have "Entry_is_invalid (entry_at root (of_nat i)) s = 0" using entry_tests(1) by (auto simp: ent_def)
  then show ?case using Cons by (simp add: Let_def)
qed simp

text \<open>C21: \<open>unmap\<close> looks for subtables under the entries that are not valid, and every entry passes its
  test for a branch: on a root whose entries are all valid, so where there are tables to free, it
  changes nothing.\<close>

theorem unmap_keeps_tables:
  assumes "\<And>j. j < 512 \<Longrightarrow> valid_e (ent s root j)"
  shows "unmap PS root s = Some s \<and> (\<forall>v. Entry_is_branch v s \<noteq> 0)"
  using unmap_outer_valid [of "[0..<512]" s root PS] assms Entry_is_branch_nonzero by (simp add: unmap_def)

theorem unmap_keeps_tables_witness:
  "unmap 4096 0x2000 (heap64\<lparr>mem := (\<lambda>_. 1)\<rparr>) = Some (heap64\<lparr>mem := (\<lambda>_. 1)\<rparr>)"
proof -
  have "valid_e (load64 (\<lambda>_. 1) a)" for a by (simp add: valid_e_bit load64_def numeral_eq_Suc bit_or_iff)
  then have "valid_e (ent (heap64\<lparr>mem := (\<lambda>_. 1)\<rparr>) 0x2000 j)" for j by (simp add: ent_def)
  then show ?thesis by (rule unmap_keeps_tables [THEN conjunct1])
qed

end
