(* ===== verification/Kmem.thy ===== *)
theory Kmem
  imports HeapSpec PageTable
begin

text \<open>
  The 64-bit kernel heap, \<^verbatim>\<open>gcc/kmem.c\<close> and \<^verbatim>\<open>gcc/kmem.h\<close>: \<open>kmalloc\<close> cuts chunks from the pages that
  \<open>kmem_init\<close> takes from the page allocator. A chunk starts with a header of one double word, its size
  with the flag of the top bit. \<open>head + size\<close> steps over headers, so a chunk of \<open>n\<close> bytes spans
  \<open>8 * n\<close>: the chunks of the whole heap span eight times the pages taken. The state is the state
  of the page allocator with the globals of this file. \<open>size_t\<close> has 64 bits.
\<close>

record kmem =
  pg :: pages64
  ATaken :: u64
  KMEM_HEAD :: u64
  KMEM_ALLOC :: u64
  KMEM_PAGE_TABLE :: u64

section \<open>Headers\<close>

definition kload :: "u64 \<Rightarrow> kmem \<Rightarrow> u64" where
  "kload a s = load64 (mem (pg s)) a"

definition kstore :: "u64 \<Rightarrow> u64 \<Rightarrow> kmem \<Rightarrow> kmem" where
  "kstore a v s = s\<lparr>pg := (pg s)\<lparr>mem := store64 (mem (pg s)) a v\<rparr>\<rparr>"

definition AL_init :: u64 where
  "AL_init = 0"

definition AL_is_taken :: "u64 \<Rightarrow> kmem \<Rightarrow> u8" where
  "AL_is_taken p s = (if kload p s AND ATaken s \<noteq> 0 then 1 else 0)"

definition AL_is_free :: "u64 \<Rightarrow> kmem \<Rightarrow> u8" where
  "AL_is_free p s = (if kload p s AND ATaken s = 0 then 1 else 0)"

definition AL_set_taken :: "u64 \<Rightarrow> kmem \<Rightarrow> kmem" where
  "AL_set_taken p s = kstore p (kload p s OR ATaken s) s"

definition AL_set_free :: "u64 \<Rightarrow> kmem \<Rightarrow> kmem" where
  "AL_set_free p s = kstore p (kload p s AND NOT (ATaken s)) s"

definition AL_set_size :: "u64 \<Rightarrow> u64 \<Rightarrow> kmem \<Rightarrow> kmem" where
  "AL_set_size p sz s =
     (let k = AL_is_taken p s;
          s = kstore p sz s
      in if k \<noteq> 0 then AL_set_taken p s else s)"

definition AL_get_size :: "u64 \<Rightarrow> kmem \<Rightarrow> u64" where
  "AL_get_size p s = kload p s AND NOT (ATaken s)"

section \<open>Allocation\<close>

definition kmem_init :: "u64 \<Rightarrow> kmem \<Rightarrow> kmem" where
  "kmem_init PAGE_SIZE s =
     (let s = s\<lparr>ATaken := push_bit 63 1, KMEM_ALLOC := 512\<rparr>;
          (k_alloc, g) = zalloc PAGE_SIZE (KMEM_ALLOC s) (pg s);
          s = s\<lparr>pg := g, KMEM_HEAD := k_alloc\<rparr>;
          s = AL_set_free (KMEM_HEAD s) s;
          s = AL_set_size (KMEM_HEAD s) (KMEM_ALLOC s * PAGE_SIZE) s;
          (t, g) = zalloc PAGE_SIZE 1 (pg s)
      in s\<lparr>pg := g, KMEM_PAGE_TABLE := t\<rparr>)"

text \<open>\<open>1 << order\<close> is an \<open>int\<close>, sign-extended; the only order used is 3.\<close>

definition align_val :: "u64 \<Rightarrow> nat \<Rightarrow> u64" where
  "align_val val order = (let o' = scast (push_bit order (1 :: i32) - 1) in (val + o') AND NOT o')"

partial_function (option) kmalloc_loop :: "u64 \<Rightarrow> u64 \<Rightarrow> u64 \<Rightarrow> kmem \<Rightarrow> (u64 \<times> kmem) option" where
  "kmalloc_loop tail size_al head s =
     (if head < tail
      then if AL_is_free head s \<noteq> 0 \<and> size_al \<le> AL_get_size head s
        then let chunk_size = AL_get_size head s;
                 rem = chunk_size - size_al;
                 s = AL_set_taken head s;
                 s = (if rem > 8
                      then let nxt = head + 8 * size_al;
                               s = AL_set_free nxt s;
                               s = AL_set_size nxt rem s
                           in AL_set_size head size_al s
                      else AL_set_size head chunk_size s)
             in Some (head + 8, s)
        else kmalloc_loop tail size_al (head + 8 * AL_get_size head s) s
      else Some (0, s))"

definition kmalloc :: "u64 \<Rightarrow> u64 \<Rightarrow> kmem \<Rightarrow> (u64 \<times> kmem) option" where
  "kmalloc PAGE_SIZE sz s =
     (let size_al = align_val sz 3;
          head = KMEM_HEAD s;
          tail = KMEM_HEAD s + KMEM_ALLOC s * PAGE_SIZE
      in kmalloc_loop tail size_al head s)"

function zero_bytes :: "u64 \<Rightarrow> u64 \<Rightarrow> u64 \<Rightarrow> mem64 \<Rightarrow> mem64" where
  "zero_bytes ret i size_al m =
     (if i < size_al then zero_bytes ret (i + 1) size_al (m(ret + i := 0)) else m)"
  by pat_completeness auto
termination
  by (relation "measure (\<lambda>(p, i, n, m). unat n - unat i)") (auto intro: unat_plus_1)

declare zero_bytes.simps [simp del]

definition kzmalloc :: "u64 \<Rightarrow> u64 \<Rightarrow> kmem \<Rightarrow> (u64 \<times> kmem) option" where
  "kzmalloc PAGE_SIZE sz s = do {
     let size_al = align_val sz 3;
     (ret, s) \<leftarrow> kmalloc PAGE_SIZE size_al s;
     Some (ret, if ret \<noteq> 0 then s\<lparr>pg := (pg s)\<lparr>mem := zero_bytes ret 0 size_al (mem (pg s))\<rparr>\<rparr> else s) }"

section \<open>Release\<close>

partial_function (option) coalesce_loop :: "u64 \<Rightarrow> u64 \<Rightarrow> kmem \<Rightarrow> kmem option" where
  "coalesce_loop tail head s =
     (if head < tail
      then let nxt = head + 8 * AL_get_size head s
           in if AL_get_size head s = 0 then Some s
              else if nxt \<ge> tail then Some s
              else let s = (if AL_is_free head s \<noteq> 0 \<and> AL_is_free nxt s \<noteq> 0
                            then AL_set_size head (AL_get_size head s + AL_get_size nxt s) s
                            else s)
                   in coalesce_loop tail (head + 8 * AL_get_size head s) s
      else Some s)"

definition coalesce :: "u64 \<Rightarrow> kmem \<Rightarrow> kmem option" where
  "coalesce PAGE_SIZE s =
     (let head = KMEM_HEAD s;
          tail = KMEM_HEAD s + 8 * (KMEM_ALLOC s * PAGE_SIZE)
      in coalesce_loop tail head s)"

definition kfree :: "u64 \<Rightarrow> u64 \<Rightarrow> kmem \<Rightarrow> kmem option" where
  "kfree PAGE_SIZE ptr s =
     (if ptr \<noteq> 0
      then let p = ptr - 8;
               s = (if AL_is_taken p s \<noteq> 0 then AL_set_free p s else s)
           in coalesce PAGE_SIZE s
      else Some s)"

section \<open>The header words\<close>

definition top_bit :: u64 where
  "top_bit = push_bit 63 1"

definition hword :: "nat \<Rightarrow> bool \<Rightarrow> u64" where
  "hword n t = of_nat n OR (if t then top_bit else 0)"

lemma bit_top: "bit top_bit i \<longleftrightarrow> i = 63"
  unfolding top_bit_def bit_push_bit_iff bit_1_iff possible_bit_word by auto

lemma bit_small: "n < 2 ^ 63 \<Longrightarrow> \<not> bit (of_nat n :: u64) 63"
proof -
  assume n: "n < 2 ^ 63"
  have "(of_nat n :: u64) < 2 ^ 63"
    using n unat_of_nat_64 [of n] by (simp add: word_less_nat_alt)
  moreover have "\<not> bit (x :: u64) 63" if "x < 2 ^ 63" for x
  proof -
    have "unat x < 2 ^ 63" using that by (simp add: word_less_nat_alt)
    then have "\<not> bit (unat x) 63" unfolding bit_iff_odd by simp
    then show ?thesis unfolding bit_unsigned_iff by auto
  qed
  ultimately show ?thesis by blast
qed

lemma hword_simps:
  assumes "n < 2 ^ 63"
  shows "hword n t AND top_bit = (if t then top_bit else 0)"
    "hword n t AND NOT (top_bit) = of_nat n"
    "hword n t OR top_bit = hword n True"
    "hword n False = of_nat n"
  using bit_small [OF assms]
  by (auto simp: hword_def bit_or_iff bit_and_iff bit_not_iff bit_top intro!: bit_word_eqI)

lemma top_nonzero: "top_bit \<noteq> 0"
  by (simp add: top_bit_def)

lemma kmem_more [simp]:
  "ATaken (kstore a v s) = ATaken s" "KMEM_HEAD (kstore a v s) = KMEM_HEAD s"
  "KMEM_ALLOC (kstore a v s) = KMEM_ALLOC s" "KMEM_PAGE_TABLE (kstore a v s) = KMEM_PAGE_TABLE s"
  by (simp_all add: kstore_def)

lemma kload_kstore [simp]: "kload a (kstore a v s) = v"
  by (simp add: kload_def kstore_def m64.load_store)

lemma kstore_frame: "x \<notin> bytes_at a 8 \<Longrightarrow> mem (pg (kstore a v s)) x = mem (pg s) x"
  by (simp add: kstore_def m64.store_frame)

lemma kload_kstore_other: "bytes_at a 8 \<inter> bytes_at b 8 = {} \<Longrightarrow> kload a (kstore b v s) = kload a s"
  by (simp add: kload_def kstore_def m64.load_store_other)

text \<open>The operations on a header that holds a size.\<close>

lemma AL_ops:
  assumes "ATaken s = top_bit" "kload p s = hword n t" "n < 2 ^ 63"
  shows "AL_is_free p s \<noteq> 0 \<longleftrightarrow> \<not> t" "AL_is_taken p s \<noteq> 0 \<longleftrightarrow> t" "AL_get_size p s = of_nat n"
    "AL_set_taken p s = kstore p (hword n True) s" "AL_set_free p s = kstore p (hword n False) s"
  using assms hword_simps [OF assms(3)] top_nonzero
  by (simp_all add: AL_is_free_def AL_is_taken_def AL_get_size_def AL_set_taken_def AL_set_free_def)

lemma store_bytes_upd:
  "c \<notin> bytes_at a n \<Longrightarrow> (store_bytes n m a v)(c := b) = store_bytes n (m(c := b)) a v"
proof (induction n arbitrary: m a v)
  case (Suc n)
  then have c: "c \<noteq> a" "c \<notin> bytes_at (a + 1) n" by (simp_all add: bytes_at_Suc)
  show ?case by (simp only: store_bytes.simps Suc.IH [OF c(2)] fun_upd_twist [OF c(1)])
qed simp

lemma store_bytes_twice:
  "n < 2 ^ LENGTH('a) \<Longrightarrow> store_bytes n (store_bytes n m a v) (a :: 'a::len word) w = store_bytes n m a w"
proof (induction n arbitrary: m a v w)
  case (Suc n)
  have "a \<notin> bytes_at (a + 1) n" using Suc.prems by (intro bytes_at_shifted) simp
  from store_bytes_upd [OF this, of "m(a := ucast v)" "drop_bit 8 v" "ucast w"]
  show ?case using Suc by simp
qed simp

lemma kstore_twice: "kstore a w (kstore a v s) = kstore a w s"
  by (simp add: kstore_def store64_def store_bytes_twice)

lemma AL_set_size_eq:
  assumes "ATaken s = top_bit" "kload p s AND top_bit = (if t then top_bit else 0)" "n < 2 ^ 63"
  shows "AL_set_size p (of_nat n) s = kstore p (hword n t) s"
  using assms hword_simps(3) [of n False] hword_simps(4) [of n] top_nonzero
  by (simp add: AL_set_size_def AL_is_taken_def AL_set_taken_def Let_def kstore_twice)

section \<open>Chunks\<close>

text \<open>The header in place \<open>i\<close> of the heap, counted in headers; the chunks from a place on, each with
  its size and its flag.\<close>

definition hdr :: "kmem \<Rightarrow> nat \<Rightarrow> u64" where
  "hdr s i = kload (KMEM_HEAD s + 8 * of_nat i) s"

definition hbytes :: "kmem \<Rightarrow> nat \<Rightarrow> u64 set" where
  "hbytes s i = bytes_at (KMEM_HEAD s + 8 * of_nat i) 8"

definition kput :: "nat \<Rightarrow> nat \<Rightarrow> bool \<Rightarrow> kmem \<Rightarrow> kmem" where
  "kput i n t s = kstore (KMEM_HEAD s + 8 * of_nat i) (hword n t) s"

fun chunks :: "(nat \<Rightarrow> u64) \<Rightarrow> nat \<Rightarrow> (nat \<times> bool) list \<Rightarrow> bool" where
  "chunks H i [] \<longleftrightarrow> True"
| "chunks H i ((n, t) # cs) \<longleftrightarrow> H i = hword n t \<and> chunks H (i + n) cs"

definition span :: "(nat \<times> bool) list \<Rightarrow> nat" where
  "span cs = sum_list (map fst cs)"

definition sizes_ok :: "(nat \<times> bool) list \<Rightarrow> bool" where
  "sizes_ok cs \<longleftrightarrow> (\<forall>n \<in> fst ` set cs. 0 < n \<and> 8 dvd n)"

text \<open>Room for all chunks of a heap of \<open>T\<close> bytes.\<close>

definition kheap_at :: "nat \<Rightarrow> kmem \<Rightarrow> bool" where
  "kheap_at T s \<longleftrightarrow> ATaken s = top_bit \<and> 0 < KMEM_HEAD s \<and> unat (KMEM_HEAD s) + 8 * T < 2 ^ 64"

lemma span_simps [simp]: "span [] = 0" "span ((n, t) # cs) = n + span cs" "span (as @ bs) = span as + span bs"
  by (simp_all add: span_def)

lemma sizes_ok_simps [simp]: "sizes_ok []" "sizes_ok ((n, t) # cs) \<longleftrightarrow> 0 < n \<and> 8 dvd n \<and> sizes_ok cs"
  by (simp_all add: sizes_ok_def)

lemma unat_place:
  assumes "kheap_at T s" "i \<le> T"
  shows "unat (KMEM_HEAD s + 8 * of_nat i) = unat (KMEM_HEAD s) + 8 * i"
proof -
  have "unat (KMEM_HEAD s) + 8 * i < 2 ^ 64" using assms by (simp add: kheap_at_def)
  from unat_add_of_nat [of "KMEM_HEAD s" "8 * i"] this show ?thesis by simp
qed

lemma hbytes_interval:
  assumes "kheap_at T s" "i < T"
  shows "x \<in> hbytes s i \<longleftrightarrow> unat (KMEM_HEAD s) + 8 * i \<le> unat x \<and> unat x < unat (KMEM_HEAD s) + 8 * i + 8"
proof -
  have u: "unat (KMEM_HEAD s + 8 * of_nat i) = unat (KMEM_HEAD s) + 8 * i" using unat_place assms by simp
  have "unat (KMEM_HEAD s) + 8 * i + 8 \<le> 2 ^ 64" using assms by (simp add: kheap_at_def)
  then show ?thesis unfolding hbytes_def by (subst bytes_at_interval) (simp_all add: u)
qed

lemma hbytes_disjoint:
  assumes "kheap_at T s" "i < T" "j < T" "i \<noteq> j"
  shows "hbytes s i \<inter> hbytes s j = {}"
proof -
  have "8 * i + 8 \<le> 8 * j \<or> 8 * j + 8 \<le> 8 * i" using assms(4) by linarith
  then show ?thesis using hbytes_interval [OF assms(1)] assms(2,3) by auto
qed

lemma kput_globals [simp]:
  "ATaken (kput i n t s) = ATaken s" "KMEM_HEAD (kput i n t s) = KMEM_HEAD s"
  "KMEM_ALLOC (kput i n t s) = KMEM_ALLOC s" "KMEM_PAGE_TABLE (kput i n t s) = KMEM_PAGE_TABLE s"
  "kheap_at T (kput i n t s) = kheap_at T s" "hbytes (kput i n t s) = hbytes s"
  by (auto simp: kput_def kheap_at_def hbytes_def)

lemma hdr_kput:
  assumes "kheap_at T s" "i < T" "j < T"
  shows "hdr (kput i n t s) j = (if j = i then hword n t else hdr s j)"
  using hbytes_disjoint [OF assms(1,3,2)] unfolding hdr_def kput_def hbytes_def
  by (simp add: kload_kstore_other)

lemma kput_frame: "x \<notin> hbytes s i \<Longrightarrow> mem (pg (kput i n t s)) x = mem (pg s) x"
  unfolding kput_def hbytes_def by (rule kstore_frame)

lemma chunks_cong:
  "(\<And>j. i \<le> j \<Longrightarrow> j < i + span cs \<Longrightarrow> H' j = H j) \<Longrightarrow> sizes_ok cs \<Longrightarrow> chunks H i cs \<Longrightarrow> chunks H' i cs"
proof (induction cs arbitrary: i)
  case (Cons c cs)
  obtain n t where c: "c = (n, t)" by (cases c)
  have "chunks H' (i + n) cs" using Cons.prems c by (intro Cons.IH) simp_all
  then show ?case using Cons.prems c by simp
qed simp

section \<open>Finding and cutting a chunk\<close>

text \<open>The first free chunk that is large enough, with its size; only places whose header is within the
  first \<open>T\<close> bytes are looked at.\<close>

fun find_chunk :: "nat \<Rightarrow> nat \<Rightarrow> nat \<Rightarrow> (nat \<times> bool) list \<Rightarrow> (nat \<times> nat) option" where
  "find_chunk T n i [] = None"
| "find_chunk T n i ((m, t) # cs) =
     (if T \<le> 8 * i then None
      else if \<not> t \<and> n \<le> m then Some (i, m) else find_chunk T n (i + m) cs)"

fun carve :: "nat \<Rightarrow> nat \<Rightarrow> nat \<Rightarrow> (nat \<times> bool) list \<Rightarrow> (nat \<times> bool) list" where
  "carve k n i [] = []"
| "carve k n i ((m, t) # cs) =
     (if i = k then if 8 < m - n then (n, True) # (m - n, False) # cs else (m, True) # cs
      else (m, t) # carve k n (i + m) cs)"

text \<open>The taken chunks with their places.\<close>

fun taken_chunks :: "nat \<Rightarrow> (nat \<times> bool) list \<Rightarrow> (nat \<times> nat) list" where
  "taken_chunks i [] = []"
| "taken_chunks i ((m, t) # cs) = (if t then [(i, m)] else []) @ taken_chunks (i + m) cs"

lemma taken_chunks_append:
  "taken_chunks i (as @ bs) = taken_chunks i as @ taken_chunks (i + span as) bs"
  by (induction as arbitrary: i) (auto simp: add.assoc)

lemma chunks_append: "chunks H i (as @ bs) \<longleftrightarrow> chunks H i as \<and> chunks H (i + span as) bs"
  by (induction as arbitrary: i) (auto simp: add.assoc)

lemma sizes_ok_append [simp]: "sizes_ok (as @ bs) \<longleftrightarrow> sizes_ok as \<and> sizes_ok bs"
  by (auto simp: sizes_ok_def)

lemma find_chunk_Some:
  "find_chunk T n i cs = Some (k, m) \<Longrightarrow> sizes_ok cs \<Longrightarrow>
   \<exists>as bs. cs = as @ (m, False) # bs \<and> k = i + span as \<and> n \<le> m \<and> 8 * k < T \<and>
     carve k n i cs = as @ (if 8 < m - n then (n, True) # (m - n, False) # bs else (m, True) # bs)"
proof (induction T n i cs rule: find_chunk.induct)
  case (2 T n i m' t cs)
  show ?case
  proof (cases "\<not> t \<and> n \<le> m'")
    case True
    then show ?thesis using 2(2) by (intro exI [of _ "[]"] exI [of _ cs]) (auto split: if_splits)
  next
    case False
    then have f: "\<not> T \<le> 8 * i" "find_chunk T n (i + m') cs = Some (k, m)" using 2(2) by (auto split: if_splits)
    from 2(1) [OF f(1) False f(2)] 2(3) obtain as bs where
      "cs = as @ (m, False) # bs" "k = i + m' + span as" "n \<le> m" "8 * k < T"
      "carve k n (i + m') cs = as @ (if 8 < m - n then (n, True) # (m - n, False) # bs else (m, True) # bs)"
      by auto
    then show ?thesis using 2(3) by (intro exI [of _ "(m', t) # as"] exI [of _ bs]) simp
  qed
qed simp

definition cut :: "nat \<Rightarrow> nat \<Rightarrow> nat \<Rightarrow> kmem \<Rightarrow> kmem" where
  "cut k n m s =
     (if 8 < m - n then kput k n True (kput (k + n) (m - n) False (kput k m True s)) else kput k m True s)"

lemma of_nat_le_64: "a < 2 ^ 64 \<Longrightarrow> b < 2 ^ 64 \<Longrightarrow> (of_nat a :: u64) \<le> of_nat b \<longleftrightarrow> a \<le> b"
  by (simp add: word_le_nat_alt unat_of_nat_64)

lemma kheap_small: "kheap_at T s \<Longrightarrow> n \<le> T \<Longrightarrow> n < 2 ^ 63"
  by (simp add: kheap_at_def)

lemma hdr_ops:
  assumes "kheap_at T s" "hdr s i = hword n t" "n \<le> T"
  shows "AL_is_free (KMEM_HEAD s + 8 * of_nat i) s \<noteq> 0 \<longleftrightarrow> \<not> t"
    "AL_is_taken (KMEM_HEAD s + 8 * of_nat i) s \<noteq> 0 \<longleftrightarrow> t"
    "AL_get_size (KMEM_HEAD s + 8 * of_nat i) s = of_nat n"
    "AL_set_taken (KMEM_HEAD s + 8 * of_nat i) s = kput i n True s"
    "AL_set_free (KMEM_HEAD s + 8 * of_nat i) s = kput i n False s"
  using assms AL_ops [of s "KMEM_HEAD s + 8 * of_nat i" n t] kheap_small [OF assms(1,3)]
  by (simp_all add: kheap_at_def hdr_def kput_def)

lemma hdr_set_size:
  assumes "kheap_at T s" "hdr s i = hword m t" "m \<le> T" "n \<le> T"
  shows "AL_set_size (KMEM_HEAD s + 8 * of_nat i) (of_nat n) s = kput i n t s"
  using assms AL_set_size_eq [of s "KMEM_HEAD s + 8 * of_nat i" t n] kheap_small [OF assms(1)]
    hword_simps(1) [of m t]
  by (simp add: kheap_at_def hdr_def kput_def)

lemma kput_twice: "kput i n t (kput i m u s) = kput i n t s"
  unfolding kput_def by (simp add: kstore_twice)

text \<open>\<open>AL_set_free\<close> and then \<open>AL_set_size\<close>, on a header that may hold anything.\<close>

lemma fresh_header:
  assumes "kheap_at T s" "n \<le> T"
  shows "AL_set_size (KMEM_HEAD s + 8 * of_nat i) (of_nat n) (AL_set_free (KMEM_HEAD s + 8 * of_nat i) s) = kput i n False s"
proof -
  let ?p = "KMEM_HEAD s + 8 * of_nat i"
  let ?s = "AL_set_free ?p s"
  have "ATaken ?s = top_bit" using assms(1) by (simp add: AL_set_free_def kheap_at_def)
  moreover have "kload ?p ?s AND top_bit = (if False then top_bit else 0)"
    using assms(1) by (simp add: AL_set_free_def kheap_at_def and.assoc)
  ultimately have "AL_set_size ?p (of_nat n) ?s = kstore ?p (hword n False) ?s"
    using kheap_small [OF assms] by (rule AL_set_size_eq)
  then show ?thesis by (simp add: AL_set_free_def kput_def kstore_twice)
qed

lemma place_add: "KMEM_HEAD s + 8 * of_nat i + 8 * of_nat n = KMEM_HEAD s + 8 * of_nat (i + n)"
  by (simp add: algebra_simps)

lemma cut_code:
  assumes h: "kheap_at T s" "hdr s i = hword m False" and n: "n \<le> m" "m \<le> T" "i + m \<le> T" "0 < n"
  shows "(let chunk_size = AL_get_size (KMEM_HEAD s + 8 * of_nat i) s;
              rem = chunk_size - of_nat n;
              s' = AL_set_taken (KMEM_HEAD s + 8 * of_nat i) s
          in if rem > 8
             then let nxt = KMEM_HEAD s + 8 * of_nat i + 8 * of_nat n;
                      s' = AL_set_free nxt s';
                      s' = AL_set_size nxt rem s'
                  in AL_set_size (KMEM_HEAD s + 8 * of_nat i) (of_nat n) s'
             else AL_set_size (KMEM_HEAD s + 8 * of_nat i) chunk_size s') = cut i n m s"
proof -
  let ?h = "KMEM_HEAD s + 8 * of_nat i" and ?s = "kput i m True s"
  have b: "m < 2 ^ 63" "m - n < 2 ^ 64" using kheap_small [OF h(1) n(2)] by simp_all
  have r: "(of_nat m :: u64) - of_nat n = of_nat (m - n)" using n(1) by (simp add: of_nat_diff)
  have c: "(of_nat (m - n) :: u64) > 8 \<longleftrightarrow> 8 < m - n"
    using of_nat_less_64 [of 8 "m - n"] b by simp
  note o = hdr_ops [OF h n(2)]
  have i: "i < T" using n by linarith
  have hs: "kheap_at T ?s" "hdr ?s i = hword m True" using h hdr_kput [OF h(1) i i] by simp_all
  show ?thesis
  proof (cases "8 < m - n")
    case True
    let ?s2 = "kput (i + n) (m - n) False ?s"
    have "AL_set_size (?h + 8 * of_nat n) (of_nat (m - n)) (AL_set_free (?h + 8 * of_nat n) ?s) = ?s2"
      using fresh_header [OF hs(1), of "m - n" "i + n"] n(2) by (simp add: place_add del: of_nat_add)
    moreover have "hdr ?s2 i = hword m True"
      using hdr_kput [OF hs(1) _ i, of "i + n"] hs(2) n True by simp
    then have "AL_set_size ?h (of_nat n) ?s2 = kput i n True ?s2"
      using hdr_set_size [of T ?s2 i m True n] hs(1) n by simp
    ultimately show ?thesis by (simp only: Let_def o(3,4) r c True if_True cut_def)
  next
    case False
    have "AL_set_size ?h (of_nat m) ?s = kput i m True ?s"
      using hdr_set_size [of T ?s i m True m] hs n by simp
    then show ?thesis by (simp only: Let_def o(3,4) r c False if_False cut_def kput_twice)
  qed
qed

lemma kmalloc_loop_find:
  assumes h: "kheap_at T s" and n: "0 < n" "n \<le> 2 ^ 64 - 8" and tail: "tail = KMEM_HEAD s + of_nat T"
  shows "i + span cs = T \<Longrightarrow> sizes_ok cs \<Longrightarrow> chunks (hdr s) i cs \<Longrightarrow>
    kmalloc_loop tail (of_nat n) (KMEM_HEAD s + 8 * of_nat i) s =
      (case find_chunk T n i cs of None \<Rightarrow> Some (0, s)
       | Some (k, m) \<Rightarrow> Some (KMEM_HEAD s + 8 * of_nat k + 8, cut k n m s))"
proof (induction cs arbitrary: i)
  case (Cons c cs)
  obtain m t where c: "c = (m, t)" by (cases c)
  have i: "i + m \<le> T" "m \<le> T" "0 < m" "hdr s i = hword m t" using Cons.prems c by simp_all
  let ?h = "KMEM_HEAD s + 8 * of_nat i"
  have t: "unat tail = unat (KMEM_HEAD s) + T"
    unfolding tail using h by (intro unat_add_of_nat) (simp add: kheap_at_def)
  have lt: "?h < tail \<longleftrightarrow> 8 * i < T"
    using unat_place [OF h, of i] i t by (simp add: word_less_nat_alt)
  note o = hdr_ops [OF h i(4,2)]
  have le: "(of_nat n :: u64) \<le> of_nat m \<longleftrightarrow> n \<le> m"
    using of_nat_le_64 [of n m] kheap_small [OF h i(2)] n(2) by simp
  show ?case
  proof (cases "8 * i < T \<and> (t \<or> m < n)")
    case True
    have "(AL_is_free ?h s \<noteq> 0 \<and> of_nat n \<le> AL_get_size ?h s) = False" "(?h < tail) = True"
      using True unfolding o(1,3) le lt by auto
    then have "kmalloc_loop tail (of_nat n) ?h s = kmalloc_loop tail (of_nat n) (KMEM_HEAD s + 8 * of_nat (i + m)) s"
      by (subst kmalloc_loop.simps) (simp only: if_True if_False o(3) place_add)
    then show ?thesis using True Cons.IH [of "i + m"] Cons.prems c by (auto simp: not_le)
  next
    case False
    show ?thesis
    proof (cases "8 * i < T")
      case True
      then have f: "\<not> t" "n \<le> m" using False by simp_all
      then have "hdr s i = hword m False" using i(4) by simp
      from cut_code [OF h this f(2) i(2,1) n(1)] show ?thesis
        using True f by (subst kmalloc_loop.simps) (simp add: lt o le c Let_def)
    next
      case False
      then show ?thesis by (subst kmalloc_loop.simps) (simp add: lt c)
    qed
  qed
next
  case Nil
  have "unat tail = unat (KMEM_HEAD s) + T"
    unfolding tail using h by (intro unat_add_of_nat) (simp add: kheap_at_def)
  then have "\<not> KMEM_HEAD s + 8 * of_nat i < tail"
    using unat_place [OF h, of i] Nil by (simp add: word_less_nat_alt)
  then show ?case by (subst kmalloc_loop.simps) simp
qed

section \<open>The heap\<close>

definition heap_bytes :: "u64 \<Rightarrow> kmem \<Rightarrow> nat" where
  "heap_bytes PAGE_SIZE s = unat (KMEM_ALLOC s * PAGE_SIZE)"

definition kmem_ok :: "u64 \<Rightarrow> kmem \<Rightarrow> (nat \<times> bool) list \<Rightarrow> bool" where
  "kmem_ok PAGE_SIZE s cs \<longleftrightarrow> kheap_at (heap_bytes PAGE_SIZE s) s \<and> span cs = heap_bytes PAGE_SIZE s \<and>
     sizes_ok cs \<and> chunks (hdr s) 0 cs"

definition round8 :: "nat \<Rightarrow> nat" where
  "round8 n = (n + 7) div 8 * 8"

lemma align_val_8: "unat sz + 8 \<le> 2 ^ 64 \<Longrightarrow> align_val sz 3 = of_nat (round8 (unat sz))"
proof -
  assume sz: "unat sz + 8 \<le> 2 ^ 64"
  have "align_val sz 3 = (sz + 2 ^ 3 - 1) AND NOT (2 ^ 3 - 1)" by (simp add: align_val_def add_diff_eq add.commute)
  moreover have "unat ((sz + 2 ^ 3 - 1) AND NOT (2 ^ 3 - 1 :: u64)) = round8 (unat sz)"
    using align_up [of sz 3] sz by (simp add: round8_def)
  ultimately have "unat (align_val sz 3) = round8 (unat sz)" by simp
  moreover have "of_nat (unat (align_val sz 3)) = align_val sz 3" by simp
  ultimately show ?thesis by simp
qed

lemma round8_props:
  "8 dvd round8 n" "n \<le> round8 n" "round8 n \<le> n + 7" "0 < n \<Longrightarrow> 0 < round8 n" "round8 (round8 n) = round8 n"
proof -
  have m: "(n + 7) div 8 * 8 + (n + 7) mod 8 = n + 7" "(n + 7) mod 8 < 8" by simp_all
  show "n \<le> round8 n" "round8 n \<le> n + 7" using m unfolding round8_def by linarith+
  then show "0 < n \<Longrightarrow> 0 < round8 n" by linarith
  show d: "8 dvd round8 n" by (simp add: round8_def)
  then obtain q where "round8 n = 8 * q" by (rule dvdE)
  then show "round8 (round8 n) = round8 n" by (simp add: round8_def [of "8 * q"])
qed

lemma cut_globals [simp]:
  "ATaken (cut k n m s) = ATaken s" "KMEM_HEAD (cut k n m s) = KMEM_HEAD s"
  "KMEM_ALLOC (cut k n m s) = KMEM_ALLOC s" "KMEM_PAGE_TABLE (cut k n m s) = KMEM_PAGE_TABLE s"
  "heap_bytes PS (cut k n m s) = heap_bytes PS s" "kheap_at T (cut k n m s) = kheap_at T s"
  by (auto simp: cut_def heap_bytes_def)

lemma cut_frame:
  "x \<notin> hbytes s k \<Longrightarrow> 8 < m - n \<longrightarrow> x \<notin> hbytes s (k + n) \<Longrightarrow> mem (pg (cut k n m s)) x = mem (pg s) x"
  by (simp add: cut_def kput_frame)

lemma cut_ok:
  assumes ok: "kmem_ok PS s cs" and f: "find_chunk (heap_bytes PS s) n 0 cs = Some (k, m)" and n: "0 < n" "8 dvd n"
  shows "kmem_ok PS (cut k n m s) (carve k n 0 cs)"
proof -
  let ?T = "heap_bytes PS s" and ?s = "cut k n m s"
  have h: "kheap_at ?T s" "span cs = ?T" "sizes_ok cs" "chunks (hdr s) 0 cs" using ok by (simp_all add: kmem_ok_def)
  from find_chunk_Some [OF f h(3)] obtain as bs where
    cs: "cs = as @ (m, False) # bs" "k = span as" "n \<le> m"
    "carve k n 0 cs = as @ (if 8 < m - n then (n, True) # (m - n, False) # bs else (m, True) # bs)"
    by auto
  have km: "k + m + span bs = ?T" "0 < m" "8 dvd m" using h(2,3) by (simp_all add: cs(1,2))
  have kT: "k < ?T" "8 < m - n \<Longrightarrow> k + n < ?T" using km by linarith+
  have H: "hdr ?s j = (if j = k then hword (if 8 < m - n then n else m) True
      else if 8 < m - n \<and> j = k + n then hword (m - n) False else hdr s j)" if "j < ?T" for j
    using that kT n(1) h(1) by (simp add: cut_def hdr_kput [of ?T])
  have lo: "hdr ?s j = hdr s j" if "j < k" for j using that kT(1) by (simp add: H)
  have hi: "hdr ?s j = hdr s j" if "k + m \<le> j" "j < ?T" for j
    using that km(2) cs(3) by (auto simp: H)
  have c: "chunks (hdr s) 0 as" "chunks (hdr s) (k + m) bs" "sizes_ok as" "sizes_ok bs"
    using h(3,4) by (simp_all add: cs(1,2) chunks_append)
  have "chunks (hdr ?s) 0 as" by (rule chunks_cong [OF lo c(3,1)]) (simp add: cs(2))
  moreover have "chunks (hdr ?s) (k + m) bs" by (rule chunks_cong [OF hi c(4,2)]) (use km in simp_all)
  ultimately have "chunks (hdr ?s) 0 (carve k n 0 cs)"
    unfolding cs(4) chunks_append using cs(3) n kT by (simp add: cs(2) [symmetric] H)
  moreover have "sizes_ok (carve k n 0 cs)" "span (carve k n 0 cs) = ?T"
    unfolding cs(4) using h(2,3) n cs(3) km(3) by (auto simp: cs(1) dvd_diff_nat)
  ultimately show ?thesis using h(1) by (simp add: kmem_ok_def)
qed

lemma round8_bound:
  assumes "0 < (sz :: u64)" "unat sz + 8 \<le> 2 ^ 64"
  shows "0 < round8 (unat sz)" "round8 (unat sz) \<le> 2 ^ 64 - 8"
proof -
  show "0 < round8 (unat sz)" using assms(1) round8_props(4) by (simp add: word_less_nat_alt)
  have "(unat sz + 7) div 8 < 2305843009213693952" using assms(2) by (simp add: div_less_iff_less_mult)
  then have "(unat sz + 7) div 8 * 8 \<le> 18446744073709551608" by linarith
  then show "round8 (unat sz) \<le> 2 ^ 64 - 8" unfolding round8_def by simp
qed

lemma kmalloc_find:
  assumes ok: "kmem_ok PS s cs" and n: "0 < sz" "unat sz + 8 \<le> 2 ^ 64"
  shows "kmalloc PS sz s =
    (case find_chunk (heap_bytes PS s) (round8 (unat sz)) 0 cs of None \<Rightarrow> Some (0, s)
     | Some (k, m) \<Rightarrow> Some (KMEM_HEAD s + 8 * of_nat k + 8, cut k (round8 (unat sz)) m s))"
proof -
  note p = round8_bound [OF n]
  have "of_nat (heap_bytes PS s) = KMEM_ALLOC s * PS" by (simp add: heap_bytes_def)
  then show ?thesis
    using kmalloc_loop_find [of "heap_bytes PS s" s "round8 (unat sz)" "KMEM_HEAD s + KMEM_ALLOC s * PS" 0 cs] ok p
    by (simp add: kmalloc_def kmem_ok_def align_val_8 [OF n(2)])
qed

section \<open>Merging free chunks\<close>

text \<open>One pass of \<open>coalesce\<close>: of a row of free chunks it merges the first with the second, the third with
  the fourth, and so on.\<close>

fun merge_pairs :: "(nat \<times> bool) list \<Rightarrow> (nat \<times> bool) list" where
  "merge_pairs ((m, t) # (n, u) # cs) =
     (if \<not> t \<and> \<not> u then (m + n, False) # merge_pairs cs else (m, t) # merge_pairs ((n, u) # cs))"
| "merge_pairs cs = cs"

text \<open>The places where chunks start.\<close>

fun starts :: "nat \<Rightarrow> (nat \<times> bool) list \<Rightarrow> nat set" where
  "starts i [] = {}"
| "starts i ((m, t) # cs) = insert i (starts (i + m) cs)"

lemma span_merge [simp]: "span (merge_pairs cs) = span cs"
  by (induction cs rule: merge_pairs.induct) auto

lemma sizes_merge: "sizes_ok cs \<Longrightarrow> sizes_ok (merge_pairs cs)"
  by (induction cs rule: merge_pairs.induct) (auto simp: dvd_add)

lemma taken_merge [simp]: "taken_chunks i (merge_pairs cs) = taken_chunks i cs"
  by (induction cs arbitrary: i rule: merge_pairs.induct) (auto simp: add.assoc)

lemma merge_Nil [simp]: "merge_pairs cs = [] \<longleftrightarrow> cs = []"
  by (cases cs rule: merge_pairs.cases) auto

lemma coalesce_step:
  assumes h: "kheap_at T s" "hdr s i = hword m t" "hdr s (i + m) = hword n u" and b: "i + m + n \<le> T" "0 < m" "0 < n"
    and tail: "tail = KMEM_HEAD s + 8 * of_nat T"
  shows "coalesce_loop tail (KMEM_HEAD s + 8 * of_nat i) s =
    (if \<not> t \<and> \<not> u then coalesce_loop tail (KMEM_HEAD s + 8 * of_nat (i + (m + n))) (kput i (m + n) False s)
     else coalesce_loop tail (KMEM_HEAD s + 8 * of_nat (i + m)) s)"
proof -
  let ?h = "KMEM_HEAD s + 8 * of_nat i" and ?n = "KMEM_HEAD s + 8 * of_nat (i + m)"
  let ?s = "kput i (m + n) False s"
  have mT: "m \<le> T" "n \<le> T" "m + n \<le> T" "i < T" using b by simp_all
  note o = hdr_ops [OF h(1,2) mT(1)] and p = hdr_ops [OF h(1,3) mT(2)]
  have lt: "(?h < tail) = True" "(tail \<le> ?n) = False"
    using unat_place [OF h(1), of T] unat_place [OF h(1), of i] unat_place [OF h(1), of "i + m"] b
    unfolding tail by (simp_all add: word_less_nat_alt word_le_nat_alt del: of_nat_add)
  have "unat (of_nat m :: u64) = m" using kheap_small [OF h(1) mT(1)] by (intro unat_of_nat_64) simp
  then have z: "((of_nat m :: u64) = 0) = False" using b(2) by auto
  have a: "(of_nat m :: u64) + of_nat n = of_nat (m + n)" by simp
  have hs: "hdr ?s i = hword (m + n) False" "kheap_at T ?s" using hdr_kput [OF h(1) mT(4,4)] h(1) by simp_all
  show ?thesis
  proof (cases "\<not> t \<and> \<not> u")
    case True
    have "AL_set_size ?h (of_nat (m + n)) s = ?s"
      using hdr_set_size [OF h(1,2) mT(1,3)] True by simp
    moreover have "AL_get_size ?h ?s = of_nat (m + n)" using hdr_ops(3) [OF hs(2,1) mT(3)] by simp
    ultimately show ?thesis using True
      by (subst coalesce_loop.simps)
        (simp only: lt o(1,3) p(1,3) z a Let_def place_add if_True if_False simp_thms)
  next
    case False
    then show ?thesis
      by (subst coalesce_loop.simps)
        (simp only: lt o(1,3) p(1,3) z a Let_def place_add if_True if_False simp_thms)
  qed
qed

definition kframe :: "u64 set \<Rightarrow> kmem \<Rightarrow> kmem \<Rightarrow> bool" where
  "kframe W s s' \<longleftrightarrow> ATaken s' = ATaken s \<and> KMEM_HEAD s' = KMEM_HEAD s \<and> KMEM_ALLOC s' = KMEM_ALLOC s \<and>
     KMEM_PAGE_TABLE s' = KMEM_PAGE_TABLE s \<and> (\<forall>x. x \<notin> W \<longrightarrow> mem (pg s') x = mem (pg s) x)"

definition headers :: "kmem \<Rightarrow> nat \<Rightarrow> (nat \<times> bool) list \<Rightarrow> u64 set" where
  "headers s i cs = (\<Union>j \<in> starts i cs. hbytes s j)"

lemma kframe_refl: "kframe W s s"
  by (simp add: kframe_def)

lemma kframe_kput: "hbytes s i \<subseteq> W \<Longrightarrow> kframe W s (kput i n t s)"
  by (auto simp: kframe_def intro: kput_frame)

lemma kframe_trans: "kframe W s s' \<Longrightarrow> kframe W s' s'' \<Longrightarrow> kframe W s s''"
  by (simp add: kframe_def)

lemma kframe_mono: "kframe W s s' \<Longrightarrow> W \<subseteq> W' \<Longrightarrow> kframe W' s s'"
  by (auto simp: kframe_def)

lemma kframe_same:
  assumes "kframe W s s'"
  shows "kheap_at T s' = kheap_at T s" "hbytes s' = hbytes s" "heap_bytes PS s' = heap_bytes PS s"
    "headers s' = headers s" "KMEM_HEAD s' = KMEM_HEAD s"
  using assms by (auto simp: kframe_def kheap_at_def hbytes_def heap_bytes_def headers_def fun_eq_iff)

lemma headers_simps [simp]:
  "headers s i [] = {}" "headers s i ((m, t) # cs) = hbytes s i \<union> headers s (i + m) cs"
  by (auto simp: headers_def)

text \<open>A heap whose last place is given: all that a loop over the chunks needs.\<close>

definition chunked :: "nat \<Rightarrow> kmem \<Rightarrow> nat \<Rightarrow> (nat \<times> bool) list \<Rightarrow> bool" where
  "chunked T s i cs \<longleftrightarrow> kheap_at T s \<and> i + span cs = T \<and> sizes_ok cs \<and> chunks (hdr s) i cs"

lemma chunked_tl: "chunked T s i ((m, t) # cs) \<Longrightarrow> chunked T s (i + m) cs"
  by (simp add: chunked_def)

lemma chunked_merged:
  assumes "chunked T s i ((m, False) # (n, False) # cs)"
  shows "chunked T (kput i (m + n) False s) (i + (m + n)) cs"
proof -
  have h: "kheap_at T s" "i + m + n + span cs = T" "0 < m" "sizes_ok cs" "chunks (hdr s) (i + m + n) cs"
    using assms by (simp_all add: chunked_def)
  have "chunks (hdr (kput i (m + n) False s)) (i + (m + n)) cs"
    by (rule chunks_cong [OF _ h(4)]) (use h in \<open>simp_all add: hdr_kput add.assoc\<close>)
  then show ?thesis using h by (simp add: chunked_def)
qed

lemma coalesce_loop_merge:
  "chunked T s i cs \<Longrightarrow> tail = KMEM_HEAD s + 8 * of_nat T \<Longrightarrow>
   \<exists>s'. coalesce_loop tail (KMEM_HEAD s + 8 * of_nat i) s = Some s' \<and> kframe (headers s i cs) s s' \<and>
     (\<forall>j < i. hdr s' j = hdr s j) \<and> chunks (hdr s') i (merge_pairs cs)"
proof (induction cs arbitrary: i s rule: merge_pairs.induct [case_names two none one])
  case (two m t n u cs)
  then have h: "kheap_at T s" "hdr s i = hword m t" "hdr s (i + m) = hword n u" "i + m + n \<le> T" "0 < m" "0 < n"
    by (simp_all add: chunked_def)
  note step = coalesce_step [OF h two(4)]
  show ?case
  proof (cases "\<not> t \<and> \<not> u")
    case True
    let ?s = "kput i (m + n) False s"
    have "chunked T s i ((m, False) # (n, False) # cs)" using two(3) True by simp
    note c = chunked_merged [OF this]
    obtain s' where s': "coalesce_loop tail (KMEM_HEAD s + 8 * of_nat (i + (m + n))) ?s = Some s'"
      "kframe (headers s (i + m + n) cs) ?s s'" "\<forall>j < i + (m + n). hdr s' j = hdr ?s j"
      "chunks (hdr s') (i + (m + n)) (merge_pairs cs)"
      using two(1) [OF True c] two(4) by (auto simp: kframe_same [OF kframe_kput] add.assoc headers_def)
    have i: "i < T" using h by simp
    have "hdr s' i = hword (m + n) False" using s'(3) h hdr_kput [OF h(1) i i] by simp
    moreover have "hdr s' j = hdr s j" if "j < i" for j
      using s'(3) that i hdr_kput [OF h(1) i, of j] by simp
    moreover have "kframe (headers s i ((m, t) # (n, u) # cs)) s s'"
      by (rule kframe_trans [OF kframe_kput [of s i _ "m + n" False] kframe_mono [OF s'(2)]]) auto
    ultimately show ?thesis using s'(1,4) True step by (auto simp: add.assoc)
  next
    case False
    obtain s' where s': "coalesce_loop tail (KMEM_HEAD s + 8 * of_nat (i + m)) s = Some s'"
      "kframe (headers s (i + m) ((n, u) # cs)) s s'" "\<forall>j < i + m. hdr s' j = hdr s j"
      "chunks (hdr s') (i + m) (merge_pairs ((n, u) # cs))"
      using two(2) [OF False chunked_tl [OF two(3)] two(4)] by blast
    have "kframe (headers s i ((m, t) # (n, u) # cs)) s s'" by (rule kframe_mono [OF s'(2)]) auto
    moreover have "merge_pairs ((m, t) # (n, u) # cs) = (m, t) # merge_pairs ((n, u) # cs)" using False by auto
    moreover have "hdr s' i = hword m t" using s'(3) h(2,5) by simp
    ultimately show ?thesis using s'(1,3,4) step False by (auto simp del: merge_pairs.simps)
  qed
next
  case none
  then have "\<not> KMEM_HEAD s + 8 * of_nat i < tail" by (simp add: chunked_def)
  then show ?case by (subst coalesce_loop.simps) (simp add: kframe_refl)
next
  case (one c)
  obtain m t where c: "c = (m, t)" by (cases c)
  have h: "kheap_at T s" "hdr s i = hword m t" "i + m = T" "m \<le> T" using one(1) c by (auto simp: chunked_def)
  have "KMEM_HEAD s + 8 * of_nat i + 8 * of_nat m = tail" by (simp only: place_add one(2) h(3))
  then have "coalesce_loop tail (KMEM_HEAD s + 8 * of_nat i) s = Some s"
    using hdr_ops(3) [OF h(1,2,4)] by (subst coalesce_loop.simps) simp
  moreover have "chunks (hdr s) i [c]" using h(2) c by simp
  ultimately show ?case by (auto simp: kframe_refl)
qed

fun free_chunk :: "nat \<Rightarrow> nat \<Rightarrow> (nat \<times> bool) list \<Rightarrow> (nat \<times> bool) list" where
  "free_chunk k i [] = []"
| "free_chunk k i ((m, t) # cs) = (if i = k then (m, False) # cs else (m, t) # free_chunk k (i + m) cs)"

lemma taken_chunk_split:
  "(k, m) \<in> set (taken_chunks i cs) \<Longrightarrow> sizes_ok cs \<Longrightarrow>
   \<exists>as bs. cs = as @ (m, True) # bs \<and> k = i + span as \<and> free_chunk k i cs = as @ (m, False) # bs"
proof (induction cs arbitrary: i)
  case (Cons c cs)
  obtain n t where c: "c = (n, t)" by (cases c)
  have ge: "j \<le> k" if "(k, m) \<in> set (taken_chunks j cs)" for j using that
    by (induction cs arbitrary: j) (fastforce split: if_splits)+
  show ?case
  proof (cases "(k, m) \<in> set (taken_chunks (i + n) cs)")
    case True
    from Cons.IH [OF True] Cons.prems(2) c obtain as bs where
      "cs = as @ (m, True) # bs" "k = i + n + span as" "free_chunk k (i + n) cs = as @ (m, False) # bs" by auto
    moreover have "i \<noteq> k" using ge [OF True] Cons.prems(2) c by simp
    ultimately show ?thesis using c by (intro exI [of _ "(n, t) # as"] exI [of _ bs]) simp
  next
    case False
    then have "t" "k = i" "m = n" using Cons.prems c by (auto split: if_splits)
    then show ?thesis using c by (intro exI [of _ "[]"] exI [of _ cs]) simp
  qed
qed simp

lemma starts_append: "starts i (as @ bs) = starts i as \<union> starts (i + span as) bs"
  by (induction as arbitrary: i) (auto simp: add.assoc)

lemma kfree_merge:
  assumes ok: "kmem_ok PS s cs" and k: "(k, m) \<in> set (taken_chunks 0 cs)"
  shows "\<exists>s'. kfree PS (KMEM_HEAD s + 8 * of_nat k + 8) s = Some s' \<and>
    kmem_ok PS s' (merge_pairs (free_chunk k 0 cs)) \<and> kframe (headers s 0 cs) s s'"
proof -
  let ?T = "heap_bytes PS s" and ?p = "KMEM_HEAD s + 8 * of_nat k"
  have h: "kheap_at ?T s" "span cs = ?T" "sizes_ok cs" "chunks (hdr s) 0 cs" using ok by (simp_all add: kmem_ok_def)
  from taken_chunk_split [OF k h(3)] obtain as bs where
    cs: "cs = as @ (m, True) # bs" "k = span as" "free_chunk k 0 cs = as @ (m, False) # bs" by auto
  have b: "k + m + span bs = ?T" "0 < m" "m \<le> ?T" "k < ?T" using h(2,3) by (simp_all add: cs(1,2))
  let ?s = "kput k m False s"
  have c: "chunks (hdr s) 0 as" "hdr s k = hword m True" "chunks (hdr s) (k + m) bs" "sizes_ok as" "sizes_ok bs"
    using h(3,4) by (simp_all add: cs(1,2) chunks_append)
  have "unat (?p + of_nat 8) = unat ?p + 8"
    using unat_place [OF h(1), of k] b h(1) by (intro unat_add_of_nat) (simp add: kheap_at_def)
  then have nz: "?p + 8 \<noteq> 0" by auto
  have "chunks (hdr ?s) 0 as"
    by (rule chunks_cong [OF _ c(4,1)]) (use b in \<open>simp add: hdr_kput [OF h(1)] cs(2)\<close>)
  moreover have "chunks (hdr ?s) (k + m) bs"
    by (rule chunks_cong [OF _ c(5,3)]) (use b in \<open>simp add: hdr_kput [OF h(1)]\<close>)
  ultimately have "chunked ?T ?s 0 (free_chunk k 0 cs)"
    using h b c(4,5) hdr_kput [OF h(1) b(4,4)] unfolding chunked_def cs(3)
    by (simp add: chunks_append cs(2) [symmetric] cs(1))
  from coalesce_loop_merge [OF this] obtain s' where
    s': "coalesce_loop (KMEM_HEAD s + 8 * of_nat ?T) (KMEM_HEAD s) ?s = Some s'"
    "kframe (headers ?s 0 (free_chunk k 0 cs)) ?s s'" "chunks (hdr s') 0 (merge_pairs (free_chunk k 0 cs))"
    by auto
  have "kfree PS (?p + 8) s = Some s'"
    using nz hdr_ops(2,5) [OF h(1) c(2) b(3)] s'(1) by (simp add: kfree_def coalesce_def heap_bytes_def)
  moreover have "headers ?s 0 (free_chunk k 0 cs) = headers s 0 cs"
    unfolding cs(3) unfolding cs(1) headers_def by (simp add: starts_append)
  then have "kframe (headers s 0 cs) s s'"
    using s'(2) kframe_trans [OF kframe_kput [of s k _ m False]] cs(1,2)
    by (fastforce simp: headers_def starts_append)
  moreover from kframe_same [OF this] have "kmem_ok PS s' (merge_pairs (free_chunk k 0 cs))"
    using h s'(3) sizes_merge [of "free_chunk k 0 cs"] cs(3) by (simp add: kmem_ok_def cs(1))
  ultimately show ?thesis by blast
qed

lemma taken_free_chunk:
  assumes "(k, m) \<in> set (taken_chunks 0 cs)" "sizes_ok cs"
  shows "\<exists>us vs. taken_chunks 0 cs = us @ (k, m) # vs \<and> taken_chunks 0 (free_chunk k 0 cs) = us @ vs"
proof -
  from taken_chunk_split [OF assms] obtain as bs where
    c: "cs = as @ (m, True) # bs" "k = span as" "free_chunk k 0 cs = as @ (m, False) # bs" by auto
  have "taken_chunks 0 cs = taken_chunks 0 as @ (k, m) # taken_chunks (k + m) bs"
    by (simp add: c(1,2) taken_chunks_append)
  moreover have "taken_chunks 0 (free_chunk k 0 cs) = taken_chunks 0 as @ taken_chunks (k + m) bs"
    unfolding c(3) by (simp add: c(2) taken_chunks_append)
  ultimately show ?thesis by blast
qed

lemma taken_carve:
  assumes "find_chunk T n 0 cs = Some (k, m)" "sizes_ok cs"
  shows "\<exists>us vs l. taken_chunks 0 cs = us @ vs \<and> n \<le> l \<and> taken_chunks 0 (carve k n 0 cs) = us @ (k, l) # vs"
proof -
  from find_chunk_Some [OF assms] obtain as bs where
    c: "cs = as @ (m, False) # bs" "k = span as" "n \<le> m"
    "carve k n 0 cs = as @ (if 8 < m - n then (n, True) # (m - n, False) # bs else (m, True) # bs)" by auto
  define l where "l = (if 8 < m - n then n else m)"
  have "taken_chunks 0 (carve k n 0 cs) = taken_chunks 0 as @ (k, l) # taken_chunks (k + m) bs"
    unfolding c(4) using c(3) by (simp add: c(2) taken_chunks_append l_def)
  moreover have "taken_chunks 0 cs = taken_chunks 0 as @ taken_chunks (k + m) bs"
    by (simp add: c(1,2) taken_chunks_append)
  moreover have "n \<le> l" using c(3) by (simp add: l_def)
  ultimately show ?thesis by blast
qed

end
