(* ===== verification/KmemHeap.thy ===== *)
theory KmemHeap
  imports Kmem
begin

text \<open>
  What the kernel heap of \<^verbatim>\<open>gcc/kmem.c\<close> promises: its blocks satisfy the contract \<open>block_heap\<close>, from
  what \<open>kmem_init\<close> leaves on the page allocator. Then what it does not: it leaves its pages, and a
  request of zero bytes makes the next one hang.
\<close>

section \<open>Blocks of a client\<close>

text \<open>A client holds the bytes it asked for behind the header of a taken chunk.\<close>

definition payload :: "kmem \<Rightarrow> nat \<times> nat \<Rightarrow> nat \<times> nat \<Rightarrow> bool" where
  "payload s c b \<longleftrightarrow> fst b = unat (KMEM_HEAD s) + 8 * fst c + 8 \<and> snd b \<le> snd c"

definition kholds :: "u64 \<Rightarrow> kmem \<Rightarrow> (nat \<times> nat) list \<Rightarrow> bool" where
  "kholds PAGE_SIZE s held \<longleftrightarrow> (\<exists>cs bl. kmem_ok PAGE_SIZE s cs \<and> mset bl = mset (taken_chunks 0 cs) \<and>
     list_all2 (payload s) bl held)"

lemma starts_bounds: "sizes_ok cs \<Longrightarrow> j \<in> starts i cs \<Longrightarrow> i \<le> j \<and> j < i + span cs"
proof (induction cs arbitrary: i)
  case (Cons c cs)
  obtain m t where c: "c = (m, t)" by (cases c)
  show ?case using Cons.IH [of "i + m"] Cons.prems c by fastforce
qed simp

lemma taken_starts:
  assumes "(k, m) \<in> set (taken_chunks 0 cs)" "sizes_ok cs"
  shows "0 < m" "8 dvd m" "k + m \<le> span cs" "j \<in> starts 0 cs \<Longrightarrow> j \<le> k \<or> k + m \<le> j"
proof -
  from taken_chunk_split [OF assms] obtain as bs where
    c: "cs = as @ (m, True) # bs" "k = span as" by auto
  show "0 < m" "8 dvd m" "k + m \<le> span cs" using assms(2) by (simp_all add: c)
  assume "j \<in> starts 0 cs"
  then show "j \<le> k \<or> k + m \<le> j"
    using starts_bounds [of as j 0] starts_bounds [of bs j "span as + m"] assms(2) by (auto simp: c starts_append)
qed

lemma payload_bytes:
  assumes ok: "kmem_ok PS s cs" and k: "(k, m) \<in> set (taken_chunks 0 cs)"
    and x: "unat (KMEM_HEAD s) + 8 * k + 8 \<le> x" "x < unat (KMEM_HEAD s) + 8 * k + 8 + m"
  shows "x < 2 ^ 64" "of_nat x \<notin> headers s 0 cs"
proof -
  let ?T = "heap_bytes PS s"
  have h: "kheap_at ?T s" "span cs = ?T" "sizes_ok cs" using ok by (simp_all add: kmem_ok_def)
  note t = taken_starts [OF k h(3)]
  from t(1,2) have m: "8 \<le> m" by (simp add: dvd_imp_le)
  show l: "x < 2 ^ 64" using x t(3) h(1,2) m unfolding kheap_at_def by linarith
  have "of_nat x \<notin> hbytes s j" if "j \<in> starts 0 cs" for j
  proof -
    have "j < ?T" using starts_bounds [OF h(3) that] h(2) by simp
    moreover have "j \<le> k \<or> k + m \<le> j" using that by (rule t(4))
    ultimately show ?thesis using x m by (auto simp: hbytes_interval [OF h(1)] unat_of_nat_64 [OF l])
  qed
  then show "of_nat x \<notin> headers s 0 cs" by (auto simp: headers_def)
qed

lemma held_chunk:
  assumes "mset bl = mset (taken_chunks 0 cs)" "list_all2 (payload s) bl held" "in_blocks held x"
  obtains k m where "(k, m) \<in> set (taken_chunks 0 cs)"
    "unat (KMEM_HEAD s) + 8 * k + 8 \<le> x" "x < unat (KMEM_HEAD s) + 8 * k + 8 + m"
proof -
  obtain b where b: "b \<in> set held" "inside b x" using assms(3) by (auto simp: in_blocks_def)
  then obtain i where i: "i < length held" "held ! i = b" by (auto simp: in_set_conv_nth)
  define c where "c = bl ! i"
  have c: "c \<in> set bl" "payload s c b"
    using assms(2) i by (auto simp: list_all2_conv_all_nth c_def)
  have "c \<in> set (taken_chunks 0 cs)" using c(1) assms(1) mset_eq_setD by blast
  then show thesis using that [of "fst c" "snd c"] c(2) b(2) by (simp add: payload_def inside_def)
qed

lemma kept_byte:
  assumes "kmem_ok PS s cs" "mset bl = mset (taken_chunks 0 cs)" "list_all2 (payload s) bl held" "in_blocks held x"
    "kframe (headers s 0 cs) s s'"
  shows "mem (pg s') (of_nat x) = mem (pg s) (of_nat x)"
  by (rule held_chunk [OF assms(2-4)]) (use payload_bytes(2) [OF assms(1)] assms(5) in \<open>auto simp: kframe_def\<close>)

lemma payload_cong: "KMEM_HEAD s' = KMEM_HEAD s \<Longrightarrow> payload s' = payload s"
  by (auto simp: payload_def fun_eq_iff)

text \<open>The blocks of different chunks are disjoint.\<close>

lemma taken_chunks_ge: "(k, m) \<in> set (taken_chunks i cs) \<Longrightarrow> i \<le> k"
  by (induction cs arbitrary: i) (fastforce split: if_splits)+

lemma taken_sorted: "sizes_ok cs \<Longrightarrow> sorted_wrt (\<lambda>(k, m) (k', m'). k + m \<le> k' \<and> 8 \<le> m \<and> 8 \<le> m') (taken_chunks i cs)"
proof (induction cs arbitrary: i)
  case (Cons c cs)
  obtain n t where c: "c = (n, t)" by (cases c)
  have "8 \<le> m" if "(k, m) \<in> set (taken_chunks j cs)" for k m j
    using taken_chunk_split [OF that] Cons.prems c by (auto simp: dvd_imp_le)
  moreover have "8 \<le> n" using Cons.prems c by (simp add: dvd_imp_le)
  ultimately show ?case using Cons c taken_chunks_ge by fastforce
qed simp

lemma kholds_clear: "kholds PS s held \<Longrightarrow> sorted_wrt clear_of held"
proof -
  assume "kholds PS s held"
  then obtain cs bl where ok: "kmem_ok PS s cs" "mset bl = mset (taken_chunks 0 cs)" "list_all2 (payload s) bl held"
    by (auto simp: kholds_def)
  let ?R = "\<lambda>c d. \<forall>b b'. payload s c b \<longrightarrow> payload s d b' \<longrightarrow> clear_of b b'"
  have "sorted_wrt ?R (taken_chunks 0 cs)"
  proof (rule sorted_wrt_mono_rel [OF _ taken_sorted])
    show "sizes_ok cs" using ok(1) by (simp add: kmem_ok_def)
  qed (auto simp: payload_def clear_of_def inside_def)
  moreover have "?R d c" if "?R c d" for c d using that clear_of_sym by blast
  ultimately have "sorted_wrt ?R bl" using ok(2) by (intro sorted_wrt_perm [of ?R bl]) blast+
  then show ?thesis using ok(3)
    unfolding sorted_wrt_iff_nth_less list_all2_conv_all_nth by (metis order.strict_trans)
qed

section \<open>The contract of a heap\<close>

lemma kmalloc_holds:
  assumes "kholds PS s held" and n: "0 < n" "n + 8 \<le> 2 ^ 64"
  shows "\<exists>p s'. kmalloc PS (of_nat n) s = Some (p, s') \<and>
    kholds PS s' (if p = 0 then held else (unat p, n) # held) \<and>
    (\<forall>x. in_blocks held x \<longrightarrow> mem (pg s') (of_nat x) = mem (pg s) (of_nat x))"
proof -
  obtain cs bl where ok: "kmem_ok PS s cs" "mset bl = mset (taken_chunks 0 cs)" "list_all2 (payload s) bl held"
    using assms(1) by (auto simp: kholds_def)
  let ?T = "heap_bytes PS s" and ?n = "round8 n"
  have u: "unat (of_nat n :: u64) = n" using n(2) by (intro unat_of_nat_64) simp
  then have n': "0 < (of_nat n :: u64)" using n(1) by (simp add: word_less_nat_alt)
  note m = kmalloc_find [OF ok(1) n', unfolded u, OF n(2)]
  show ?thesis
  proof (cases "find_chunk ?T ?n 0 cs")
    case None
    then show ?thesis using m assms(1) by simp
  next
    case (Some km)
    obtain k c where f: "find_chunk ?T ?n 0 cs = Some (k, c)" using Some by (cases km) simp
    let ?s = "cut k ?n c s" and ?cs = "carve k ?n 0 cs" and ?p = "KMEM_HEAD s + 8 * of_nat k + 8"
    have h: "kheap_at ?T s" "span cs = ?T" "sizes_ok cs" using ok(1) by (simp_all add: kmem_ok_def)
    have ok': "kmem_ok PS ?s ?cs"
      by (rule cut_ok [OF ok(1) f round8_props(4) [OF n(1)] round8_props(1)])
    obtain us vs l where t: "taken_chunks 0 cs = us @ vs" "?n \<le> l" "taken_chunks 0 ?cs = us @ (k, l) # vs"
      using taken_carve [OF f h(3)] by blast
    have kT: "8 * k < ?T" using find_chunk_Some [OF f h(3)] by auto
    have "unat (KMEM_HEAD s + 8 * of_nat k + of_nat 8) = unat (KMEM_HEAD s) + 8 * k + 8"
      using unat_place [OF h(1), of k] kT h(1) by (subst unat_add_of_nat) (simp_all add: kheap_at_def)
    then have p: "unat ?p = unat (KMEM_HEAD s) + 8 * k + 8" "?p \<noteq> 0" by auto
    have "payload ?s (k, l) (unat ?p, n)"
      using p(1) t(2) round8_props(2) [of n] by (simp add: payload_def)
    then have "kholds PS ?s ((unat ?p, n) # held)"
      using ok(2,3) ok' t unfolding kholds_def
      by (intro exI [of _ ?cs] exI [of _ "(k, l) # bl"]) (simp add: payload_cong [of ?s s])
    moreover have "mem (pg ?s) (of_nat x) = mem (pg s) (of_nat x)" if x: "in_blocks held x" for x
    proof (rule held_chunk [OF ok(2,3) x])
      fix j m assume j: "(j, m) \<in> set (taken_chunks 0 cs)"
        and b: "unat (KMEM_HEAD s) + 8 * j + 8 \<le> x" "x < unat (KMEM_HEAD s) + 8 * j + 8 + m"
      have "(j, m) \<in> set (taken_chunks 0 ?cs)" using j t by auto
      from payload_bytes(2) [OF ok' this] b have "of_nat x \<notin> headers ?s 0 ?cs" by simp
      moreover have "headers ?s = headers s" by (simp add: headers_def fun_eq_iff cut_def)
      moreover have "k \<in> starts 0 ?cs" "8 < c - ?n \<longrightarrow> k + ?n \<in> starts 0 ?cs"
        using find_chunk_Some [OF f h(3)] by (auto simp: starts_append)
      ultimately show ?thesis by (intro cut_frame) (auto simp: headers_def)
    qed
    ultimately show ?thesis using m f p(2) by auto
  qed
qed

lemma kfree_holds:
  assumes "kholds PS s (us @ (p, n) # vs)"
  shows "\<exists>s'. kfree PS (of_nat p) s = Some s' \<and> kholds PS s' (us @ vs) \<and>
    (\<forall>x. in_blocks (us @ vs) x \<longrightarrow> mem (pg s') (of_nat x) = mem (pg s) (of_nat x))"
proof -
  obtain cs bl where ok: "kmem_ok PS s cs" "mset bl = mset (taken_chunks 0 cs)"
    "list_all2 (payload s) bl (us @ (p, n) # vs)"
    using assms by (auto simp: kholds_def)
  obtain ub k m vb where b: "bl = ub @ (k, m) # vb" "list_all2 (payload s) ub us"
    "payload s (k, m) (p, n)" "list_all2 (payload s) vb vs"
    using ok(3) by (auto simp: list_all2_append2 list_all2_Cons2)
  have k: "(k, m) \<in> set (taken_chunks 0 cs)" using ok(2) b(1) mset_eq_setD by fastforce
  have h: "kheap_at (heap_bytes PS s) s" "span cs = heap_bytes PS s" "sizes_ok cs"
    using ok(1) by (simp_all add: kmem_ok_def)
  have "p = unat (KMEM_HEAD s) + 8 * k + 8" using b(3) by (simp add: payload_def)
  then have p: "of_nat p = KMEM_HEAD s + 8 * of_nat k + 8" by simp
  obtain s' where s': "kfree PS (of_nat p) s = Some s'" "kmem_ok PS s' (merge_pairs (free_chunk k 0 cs))"
    "kframe (headers s 0 cs) s s'"
    using kfree_merge [OF ok(1) k] unfolding p by blast
  obtain xs ys where "taken_chunks 0 cs = xs @ (k, m) # ys" "taken_chunks 0 (free_chunk k 0 cs) = xs @ ys"
    using taken_free_chunk [OF k h(3)] by blast
  then have "mset (ub @ vb) = mset (taken_chunks 0 (merge_pairs (free_chunk k 0 cs)))"
    using ok(2) b(1) by simp
  moreover have "list_all2 (payload s') (ub @ vb) (us @ vs)"
    using b(2,4) payload_cong [OF kframe_same(5) [OF s'(3)]] by (simp add: list_all2_appendI)
  ultimately have "kholds PS s' (us @ vs)" using s'(2) unfolding kholds_def by blast
  moreover have "mem (pg s') (of_nat x) = mem (pg s) (of_nat x)" if "in_blocks (us @ vs) x" for x
    using kept_byte [OF ok _ s'(3), of x] that by auto
  ultimately show ?thesis using s'(1) by blast
qed

lemma chunks_starts: "(\<And>j. j \<in> starts i cs \<Longrightarrow> H' j = H j) \<Longrightarrow> chunks H i cs \<Longrightarrow> chunks H' i cs"
  by (induction cs arbitrary: i) auto

text \<open>Writing within the blocks keeps the heap.\<close>

lemma kwrite_holds:
  assumes "kholds PS s held" and m: "\<And>x. \<forall>y. in_blocks held y \<longrightarrow> x \<noteq> of_nat y \<Longrightarrow> m x = mem (pg s) x"
  shows "kholds PS (s\<lparr>pg := (pg s)\<lparr>mem := m\<rparr>\<rparr>) held"
proof -
  let ?s = "s\<lparr>pg := (pg s)\<lparr>mem := m\<rparr>\<rparr>"
  obtain cs bl where ok: "kmem_ok PS s cs" "mset bl = mset (taken_chunks 0 cs)" "list_all2 (payload s) bl held"
    using assms(1) by (auto simp: kholds_def)
  have pb: "of_nat y \<notin> headers s 0 cs" if "in_blocks held y" for y
    by (rule held_chunk [OF ok(2,3) that], use payload_bytes [OF ok(1)] in blast)
  have "hdr ?s j = hdr s j" if "j \<in> starts 0 cs" for j
  proof -
    have "m x = mem (pg s) x" if "x \<in> hbytes s j" for x
      using pb that \<open>j \<in> starts 0 cs\<close> by (intro m) (auto simp: headers_def)
    then have "load64 m (KMEM_HEAD s + 8 * of_nat j) = load64 (mem (pg s)) (KMEM_HEAD s + 8 * of_nat j)"
      by (intro m64.load_cong) (simp add: hbytes_def)
    then show ?thesis by (simp add: hdr_def kload_def)
  qed
  then have "chunks (hdr ?s) 0 cs" using ok(1) by (intro chunks_starts [of 0 cs "hdr ?s" "hdr s"]) (simp_all add: kmem_ok_def)
  then have "kmem_ok PS ?s cs" using ok(1) by (simp add: kmem_ok_def heap_bytes_def kheap_at_def)
  moreover have "payload ?s = payload s" by (rule payload_cong) simp
  ultimately show ?thesis using ok(2,3) unfolding kholds_def by auto
qed

lemma held_small: "kholds PS s held \<Longrightarrow> in_blocks held y \<Longrightarrow> y < 2 ^ 64"
  unfolding kholds_def using held_chunk payload_bytes(1) by metis

definition kpoke :: "nat \<Rightarrow> u8 \<Rightarrow> kmem \<Rightarrow> kmem" where
  "kpoke x v s = s\<lparr>pg := (pg s)\<lparr>mem := (mem (pg s))(of_nat x := v)\<rparr>\<rparr>"

lemma kpoke_holds:
  assumes "kholds PS s held" "in_blocks held x"
  shows "kholds PS (kpoke x v s) held \<and>
    (\<forall>y. in_blocks held y \<longrightarrow> mem (pg (kpoke x v s)) (of_nat y) = (if y = x then v else mem (pg s) (of_nat y)))"
proof -
  have "kholds PS (kpoke x v s) held"
    unfolding kpoke_def using assms by (intro kwrite_holds) auto
  moreover have "(of_nat y :: u64) = of_nat x \<longleftrightarrow> y = x" if "in_blocks held y" for y
    using unat_of_nat_64 [OF held_small [OF assms(1) that]] unat_of_nat_64 [OF held_small [OF assms]] by metis
  ultimately show ?thesis by (simp add: kpoke_def)
qed

definition kget :: "u64 \<Rightarrow> nat \<Rightarrow> kmem \<Rightarrow> (nat \<times> kmem) option" where
  "kget PAGE_SIZE n s = map_option (\<lambda>(p, s'). (unat p, s')) (kmalloc PAGE_SIZE (of_nat n) s)"

interpretation kheap_blocks: block_heap "kholds PS" "\<lambda>s x. mem (pg s) (of_nat x)" "kget PS" kpoke
  "\<lambda>p. kfree PS (of_nat p)" "\<lambda>n s. 0 < n \<and> n + 8 \<le> 2 ^ 64" for PS
proof unfold_locales
  fix s held n
  assume "kholds PS s held" "0 < n \<and> n + 8 \<le> (2 :: nat) ^ 64"
  then obtain p s' where "kmalloc PS (of_nat n) s = Some (p, s')"
    "kholds PS s' (if p = 0 then held else (unat p, n) # held)"
    "\<forall>x. in_blocks held x \<longrightarrow> mem (pg s') (of_nat x) = mem (pg s) (of_nat x)"
    using kmalloc_holds by blast
  then show "\<exists>p s'. kget PS n s = Some (p, s') \<and> kholds PS s' (if p = 0 then held else (p, n) # held) \<and>
      (\<forall>x. in_blocks held x \<longrightarrow> mem (pg s') (of_nat x) = mem (pg s) (of_nat x))"
    by (intro exI [of _ "unat p"] exI [of _ s']) (simp add: kget_def unat_eq_zero)
qed (use kpoke_holds kfree_holds kholds_clear in blast)+

section \<open>Taking the pages\<close>

lemma AL_set_free_globals [simp]:
  "KMEM_HEAD (AL_set_free p s) = KMEM_HEAD s" "KMEM_ALLOC (AL_set_free p s) = KMEM_ALLOC s"
  by (simp_all add: AL_set_free_def)

text \<open>What \<open>kmem_init\<close> leaves: one free chunk over the 512 pages, and a zeroed page for the tables.\<close>

lemma kmem_init_chunk:
  assumes s: "flags_first PS (pg s)" "512 < num_pages PS (pg s)"
    and k: "first_fit (flags PS (pg s)) 512 = Some k" "first_fit (mark (flags PS (pg s)) k 512) 1 = Some j"
    and room: "unat (page_at PS (pg s) k) + 8 * (512 * unat PS) < 2 ^ 64"
  shows "kmem_ok PS (kmem_init PS s) [(512 * unat PS, False)] \<and>
    KMEM_HEAD (kmem_init PS s) = page_at PS (pg s) k \<and> KMEM_PAGE_TABLE (kmem_init PS s) = page_at PS (pg s) j \<and>
    heap_bytes PS (kmem_init PS s) = 512 * unat PS"
proof -
  let ?g = "pg s" and ?T = "512 * unat PS" and ?p = "page_at PS (pg s) k"
  have ok: "ok_pages PS ?g" "8 dvd unat PS" "0 < unat PS"
    using s(1) by (simp_all add: flags_first_def ok_pages_def word_less_nat_alt)
  have f: "k + 512 < num_pages PS ?g" using first_fit_Some [OF k(1)] by simp
  obtain m where m: "zalloc PS (of_nat 512) ?g = (?p, ?g\<lparr>mem := m\<rparr>)"
    "flags_first PS (?g\<lparr>mem := m\<rparr>)" "flags PS (?g\<lparr>mem := m\<rparr>) = mark (flags PS ?g) k 512"
    using zalloc_run [OF s(1) _ _ k(1)] s(2) by auto
  let ?s2 = "s\<lparr>ATaken := top_bit, KMEM_ALLOC := 512, pg := ?g\<lparr>mem := m\<rparr>, KMEM_HEAD := ?p\<rparr>"
  have "?p \<noteq> 0" using page_at_nonzero [OF ok(1)] f by simp
  then have h2: "kheap_at ?T ?s2" using room by (simp add: kheap_at_def word_neq_0_conv)
  have T: "(512 :: u64) * PS = of_nat ?T" by simp
  let ?s3 = "kput 0 ?T False ?s2"
  have c: "AL_set_size ?p (512 * PS) (AL_set_free ?p ?s2) = ?s3"
    using fresh_header [OF h2, of ?T 0] unfolding T by simp
  have run: "unat (ALLOC_START ?g) + unat PS * k = unat ?p"
    using unat_page_at(1) [OF ok(1)] f by simp
  have T8: "8 \<le> unat PS" using ok(2,3) by (simp add: dvd_imp_le)
  have hb: "x \<in> hbytes ?s2 0 \<longleftrightarrow> unat ?p \<le> unat x \<and> unat x < unat ?p + 8" for x
    using hbytes_interval [OF h2, of 0 x] ok(3) by simp
  have m3: "pg ?s3 = ?g\<lparr>mem := mem (pg ?s3)\<rparr>" by (simp add: kput_def kstore_def)
  have "mem (pg ?s3) x = m x" if "unat x < unat (ALLOC_START ?g)" for x
  proof -
    have "x \<notin> hbytes ?s2 0" using that run unfolding hb by linarith
    from kput_frame [OF this] show ?thesis by simp
  qed
  with flags_first_cong [OF m(2), of "mem (pg ?s3)"] m3 m(3)
  have f3: "flags_first PS (pg ?s3)" "flags PS (pg ?s3) = mark (flags PS ?g) k 512" by simp_all
  have n3: "num_pages PS (pg ?s3) = num_pages PS ?g" "page_at PS (pg ?s3) = page_at PS ?g"
    "ALLOC_START (pg ?s3) = ALLOC_START ?g"
    by (subst m3, simp add: num_pages_def page_at_def fun_eq_iff)+
  obtain m' where m': "zalloc PS (of_nat 1) (pg ?s3) = (page_at PS ?g j, (pg ?s3)\<lparr>mem := m'\<rparr>)"
    "\<forall>x. unat (ALLOC_START ?g) \<le> unat x \<longrightarrow> x \<notin> bytes_at (page_at PS ?g j) (unat PS * 1) \<longrightarrow> m' x = mem (pg ?s3) x"
    using zalloc_run [OF f3(1), of 1 j] k(2) f3(2) s(2) unfolding n3 by auto
  let ?s4 = "?s3\<lparr>pg := (pg ?s3)\<lparr>mem := m'\<rparr>, KMEM_PAGE_TABLE := page_at PS ?g j\<rparr>"
  have i: "kmem_init PS s = ?s4"
    using m(1) m'(1) c by (simp add: kmem_init_def Let_def top_bit_def)
  have j: "j + 1 < num_pages PS ?g" "mark (flags PS ?g) k 512 ! j = Empty"
    using first_fit_Some [OF k(2)] by (auto simp: run_free_def)
  then have jk: "\<not> (k \<le> j \<and> j < k + 512)" using mark_empty [of j "flags PS ?g" 512 k] by simp
  have "m' x = mem (pg ?s3) x" if x: "x \<in> hbytes ?s2 0" for x
  proof -
    have "x \<notin> bytes_at (page_at PS ?g j) (unat PS * 1)"
      using x T8 j(1) jk f unfolding hb by (intro other_page [OF ok(1), of k]) auto
    then show ?thesis using m'(2) x run unfolding hb by simp
  qed
  then have "load64 m' ?p = load64 (mem (pg ?s3)) ?p"
    by (intro m64.load_cong) (simp add: hbytes_def)
  then have "hdr ?s4 0 = hdr ?s3 0" by (simp add: hdr_def kload_def)
  also have "\<dots> = hword ?T False" using hdr_kput [OF h2, of 0 0 ?T False] ok(3) by simp
  finally have "hdr ?s4 0 = hword ?T False" .
  moreover have hb4: "heap_bytes PS ?s4 = ?T"
    using room by (simp add: heap_bytes_def T unat_of_nat_64 del: of_nat_mult)
  moreover have "kheap_at ?T ?s4" using h2 by (simp add: kheap_at_def)
  ultimately have "kmem_ok PS ?s4 [(?T, False)]" using ok by (simp add: kmem_ok_def)
  then show ?thesis unfolding i using hb4 by simp
qed

section \<open>Requests of zero bytes\<close>

lemma kmalloc_loop_stuck:
  assumes "kmalloc_loop tail n head s = Some r" "\<not> n \<le> AL_get_size head s" "AL_get_size head s = 0"
  shows "\<not> head < tail"
proof -
  have "n' = n \<and> h = head \<and> s' = s \<longrightarrow> \<not> h < tail'" if "kmalloc_loop tail' n' h s' = Some r'" for tail' n' h s' r'
    using that
  proof (rule kmalloc_loop.raw_induct [rotated])
    fix f :: "u64 \<Rightarrow> u64 \<Rightarrow> u64 \<Rightarrow> kmem \<Rightarrow> (u64 \<times> kmem) option" and tail n' h s' r
    assume IH: "\<And>tail n' h s' r. f tail n' h s' = Some r \<Longrightarrow> n' = n \<and> h = head \<and> s' = s \<longrightarrow> \<not> h < tail"
      and e: "(if h < tail
        then if AL_is_free h s' \<noteq> 0 \<and> n' \<le> AL_get_size h s'
          then let chunk_size = AL_get_size h s'; rem = chunk_size - n'; s = AL_set_taken h s';
                   s = (if rem > 8 then let nxt = h + 8 * n'; s = AL_set_free nxt s; s = AL_set_size nxt rem s
                                     in AL_set_size h n' s
                        else AL_set_size h chunk_size s)
               in Some (h + 8, s)
          else f tail n' (h + 8 * AL_get_size h s') s'
        else Some (0, s')) = Some r"
    show "n' = n \<and> h = head \<and> s' = s \<longrightarrow> \<not> h < tail"
    proof
      assume eq: "n' = n \<and> h = head \<and> s' = s"
      show "\<not> h < tail"
      proof
        assume "h < tail"
        then have "f tail n' h s' = Some r" using e eq assms(2,3) by auto
        then show False using IH eq \<open>h < tail\<close> by blast
      qed
    qed
  qed
  then show ?thesis using assms(1) by blast
qed

lemma kmalloc_zero:
  assumes ok: "kmem_ok PS s ((m, False) # cs)" and m: "8 < m"
  shows "kmalloc PS 0 s = Some (KMEM_HEAD s + 8, kput 0 0 False s)"
proof -
  let ?T = "heap_bytes PS s" and ?h = "KMEM_HEAD s" and ?t = "KMEM_HEAD s + KMEM_ALLOC s * PS"
  have h: "kheap_at ?T s" "hdr s 0 = hword m False" "m \<le> ?T" "0 < ?T" using ok m by (auto simp: kmem_ok_def)
  let ?k = "\<lambda>n t. kput 0 n t s"
  have H: "hdr (?k n t) 0 = hword n t" for n t using hdr_kput [OF h(1) h(4,4)] by simp
  have o: "AL_is_free ?h s \<noteq> 0" "AL_get_size ?h s = of_nat m" "AL_set_taken ?h s = ?k m True"
    using hdr_ops [OF h(1-3)] by simp_all
  have p: "AL_set_free ?h (?k m True) = ?k m False" "AL_set_size ?h (of_nat m) (?k m False) = ?k m False"
    "AL_set_size ?h 0 (?k m False) = ?k 0 False"
    using hdr_ops(5) [of ?T "?k m True" 0 m True] hdr_set_size [of ?T "?k m False" 0 m False m]
      hdr_set_size [of ?T "?k m False" 0 m False 0] h H
    by (simp_all add: kput_twice)
  have "unat (KMEM_HEAD s + of_nat ?T) = unat ?h + ?T"
    using h(1) by (intro unat_add_of_nat) (simp add: kheap_at_def)
  then have lt: "?h < ?t" using h(4) by (simp add: word_less_nat_alt heap_bytes_def)
  have "8 < (of_nat m :: u64)" using kheap_small [OF h(1,3)] m of_nat_less_64 [of 8 m] by simp
  then have "kmalloc_loop ?t 0 ?h s = Some (?h + 8, ?k 0 False)"
    using lt o p by (subst kmalloc_loop.simps) (simp add: Let_def)
  then show ?thesis by (simp add: kmalloc_def align_val_def)
qed

lemma kmalloc_stuck:
  assumes "kheap_at (heap_bytes PS s) s" "0 < heap_bytes PS s" "hdr s 0 = hword 0 False"
    "0 < sz" "unat sz + 8 \<le> 2 ^ 64"
  shows "kmalloc PS sz s = None"
proof (rule ccontr)
  let ?t = "KMEM_HEAD s + KMEM_ALLOC s * PS"
  assume "kmalloc PS sz s \<noteq> None"
  then obtain r where "kmalloc_loop ?t (align_val sz 3) (KMEM_HEAD s) s = Some r" by (auto simp: kmalloc_def)
  moreover have z: "AL_get_size (KMEM_HEAD s) s = 0" using hdr_ops(3) [OF assms(1,3)] by simp
  moreover have "align_val sz 3 \<noteq> 0"
    using round8_bound [OF assms(4,5)] unat_of_nat_64 [of "round8 (unat sz)"] align_val_8 [OF assms(5)] by auto
  ultimately have "\<not> KMEM_HEAD s < ?t" by (intro kmalloc_loop_stuck) auto
  moreover have "unat (KMEM_HEAD s + of_nat (heap_bytes PS s)) = unat (KMEM_HEAD s) + heap_bytes PS s"
    using assms(1) by (intro unat_add_of_nat) (simp add: kheap_at_def)
  ultimately show False using assms(2) by (simp add: word_less_nat_alt heap_bytes_def)
qed

section \<open>Zeroed blocks\<close>

lemma zero_bytes_eq:
  "i \<le> n \<Longrightarrow> n < 2 ^ 64 \<Longrightarrow>
   zero_bytes p (of_nat i) (of_nat n) m x = (if x \<in> bytes_at (p + of_nat i) (n - i) then 0 else m x)"
proof (induction "n - i" arbitrary: i m)
  case 0
  then show ?case by (subst zero_bytes.simps) simp
next
  case (Suc d)
  then have i: "i < n" "d = n - Suc i" by simp_all
  have "n - i = Suc (n - Suc i)" using i(1) by simp
  then have b: "bytes_at (p + of_nat i) (n - i) = insert (p + of_nat i) (bytes_at (p + of_nat (Suc i)) (n - Suc i))"
    by (simp add: bytes_at_Suc add_ac)
  have "zero_bytes p (of_nat i) (of_nat n) m x = zero_bytes p (of_nat (Suc i)) (of_nat n) (m(p + of_nat i := 0)) x"
    using i Suc.prems by (subst zero_bytes.simps) (simp add: of_nat_less_64 add.commute)
  then show ?case using Suc.hyps(1) [OF i(2)] i Suc.prems by (simp add: b)
qed

lemma kholds_shrink: "kholds PS s ((a, N) # held) \<Longrightarrow> n \<le> N \<Longrightarrow> kholds PS s ((a, n) # held)"
proof -
  assume a: "kholds PS s ((a, N) # held)" and n: "n \<le> N"
  then obtain cs bl where ok: "kmem_ok PS s cs" "mset bl = mset (taken_chunks 0 cs)"
    "list_all2 (payload s) bl ((a, N) # held)" by (auto simp: kholds_def)
  then have "list_all2 (payload s) bl ((a, n) # held)" using n by (auto simp: list_all2_Cons2 payload_def)
  then show ?thesis using ok(1,2) by (auto simp: kholds_def)
qed

lemma kzmalloc_holds:
  assumes h: "kholds PS s held" and n: "0 < n" "n + 8 \<le> 2 ^ 64"
  shows "\<exists>p s'. kzmalloc PS (of_nat n) s = Some (p, s') \<and>
    kholds PS s' (if p = 0 then held else (unat p, n) # held) \<and>
    (p \<noteq> 0 \<longrightarrow> (\<forall>i < n. mem (pg s') (p + of_nat i) = 0)) \<and>
    (\<forall>x. in_blocks held x \<longrightarrow> mem (pg s') (of_nat x) = mem (pg s) (of_nat x))"
proof -
  let ?N = "round8 n"
  have u: "unat (of_nat n :: u64) = n" using n(2) by (intro unat_of_nat_64) simp
  have N: "0 < ?N" "?N + 8 \<le> 2 ^ 64"
    using round8_bound [of "of_nat n"] n unfolding u by (simp_all add: word_less_nat_alt u)
  have a: "align_val (of_nat n) 3 = of_nat ?N" using align_val_8 [of "of_nat n"] n(2) by (simp add: u)
  obtain p s1 where k: "kmalloc PS (of_nat ?N) s = Some (p, s1)"
    "kholds PS s1 (if p = 0 then held else (unat p, ?N) # held)"
    "\<forall>x. in_blocks held x \<longrightarrow> mem (pg s1) (of_nat x) = mem (pg s) (of_nat x)"
    using kmalloc_holds [OF h N] by blast
  show ?thesis
  proof (cases "p = 0")
    case True
    then show ?thesis using k by (simp add: kzmalloc_def a Let_def)
  next
    case False
    let ?m = "zero_bytes p 0 (of_nat ?N) (mem (pg s1))"
    let ?s = "s1\<lparr>pg := (pg s1)\<lparr>mem := ?m\<rparr>\<rparr>"
    have z: "?m x = (if x \<in> bytes_at p ?N then 0 else mem (pg s1) x)" for x
      using zero_bytes_eq [of 0 ?N p "mem (pg s1)" x] N(2) by simp
    have h1: "kholds PS s1 ((unat p, ?N) # held)" using k(2) False by simp
    have pi: "p + of_nat i = of_nat (unat p + i)" for i by simp
    have in_p: "inside (unat p, ?N) (unat p + i)" if "i < ?N" for i using that by (simp add: inside_def)
    have "kholds PS ?s ((unat p, ?N) # held)"
    proof (rule kwrite_holds [OF h1])
      fix x :: u64 assume x: "\<forall>y. in_blocks ((unat p, ?N) # held) y \<longrightarrow> x \<noteq> of_nat y"
      have "x \<noteq> p + of_nat i" if "i < ?N" for i
      proof -
        have "in_blocks ((unat p, ?N) # held) (unat p + i)" using in_p [OF that] by simp
        then show ?thesis using x unfolding pi by blast
      qed
      then show "?m x = mem (pg s1) x" unfolding z by (auto simp: bytes_at_def)
    qed
    then have "kholds PS ?s ((unat p, n) # held)" using kholds_shrink round8_props(2) by blast
    moreover have "?m (p + of_nat i) = 0" if "i < n" for i
      using that round8_props(2) [of n] by (simp add: z bytes_at_def)
    moreover have "?m (of_nat x) = mem (pg s) (of_nat x)" if x: "in_blocks held x" for x
    proof -
      have "of_nat x \<noteq> p + of_nat i" if i: "i < ?N" for i
      proof
        assume e: "of_nat x = p + of_nat i"
        have "x < 2 ^ 64" "unat p + i < 2 ^ 64"
          using held_small [OF h1, of x] held_small [OF h1, of "unat p + i"] x in_p [OF i] by simp_all
        then have "x = unat p + i" using e unat_of_nat_64 unfolding pi by metis
        then show False
          using kholds_clear [OF h1] x in_p [OF i] clear_of_blocks by auto
      qed
      then have "of_nat x \<notin> bytes_at p ?N" by (auto simp: bytes_at_def)
      then show ?thesis using k(3) x by (simp add: z)
    qed
    ultimately show ?thesis using k(1) False by (simp add: kzmalloc_def a Let_def)
  qed
qed

section \<open>Properties\<close>

text \<open>C6: the kernel heap refines a list of chunks: \<open>kmalloc\<close> of a size that is not 0 takes the first free chunk that is large
  enough among those that start in the first eighth of the span, cuts it when more than a header
  is left, and gives a null pointer when there is none; \<open>kfree\<close> marks the chunk free and merges pairs of
  free neighbours. Neither is ever stuck.\<close>

theorem kmem_refines_chunks:
  assumes "kmem_ok PS s cs"
  shows "(\<forall>sz. 0 < sz \<and> unat sz + 8 \<le> 2 ^ 64 \<longrightarrow>
      (case find_chunk (heap_bytes PS s) (round8 (unat sz)) 0 cs of
         None \<Rightarrow> kmalloc PS sz s = Some (0, s)
       | Some (k, m) \<Rightarrow> \<exists>s'. kmalloc PS sz s = Some (KMEM_HEAD s + 8 * of_nat k + 8, s') \<and>
           kmem_ok PS s' (carve k (round8 (unat sz)) 0 cs))) \<and>
    (\<forall>(k, m) \<in> set (taken_chunks 0 cs). \<exists>s'. kfree PS (KMEM_HEAD s + 8 * of_nat k + 8) s = Some s' \<and>
      kmem_ok PS s' (merge_pairs (free_chunk k 0 cs)))"
proof (intro conjI allI impI ballI)
  fix sz :: u64 assume "0 < sz \<and> unat sz + 8 \<le> 2 ^ 64"
  then have sz: "0 < sz" "unat sz + 8 \<le> 2 ^ 64" by simp_all
  have "0 < round8 (unat sz)" "8 dvd round8 (unat sz)" using round8_bound(1) [OF sz] round8_props(1) by blast+
  from cut_ok [OF assms _ this] kmalloc_find [OF assms sz]
  show "case find_chunk (heap_bytes PS s) (round8 (unat sz)) 0 cs of
         None \<Rightarrow> kmalloc PS sz s = Some (0, s)
       | Some (k, m) \<Rightarrow> \<exists>s'. kmalloc PS sz s = Some (KMEM_HEAD s + 8 * of_nat k + 8, s') \<and>
           kmem_ok PS s' (carve k (round8 (unat sz)) 0 cs)"
    by (auto split: option.splits)
qed (use kfree_merge [OF assms] in blast)

text \<open>C5: after \<open>kmem_init\<close>, whatever a client allocates, writes to its blocks and frees, as long as it asks for at
  least one byte and not for the last eight of the \<open>2 ^ 64\<close>: no call is stuck (a request of 0 bytes may leave the heap so that
  the next one hangs, C19), the blocks it holds never overlap, and it reads back every byte that it wrote to a block it still
  holds. The heap needs eight times the pages that \<open>kmem_init\<close> takes, with nothing else in them.\<close>

theorem kmem_client:
  assumes "flags_first PS (pg s)" "512 < num_pages PS (pg s)"
    "first_fit (flags PS (pg s)) 512 = Some k" "first_fit (mark (flags PS (pg s)) k 512) 1 = Some j"
    "unat (page_at PS (pg s) k) + 8 * (512 * unat PS) < 2 ^ 64"
    and run: "heap_run (kget PS) kpoke (\<lambda>p. kfree PS (of_nat p)) (\<lambda>n s. 0 < n \<and> n + 8 \<le> 2 ^ 64)
      (kmem_init PS s) s' held written"
  shows "sorted_wrt clear_of held \<and>
    (\<forall>x v. written x = Some v \<longrightarrow> in_blocks held x \<and> mem (pg s') (of_nat x) = v) \<and>
    (\<forall>n. 0 < n \<and> n + 8 \<le> 2 ^ 64 \<longrightarrow> kmalloc PS (of_nat n) s' \<noteq> None) \<and>
    (\<forall>(p, n) \<in> set held. kfree PS (of_nat p) s' \<noteq> None)"
proof -
  have "kmem_ok PS (kmem_init PS s) [(512 * unat PS, False)]" using kmem_init_chunk [OF assms(1-5)] by blast
  then have h: "kholds PS (kmem_init PS s) []" by (auto simp: kholds_def)
  show ?thesis
    using kheap_blocks.run_clear [OF h run] kheap_blocks.run_ok [OF h run] kheap_blocks.run_progress [OF h run]
    by (simp add: kget_def)
qed

text \<open>\<open>kzmalloc\<close> gives a block as \<open>kmalloc\<close> does, with every byte asked for zero, and leaves the bytes
  of the other blocks alone.\<close>

theorem kzmalloc_zeroes:
  assumes "kholds PS s held" "0 < n" "n + 8 \<le> 2 ^ 64"
  shows "\<exists>p s'. kzmalloc PS (of_nat n) s = Some (p, s') \<and>
    kholds PS s' (if p = 0 then held else (unat p, n) # held) \<and>
    (p \<noteq> 0 \<longrightarrow> (\<forall>i < n. mem (pg s') (p + of_nat i) = 0)) \<and>
    (\<forall>x. in_blocks held x \<longrightarrow> mem (pg s') (of_nat x) = mem (pg s) (of_nat x))"
  using assms by (rule kzmalloc_holds)

text \<open>C18: chunks are eight times as far apart as their sizes say, so the heap does not stay within its
  pages: on a fresh page allocator the page tables start right behind the 512 pages of the heap, and
  the first \<open>kmalloc\<close> of an eighth of the heap writes the header of the rest over their first entry.\<close>

theorem kmalloc_overwrites_page_table:
  assumes s: "flags_first PS (pg s)" "514 < num_pages PS (pg s)" "set (flags PS (pg s)) \<subseteq> {Empty}"
    and room: "unat (ALLOC_START (pg s)) + 8 * (512 * unat PS) < 2 ^ 64"
  shows "KMEM_PAGE_TABLE (kmem_init PS s) = KMEM_HEAD (kmem_init PS s) + 512 * PS \<and>
    (\<exists>s'. kmalloc PS (64 * PS) (kmem_init PS s) = Some (KMEM_HEAD (kmem_init PS s) + 8, s') \<and>
      kload (KMEM_PAGE_TABLE (kmem_init PS s)) s' = 448 * PS)"
proof -
  let ?i = "kmem_init PS s" and ?T = "512 * unat PS" and ?n = "64 * unat PS"
  have e: "flags PS (pg s) = replicate (num_pages PS (pg s)) Empty"
    using s(3) by (metis length_flags replicate_eqI singletonD subsetD)
  have p: "0 < unat PS" "8 dvd unat PS" using s(1) by (simp_all add: flags_first_def ok_pages_def word_less_nat_alt)
  have k: "first_fit (flags PS (pg s)) 512 = Some 0"
    using s(2) by (simp add: e first_fit_def run_free_def upt_conv_Cons)
  have f: "mark (flags PS (pg s)) 0 512 ! i = Empty \<longleftrightarrow> 512 \<le> i" if "i < num_pages PS (pg s)" for i
    using mark_empty [of i "flags PS (pg s)" 512 0] that by (simp add: e not_less)
  have j: "first_fit (mark (flags PS (pg s)) 0 512) 1 = Some 512"
    using s(2) by (intro first_fitI) (simp_all add: run_free_def f)
  have h: "page_at PS (pg s) 0 = ALLOC_START (pg s)" by (simp add: page_at_def)
  have i: "kmem_ok PS ?i [(?T, False)]" "KMEM_HEAD ?i = ALLOC_START (pg s)"
    "KMEM_PAGE_TABLE ?i = ALLOC_START (pg s) + PS * 512" "heap_bytes PS ?i = ?T"
    using kmem_init_chunk [OF s(1) _ k j] s(2) room by (simp_all add: h page_at_def)
  have "64 * PS = of_nat ?n" by simp
  then have sz: "unat (64 * PS) = ?n" using room by (simp only: unat_of_nat_64)
  have r: "round8 ?n = ?n" using p(2) by (auto simp: round8_def)
  have c: "find_chunk ?T ?n 0 [(?T, False)] = Some (0, ?T)" using p(1) by simp
  have m: "kmalloc PS (64 * PS) ?i = Some (KMEM_HEAD ?i + 8, cut 0 ?n ?T ?i)"
    using kmalloc_find [OF i(1), of "64 * PS"] c p(1) room by (simp add: i(4) sz r word_less_nat_alt)
  have "kheap_at ?T ?i" using i(1,4) by (simp add: kmem_ok_def)
  then have "hdr (cut 0 ?n ?T ?i) ?n = hword (448 * unat PS) False"
    using p dvd_imp_le [OF p(2,1)] by (simp add: cut_def hdr_kput [of ?T])
  then have "kload (KMEM_HEAD ?i + 8 * of_nat ?n) (cut 0 ?n ?T ?i) = 448 * PS"
    by (simp add: hdr_def hword_def)
  moreover have "KMEM_PAGE_TABLE ?i = KMEM_HEAD ?i + 512 * PS" unfolding i(2,3) by (simp add: mult.commute)
  moreover have "8 * of_nat ?n = 512 * PS" by simp
  ultimately show ?thesis using m by (simp only: simp_thms) blast
qed

text \<open>C19: \<open>kmalloc(0)\<close> on a free first chunk gives back its payload but leaves it free with size 0, and
  no later request of a size that is not 0 returns: the search stays at that chunk.\<close>

theorem kmalloc_zero_hangs:
  assumes "kmem_ok PS s ((m, False) # cs)" "8 < m" "0 < sz" "unat sz + 8 \<le> 2 ^ 64"
  shows "\<exists>s'. kmalloc PS 0 s = Some (KMEM_HEAD s + 8, s') \<and> kmalloc PS sz s' = None"
proof -
  let ?s = "kput 0 0 False s" and ?T = "heap_bytes PS s"
  have h: "kheap_at ?T s" "0 < ?T" using assms(1,2) by (auto simp: kmem_ok_def)
  have T: "heap_bytes PS ?s = ?T" by (simp add: heap_bytes_def)
  have "kmalloc PS sz ?s = None"
    using h hdr_kput [OF h(1) h(2,2)] by (intro kmalloc_stuck assms(3,4)) (simp_all add: T)
  then show ?thesis using kmalloc_zero [OF assms(1,2)] by blast
qed

section \<open>A heap of 1024 pages\<close>

definition big64 :: kmem where
  "big64 = \<lparr>pg = \<lparr>HEAP_START = 0x1000, HEAP_SIZE = 0x400000, ALLOC_START = 0x2000, mem = (\<lambda>_. 0), printed = []\<rparr>,
     ATaken = 0, KMEM_HEAD = 0, KMEM_ALLOC = 0, KMEM_PAGE_TABLE = 0\<rparr>"

lemma big64_pages:
  "num_pages 4096 (pg big64) = 1024" "flags 4096 (pg big64) = replicate 1024 Empty" "ALLOC_START (pg big64) = 0x2000"
proof -
  show n: "num_pages 4096 (pg big64) = 1024" by (simp add: num_pages_def big64_def)
  show "flags 4096 (pg big64) = replicate 1024 Empty"
    by (rule nth_equalityI) (simp_all add: n flags_nth, simp add: big64_def Empty_def)
qed (simp add: big64_def)

lemma big64_first: "flags_first 4096 (pg big64)"
  unfolding flags_first_def ok_pages_def big64_pages by (simp add: big64_def)

lemma big64_fit:
  "first_fit (flags 4096 (pg big64)) 512 = Some 0"
  "first_fit (mark (flags 4096 (pg big64)) 0 512) 1 = Some 512"
proof -
  show "first_fit (flags 4096 (pg big64)) 512 = Some 0"
    unfolding big64_pages by (intro first_fitI) (simp_all add: run_free_def)
  have "mark (replicate 1024 Empty) 0 512 ! i = Empty \<longleftrightarrow> 512 \<le> i" if "i < 1024" for i
    using mark_empty [of i "replicate 1024 Empty" 512 0] that by (simp add: not_less)
  then show "first_fit (mark (flags 4096 (pg big64)) 0 512) 1 = Some 512"
    unfolding big64_pages by (intro first_fitI) (simp_all add: run_free_def)
qed

lemma big64_room: "unat (page_at 4096 (pg big64) 0) + 8 * (512 * unat (4096 :: u64)) < 2 ^ 64"
  by (simp add: page_at_def big64_pages)

lemma big64_chunk:
  "kmem_ok 4096 (kmem_init 4096 big64) [(0x200000, False)]" "heap_bytes 4096 (kmem_init 4096 big64) = 0x200000"
  "KMEM_HEAD (kmem_init 4096 big64) = 0x2000"
  using kmem_init_chunk [OF big64_first _ big64_fit big64_room] by (simp_all add: big64_pages page_at_def)

theorem kmem_refines_chunks_witness:
  "\<exists>s'. kmalloc 4096 100 (kmem_init 4096 big64) = Some (0x2008, s') \<and>
     kmem_ok 4096 s' [(104, True), (0x200000 - 104, False)]"
  using kmem_refines_chunks [OF big64_chunk(1)] by (auto simp: big64_chunk round8_def dest: spec [of _ 100])

theorem kmem_client_witness:
  "\<exists>s. kmalloc 4096 100 (kmem_init 4096 big64) = Some (0x2008, s) \<and> mem (pg (kpoke 0x2008 7 s)) 0x2008 = 7 \<and>
     kmalloc 4096 200 (kpoke 0x2008 7 s) \<noteq> None \<and> kfree 4096 0x2008 (kpoke 0x2008 7 s) \<noteq> None"
proof -
  obtain s where s: "kmalloc 4096 100 (kmem_init 4096 big64) = Some (0x2008, s)"
    using kmalloc_find [OF big64_chunk(1), of 100] by (simp add: big64_chunk round8_def)
  have "heap_run (kget 4096) kpoke (\<lambda>p. kfree 4096 (of_nat p)) (\<lambda>n s. 0 < n \<and> n + 8 \<le> 2 ^ 64)
      (kmem_init 4096 big64) s [(0x2008, 100)] Map.empty"
    using heap_get [OF heap_start, of "\<lambda>n s. 0 < n \<and> n + 8 \<le> 2 ^ 64" 100 _ "kget 4096" "0x2008" s] s
    by (simp add: kget_def)
  then have "heap_run (kget 4096) kpoke (\<lambda>p. kfree 4096 (of_nat p)) (\<lambda>n s. 0 < n \<and> n + 8 \<le> 2 ^ 64)
      (kmem_init 4096 big64) (kpoke 0x2008 7 s) [(0x2008, 100)] [0x2008 \<mapsto> 7]"
    by (rule heap_write) (simp add: inside_def)
  note c = kmem_client [OF big64_first _ big64_fit big64_room this, unfolded big64_pages, simplified]
  have "mem (pg (kpoke 0x2008 7 s)) 0x2008 = 7"
    using c [THEN conjunct1, rule_format, of "0x2008" 7] by simp
  moreover have "\<exists>a b. kmalloc 4096 (of_nat 200) (kpoke 0x2008 7 s) = Some (a, b)"
    using c [THEN conjunct2, THEN conjunct1, rule_format, of 200] by simp
  ultimately show ?thesis using s c [THEN conjunct2, THEN conjunct2] by auto
qed

theorem kzmalloc_zeroes_witness:
  "\<exists>p s'. kzmalloc 4096 16 (kmem_init 4096 big64) = Some (p, s') \<and>
     (p \<noteq> 0 \<longrightarrow> (\<forall>i < 16. mem (pg s') (p + of_nat i) = 0))"
proof -
  have "kholds 4096 (kmem_init 4096 big64) []" using big64_chunk(1) by (auto simp: kholds_def)
  from kzmalloc_zeroes [OF this, of 16] show ?thesis by auto
qed

theorem kmalloc_overwrites_page_table_witness:
  "\<exists>s'. kmalloc 4096 0x40000 (kmem_init 4096 big64) = Some (0x2008, s') \<and>
     kload (KMEM_PAGE_TABLE (kmem_init 4096 big64)) s' = 0x1c0000"
  using kmalloc_overwrites_page_table [OF big64_first] by (auto simp: big64_pages big64_chunk)

theorem kmalloc_zero_hangs_witness:
  "\<exists>s'. kmalloc 4096 0 (kmem_init 4096 big64) = Some (0x2008, s') \<and> kmalloc 4096 24 s' = None"
  using kmalloc_zero_hangs [OF big64_chunk(1), of 24] by (simp add: big64_chunk)

end
