(* ===== verification/Boot.thy ===== *)
theory Boot
  imports Uart
begin

text \<open>
  Start-up and traps of the kernel, \<^verbatim>\<open>os/src/kmain.c\<close> with \<^verbatim>\<open>os/src/trap.c\<close>, and the trap handler of
  \<^verbatim>\<open>gcc/trap.c\<close>. The state is the trap frame, the \<open>mscratch\<close> register and the UART. The assembly that
  calls these functions is not modelled: what \<open>ecall\<close> does is a parameter.
\<close>

record TrapFrame =
  regs :: "u32 list"
  trap_stack :: u32

record kernel =
  KERNEL_TRAP_FRAME :: TrapFrame
  mscratch :: u32
  kdev :: dev

section \<open>Traps\<close>

function init_trap_loop :: "nat \<Rightarrow> u32 list \<Rightarrow> u32 list" where
  "init_trap_loop i rs = (if i < 32 then init_trap_loop (i + 1) (rs[i := 0]) else rs)"
  by pat_completeness auto
termination
  by (relation "measure (\<lambda>(i, rs). 32 - i)") auto

declare init_trap_loop.simps [simp del]

definition init_trap :: "TrapFrame \<Rightarrow> TrapFrame" where
  "init_trap f = f\<lparr>regs := init_trap_loop 0 (regs f), trap_stack := 0\<rparr>"

text \<open>\<open>while(1);\<close>\<close>

partial_function (option) os_m_trap :: "u32 \<Rightarrow> u32 \<Rightarrow> u32 \<Rightarrow> u32 \<Rightarrow> kernel \<Rightarrow> (u32 \<times> kernel) option" where
  "os_m_trap epc mcause status frame s = os_m_trap epc mcause status frame s"

definition gcc_init_trap :: "TrapFrame \<Rightarrow> TrapFrame" where
  "gcc_init_trap f = f\<lparr>regs := init_trap_loop 0 (regs f), trap_stack := 0\<rparr>"

definition m_trap :: "u32 \<Rightarrow> u32 \<Rightarrow> u32 \<Rightarrow> u32 \<Rightarrow> dev \<Rightarrow> u32 \<times> dev" where
  "m_trap epc mcause status frame d = (let d = print 97 d in (epc + 4, d))"

section \<open>Start-up\<close>

text \<open>\<open>m\<close> is the memory with the string literals, at the addresses given.\<close>

definition kinit :: "mem32 \<Rightarrow> u32 \<Rightarrow> u32 \<Rightarrow> u32 \<Rightarrow> kernel \<Rightarrow> kernel option" where
  "kinit m lit_kinit lit_trap frame_addr s = do {
     d \<leftarrow> os_print m lit_kinit (kdev s);
     let s = s\<lparr>kdev := d, KERNEL_TRAP_FRAME := init_trap (KERNEL_TRAP_FRAME s)\<rparr>;
     d \<leftarrow> os_print m lit_trap (kdev s);
     Some (s\<lparr>kdev := d, mscratch := frame_addr\<rparr>) }"

definition kernel_start :: "mem32 \<Rightarrow> u32 \<Rightarrow> (kernel \<Rightarrow> kernel option) \<Rightarrow> kernel \<Rightarrow> (i32 \<times> kernel) option" where
  "kernel_start m lit_main ecall s = do {
     d \<leftarrow> os_print m lit_main (kdev s);
     s \<leftarrow> ecall (s\<lparr>kdev := d\<rparr>);
     Some (0, s) }"

section \<open>What they do\<close>

lemma init_trap_loop_eq: "i \<le> 32 \<Longrightarrow> length rs = 32 \<Longrightarrow> init_trap_loop i rs = take i rs @ replicate (32 - i) 0"
proof (induction "32 - i" arbitrary: i rs)
  case 0
  then show ?case by (simp add: init_trap_loop.simps)
next
  case (Suc k)
  then have i: "i < 32" "k = 32 - (i + 1)" by simp_all
  have "init_trap_loop (i + 1) (rs[i := 0]) = take (i + 1) (rs[i := 0]) @ replicate (32 - (i + 1)) 0"
    using Suc.hyps(1) [OF i(2)] i Suc.prems by simp
  moreover have "take (i + 1) (rs[i := 0]) = take i rs @ [0]"
    using i Suc.prems by (simp add: take_Suc_conv_app_nth)
  moreover have "replicate (32 - i) 0 = 0 # replicate (32 - (i + 1)) (0 :: u32)"
    using i by (simp add: Suc_diff_Suc flip: replicate_Suc)
  ultimately show ?case using i by (subst init_trap_loop.simps) simp
qed

lemma os_print_string:
  assumes "c_string m c s" "grants os_ready (resp d) (length s) rest"
  obtains d' where "os_print m c d = Some d'" "resp d' = rest"
    "writes_of d' = writes_of d @ map (WriteByte 0xaaaaa400) s"
  using os_print_loop_string [of m c 0 s d rest] assms by (auto simp: os_print_def)

lemma os_m_trap_None: "os_m_trap epc mcause status frame s = None"
proof (rule ccontr)
  assume "os_m_trap epc mcause status frame s \<noteq> None"
  then obtain r where "os_m_trap epc mcause status frame s = Some r" by blast
  then show False by (rule os_m_trap.raw_induct [rotated]) blast
qed

section \<open>Properties\<close>

text \<open>C39: start-up sends both of its messages in full and in order, clears the trap frame and leaves its
  address in \<open>mscratch\<close>; \<open>main\<close> then sends its message and makes the environment call with that state.
  The kernel's trap handler never returns, so neither does \<open>main\<close> when the call ends in it, while
  the handler of \<^verbatim>\<open>gcc/trap.c\<close> shows one word and resumes behind the instruction that trapped.\<close>

theorem kernel_boots:
  assumes m: "c_string m a1 s1" "c_string m a2 s2" "c_string m a3 s3"
    and r: "grants os_ready (resp (kdev s)) (length s1) r1" "grants os_ready r1 (length s2) r2"
      "grants os_ready r2 (length s3) r3"
    and f: "length (regs (KERNEL_TRAP_FRAME s)) = 32"
  shows "\<exists>s' s''. kinit m a1 a2 fa s = Some s' \<and> mscratch s' = fa \<and>
    KERNEL_TRAP_FRAME s' = \<lparr>regs = replicate 32 0, trap_stack = 0\<rparr> \<and>
    writes_of (kdev s') = writes_of (kdev s) @ map (WriteByte 0xaaaaa400) (s1 @ s2) \<and>
    writes_of (kdev s'') = writes_of (kdev s') @ map (WriteByte 0xaaaaa400) s3 \<and>
    KERNEL_TRAP_FRAME s'' = KERNEL_TRAP_FRAME s' \<and> mscratch s'' = fa \<and>
    (\<forall>ecall. kernel_start m a3 ecall s' = map_option (Pair 0) (ecall s'')) \<and>
    kernel_start m a3 (\<lambda>s. map_option snd (os_m_trap epc mcause status frame s)) s' = None \<and>
    m_trap epc mcause status frame d = (epc + 4, d\<lparr>trace := trace d @ [WriteWord 0xaaaaa008 97]\<rparr>)"
proof -
  obtain d1 where d1: "os_print m a1 (kdev s) = Some d1" "resp d1 = r1"
    "writes_of d1 = writes_of (kdev s) @ map (WriteByte 0xaaaaa400) s1"
    using os_print_string [OF m(1) r(1)] .
  obtain d2 where d2: "os_print m a2 d1 = Some d2" "resp d2 = r2"
    "writes_of d2 = writes_of d1 @ map (WriteByte 0xaaaaa400) s2"
    using os_print_string [OF m(2), of d1 r2] d1(2) r(2) by auto
  obtain d3 where d3: "os_print m a3 d2 = Some d3"
    "writes_of d3 = writes_of d2 @ map (WriteByte 0xaaaaa400) s3"
    using os_print_string [OF m(3), of d2 r3] d2(2) r(3) by auto
  let ?f = "\<lparr>regs = replicate 32 0, trap_stack = 0\<rparr>"
  have f: "init_trap (KERNEL_TRAP_FRAME s) = ?f"
    using init_trap_loop_eq [of 0 "regs (KERNEL_TRAP_FRAME s)"] f
    by (cases "KERNEL_TRAP_FRAME s") (simp add: init_trap_def)
  let ?s' = "s\<lparr>KERNEL_TRAP_FRAME := ?f, mscratch := fa, kdev := d2\<rparr>"
  let ?s'' = "?s'\<lparr>kdev := d3\<rparr>"
  have "kinit m a1 a2 fa s = Some ?s'" using d1(1) d2(1) f by (simp add: kinit_def)
  moreover have k: "kernel_start m a3 ecall ?s' = map_option (Pair 0) (ecall ?s'')" for ecall
    using d3(1) by (cases "ecall ?s''") (simp_all add: kernel_start_def)
  moreover have "m_trap epc mcause status frame d = (epc + 4, d\<lparr>trace := trace d @ [WriteWord 0xaaaaa008 97]\<rparr>)"
    by (simp add: m_trap_def print_def io_write32_def)
  ultimately show ?thesis using d1(3) d2(3) d3(2) os_m_trap_None
    by (intro exI [of _ ?s'] exI [of _ ?s'']) simp
qed

theorem kernel_boots_witness:
  "\<exists>s'. kinit (\<lambda>a. if a = 0x100 then 107 else if a = 0x200 then 116 else 0) 0x100 0x200 0x300
      \<lparr>KERNEL_TRAP_FRAME = \<lparr>regs = replicate 32 7, trap_stack = 7\<rparr>, mscratch = 0,
       kdev = \<lparr>resp = [2, 0, 0], trace = []\<rparr>\<rparr> = Some s' \<and>
    writes_of (kdev s') = map (WriteByte 0xaaaaa400) [107, 116]"
proof -
  let ?m = "\<lambda>a :: u32. if a = 0x100 then 107 else if a = 0x200 then 116 else (0 :: u8)"
  let ?s = "\<lparr>KERNEL_TRAP_FRAME = \<lparr>regs = replicate 32 7, trap_stack = 7\<rparr>, mscratch = 0,
       kdev = \<lparr>resp = [2, 0, 0], trace = []\<rparr>\<rparr>"
  have m: "c_string ?m 0x100 [107]" "c_string ?m 0x200 [116]" "c_string ?m 0x300 []" by simp_all
  have "grants os_ready ([2] @ 0 # [0]) (Suc 0) [0]" "grants os_ready ([] @ 0 # []) (Suc 0) []"
    by (intro grants_one grants_none; simp add: os_ready_def)+
  then have r: "grants os_ready (resp (kdev ?s)) (length [107 :: u8]) [0]"
    "grants os_ready [0] (length [116 :: u8]) []" "grants os_ready [] (length ([] :: u8 list)) []"
    by (simp_all add: grants_0)
  have "writes_of (kdev ?s) = []" by (simp add: writes_of_def)
  with kernel_boots [OF m r, of "0x300" 0 0 0 0 "\<lparr>resp = [], trace = []\<rparr>"] show ?thesis by auto
qed

end
