(* ===== verification/Demos.thy ===== *)
theory Demos
  imports Arith Uart
begin

text \<open>
  The small programs of \<^verbatim>\<open>gcc/\<close> that exercise the drivers: an echo on the UART (\<^verbatim>\<open>uartTest.c\<close>), two reads
  from the SPI (\<^verbatim>\<open>spitest.c\<close>), and those that show words on the display. Of an endless loop without
  effects only the part before it is modelled, of the endless echo a number of rounds.
\<close>

section \<open>Echo\<close>

fun echo_rounds :: "nat \<Rightarrow> dev \<Rightarrow> dev option" where
  "echo_rounds 0 d = Some d"
| "echo_rounds (Suc n) d = do { (c, d) \<leftarrow> uart_read_blocking d; echo_rounds n (uart_put c d) }"

definition echo_main :: "nat \<Rightarrow> dev \<Rightarrow> dev option" where
  "echo_main n d = (let (r, d) = uart_init d in echo_rounds n d)"

section \<open>SPI\<close>

function spi_wait :: "dev \<Rightarrow> dev option" where
  "spi_wait d = (case spi_poll d of None \<Rightarrow> None
     | Some (s, d') \<Rightarrow> if s AND 1 = 0 then spi_wait d' else Some d')"
  by pat_completeness auto
termination
  by (relation "measure (\<lambda>d. length (resp d))") (auto simp: spi_poll_def io_read8_Some)

declare spi_wait.simps [simp del]

definition spi_receive :: "dev \<Rightarrow> (u8 \<times> dev) option" where
  "spi_receive d = do { d \<leftarrow> spi_wait d; spi_read d }"

definition spitest_main :: "dev \<Rightarrow> dev option" where
  "spitest_main d = do {
     let d = spi_write_ignore_response 0x05 d;
     let d = spi_write 0 d;
     let d = spi_write 0 d;
     (s, d) \<leftarrow> spi_receive d;
     let d = print (ucast s) d;
     (s, d) \<leftarrow> spi_receive d;
     Some (print (ucast s) d) }"

section \<open>Display\<close>

record test =
  val :: i32
  val2 :: i32

definition struct_main :: "test \<times> test \<Rightarrow> dev \<Rightarrow> (test \<times> test) \<times> dev" where
  "struct_main ts d =
     (let (t1, t2) = ts;
          t1 = t1\<lparr>val := 10\<rparr>;
          d = print (val t1) d;
          t2 = t2\<lparr>val := 99\<rparr>;
          t1 = t1\<lparr>val2 := 11\<rparr>;
          t1 = t1\<lparr>val := 16\<rparr>;
          d = print (val t1) d
      in ((t1, t2), d))"

definition hi :: "u8 list" where
  "hi = [104, 101, 108, 108, 111]"

function hello_loop :: "nat \<Rightarrow> dev \<Rightarrow> dev" where
  "hello_loop i d = (if i < 5 then hello_loop (i + 1) (print (ucast (hi ! i)) d) else d)"
  by pat_completeness auto
termination
  by (relation "measure (\<lambda>(i, d). 5 - i)") auto

declare hello_loop.simps [simp del]

definition hello_main :: "dev \<Rightarrow> dev" where
  "hello_main d = hello_loop 0 d"

text \<open>\<open>a\<close> is the address of the variable, which \<open>ptr\<close> holds.\<close>

definition pointer_main :: "u32 \<Rightarrow> mem32 \<Rightarrow> dev \<Rightarrow> mem32 \<times> dev" where
  "pointer_main a m d =
     (let m = store32 m a 5;
          ptr = a;
          d = print (load32 m a) d;
          m = store32 m a (load32 m a + 5);
          d = print (load32 m ptr) d;
          m = store32 m a (load32 m a + 5);
          d = print (load32 m a) d;
          m = store32 m a (load32 m a + 5);
          d = print (load32 m ptr) d
      in (m, d))"

definition nothing :: i32 where
  "nothing = 1"

function hazard_loop :: "nat \<Rightarrow> i32 \<Rightarrow> i32" where
  "hazard_loop i num = (if i < 1 then hazard_loop (i + 1) 2 else num)"
  by pat_completeness auto
termination
  by (relation "measure (\<lambda>(i, num). 1 - i)") auto

declare hazard_loop.simps [simp del]

definition hazard_print :: "i32 \<Rightarrow> dev \<Rightarrow> dev" where
  "hazard_print a d = io_write32 0xaaaaa008 a d"

definition hazard_main :: "dev \<Rightarrow> dev" where
  "hazard_main d =
     (let num = 1;
          temp = nothing;
          num = hazard_loop 0 num
      in hazard_print num d)"

text \<open>\<open>/\<close> is the division of the M extension.\<close>

definition div32 :: "i32 \<Rightarrow> i32 \<Rightarrow> i32" where
  "div32 a b = word_of_int (sint a sdiv sint b)"

definition m_ext_print :: "i32 \<Rightarrow> dev \<Rightarrow> dev" where
  "m_ext_print a d = io_write32 0xaaaaa008 a d"

definition m_ext_main :: "dev \<Rightarrow> dev" where
  "m_ext_main d =
     (let num = 4; p1 = 3; p2 = 1;
          res = (if 0 <s div32 num p1 * div32 p2 p1 then 15
                 else div32 (div32 num p2 - p1 * p1) ((num - p1) + p1 * p2))
      in m_ext_print res d)"

definition bootTest_main :: "dev \<Rightarrow> dev" where
  "bootTest_main d = print 1 d"

definition test_main :: "dev \<Rightarrow> dev option" where
  "test_main d = do {
     let num1 = 20;
     let num2 = - 6;
     let d = print num1 d;
     let d = print num2 d;
     q \<leftarrow> divide num1 num2;
     Some (print q d) }"

section \<open>What they do\<close>

lemma writes_of_print [simp]: "writes_of (print a d) = writes_of d @ [WriteWord 0xaaaaa008 a]"
  by (simp add: print_def writes_of_def)

lemma writes_of_put [simp]: "writes_of (uart_put c d) = writes_of d @ [WriteByte UART_BASE_ADDR c]"
  by (simp add: uart_put_def writes_of_def)

lemma resp_writes [simp]: "resp (print a d) = resp d" "resp (uart_put c d) = resp d"
  by (simp_all add: print_def uart_put_def)

lemma echo_rounds_delivers:
  "delivers (resp d) bs rest \<Longrightarrow>
   \<exists>d'. echo_rounds (length bs) d = Some d' \<and> resp d' = rest \<and>
     writes_of d' = writes_of d @ map (WriteByte UART_BASE_ADDR) bs"
proof (induction bs arbitrary: d)
  case Nil
  then show ?case by (simp add: delivers_Nil)
next
  case (Cons b bs)
  obtain mid where m: "delivers (resp d) [b] mid" "delivers mid bs rest"
    using delivers_split [of "resp d" "[b]" bs rest] Cons.prems by auto
  obtain d1 where d1: "uart_read_blocking d = Some (b, d1)" "resp d1 = mid" "writes_of d1 = writes_of d"
    using gcc_rx.receives [OF m(1)] by blast
  from Cons.IH [of "uart_put b d1"] m(2) d1 show ?case by auto
qed

lemma spi_wait_polls:
  "resp d = polls @ q # rest \<Longrightarrow> \<forall>p \<in> set polls. \<not> bit p 0 \<Longrightarrow> bit q 0 \<Longrightarrow>
   \<exists>d'. spi_wait d = Some d' \<and> resp d' = rest \<and> writes_of d' = writes_of d"
proof (induction polls arbitrary: d)
  case Nil
  then show ?case
    by (subst spi_wait.simps) (simp add: spi_poll_def io_read8_def low_bit_clear bit_ucast_iff)
next
  case (Cons p ps)
  define d1 where "d1 = d\<lparr>resp := ps @ q # rest, trace := trace d @ [ReadByte (SPI_BASE_ADDR + 1)]\<rparr>"
  have "spi_wait d = spi_wait d1"
    using Cons.prems
    by (subst spi_wait.simps) (simp add: spi_poll_def io_read8_def low_bit_clear bit_ucast_iff d1_def)
  moreover have "resp d1 = ps @ q # rest" "writes_of d1 = writes_of d" by (simp_all add: d1_def)
  ultimately show ?case using Cons.IH [of d1] Cons.prems by simp
qed

text \<open>The SPI read after its poll loop meets the contract of a serial receiver.\<close>

interpretation spi_rx: serial_receiver spi_receive
proof
  fix d :: dev and b rest
  assume "delivers (resp d) [b] rest"
  then obtain polls q x where r: "resp d = polls @ q # x # rest" "\<forall>p \<in> set polls. \<not> bit p 0" "bit q 0" "b = ucast x"
    by (auto elim!: delivers_ConsE simp: delivers_Nil)
  from spi_wait_polls [OF r(1-3)] obtain d1 where
    d1: "spi_wait d = Some d1" "resp d1 = x # rest" "writes_of d1 = writes_of d" by blast
  then show "\<exists>d'. spi_receive d = Some (b, d') \<and> resp d' = rest \<and> writes_of d' = writes_of d"
    by (simp add: spi_receive_def spi_read_def io_read8_def r(4))
qed

lemma hello_value: "hello_main d = print 111 (print 108 (print 108 (print 101 (print 104 d))))"
  by (simp add: hello_main_def hello_loop.simps hi_def)

lemma div_20_6: "divide 20 (- 6) = Some (- 3)"
proof -
  have "sint (20 :: i32) = 20" "sint (- 6 :: i32) = - 6" by code_simp+
  then show ?thesis using divide_in_range [of 20 "- 6"] by (simp add: signed_divide_int_def)
qed

lemma m_ext_value: "m_ext_main d = m_ext_print (- 1) d"
  unfolding m_ext_main_def div32_def Let_def by code_simp

section \<open>Properties\<close>

text \<open>the echo sends back every byte the line delivers, in order; the SPI program sends its command
  and two dummy bytes and shows the two bytes that come back; the display programs show exactly
  these words, seen through pointers and records as through the variables themselves.\<close>

theorem demos_run:
  assumes echo: "delivers (resp d) bs rest" and spi: "delivers (resp e) [x, y] rest'"
  shows "(\<exists>d'. echo_main (length bs) d = Some d' \<and> resp d' = rest \<and>
      writes_of d' = writes_of (snd (uart_init d)) @ map (WriteByte UART_BASE_ADDR) bs) \<and>
    (\<exists>e'. spitest_main e = Some e' \<and> resp e' = rest' \<and>
      writes_of e' = writes_of e @ [WriteWord 0xaaaaa500 0x105, WriteByte 0xaaaaa500 0, WriteByte 0xaaaaa500 0,
        WriteWord 0xaaaaa008 (ucast x), WriteWord 0xaaaaa008 (ucast y)]) \<and>
    writes_of (snd (struct_main ts d)) = writes_of d @ map (WriteWord 0xaaaaa008) [10, 16] \<and>
    writes_of (hello_main d) = writes_of d @ map (WriteWord 0xaaaaa008) [104, 101, 108, 108, 111] \<and>
    writes_of (snd (pointer_main a m d)) = writes_of d @ map (WriteWord 0xaaaaa008) [5, 10, 15, 20] \<and>
    writes_of (hazard_main d) = writes_of d @ [WriteWord 0xaaaaa008 2] \<and>
    writes_of (m_ext_main d) = writes_of d @ [WriteWord 0xaaaaa008 (- 1)] \<and>
    map_option writes_of (test_main d) = Some (writes_of d @ map (WriteWord 0xaaaaa008) [20, - 6, - 3])"
proof (intro conjI)
  have "resp (snd (uart_init d)) = resp d" by (simp add: uart_init_def Let_def)
  then show "\<exists>d'. echo_main (length bs) d = Some d' \<and> resp d' = rest \<and>
      writes_of d' = writes_of (snd (uart_init d)) @ map (WriteByte UART_BASE_ADDR) bs"
    using echo_rounds_delivers [of "snd (uart_init d)" bs rest] echo by (simp add: echo_main_def split_def)
  define e1 where "e1 = spi_write 0 (spi_write 0 (spi_write_ignore_response 0x05 e))"
  have w: "resp e1 = resp e" "writes_of e1 = writes_of e @
      [WriteWord 0xaaaaa500 0x105, WriteByte 0xaaaaa500 0, WriteByte 0xaaaaa500 0]"
    by (simp_all add: e1_def spi_write_def spi_write_ignore_response_def SPI_BASE_ADDR_def writes_of_def)
  obtain mid where "delivers (resp e1) [x] mid" "delivers mid [y] rest'"
    using delivers_split [of "resp e" "[x]" "[y]" rest'] spi w(1) by auto
  then obtain e2 where e2: "spi_receive e1 = Some (x, e2)" "resp e2 = mid" "writes_of e2 = writes_of e1"
    using spi_rx.receives by blast
  then obtain e3 where e3: "spi_receive (print (ucast x) e2) = Some (y, e3)" "resp e3 = rest'"
    "writes_of e3 = writes_of (print (ucast x) e2)"
    using spi_rx.receives [of "print (ucast x) e2" y rest'] \<open>delivers mid [y] rest'\<close> by auto
  show "\<exists>e'. spitest_main e = Some e' \<and> resp e' = rest' \<and>
      writes_of e' = writes_of e @ [WriteWord 0xaaaaa500 0x105, WriteByte 0xaaaaa500 0, WriteByte 0xaaaaa500 0,
        WriteWord 0xaaaaa008 (ucast x), WriteWord 0xaaaaa008 (ucast y)]"
    using e2 e3 w(2) by (simp add: spitest_main_def Let_def flip: e1_def)
qed (simp_all add: struct_main_def Let_def split_def hello_value pointer_main_def m32.load_store hazard_main_def hazard_print_def hazard_loop.simps writes_of_def
    m_ext_value m_ext_print_def test_main_def div_20_6 print_def)

theorem demos_run_witness:
  "\<exists>d'. echo_main 2 (run_dev [79, 75]) = Some d' \<and>
     writes_of d' = writes_of (snd (uart_init (run_dev [79, 75]))) @ map (WriteByte UART_BASE_ADDR) [79, 75]"
  using demos_run [OF run_dev_delivers [of "[79, 75]"] run_dev_delivers [of "[1, 2]"], THEN conjunct1]
  by (auto simp: numeral_2_eq_2)

end
