(* ===== verification/Serial.thy ===== *)
theory Serial
  imports Bench Demos
begin

text \<open>
  The serial protocols of \<^verbatim>\<open>gcc/quicksort.c\<close> and \<^verbatim>\<open>gcc/fact.c\<close>: one round of each of their endless loops,
  from the request on the line to the answer, over the contracts of the receiver and of the sorts.
\<close>

lemma writes_of_put_word [simp]:
  "writes_of (set_CRAS c d) = writes_of d @ [WriteByte 0xaaaaa600 c]"
  "writes_of (zero_counter d) = writes_of d @ [WriteByte 0xaaaaa704 1]"
  by (simp_all add: set_CRAS_def zero_counter_def io_write8_def writes_of_def)

lemma resp_put_word [simp]:
  "resp (set_CRAS c d) = resp d" "resp (zero_counter d) = resp d" "resp (send_int a d) = resp d"
  by (simp_all add: set_CRAS_def zero_counter_def send_int_def Let_def)

lemma fact_transfers: "fact_send_int = send_int" "fact_recv_int = recv_int"
  by (simp_all add: fun_eq_iff fact_send_int_def send_int_def fact_recv_int_def recv_int_def Let_def)

lemma read_counter_value:
  "resp d = c # rest \<Longrightarrow>
   \<exists>d'. read_counter d = Some (c, d') \<and> resp d' = rest \<and> writes_of d' = writes_of d"
  by (simp add: read_counter_def io_read32_def writes_of_def)

text \<open>
  The answer of the other side to the words of an array: for each word the transmitter is seen
  empty at last, and a byte comes back.
\<close>

definition tx_empty :: "u8 \<Rightarrow> bool" where
  "tx_empty s \<longleftrightarrow> s AND 0x20 \<noteq> 0"

inductive acked :: "u32 list \<Rightarrow> nat \<Rightarrow> u32 list \<Rightarrow> bool" where
  acked_none: "acked r 0 r"
| acked_one: "grants tx_empty r 1 r1 \<Longrightarrow> delivers r1 [b] r2 \<Longrightarrow> acked r2 n rest \<Longrightarrow> acked r (Suc n) rest"

inductive_cases acked_SucE: "acked r (Suc n) rest"
inductive_simps acked_0: "acked r 0 rest"

lemma tx_wait_polls:
  "resp d = polls @ q # rest \<Longrightarrow> \<forall>p \<in> set polls. \<not> tx_empty (ucast p) \<Longrightarrow> tx_empty (ucast q) \<Longrightarrow>
   \<exists>d'. tx_wait d = Some d' \<and> resp d' = rest \<and> writes_of d' = writes_of d"
proof (induction polls arbitrary: d)
  case Nil
  then show ?case
    by (subst tx_wait.simps) (simp add: tx_fifo_empty_def uart_poll_def io_read8_def tx_empty_def)
next
  case (Cons p ps)
  define d1 where "d1 = d\<lparr>resp := ps @ q # rest, trace := trace d @ [ReadByte (UART_BASE_ADDR + 5)]\<rparr>"
  have "tx_wait d = tx_wait d1"
    using Cons.prems
    by (subst tx_wait.simps) (simp add: tx_fifo_empty_def uart_poll_def io_read8_def tx_empty_def d1_def)
  moreover have "resp d1 = ps @ q # rest" "writes_of d1 = writes_of d" by (simp_all add: d1_def)
  ultimately show ?case using Cons.IH [of d1] Cons.prems by simp
qed

definition word_writes :: "u32 \<Rightarrow> event list" where
  "word_writes w = map (WriteByte UART_BASE_ADDR) (word_bytes w)"

lemma send_loop_sends:
  "acked (resp d) (length a - i) rest \<Longrightarrow> i \<le> length a \<Longrightarrow>
   \<exists>d'. send_loop (int (length a)) a (int i) d = Some d' \<and> resp d' = rest \<and>
     writes_of d' = writes_of d @ concat (map (\<lambda>x. word_writes (word_of_int x)) (drop i a))"
proof (induction "length a - i" arbitrary: i d)
  case 0
  then show ?case by (subst send_loop.simps) (simp add: acked_0)
next
  case (Suc k)
  then have i: "i < length a" "k = length a - Suc i" by simp_all
  obtain r1 b r2 where a: "grants tx_empty (resp d) 1 r1" "delivers r1 [b] r2" "acked r2 (length a - Suc i) rest"
    using Suc.prems(1) unfolding Suc.hyps(2) [symmetric] i(2) [symmetric] by (auto elim: acked_SucE)
  then obtain polls q where "resp d = polls @ q # r1" "\<forall>p \<in> set polls. \<not> tx_empty (ucast p)" "tx_empty (ucast q)"
    by (auto elim: grants_SucE simp: grants_0)
  then obtain d1 where d1: "tx_wait d = Some d1" "resp d1 = r1" "writes_of d1 = writes_of d"
    using tx_wait_polls by blast
  let ?d2 = "send_int (word_of_int (a ! i)) d1"
  obtain d3 where d3: "uart_read_blocking ?d2 = Some (b, d3)" "resp d3 = r2" "writes_of d3 = writes_of ?d2"
    using gcc_rx.receives [of ?d2 b r2] a(2) d1(2) by auto
  have "send_loop (int (length a)) a (int i) d = send_loop (int (length a)) a (int (Suc i)) d3"
    using i(1) d1(1) d3(1) by (subst send_loop.simps) (simp add: add.commute)
  then show ?case
    using Suc.hyps(1) [OF i(2), of d3] a(3) d1 d3 i
    by (auto simp: send_int_writes word_writes_def simp flip: Cons_nth_drop_Suc)
qed

text \<open>The request: a byte for the return-address stack and a word.\<close>

lemma request:
  assumes "delivers (resp d) (en # word_bytes w) rest"
  obtains d1 where "uart_read_blocking d = Some (en, d1)" "writes_of d1 = writes_of d"
    "\<forall>e. resp e = resp d1 \<longrightarrow> (\<exists>e'. recv_int e = Some (w, e') \<and> resp e' = rest \<and> writes_of e' = writes_of e)"
proof -
  obtain mid where mid: "delivers (resp d) [en] mid" "delivers mid (word_bytes w) rest"
    using delivers_split [of "resp d" "[en]" "word_bytes w" rest] assms by auto
  then obtain d1 where "uart_read_blocking d = Some (en, d1)" "resp d1 = mid" "writes_of d1 = writes_of d"
    using gcc_rx.receives by blast
  moreover have "\<forall>e. resp e = mid \<longrightarrow> (\<exists>e'. recv_int e = Some (w, e') \<and> resp e' = rest \<and> writes_of e' = writes_of e)"
    using mid(2) recv_int_delivers by blast
  ultimately show thesis using that by simp
qed

lemma fill_sorted:
  "quicksort (map (\<lambda>i. int n - i) [0..int n - 1]) 0 (int n - 1) = Some (map int [1..<Suc n])"
proof -
  let ?a = "map (\<lambda>i. int n - i) [0..int n - 1]"
  have "sort ?a = map int [1..<Suc n]"
  proof (rule properties_for_sort)
    have "distinct ?a" "distinct (map int [1..<Suc n])" by (auto simp: distinct_map inj_on_def)
    moreover have "set ?a = set (map int [1..<Suc n])"
    proof -
      have "x \<in> (\<lambda>i. int n - i) ` {0..int n - 1}" if "x \<in> {1..int n}" for x
        using that by (intro image_eqI [of _ _ "int n - x"]) auto
      moreover have "int ` {1..<Suc n} = {1..int n}"
        by (auto simp: image_int_atLeastLessThan)
      ultimately show ?thesis by (auto simp del: upt_Suc)
    qed
    ultimately show "mset (map int [1..<Suc n]) = mset ?a" by (simp only: set_eq_iff_mset_eq_distinct)
  qed (auto simp: sorted_iff_nth_mono simp del: upt_Suc)
  then show ?thesis using quick.is_sort [of ?a] by simp
qed

section \<open>Rounds and sessions\<close>

definition quick_answer :: "u8 \<times> nat \<times> u32 \<Rightarrow> event list" where
  "quick_answer q = (case q of (en, n, cnt) \<Rightarrow>
     [WriteByte 0xaaaaa600 en, WriteWord 0xaaaaa008 (ucast en), WriteByte 0xaaaaa704 1] @
     concat (map (\<lambda>i. word_writes (of_nat i)) [1..<Suc n]) @ word_writes cnt @ [WriteWord 0xaaaaa008 cnt])"

definition fact_answer :: "u8 \<times> nat \<times> u32 \<Rightarrow> event list" where
  "fact_answer q = (case q of (en, k, cnt) \<Rightarrow>
     [WriteByte 0xaaaaa600 en, WriteByte 0xaaaaa704 1] @
     word_writes (of_nat (\<Sum>{1..k})) @ word_writes cnt @ [WriteWord 0xaaaaa008 cnt])"

text \<open>The other side of one round: the request, the cycle count, and for \<open>quicksort\<close> the acknowledgements.\<close>

definition quick_request :: "u32 list \<Rightarrow> u8 \<times> nat \<times> u32 \<Rightarrow> u32 list \<Rightarrow> bool" where
  "quick_request r q rest \<longleftrightarrow> (case q of (en, n, cnt) \<Rightarrow>
     n < 2 ^ 31 \<and> (\<exists>r1. delivers r (en # word_bytes (of_nat n)) (cnt # r1) \<and> acked r1 n rest))"

definition fact_request :: "u32 list \<Rightarrow> u8 \<times> nat \<times> u32 \<Rightarrow> u32 list \<Rightarrow> bool" where
  "fact_request r q rest \<longleftrightarrow> (case q of (en, k, cnt) \<Rightarrow>
     0 < k \<and> k < 2 ^ 31 \<and> delivers r (en # word_bytes (of_nat k)) (cnt # rest))"

lemma quick_round:
  assumes "quick_request (resp d) q rest"
  shows "\<exists>d'. quicksort_round d = Some d' \<and> resp d' = rest \<and> writes_of d' = writes_of d @ quick_answer q"
proof -
  obtain en n cnt r where q: "q = (en, n, cnt)"
    and quick: "delivers (resp d) (en # word_bytes (of_nat n)) (cnt # r)" "acked r n rest" "n < 2 ^ 31"
    using assms by (auto simp: quick_request_def)
  obtain d1 where d1: "uart_read_blocking d = Some (en, d1)" "writes_of d1 = writes_of d"
    "\<forall>e. resp e = resp d1 \<longrightarrow> (\<exists>e'. recv_int e = Some (of_nat n, e') \<and> resp e' = cnt # r \<and> writes_of e' = writes_of e)"
    using request [OF quick(1)] .
  let ?d2 = "print (ucast en) (set_CRAS en d1)"
  obtain d3 where d3: "recv_int ?d2 = Some (of_nat n, d3)" "resp d3 = cnt # r" "writes_of d3 = writes_of ?d2"
    using d1(3) [rule_format, of ?d2] by auto
  obtain d4 where d4: "read_counter (zero_counter d3) = Some (cnt, d4)" "resp d4 = r"
    "writes_of d4 = writes_of (zero_counter d3)"
    using read_counter_value [of "zero_counter d3" cnt r] d3(2) by auto
  let ?a = "map int [1..<Suc n]"
  obtain d5 where d5: "send_loop (int n) ?a 0 d4 = Some d5" "resp d5 = rest"
    "writes_of d5 = writes_of d4 @ concat (map (\<lambda>x. word_writes (word_of_int x)) ?a)"
    using send_loop_sends [of d4 ?a 0 rest] d4(2) quick(2) by (auto simp del: upt_Suc)
  have "quicksort_round d = Some (print cnt (send_int cnt d5))"
    using d1(1) d3(1) d4(1) d5(1) fill_sorted [of n] sint_of_nat_32 [of n] quick(3)
    by (simp add: quicksort_round_def)
  then show ?thesis
    using d1(2) d3(3) d4(3) d5(2,3)
    by (simp add: q quick_answer_def send_int_writes word_writes_def comp_def del: upt_Suc)
qed

lemma fact_round_answers:
  assumes "fact_request (resp e) q rest"
  shows "\<exists>e'. fact_round e = Some e' \<and> resp e' = rest \<and> writes_of e' = writes_of e @ fact_answer q"
proof -
  obtain en k cnt where q: "q = (en, k, cnt)"
    and fact: "delivers (resp e) (en # word_bytes (of_nat k)) (cnt # rest)" "0 < k" "k < 2 ^ 31"
    using assms by (auto simp: fact_request_def)
  obtain e1 where e1: "uart_read_blocking e = Some (en, e1)" "writes_of e1 = writes_of e"
    "\<forall>d. resp d = resp e1 \<longrightarrow> (\<exists>e'. recv_int d = Some (of_nat k, e') \<and> resp e' = cnt # rest \<and> writes_of e' = writes_of d)"
    using request [OF fact(1)] .
  obtain e3 where e3: "recv_int (set_CRAS en e1) = Some (of_nat k, e3)" "resp e3 = cnt # rest"
    "writes_of e3 = writes_of (set_CRAS en e1)"
    using e1(3) [rule_format, of "set_CRAS en e1"] by auto
  obtain e4 where e4: "read_counter (zero_counter e3) = Some (cnt, e4)" "resp e4 = rest"
    "writes_of e4 = writes_of (zero_counter e3)"
    using read_counter_value [of "zero_counter e3" cnt rest] e3(2) by auto
  have "fact (of_nat k) = Some (of_nat (\<Sum>{1..k}))" using recursive_sums [OF fact(2,3)] by simp
  then have "fact_round e = Some (print cnt (send_int cnt (send_int (of_nat (\<Sum>{1..k})) e4)))"
    using e1(1) e3(1) e4(1) by (simp add: fact_round_def fact_transfers)
  then show ?thesis
    using e1(2) e3(3) e4(2,3) by (simp add: q fact_answer_def send_int_writes word_writes_def)
qed

text \<open>A session: the requests one after the other.\<close>

inductive session :: "(u32 list \<Rightarrow> 'q \<Rightarrow> u32 list \<Rightarrow> bool) \<Rightarrow> u32 list \<Rightarrow> 'q list \<Rightarrow> u32 list \<Rightarrow> bool"
  for request where
  session_end: "session request r [] r"
| session_step: "request r q r1 \<Longrightarrow> session request r1 qs rest \<Longrightarrow> session request r (q # qs) rest"

lemma rounds_session:
  assumes "session request r qs rest"
    and "\<And>d q r1. request (resp d) q r1 \<Longrightarrow>
      \<exists>d'. round d = Some d' \<and> resp d' = r1 \<and> writes_of d' = writes_of d @ answer q"
    and "resp d = r"
  shows "\<exists>d'. rounds round (length qs) d = Some d' \<and> resp d' = rest \<and>
    writes_of d' = writes_of d @ concat (map answer qs)"
  using assms(1,3)
proof (induction arbitrary: d)
  case (session_step r q r1 qs rest)
  obtain d1 where d1: "round d = Some d1" "resp d1 = r1" "writes_of d1 = writes_of d @ answer q"
    using assms(2) [of d q r1] session_step.hyps(1) session_step.prems by auto
  then show ?case using session_step.IH [of d1] by auto
qed simp

section \<open>Properties\<close>

text \<open>C20: \<open>quicksort\<close>, asked one after the other for \<open>n\<close> elements, each time sets up the return-address stack,
  zeroes the counter, and answers with the words 1 to \<open>n\<close> in order, each after the transmitter is empty
  and before the byte that acknowledges it, and the cycle count, which it also shows; \<open>fact\<close> answers
  each request with the sum of the numbers to \<open>k\<close> and the cycle count.\<close>

theorem serial_rounds:
  assumes quick: "session quick_request (resp d) qs rest" and fact: "session fact_request (resp e) ks rest'"
  shows "(\<exists>d'. quicksort_main (length qs) d = Some d' \<and> resp d' = rest \<and>
      writes_of d' = writes_of (snd (uart_init d)) @ concat (map quick_answer qs)) \<and>
    (\<exists>e'. fact_main (length ks) e = Some e' \<and> resp e' = rest' \<and>
      writes_of e' = writes_of (snd (uart_init e)) @ concat (map fact_answer ks))"
proof -
  have r: "resp (snd (uart_init d)) = resp d" for d by (simp add: uart_init_def)
  show ?thesis
    using rounds_session [OF quick quick_round r] rounds_session [OF fact fact_round_answers r]
    by (simp add: quicksort_main_def fact_main_def)
qed

theorem serial_rounds_witness:
  "\<exists>d'. quicksort_main 1 \<lparr>resp = line_of [1, 2, 0, 0, 0] @ [77, 32, 1, 6, 32, 1, 6], trace = []\<rparr> = Some d' \<and>
     writes_of d' = writes_of (snd (uart_init \<lparr>resp = line_of [1, 2, 0, 0, 0] @ [77, 32, 1, 6, 32, 1, 6], trace = []\<rparr>)) @
       [WriteByte 0xaaaaa600 1, WriteWord 0xaaaaa008 1, WriteByte 0xaaaaa704 1] @
       word_writes 1 @ word_writes 2 @ word_writes 77 @ [WriteWord 0xaaaaa008 77]"
proof -
  have b: "word_bytes (of_nat 2) = [2, 0, 0, 0]" by (simp add: word_bytes_def)
  let ?d = "\<lparr>resp = line_of [1, 2, 0, 0, 0] @ [77, 32, 1, 6, 32, 1, 6], trace = []\<rparr>"
  have q: "delivers (resp ?d) (1 # word_bytes (of_nat 2)) (77 # [32, 1, 6, 32, 1, 6])"
    unfolding b using line_delivers [of "[1, 2, 0, 0, 0]"] by simp
  have g: "grants tx_empty (32 # xs) 1 xs" for xs
    using grants_one [of "[]" tx_empty 32 xs 0 xs] by (simp add: tx_empty_def grants_none)
  have l: "delivers (1 # 6 # xs) [6] xs" for xs
    using delivers.byte [of "[]" 1 xs "[]" xs 6] by (simp add: delivers.nothing)
  have a: "acked [32, 1, 6, 32, 1, 6] 2 []"
    unfolding numeral_2_eq_2 by (rule acked_one [OF g l acked_one [OF g l acked_none]])
  have "quick_request (resp ?d) (1, 2, 77) []"
    unfolding quick_request_def prod.case by (intro conjI exI, simp, rule q, rule a)
  then have s: "session quick_request (resp ?d) [(1, 2, 77)] []" by (rule session_step [OF _ session_end])
  have n: "[1..<Suc 2] = [1, 2]" by (simp add: upt_rec)
  have w: "quick_answer (1, 2, 77) = [WriteByte 0xaaaaa600 1, WriteWord 0xaaaaa008 1, WriteByte 0xaaaaa704 1] @
       word_writes 1 @ word_writes 2 @ word_writes 77 @ [WriteWord 0xaaaaa008 77]"
    unfolding quick_answer_def prod.case n by simp
  from serial_rounds [OF s session_end, of ?d] show ?thesis
    by (elim conjE exE) (simp add: w)
qed

end
