(* ===== verification/Programs.thy ===== *)
theory Programs
  imports Serial QSort
begin

text \<open>
  The remaining test programs of \<^verbatim>\<open>gcc/\<close>: the \<open>main\<close> functions of the benchmarks, those that print a
  string, and the one that waits for the hash accelerator.
\<close>

section \<open>Benchmarks\<close>

text \<open>An array without initialiser is the parameter \<open>r\<close>.\<close>

function multiply_fill :: "i32 list \<Rightarrow> i32 list \<Rightarrow> int \<Rightarrow> i32 list \<Rightarrow> i32 list option" where
  "multiply_fill a b i r =
     (if i < 4
      then do { x \<leftarrow> rd a i; y \<leftarrow> rd b i; r \<leftarrow> wr r i (multiply32 x y); multiply_fill a b (i + 1) r }
      else Some r)"
  by pat_completeness auto
termination
  by (relation "measure (\<lambda>(a, b, i, r). nat (4 - i))") auto

declare multiply_fill.simps [simp del]

definition multiply_main :: "i32 list \<Rightarrow> dev \<Rightarrow> dev option" where
  "multiply_main r d = do {
     r \<leftarrow> multiply_fill [1, 2, 3, 4] [8, 7, 6, 5] 0 r;
     print_from r 0 4 d }"

definition vvad_main :: "i32 list \<Rightarrow> dev \<Rightarrow> dev option" where
  "vvad_main r d = do { (_, d) \<leftarrow> vvadd 5 [1, 2, 3, 4, 5] [6, 7, 8, 9, 10] r d; Some d }"

definition median_main :: "dev \<Rightarrow> dev option" where
  "median_main d = do { (_, d) \<leftarrow> median 5 [7, 2, 10, 5, 6] [0, 0, 0, 0, 0] d; Some d }"

text \<open>\<open>printf\<close> is that of the C library.\<close>

definition simon_main :: "(u32 \<Rightarrow> u32 \<Rightarrow> u32 \<Rightarrow> 'a) \<Rightarrow> 'a" where
  "simon_main printf =
     (let x0 = 0xaa; x1 = 0xbb; k0 = 0x11111111;
          x2 = simon_round x0 x1 k0;
          x0p = simon_round_dec x2 x1 k0
      in printf x0 x2 x0p)"

definition func_main :: i32 where
  "func_main = (let a = 5; c = timestwo a in 0)"

partial_function (option) comptest_loop :: "i32 \<Rightarrow> i32 \<Rightarrow> i32 option" where
  "comptest_loop a b = (if a \<noteq> b then comptest_loop (a + 1) b else Some a)"

definition comptest_main :: "i32 option" where
  "comptest_main = do { let a = 0; let b = 10; a \<leftarrow> comptest_loop a b; Some 0 }"

text \<open>
  The \<open>sort\<close> of \<^verbatim>\<open>qsort_test.c\<close> and the sorts it calls are those of \<^verbatim>\<open>qsort.c\<close> word for word, without the
  loop at the end. \<open>nl\<close> and \<open>pr\<close> stand for the two calls of the C library's \<open>printf\<close>.
\<close>

definition qsort_test_sort :: "int \<Rightarrow> int list \<Rightarrow> int list option" where
  "qsort_test_sort n arr = qsort n arr"

function show_loop :: "(int \<Rightarrow> 'w \<Rightarrow> 'w) \<Rightarrow> int list \<Rightarrow> int \<Rightarrow> 'w \<Rightarrow> 'w option" where
  "show_loop pr a i w = (if i < 4 then do { x \<leftarrow> rd a i; show_loop pr a (i + 1) (pr x w) } else Some w)"
  by pat_completeness auto
termination
  by (relation "measure (\<lambda>(s, a, i, w). nat (4 - i))") auto

declare show_loop.simps [simp del]

definition qsort_test_main :: "('w \<Rightarrow> 'w) \<Rightarrow> (int \<Rightarrow> 'w \<Rightarrow> 'w) \<Rightarrow> 'w \<Rightarrow> 'w option" where
  "qsort_test_main nl pr w = do {
     a \<leftarrow> qsort_test_sort 4 [3, 4, 2, 1];
     show_loop pr a 0 (nl w) }"

section \<open>Printing\<close>

definition chartest_main :: "dev \<Rightarrow> dev" where
  "chartest_main d = print (ucast (97 :: u8)) d"

definition progtest_main :: "mem32 \<Rightarrow> u32 \<Rightarrow> dev \<Rightarrow> dev option" where
  "progtest_main m lit d = uart_print m lit d"

definition memtest_main :: "mem32 \<Rightarrow> u32 \<Rightarrow> dev \<Rightarrow> dev option" where
  "memtest_main m lit d = (let d = snd (uart_init d); tst = lit in uart_print m tst d)"

section \<open>photon.c\<close>

text \<open>
  The instructions of the accelerator replace the assignments by hand in the assembly; what is
  modelled is the program as it stands, in which \<open>status\<close> is only ever assigned 0.
\<close>

partial_function (option) photon_wait :: "i32 \<Rightarrow> i32 option" where
  "photon_wait status = (let status = 0 in if status = 0 then photon_wait status else Some status)"

definition photon_main :: "i32 list option" where
  "photon_main = do {
     let test = (0x00382020 :: i32);
     let test = (0 :: i32);
     status \<leftarrow> photon_wait 0;
     Some [test, test, test, test, test, test, test, test] }"

section \<open>The programs that print\<close>

definition shows_words :: "dev \<Rightarrow> dev option \<Rightarrow> i32 list \<Rightarrow> bool" where
  "shows_words d r ws \<longleftrightarrow> map_option writes_of r = Some (writes_of d @ map (WriteWord 0xaaaaa008) ws)"

lemma shows_print: "shows_words d (Some (foldl (\<lambda>d x. print x d) d ws)) ws"
proof (induction ws arbitrary: d)
  case (Cons w ws)
  show ?case using Cons [of "print w d"] by (simp add: shows_words_def)
qed (simp add: shows_words_def)

lemma shows_print_from: "length r = n \<Longrightarrow> shows_words d (print_from r 0 (int n) d) r"
  using print_from_eq [of 0 n r d] shows_print by simp

lemma multiply_main_shows: "length r = 4 \<Longrightarrow> shows_words d (multiply_main r d) [8, 14, 18, 20]"
proof -
  assume "length r = 4"
  then have "multiply_fill [1, 2, 3, 4] [8, 7, 6, 5] 0 r = Some [8, 14, 18, 20]"
    by (auto simp: multiply_fill.simps rd_def wr_def multiply32_eq numeral_eq_Suc length_Suc_conv)
  then show ?thesis using shows_print_from [of "[8, 14, 18, 20]" 4 d] by (simp add: multiply_main_def)
qed

lemma vvad_main_shows: "length r = 5 \<Longrightarrow> shows_words d (vvad_main r d) [7, 9, 11, 13, 15]"
proof -
  assume "length r = 5"
  then have "vvadd_loop 5 [1, 2, 3, 4, 5] [6, 7, 8, 9, 10] 0 r = Some [7, 9, 11, 13, 15]"
    by (auto simp: vvadd_loop.simps rd_def wr_def numeral_eq_Suc length_Suc_conv)
  moreover have "print_from [7, 9, 11, 13, 15] 0 5 d = Some (foldl (\<lambda>d x. print x d) d [7, 9, 11, 13, 15])"
    using print_from_eq [of 0 5 "[7, 9, 11, 13, 15]" d] by simp
  ultimately show ?thesis
    using shows_print [of d "[7, 9, 11, 13, 15]"] by (simp add: vvad_main_def vvadd_def)
qed

lemma median_main_shows: "shows_words d (median_main d) [7, 5, 6]"
proof -
  have "median 5 [7, 2, 10, 5, 6] [0, 0, 0, 0, 0] d = Some ([0, 7, 5, 6, 0], foldl (\<lambda>d x. print x d) d [7, 5, 6])"
    by (simp add: median_def wr_def rd_def median_loop.simps middle_def print_from.simps)
  then show ?thesis using shows_print [of d "[7, 5, 6]"] by (simp add: median_main_def)
qed

lemma qsort_test_main_shows: "qsort_test_main nl pr w = Some (pr 4 (pr 3 (pr 2 (pr 1 (nl w)))))"
proof -
  have "qsort_test_sort 4 [3, 4, 2, 1] = Some [1, 2, 3, 4]"
    using qsort.is_sort [of "[3 :: int, 4, 2, 1]"] by (simp add: qsort_test_sort_def)
  then show ?thesis by (simp add: qsort_test_main_def show_loop.simps rd_def)
qed

text \<open>The loop ends for all arguments: the counter wraps around.\<close>

lemma comptest_loop_returns: "comptest_loop a b = Some b"
proof (induction "unat (b - a)" arbitrary: a)
  case 0
  then have "b - a = 0" by (simp add: unat_eq_0)
  then show ?case by (subst comptest_loop.simps) simp
next
  case (Suc n)
  then have "b - a \<noteq> 0" by auto
  then have "n = unat (b - a - 1)" using Suc.hyps(2) by (simp add: unat_minus_one)
  then have "n = unat (b - (a + 1))" by (simp add: diff_diff_eq)
  then show ?case using Suc.hyps(1) [of "a + 1"] \<open>b - a \<noteq> 0\<close> by (subst comptest_loop.simps) auto
qed

lemma photon_wait_hangs: "photon_wait status = None"
proof (rule ccontr)
  assume "photon_wait status \<noteq> None"
  then obtain r where "photon_wait status = Some r" by blast
  then show False by (rule photon_wait.raw_induct [rotated]) (simp add: Let_def)
qed

text \<open>C40: the echo sends back every byte the line delivers, in order; the SPI program shows the two bytes
  that come back; \<open>progtest\<close> and \<open>memtest\<close> print their string. The display programs show exactly these
  words, the benchmarks their results, whatever the arrays they fill hold at first, and \<open>qsort_test\<close> its sorted array. The round of Simon
  is undone; the loop of \<open>nextcomptest\<close> ends from every start, as its counter wraps around; the wait for the accelerator in \<open>photon\<close>, which nothing but
  the patched assembly can end, does not.\<close>

theorem programs_run:
  assumes echo: "delivers (resp d) bs rest" and spi: "delivers (resp e) [x, y] rest'"
    and str: "c_string m lit (b # s)" "length s < 2 ^ 31" "grants gcc_ready (resp f) 1 rest2"
    and r: "length r = 4" "length r' = 5"
  shows "(\<exists>d'. echo_main (length bs) d = Some d' \<and> resp d' = rest \<and>
      writes_of d' = writes_of (snd (uart_init d)) @ map (WriteByte UART_BASE_ADDR) bs) \<and>
    shows_words (spi_write 0 (spi_write 0 (spi_write_ignore_response 5 e))) (spitest_main e) [ucast x, ucast y] \<and>
    map_option writes_of (progtest_main m lit f) = Some (writes_of f @ map (WriteByte UART_BASE_ADDR) (b # s)) \<and>
    memtest_main m lit f = progtest_main m lit (snd (uart_init f)) \<and>
    map_option writes_of (memtest_main m lit f) =
      Some (writes_of (snd (uart_init f)) @ map (WriteByte UART_BASE_ADDR) (b # s)) \<and>
    shows_words d (Some (snd (struct_main ts d))) [10, 16] \<and>
    shows_words d (Some (hello_main d)) [104, 101, 108, 108, 111] \<and>
    shows_words d (Some (snd (pointer_main a m d))) [5, 10, 15, 20] \<and>
    shows_words d (Some (hazard_main d)) [2] \<and>
    shows_words d (Some (m_ext_main d)) [- 1] \<and>
    shows_words d (Some (chartest_main d)) [97] \<and>
    shows_words d (test_main d) [20, - 6, - 3] \<and>
    shows_words d (multiply_main r d) [8, 14, 18, 20] \<and>
    shows_words d (vvad_main r' d) [7, 9, 11, 13, 15] \<and>
    shows_words d (median_main d) [7, 5, 6] \<and>
    qsort_test_main nl pr w = Some (pr 4 (pr 3 (pr 2 (pr 1 (nl w))))) \<and>
    simon_main (\<lambda>x0 x2 x0p. x0p) = 0xaa \<and> comptest_main = Some 0 \<and> comptest_loop i j = Some j \<and>
    photon_main = None"
proof -
  note demos = demos_run [OF echo spi, of ts a m]
  have "simon_main (\<lambda>x0 x2 x0p. x0p) = 0xaa"
    using simon_roundtrip by (simp add: simon_main_def Let_def)
  moreover obtain f' where "uart_print m lit f = Some f'"
    "writes_of f' = writes_of f @ map (WriteByte UART_BASE_ADDR) (b # s)"
    using uart_print_string [OF str(1,3,2)] by blast
  moreover have "resp (snd (uart_init f)) = resp f" by (simp add: uart_init_def Let_def)
  then obtain f2 where "uart_print m lit (snd (uart_init f)) = Some f2"
    "writes_of f2 = writes_of (snd (uart_init f)) @ map (WriteByte UART_BASE_ADDR) (b # s)"
    using uart_print_string [OF str(1), of "snd (uart_init f)" rest2] str(2,3) by auto
  moreover have "photon_main = None" by (simp add: photon_main_def photon_wait_hangs)
  moreover have "shows_words d (Some (chartest_main d)) [97]"
    by (simp add: shows_words_def chartest_main_def)
  moreover have "shows_words (spi_write 0 (spi_write 0 (spi_write_ignore_response 5 e))) (spitest_main e) [ucast x, ucast y]"
    using demos
    by (auto simp: shows_words_def spi_write_def spi_write_ignore_response_def SPI_BASE_ADDR_def writes_of_def)
  ultimately show ?thesis
    using demos r multiply_main_shows vvad_main_shows median_main_shows qsort_test_main_shows
    by (simp add: shows_words_def memtest_main_def progtest_main_def comptest_main_def comptest_loop_returns Let_def)
qed

theorem programs_run_witness:
  "\<exists>d'. echo_main 2 (run_dev [79, 75]) = Some d' \<and>
     shows_words (run_dev [79, 75]) (multiply_main [1, 2, 3, 4] (run_dev [79, 75])) [8, 14, 18, 20]"
proof -
  have c: "c_string (\<lambda>a. if a = 0 then 72 else 0) 0 (72 # [])" by simp
  have g: "grants gcc_ready (resp \<lparr>resp = [96], trace = []\<rparr>) 1 []" using grants_96 [of "[]"] by simp
  have l: "length [] < (2 :: nat) ^ 31" "length [1 :: i32, 2, 3, 4] = 4" "length [1 :: i32, 2, 3, 4, 5] = 5" by simp_all
  from programs_run [OF run_dev_delivers [of "[79, 75]"] run_dev_delivers [of "[1, 2]"] c l(1) g l(2,3),
      where a = 0 and i = 3 and j = 1 and nl = "\<lambda>w. w" and pr = "\<lambda>x w. w @ [x]" and w = "[]" and ts = "(\<lparr>val = 0, val2 = 0\<rparr>, \<lparr>val = 0, val2 = 0\<rparr>)"]
  have "(\<exists>d'. echo_main (length [79 :: u8, 75]) (run_dev [79, 75]) = Some d') \<and>
     shows_words (run_dev [79, 75]) (multiply_main [1, 2, 3, 4] (run_dev [79, 75])) [8, 14, 18, 20]"
    by (elim conjE exE) (intro conjI exI)
  then show ?thesis by (simp add: numeral_2_eq_2)
qed

end
