(* ===== verification/Overflow.thy ===== *)
theory Overflow
  imports Programs
begin

text \<open>
  The programs of \<^verbatim>\<open>gcc/\<close> that write outside the arrays of their stack frames, and the \<open>malloc\<close> of
  \<^verbatim>\<open>gcc/stdlib.c\<close>, whose block is in its own frame. C leaves what follows such a write undefined; on the core
  memory is flat and the stack grows down, so the model has the stack pointer, the return address each call saves in
  memory and the jump to what is there when it returns. Where the frames of \<^verbatim>\<open>rop1.c\<close> and \<^verbatim>\<open>buffer.c\<close> have their
  return address and their arrays is taken from the listings \<^verbatim>\<open>rop1.dump\<close> and \<^verbatim>\<open>buffer.dump\<close> beside them. The check
  of return addresses that \<open>set_CRAS\<close> turns on is a part of the processor and is not modelled.
\<close>

section \<open>Calls\<close>

text \<open>
  \<open>sp\<close> is the stack pointer at the call. A call ends with the address where control goes: the return address
  in its frame. The caller goes on only when that is where it was called from.
\<close>

definition enter :: "u32 \<Rightarrow> u32 \<Rightarrow> mem32 \<Rightarrow> mem32" where
  "enter sp ra m = store32 m (sp - 4) ra"

definition leave :: "u32 \<Rightarrow> mem32 \<Rightarrow> u32" where
  "leave sp m = load32 m (sp - 4)"

section \<open>rop1.c\<close>

text \<open>The addresses of \<open>badfunc\<close> and of the instructions behind the three calls of \<open>vuln_func\<close>.\<close>

record rop1_code =
  badfunc_at :: u32
  after_main_call :: u32
  after_first_call :: u32
  after_other_call :: u32

partial_function (option) vuln_func ::
    "rop1_code \<Rightarrow> i32 \<Rightarrow> i32 \<Rightarrow> u32 \<Rightarrow> u32 \<Rightarrow> mem32 \<Rightarrow> dev \<Rightarrow> (u32 \<times> mem32 \<times> dev) option" where
  "vuln_func k x i sp ra m d =
     (let m = enter sp ra m; buf = sp - 28; fun_ptr = sp - 32
      in if i = 0
      then do {
        let m = store32 m fun_ptr (badfunc_at k);
        let d = print x d;
        let m = snd (memcpy (buf + 24) fun_ptr 4 m);
        (pc, m, d) \<leftarrow> vuln_func k x (i + 1) (sp - 48) (after_first_call k) m d;
        Some (if pc = after_first_call k then leave sp m else pc, m, d) }
      else if i = 64
      then do {
        let m = store32 m 0x20244 (badfunc_at k);
        Some (leave sp m, m, d) }
      else do {
        (pc, m, d) \<leftarrow> vuln_func k x (i + 1) (sp - 48) (after_other_call k) m d;
        Some (if pc = after_other_call k then leave sp m else pc, m, d) })"

text \<open>What \<open>badfunc\<close> shows before its endless loop.\<close>

definition badfunc :: "dev \<Rightarrow> dev" where
  "badfunc d = print 100 d"

text \<open>
  \<open>main\<close> returns, or control goes to \<open>badfunc\<close> and stays there, or it goes astray; the memory is that when it does.
\<close>

datatype rop1_end = Returns_to u32 mem32 dev | Loops_in_badfunc mem32 dev | Goes_to u32 mem32 dev

definition rop1_main :: "rop1_code \<Rightarrow> u32 \<Rightarrow> u32 \<Rightarrow> mem32 \<Rightarrow> dev \<Rightarrow> rop1_end option" where
  "rop1_main k sp ra m d = do {
     let m = enter sp ra m;
     let d = set_CRAS 1 d;
     (pc, m, d) \<leftarrow> vuln_func k 0x100 0 (sp - 16) (after_main_call k) m d;
     Some (if pc = after_main_call k then Returns_to (leave sp m) m d
           else if pc = badfunc_at k then Loops_in_badfunc m (badfunc d)
           else Goes_to pc m d) }"

section \<open>buffer.c\<close>

function vuln_loop :: "u32 \<Rightarrow> nat \<Rightarrow> mem32 \<Rightarrow> mem32" where
  "vuln_loop c i m = (if i < 32 then vuln_loop c (i + 1) (m(c + of_nat i := 0)) else m)"
  by pat_completeness auto
termination
  by (relation "measure (\<lambda>(c, i, m). 32 - i)") auto

declare vuln_loop.simps [simp del]

definition vuln_function :: "u32 \<Rightarrow> i32 \<Rightarrow> mem32 \<Rightarrow> mem32" where
  "vuln_function c len m = vuln_loop c 0 m"

text \<open>\<open>vuln_function\<close> calls nothing and keeps its return address in a register.\<close>

definition buffer_main :: "u32 \<Rightarrow> u32 \<Rightarrow> mem32 \<Rightarrow> u32 \<times> mem32" where
  "buffer_main sp ra m =
     (let m = enter sp ra m; c = sp - 24; m = vuln_function c 6 m in (leave sp m, m))"

section \<open>ptr.c\<close>

text \<open>
  There is no listing: \<open>b\<close> and \<open>a\<close> are the addresses of the array and of the variable, and the memory is that after
  the last statement of \<open>ptr_test\<close>.
\<close>

definition square :: "i32 \<Rightarrow> i32" where
  "square d = (let e = d + d in e)"

definition ptr_test :: "u32 \<Rightarrow> u32 \<Rightarrow> i32 \<Rightarrow> mem32 \<Rightarrow> mem32" where
  "ptr_test b c d m =
     (let m = store32 m b 500;
          m = store32 m (b + 4) 600;
          m = store32 m (b + 8) 700;
          m = store32 m (b + 12) 800;
          m = store32 m (b + 16) 1000;
          m = store32 m (b + 20) 1200;
          m = store32 m (b + 24) 1400
      in store32 m c (square (load32 m (b + 8))))"

definition ptr_main :: "u32 \<Rightarrow> u32 \<Rightarrow> mem32 \<Rightarrow> mem32" where
  "ptr_main b a m = (let p = a; bb = 42 in ptr_test b p bb m)"

section \<open>The malloc of stdlib.c\<close>

text \<open>
  The block is an array of variable length: the stack pointer goes down by its size, rounded up to the sixteen
  bytes the calling convention asks for, below the \<open>fixed\<close> bytes of the frame, and the return gives all of it up.
\<close>

function std_malloc_loop :: "u32 \<Rightarrow> u32 \<Rightarrow> u32 \<Rightarrow> mem32 \<Rightarrow> mem32" where
  "std_malloc_loop c n i m = (if i < n then std_malloc_loop c n (i + 1) (m(c + i := 0)) else m)"
  by pat_completeness auto
termination
  by (relation "measure (\<lambda>(c, n, i, m). unat n - unat i)") (auto intro: unat_plus_1)

declare std_malloc_loop.simps [simp del]

definition array_below :: "u32 \<Rightarrow> u32 \<Rightarrow> u32" where
  "array_below sp n = sp - (n + 15) div 16 * 16"

definition std_malloc :: "u32 \<Rightarrow> u32 \<Rightarrow> u32 \<Rightarrow> mem32 \<Rightarrow> u32 \<times> mem32" where
  "std_malloc fixed sp sz m =
     (let c = array_below (sp - fixed) (sz + 4); m = std_malloc_loop c (sz + 4) 0 m; ptr = c in (ptr, m))"

section \<open>rop1 ends in badfunc\<close>

lemma sp_minus: "n \<le> a \<Longrightarrow> (of_nat a :: u32) - of_nat n = of_nat (a - n)"
  by (simp add: of_nat_diff)

lemmas sp_simps = sp_minus [of 4, simplified] sp_minus [of 16, simplified] sp_minus [of 28, simplified]
  sp_minus [of 32, simplified] sp_minus [of 48, simplified]

text \<open>What may change below the stack pointer \<open>a\<close>: \<open>n\<close> bytes of the stack, and the word at \<^verbatim>\<open>0x20244\<close>.\<close>

definition spoilt :: "nat \<Rightarrow> nat \<Rightarrow> u32 \<Rightarrow> bool" where
  "spoilt a n x \<longleftrightarrow> (a - n \<le> unat x \<and> unat x < a) \<or> (0x20244 \<le> unat x \<and> unat x < 0x20248)"

definition stack_at :: "nat \<Rightarrow> nat \<Rightarrow> bool" where
  "stack_at a n \<longleftrightarrow> n \<le> a \<and> a < 2 ^ 32 \<and> (a \<le> 0x20244 \<or> 0x20248 + n \<le> a)"

lemma stack_at_deeper: "stack_at a n \<Longrightarrow> k \<le> n \<Longrightarrow> stack_at (a - k) (n - k)"
  by (auto simp: stack_at_def)

lemma spoilt_deeper: "stack_at a n \<Longrightarrow> k \<le> n \<Longrightarrow> spoilt (a - k) (n - k) x \<Longrightarrow> spoilt a n x"
  by (auto simp: stack_at_def spoilt_def)

lemma spoilt_word: "stack_at a n \<Longrightarrow> 4 \<le> j \<Longrightarrow> j \<le> n \<Longrightarrow> \<not> spoilt a n x \<Longrightarrow> store32 m (of_nat (a - j)) v x = m x"
  by (intro store_word_frame) (auto simp: stack_at_def spoilt_def)

text \<open>A word of the frame above what is spoilt keeps its value.\<close>

lemma kept_word:
  assumes "stack_at a n" "4 \<le> j" "j \<le> k" "k \<le> n" "\<And>x. \<not> spoilt (a - k) (n - k) x \<Longrightarrow> m' x = m x"
  shows "load32 m' (of_nat (a - j)) = load32 m (of_nat (a - j))"
  using assms(1-4) by (intro load_same assms(5)) (auto simp: stack_at_def spoilt_def)

lemma mark_word: "load32 (store32 (m :: mem32) 0x20244 v) 0x20244 = v"
  by (simp add: mem_simps)

lemma vuln_func_deep:
  "0 < i \<Longrightarrow> i \<le> 64 \<Longrightarrow> stack_at a (48 * (65 - i)) \<Longrightarrow>
   \<exists>m'. vuln_func k x (of_nat i) (of_nat a) ra m d = Some (ra, m', d) \<and>
     load32 m' 0x20244 = badfunc_at k \<and> (\<forall>y. \<not> spoilt a (48 * (65 - i)) y \<longrightarrow> m' y = m y)"
proof (induction "64 - i" arbitrary: i a ra m)
  case 0
  then have i: "i = 64" and s: "stack_at a 48" "4 \<le> a" by (simp_all add: stack_at_def)
  define m1 where "m1 = store32 m (of_nat (a - 4)) ra"
  define m2 where "m2 = store32 m1 (of_nat 0x20244) (badfunc_at k)"
  have "load32 m2 (of_nat (a - 4)) = load32 m1 (of_nat (a - 4))"
    unfolding m2_def using s by (intro load_store_word) (auto simp: stack_at_def)
  then have l: "load32 m2 (of_nat (a - 4)) = ra" by (simp add: m1_def mem_simps del: of_nat_diff)
  have f: "m2 y = m y" if "\<not> spoilt a 48 y" for y
  proof -
    have "m2 y = m1 y" unfolding m2_def using that by (intro store_word_frame) (auto simp: spoilt_def)
    then show ?thesis using spoilt_word [OF s(1), of 4 y m ra] that by (simp add: m1_def)
  qed
  have "vuln_func k x (of_nat i) (of_nat a) ra m d = Some (ra, m2, d)"
    using l unfolding i by (subst vuln_func.simps) (simp add: enter_def leave_def sp_simps s m1_def m2_def Let_def del: of_nat_diff)
  moreover have "load32 m2 0x20244 = badfunc_at k" by (simp add: m2_def mark_word)
  ultimately show ?case using f by (simp add: i)
next
  case (Suc n)
  define N where "N = 48 * (65 - i)"
  have i: "n = 64 - Suc i" "Suc i \<le> 64" "48 * (65 - Suc i) = N - 48" "48 \<le> N" using Suc.hyps(2) by (auto simp: N_def)
  have s: "stack_at a N" "48 \<le> a" using Suc.prems(3) i(4) by (auto simp: N_def stack_at_def)
  define m1 where "m1 = store32 m (of_nat (a - 4)) ra"
  obtain m' where m': "vuln_func k x (of_nat (Suc i)) (of_nat (a - 48)) (after_other_call k) m1 d = Some (after_other_call k, m', d)"
    "load32 m' 0x20244 = badfunc_at k" "\<forall>y. \<not> spoilt (a - 48) (N - 48) y \<longrightarrow> m' y = m1 y"
    using Suc.hyps(1) [OF i(1) _ i(2), of "a - 48" "after_other_call k" m1] stack_at_deeper [OF s(1) i(4)] unfolding i(3) by blast
  have "load32 m' (of_nat (a - 4)) = load32 m1 (of_nat (a - 4))" using m'(3) by (intro kept_word [OF s(1) _ _ i(4)]) simp_all
  then have l: "load32 m' (of_nat (a - 4)) = ra" by (simp add: m1_def mem_simps del: of_nat_diff)
  have f: "m' y = m y" if y: "\<not> spoilt a N y" for y
  proof -
    have "m' y = m1 y" using m'(3) spoilt_deeper [OF s(1) i(4), of y] y by blast
    then show ?thesis using spoilt_word [OF s(1) _ _ y, of 4 m ra] i(4) by (simp add: m1_def)
  qed
  have "(of_nat i :: i32) \<noteq> 0" "(of_nat i :: i32) \<noteq> 64"
    using Suc.hyps(2) Suc.prems by (auto simp: word_unat_eq_iff unat_of_nat_32)
  then have "vuln_func k x (of_nat i) (of_nat a) ra m d = Some (ra, m', d)"
    using m'(1) l s(2) by (subst vuln_func.simps) (simp add: enter_def leave_def sp_simps m1_def Let_def add.commute del: of_nat_diff)
  then show ?case using m'(2) f unfolding N_def by blast
qed

lemma memcpy_word:
  assumes "bytes_at dest 4 \<inter> bytes_at src 4 = {}"
  shows "snd (memcpy dest src 4 m) = store32 m dest (load32 m src)"
proof -
  have "snd (memcpy dest src 4 m) = put_bytes m dest (bytes_from m src 4)"
    using memcpy_eq [of dest src 4 m] forward_ok_disjoint assms by simp
  also have "\<dots> = store32 m dest (load32 m src)"
    by (simp add: store32_put_bytes [of m] flip: word_bytes_load)
  finally show ?thesis .
qed

text \<open>The outermost call leaves its return address to \<open>badfunc\<close>.\<close>

lemma vuln_func_hijacked:
  assumes s: "stack_at a 3120"
  shows "\<exists>m'. vuln_func k x 0 (of_nat a) ra m d = Some (badfunc_at k, m', print x d) \<and>
    load32 m' 0x20244 = badfunc_at k \<and> load32 m' (of_nat (a - 4)) = badfunc_at k \<and> (\<forall>y. \<not> spoilt a 3120 y \<longrightarrow> m' y = m y)"
proof -
  have a: "3120 \<le> a" "a < 2 ^ 32" using s by (simp_all add: stack_at_def)
  define m1 where "m1 = store32 (store32 m (of_nat (a - 4)) ra) (of_nat (a - 32)) (badfunc_at k)"
  define m2 where "m2 = store32 m1 (of_nat (a - 4)) (badfunc_at k)"
  have c: "(of_nat (a - 28) :: u32) + 24 = of_nat (a - 4)"
    using of_nat_add [of "a - 28" 24, where ?'a = u32] a by simp
  have d0: "bytes_at (of_nat (a - 4)) 4 \<inter> bytes_at (of_nat (a - 32) :: u32) 4 = {}"
    using a by (auto simp: in_word_at simp del: of_nat_diff)
  have mc: "snd (memcpy (of_nat (a - 4)) (of_nat (a - 32)) 4 m1) = m2"
    using memcpy_word [OF d0, of m1] by (simp add: m1_def m2_def mem_simps del: of_nat_diff)
  obtain m' where m': "vuln_func k x 1 (of_nat (a - 48)) (after_first_call k) m2 (print x d) = Some (after_first_call k, m', print x d)"
    "load32 m' 0x20244 = badfunc_at k" "\<forall>y. \<not> spoilt (a - 48) 3072 y \<longrightarrow> m' y = m2 y"
    using vuln_func_deep [of 1 "a - 48" k x "after_first_call k" m2 "print x d"] stack_at_deeper [OF s, of 48] by auto
  have "load32 m' (of_nat (a - 4)) = load32 m2 (of_nat (a - 4))"
    using m'(3) by (intro kept_word [OF s, of 4 48]) simp_all
  then have l: "load32 m' (of_nat (a - 4)) = badfunc_at k" by (simp add: m2_def mem_simps del: of_nat_diff)
  have "m' y = m y" if y: "\<not> spoilt a 3120 y" for y
  proof -
    have "m' y = m2 y" using m'(3) spoilt_deeper [OF s, of 48 y] y by auto
    then show ?thesis using spoilt_word [OF s _ _ y, of 4] spoilt_word [OF s _ _ y, of 32] by (simp add: m1_def m2_def del: of_nat_diff)
  qed
  moreover have "vuln_func k x 0 (of_nat a) ra m d = Some (badfunc_at k, m', print x d)"
    using m'(1) l mc a
    by (subst vuln_func.simps) (simp add: enter_def leave_def sp_simps c m1_def [symmetric] Let_def del: of_nat_diff)
  ultimately show ?thesis using m'(2) l by blast
qed

lemma rop1_main_hijacked:
  assumes "stack_at a 3136" "badfunc_at k \<noteq> after_main_call k"
  shows "\<exists>m'. rop1_main k (of_nat a) ra m d = Some (Loops_in_badfunc m' (print 100 (print 0x100 (set_CRAS 1 d)))) \<and>
    load32 m' 0x20244 = badfunc_at k \<and> load32 m' (of_nat (a - 20)) = badfunc_at k \<and> (\<forall>y. \<not> spoilt a 3136 y \<longrightarrow> m' y = m y)"
proof -
  have a: "16 \<le> a" "4 \<le> a" "a - 16 - 4 = a - 20" using assms(1) by (simp_all add: stack_at_def)
  define m1 where "m1 = store32 m (of_nat (a - 4)) ra"
  have "stack_at (a - 16) 3120" using stack_at_deeper [OF assms(1), of 16] by simp
  from vuln_func_hijacked [OF this, where k = k and x = "0x100" and ra = "after_main_call k" and m = m1 and d = "set_CRAS 1 d"]
  obtain m' where
    m': "vuln_func k 0x100 0 (of_nat (a - 16)) (after_main_call k) m1 (set_CRAS 1 d) = Some (badfunc_at k, m', print 0x100 (set_CRAS 1 d))"
    "load32 m' 0x20244 = badfunc_at k" "load32 m' (of_nat (a - 20)) = badfunc_at k" "\<forall>y. \<not> spoilt (a - 16) 3120 y \<longrightarrow> m' y = m1 y"
    unfolding a(3) by blast
  have "m' y = m y" if y: "\<not> spoilt a 3136 y" for y
  proof -
    have "m' y = m1 y" using m'(4) spoilt_deeper [OF assms(1), of 16 y] y by auto
    then show ?thesis using spoilt_word [OF assms(1) _ _ y, of 4 m ra] by (simp add: m1_def del: of_nat_diff)
  qed
  then show ?thesis using m' assms(2) a
    by (simp add: rop1_main_def enter_def sp_simps badfunc_def del: of_nat_diff flip: m1_def)
qed

section \<open>What the others write\<close>

lemma vuln_loop_eq: "i \<le> 32 \<Longrightarrow> vuln_loop c i m = put_bytes m (c + of_nat i) (replicate (32 - i) 0)"
proof (induction "32 - i" arbitrary: i m)
  case 0
  then show ?case by (simp add: vuln_loop.simps)
next
  case (Suc n)
  then have "32 - i = Suc (32 - Suc i)" "i < 32" by simp_all
  then show ?case
    using Suc.hyps(1) [of "Suc i"] Suc.hyps(2) by (subst vuln_loop.simps) (simp add: store8_def [of m] add_ac)
qed

lemma load32_zero: "load32 (\<lambda>_. 0) (a :: u32) = 0"
  by code_simp

lemma buffer_main_clears:
  "\<exists>m'. buffer_main sp ra m = (0, m') \<and> bytes_from m' (sp - 24) 32 = replicate 32 0 \<and>
     (\<forall>x. x \<notin> bytes_at (sp - 24) 32 \<longrightarrow> m' x = m x)"
proof -
  let ?m = "put_bytes (enter sp ra m) (sp - 24) (replicate 32 0)"
  have in_c: "sp - 4 + of_nat i = sp - 24 + of_nat (20 + i)" for i by simp
  have z: "?m x = 0" if "x \<in> bytes_at (sp - 4) 4" for x
    using that put_bytes_nth [of "20 + _" "replicate 32 0"] unfolding bytes_at_def by (auto simp: in_c simp del: of_nat_add)
  have "load32 ?m (sp - 4) = load32 (\<lambda>_. 0) (sp - 4)" using z by (intro m32.load_cong)
  then have "leave sp ?m = 0" by (simp add: leave_def load32_zero)
  moreover have "bytes_at (sp - 4) 4 \<subseteq> bytes_at (sp - 24) 32" unfolding bytes_at_def by (fastforce simp: in_c simp del: of_nat_add)
  then have "?m x = m x" if "x \<notin> bytes_at (sp - 24) 32" for x
    using that put_bytes_frame [of x "sp - 24" "replicate 32 0"] m32.store_frame [of x "sp - 4" m ra] by (auto simp: enter_def)
  moreover have "buffer_main sp ra m = (leave sp ?m, ?m)"
    using vuln_loop_eq [of 0] by (simp add: buffer_main_def vuln_function_def Let_def)
  ultimately show ?thesis using bytes_from_put_bytes [of "replicate 32 0" "enter sp ra m" "sp - 24"] by auto
qed

lemma ptr_main_eq:
  "ptr_main b a m = (let m' = store_seq store32 4 m b [500, 600, 700, 800, 1000, 1200, 1400]
     in store32 m' a (2 * load32 m' (b + 8)))"
  by (simp add: ptr_main_def ptr_test_def square_def Let_def add_ac)

lemma ptr_word_within:
  assumes "k < 7"
  shows "bytes_at (b + of_nat k * 4 :: u32) 4 \<subseteq> bytes_at b 28"
proof
  fix x assume "x \<in> bytes_at (b + of_nat k * 4) 4"
  then obtain j where "j < 4" "x = b + of_nat (4 * k + j)" by (auto simp: bytes_at_def mult.commute add_ac)
  moreover have "4 * k + j < 28" using assms \<open>j < 4\<close> by simp
  ultimately show "x \<in> bytes_at b 28" unfolding bytes_at_def by blast
qed

lemma ptr_main_loads:
  assumes "bytes_at a 4 \<inter> bytes_at b 28 = {}" "unat b + 28 \<le> 2 ^ 32"
  shows "map (\<lambda>k. load32 (ptr_main b a m) (b + of_nat k * 4)) [0..<7] = [500, 600, 700, 800, 1000, 1200, 1400]"
    and "load32 (ptr_main b a m) a = 1400"
proof -
  let ?vs = "[500, 600, 700, 800, 1000, 1200, 1400] :: u32 list"
  let ?m = "store_seq store32 4 m b ?vs"
  have w: "load32 ?m (b + of_nat k * 4) = ?vs ! k" if "k < 7" for k
    using m32.store_seq_nth [of k ?vs 4 b m] that assms(2) by simp
  have "bytes_at (b + of_nat k * 4) 4 \<inter> bytes_at a 4 = {}" if "k < 7" for k
    using assms(1) ptr_word_within [OF that] by blast
  then have "load32 (ptr_main b a m) (b + of_nat k * 4) = ?vs ! k" if "k < 7" for k
    unfolding ptr_main_eq Let_def using w that by (simp only: m32.load_store_other)
  then show "map (\<lambda>k. load32 (ptr_main b a m) (b + of_nat k * 4)) [0..<7] = ?vs"
    by (intro nth_equalityI) simp_all
  show "load32 (ptr_main b a m) a = 1400" using w [of 2] by (simp add: ptr_main_eq Let_def mem_simps)
qed

lemma std_malloc_loop_eq:
  "i \<le> unat n \<Longrightarrow>
   std_malloc_loop c n (of_nat i) m = put_bytes m (c + of_nat i) (replicate (unat n - i) 0)"
proof (induction "unat n - i" arbitrary: i m)
  case 0
  then have "i = unat n" by simp
  then show ?case by (subst std_malloc_loop.simps) simp
next
  case (Suc k)
  then have "unat n - i = Suc (unat n - Suc i)" "i < unat n" by simp_all
  moreover from this have "(of_nat i :: u32) < n"
    using unat_of_nat_32 [of i] unat_lt_32 [of n] by (simp add: word_less_nat_alt del: unat_lt_32)
  ultimately show ?case
    using Suc.hyps(1) [of "Suc i"] Suc.hyps(2)
    by (subst std_malloc_loop.simps) (simp add: store8_def [of m] add_ac)
qed

lemma array_below_unat:
  assumes "unat n + 15 \<le> unat t"
  shows "unat (array_below t n) = unat t - (unat n + 15) div 16 * 16"
proof -
  have "unat (n + 15) = unat n + 15" using assms unat_add_of_nat [of n 15] unat_lt_32 [of t] by (simp del: unat_lt_32)
  moreover have le: "(unat n + 15) div 16 * 16 \<le> unat t" using assms by simp
  ultimately have "unat ((n + 15) div 16 * 16) = (unat n + 15) div 16 * 16"
    using unat_lt_32 [of t] by (simp add: unat_word_ariths unat_div del: unat_lt_32)
  then show ?thesis using le by (simp add: array_below_def unat_sub_if')
qed

text \<open>The block is below the frame of the caller, and its place depends on nothing but the size.\<close>

lemma std_malloc_eq:
  assumes "unat fixed + unat n + 19 \<le> unat sp"
  shows "\<exists>c. unat c + unat n + 4 \<le> unat sp \<and>
    (\<forall>m. std_malloc fixed sp n m = (c, put_bytes m c (replicate (unat n + 4) 0)))"
proof -
  have n: "unat (n + 4) = unat n + 4" using assms unat_add_of_nat [of n 4] unat_lt_32 [of sp] by (simp del: unat_lt_32)
  have t: "unat (sp - fixed) = unat sp - unat fixed" using assms by (simp add: unat_sub_if')
  have "unat (array_below (sp - fixed) (n + 4)) + unat n + 4 \<le> unat sp"
    using array_below_unat [of "n + 4" "sp - fixed"] assms by (simp add: n t)
  then show ?thesis using std_malloc_loop_eq [of 0 "n + 4"] n by (auto simp: std_malloc_def Let_def)
qed

lemma zeroed_bytes:
  assumes "k + l < 2 ^ 32"
  shows "bytes_from (put_bytes m c (replicate (k + l) 0)) (c :: u32) k = replicate k 0"
  using bytes_from_put_bytes [of "replicate (k + l) 0" m c] assms by (simp add: bytes_from_add replicate_add)

lemma ptr_main_frame:
  assumes "x \<notin> bytes_at b 28" "x \<notin> bytes_at a 4"
  shows "ptr_main b a m x = m x"
proof -
  have "store_seq store32 4 m b [500, 600, 700, 800, 1000, 1200, 1400] x = m x"
  proof (rule m32.store_seq_frame)
    fix i :: nat
    assume "i < length [500, 600, 700, 800, 1000, 1200, 1400 :: u32]"
    then have "bytes_at (b + of_nat i * 4) 4 \<subseteq> bytes_at b 28" by (intro ptr_word_within) simp
    then show "x \<notin> bytes_at (b + of_nat i * 4) 4" using assms(1) by blast
  qed
  then show ?thesis using assms(2) by (simp add: ptr_main_eq Let_def m32.store_frame)
qed

section \<open>Properties\<close>

text \<open>C38: what becomes of the writes outside an array on the stack, when the stack has room below \<open>sp\<close> and is
  clear of the word at \<^verbatim>\<open>0x20244\<close>, and nothing checks return addresses. \<open>rop1\<close> does not return: the copy behind the array of 8 bytes replaces the return
  address of the outermost call of \<open>vuln_func\<close>, after 65 calls control goes to \<open>badfunc\<close> and stays there, and the
  display has shown first \<^verbatim>\<open>0x100\<close>, then 100; as \<open>badfunc\<close> is entered the word at \<^verbatim>\<open>0x20244\<close> is its address too, and only
  that word and the stack below \<open>sp\<close> have changed. \<open>buffer\<close> clears 32 bytes at its array of 4, the return address of
  \<open>main\<close> among them, so that \<open>main\<close> returns to the address 0, and changes nothing else. \<open>ptr\<close> stores seven words at its
  array of two, of which \<open>a\<close> receives twice the third, and nothing else. Two calls of the \<open>malloc\<close> of
  \<^verbatim>\<open>gcc/stdlib.c\<close> of one size from one place give the same block, in the frame the first call has already given up;
  the second call clears what was written to the first block, and neither changes more than the block and the four
  bytes behind it.\<close>

theorem stack_programs:
  assumes rop: "3136 \<le> unat sp" "unat sp \<le> 0x20244 \<or> 0x20248 + 3136 \<le> unat sp" "badfunc_at k \<noteq> after_main_call k"
    and ptr: "bytes_at a 4 \<inter> bytes_at b 28 = {}" "unat b + 28 \<le> 2 ^ 32"
    and malloc: "unat fixed + unat n + 19 \<le> unat sp" "length bs = unat n"
  shows "(\<exists>m' d'. rop1_main k sp ra m d = Some (Loops_in_badfunc m' d') \<and>
      writes_of d' = writes_of d @ [WriteByte 0xaaaaa600 1, WriteWord 0xaaaaa008 0x100, WriteWord 0xaaaaa008 100] \<and>
      load32 m' 0x20244 = badfunc_at k \<and>
      (\<forall>x. \<not> (unat sp - 3136 \<le> unat x \<and> unat x < unat sp) \<and> x \<notin> bytes_at 0x20244 4 \<longrightarrow> m' x = m x)) \<and>
    (\<exists>m'. buffer_main sp ra m = (0, m') \<and> bytes_from m' (sp - 24) 32 = replicate 32 0 \<and>
      (\<forall>x. x \<notin> bytes_at (sp - 24) 32 \<longrightarrow> m' x = m x)) \<and>
    map (\<lambda>j. load32 (ptr_main b a m) (b + of_nat j * 4)) [0..<7] = [500, 600, 700, 800, 1000, 1200, 1400] \<and>
    load32 (ptr_main b a m) a = 1400 \<and>
    (\<forall>x. x \<notin> bytes_at b 28 \<and> x \<notin> bytes_at a 4 \<longrightarrow> ptr_main b a m x = m x) \<and>
    (\<exists>c m1 m2. std_malloc fixed sp n m = (c, m1) \<and> std_malloc fixed sp n (put_bytes m1 c bs) = (c, m2) \<and>
      unat c + unat n \<le> unat sp \<and> bytes_from m2 c (unat n) = replicate (unat n) 0 \<and>
      (\<forall>x. x \<notin> bytes_at c (unat n + 4) \<longrightarrow> m1 x = m x \<and> m2 x = put_bytes m1 c bs x))"
proof (intro conjI)
  have s: "stack_at (unat sp) 3136" using rop by (simp add: stack_at_def)
  have "\<not> spoilt (unat sp) 3136 x"
    if "\<not> (unat sp - 3136 \<le> unat x \<and> unat x < unat sp)" "x \<notin> bytes_at 0x20244 4" for x
    using that in_word_at [of "0x20244" x] by (auto simp: spoilt_def)
  then show "\<exists>m' d'. rop1_main k sp ra m d = Some (Loops_in_badfunc m' d') \<and>
      writes_of d' = writes_of d @ [WriteByte 0xaaaaa600 1, WriteWord 0xaaaaa008 0x100, WriteWord 0xaaaaa008 100] \<and>
      load32 m' 0x20244 = badfunc_at k \<and>
      (\<forall>x. \<not> (unat sp - 3136 \<le> unat x \<and> unat x < unat sp) \<and> x \<notin> bytes_at 0x20244 4 \<longrightarrow> m' x = m x)"
    using rop1_main_hijacked [OF s rop(3), of ra m d] by auto
  show "map (\<lambda>j. load32 (ptr_main b a m) (b + of_nat j * 4)) [0..<7] = [500, 600, 700, 800, 1000, 1200, 1400]"
    "load32 (ptr_main b a m) a = 1400"
    using ptr by (rule ptr_main_loads)+
  show "\<forall>x. x \<notin> bytes_at b 28 \<and> x \<notin> bytes_at a 4 \<longrightarrow> ptr_main b a m x = m x"
    by (simp add: ptr_main_frame)
  obtain c where c: "unat c + unat n + 4 \<le> unat sp"
    "\<And>m. std_malloc fixed sp n m = (c, put_bytes m c (replicate (unat n + 4) 0))"
    using std_malloc_eq [OF malloc(1)] by blast
  have "unat n + 4 < 2 ^ 32" using c(1) unat_lt_32 [of sp] by (simp del: unat_lt_32)
  then show "\<exists>c m1 m2. std_malloc fixed sp n m = (c, m1) \<and> std_malloc fixed sp n (put_bytes m1 c bs) = (c, m2) \<and>
      unat c + unat n \<le> unat sp \<and> bytes_from m2 c (unat n) = replicate (unat n) 0 \<and>
      (\<forall>x. x \<notin> bytes_at c (unat n + 4) \<longrightarrow> m1 x = m x \<and> m2 x = put_bytes m1 c bs x)"
    using c zeroed_bytes by (intro exI [of _ c]) (simp add: put_bytes_frame)
qed (rule buffer_main_clears)

text \<open>With the addresses of \<^verbatim>\<open>rop1.dump\<close>.\<close>

theorem stack_programs_witness:
  "\<exists>m' d'. rop1_main \<lparr>badfunc_at = 0x20, after_main_call = 0xc6, after_first_call = 0x74, after_other_call = 0xa8\<rparr>
       0x10240 0x1234 (\<lambda>_. 0) (run_dev []) = Some (Loops_in_badfunc m' d') \<and>
     load32 m' 0x20244 = 0x20 \<and>
     writes_of d' = [WriteByte 0xaaaaa600 1, WriteWord 0xaaaaa008 0x100, WriteWord 0xaaaaa008 100]"
proof -
  let ?k = "\<lparr>badfunc_at = 0x20, after_main_call = 0xc6, after_first_call = 0x74, after_other_call = 0xa8\<rparr>"
  have "bytes_at (0x400 :: u32) 4 \<inter> bytes_at 0x500 28 = {}"
    by (rule bytes_at_disjoint) simp_all
  then show ?thesis
    using stack_programs [where sp = "0x10240" and k = ?k and a = "0x400" and b = "0x500" and fixed = 48 and n = 1
      and bs = "[7]" and ra = "0x1234" and m = "\<lambda>_. 0" and d = "run_dev []"]
    by (simp add: run_dev_def writes_of_def) blast
qed

end
