(* ===== verification/Unlinked.thy ===== *)
theory Unlinked
  imports Overflow
begin

text \<open>
  Programs of \<^verbatim>\<open>gcc/\<close> that call functions the repository does not have: \<^verbatim>\<open>uart_write_blocking\<close>, which
  \<^verbatim>\<open>gcc/uart.h\<close> declares and \<^verbatim>\<open>gcc/uart.c\<close> has only as a comment, a \<open>print\<close> of strings, and the \<open>printf\<close> of the
  C library. Those functions are parameters here. With them come the programs whose \<open>main\<close> does little,
  and the function of \<^verbatim>\<open>buffer.c\<close> that nothing calls.
\<close>

section \<open>qsort.c\<close>

text \<open>
  The loop at the end of \<open>sort\<close>: \<open>write i\<close> stands for \<open>uart_write_blocking(h[i])\<close>, in which the array \<open>h\<close>
  is not declared either.
\<close>

function sort_output :: "(int \<Rightarrow> dev \<Rightarrow> dev) \<Rightarrow> int \<Rightarrow> int list \<Rightarrow> int \<Rightarrow> dev \<Rightarrow> dev option" where
  "sort_output write n arr i d =
     (if i < n
      then do { x \<leftarrow> rd arr i; sort_output write n arr (i + 1) (write i (print (word_of_int x) d)) }
      else Some d)"
  by pat_completeness auto
termination
  by (relation "measure (\<lambda>(w, n, a, i, d). nat (n - i))") auto

declare sort_output.simps [simp del]

definition sort_and_output :: "(int \<Rightarrow> dev \<Rightarrow> dev) \<Rightarrow> int \<Rightarrow> int list \<Rightarrow> dev \<Rightarrow> (int list \<times> dev) option" where
  "sort_and_output write n arr d = do {
     arr \<leftarrow> qsort n arr;
     d \<leftarrow> sort_output write n arr 0 d;
     Some (arr, d) }"

definition qsort_main :: "(int \<Rightarrow> dev \<Rightarrow> dev) \<Rightarrow> dev \<Rightarrow> (i32 \<times> dev) option" where
  "qsort_main write d = do { (_, d) \<leftarrow> sort_and_output write 4 [3, 4, 2, 1] d; Some (0, d) }"

section \<open>uartTest2.c, atest.c, test2.c, addrtest.c\<close>

definition uartTest2_nothing :: i32 where
  "uartTest2_nothing = 1"

text \<open>\<open>while(i < len) { uart_write_blocking(str[i]); i++; }\<close>\<close>

function write_chars :: "(u8 \<Rightarrow> 'w \<Rightarrow> 'w) \<Rightarrow> mem32 \<Rightarrow> u32 \<Rightarrow> i32 \<Rightarrow> i32 \<Rightarrow> 'w \<Rightarrow> 'w" where
  "write_chars put m str i len w =
     (if i <s len then write_chars put m str (i + 1) len (put (m (str + i)) w) else w)"
  by pat_completeness auto
termination
  by (relation "measure (\<lambda>(p, m, s, i, n, w). nat (sint n - sint i))") (auto simp: word_sless_alt sint_succ_less)

declare write_chars.simps [simp del]

text \<open>The endless loop at the end has no effect and is left out.\<close>

definition uartTest2_main :: "(u8 \<Rightarrow> 'w \<Rightarrow> 'w) \<Rightarrow> u32 \<Rightarrow> u32 \<Rightarrow> mem32 \<Rightarrow> 'w \<Rightarrow> (mem32 \<times> 'w) option" where
  "uartTest2_main put str num_str m w = do {
     let i = 0;
     let num = 298;
     len \<leftarrow> count_digits num;
     m \<leftarrow> itoa num str m;
     m \<leftarrow> itoa len num_str m;
     let w = put (m (num_str + 0)) w;
     let w = put (m (str + 0)) w;
     let w = put (m (str + 1)) w;
     let w = put (m (str + 2)) w;
     Some (m, write_chars put m str i len w) }"

text \<open>\<open>for (i = 0; i < 32; i++) x[i] = 0;\<close>; the literals are at \<open>say\<close>, \<open>entered\<close> and \<open>nl\<close>.\<close>

function clear_32 :: "u32 \<Rightarrow> nat \<Rightarrow> mem32 \<Rightarrow> mem32" where
  "clear_32 x i m = (if i < 32 then clear_32 x (i + 1) (m(x + of_nat i := 0)) else m)"
  by pat_completeness auto
termination
  by (relation "measure (\<lambda>(x, i, m). 32 - i)") auto

declare clear_32.simps [simp del]

definition atest_main :: "(mem32 \<Rightarrow> u32 \<Rightarrow> dev \<Rightarrow> dev option) \<Rightarrow> u32 \<Rightarrow> u32 \<Rightarrow> u32 \<Rightarrow> u32 \<Rightarrow> mem32 \<Rightarrow> dev \<Rightarrow>
    (i32 \<times> mem32 \<times> dev) option" where
  "atest_main print_string say entered nl x m d = do {
     let m = clear_32 x 0 m;
     d \<leftarrow> print_string m say d;
     (m, d) \<leftarrow> readline x 32 m d;
     d \<leftarrow> print_string m entered d;
     d \<leftarrow> print_string m x d;
     d \<leftarrow> print_string m nl d;
     let c = (4 :: i32);
     Some (0, m, d) }"

definition test2_main :: "(i32 \<Rightarrow> 'w \<Rightarrow> 'w) \<Rightarrow> 'w \<Rightarrow> 'w option" where
  "test2_main printf w = do {
     let num1 = 10;
     let num2 = - 5;
     let w = printf num1 w;
     let w = printf num2 w;
     let w = printf (div32 num1 num2) w;
     q \<leftarrow> divide num1 num2;
     Some (printf q w) }"

function addrtest_fill :: "mem32 \<Rightarrow> u32 \<Rightarrow> nat \<Rightarrow> dev \<Rightarrow> (mem32 \<times> dev) option" where
  "addrtest_fill m buf i d =
     (if i < 4
      then do { (c, d) \<leftarrow> uart_read_blocking d; addrtest_fill (m(buf + of_nat i := c)) buf (i + 1) d }
      else Some (m, d))"
  by pat_completeness auto
termination
  by (relation "measure (\<lambda>(m, b, i, d). 4 - i)") auto

declare addrtest_fill.simps [simp del]

definition addrtest_read_word :: "mem32 \<Rightarrow> u32 \<Rightarrow> dev \<Rightarrow> (i32 \<times> dev) option" where
  "addrtest_read_word m buf d = do {
     (m, d) \<leftarrow> addrtest_fill m buf 0 d;
     let p = buf + 0;
     Some (load32 m p, d) }"

definition addrtest_main :: i32 where
  "addrtest_main = 0"

section \<open>Small programs\<close>

definition recursive_main :: "i32 option" where
  "recursive_main = do { let a = 3; tot \<leftarrow> triangular a; Some 0 }"

definition csrtest_main :: i32 where
  "csrtest_main = (let a = 1 in a)"

definition libtest_main :: i32 where
  "libtest_main = 0"

text \<open>\<open>secret_function\<close> of \<^verbatim>\<open>buffer.c\<close>.\<close>

definition secret_function :: "dev \<Rightarrow> dev" where
  "secret_function d = print 0x69 d"

section \<open>What they do\<close>

lemma addrtest_fill_bytes:
  assumes "i \<le> 4"
  shows "addrtest_fill m buf i d = do {
    (bs, d) \<leftarrow> read_bytes uart_read_blocking (4 - i) d;
    Some (put_bytes m (buf + of_nat i) bs, d) }"
  using assms
proof (induction "4 - i" arbitrary: i m d)
  case 0
  then show ?case by (subst addrtest_fill.simps) simp
next
  case (Suc k)
  then have i: "i < 4" "4 - i = Suc k" "k = 4 - Suc i" by simp_all
  have "addrtest_fill (m(buf + of_nat i := c)) buf (Suc i) e = do {
      (bs, e) \<leftarrow> read_bytes uart_read_blocking k e;
      Some (put_bytes (m(buf + of_nat i := c)) (buf + of_nat (Suc i)) bs, e) }" for c e
    using Suc.hyps(1) [OF i(3), of "m(buf + of_nat i := c)" e] i by simp
  note IH = this [unfolded i(3)]
  show ?case
  proof (cases "uart_read_blocking d")
    case (Some r)
    obtain c e where r: "r = (c, e)" by (metis surj_pair)
    show ?thesis
      using i(1) IH [of c e]
      by (subst addrtest_fill.simps)
        (cases "read_bytes uart_read_blocking (3 - i) e"; simp add: i(2) i(3) Some r store8_def add_ac split: prod.splits)
  qed (use i in \<open>subst addrtest_fill.simps, simp add: i(2)\<close>)
qed

lemma read_bytes_length: "read_bytes rb n d = Some (bs, d') \<Longrightarrow> length bs = n"
proof (induction n arbitrary: d bs)
  case (Suc n)
  then obtain b d1 cs where "rb d = Some (b, d1)" "read_bytes rb n d1 = Some (cs, d')" "bs = b # cs"
    by (auto simp: Option.bind_eq_Some_conv)
  then show ?case using Suc.IH by simp
qed simp

lemma load32_four: "load32 (put_bytes m a [b0, b1, b2, b3]) a = load32 (put_bytes (\<lambda>_. 0) 0 [b0, b1, b2, b3]) 0"
  by (simp add: load32_def store8_def numeral_eq_Suc)

lemma addrtest_read_word_eq: "addrtest_read_word m buf d = uart_read_word d"
proof (cases "read_bytes uart_read_blocking 4 d")
  case None
  then show ?thesis using addrtest_fill_bytes [of 0 m buf d] by (simp add: addrtest_read_word_def uart_read_word_def)
next
  case (Some r)
  obtain bs e where r: "read_bytes uart_read_blocking 4 d = Some (bs, e)" using Some by (metis surj_pair)
  then have "length bs = 4" by (rule read_bytes_length)
  then obtain b0 b1 b2 b3 where "bs = [b0, b1, b2, b3]" by (auto simp: numeral_eq_Suc length_Suc_conv)
  then show ?thesis
    using addrtest_fill_bytes [of 0 m buf d] r load32_four [of m buf b0 b1 b2 b3]
    by (simp add: addrtest_read_word_def uart_read_word_def)
qed

lemma uartTest2_writes:
  assumes "\<forall>i < 3. num_str \<noteq> str + of_nat i"
  shows "map_option snd (uartTest2_main put str num_str m w) =
    Some (put 56 (put 57 (put 50 (put 56 (put 57 (put 50 (put 51 w)))))))"
proof -
  have c: "count_digits 298 = Some 3"
  proof -
    obtain k where k: "count_digits_loop 298 0 = Some (0 + of_nat k)" "(298 :: int) < 10 ^ k" "0 < k" "10 ^ (k - 1) \<le> (298 :: int)"
      using count_digits_loop_eq [of 298 0] by auto
    have "\<not> k \<le> 2" using k(2) power_increasing [of k 2 "10 :: int"] by auto
    moreover have "\<not> 3 \<le> k - 1" using k(4) power_increasing [of 3 "k - 1" "10 :: int"] by auto
    ultimately have "k = 3" by simp
    then show ?thesis using k(1) by (simp add: count_digits_def)
  qed
  have i: "itoa 298 str m = Some (put_bytes m str [50, 57, 56])" for m
    using itoa_eq [of 298 str m] dec_length [of 3 298]
    by (simp add: dec_string_def numeral_3_eq_3 digit_byte_def)
  have l: "\<not> (3 :: i32) <s 0" "(3 :: i32) <s 10" "(0 :: i32) <s 3" "(1 :: i32) <s 3" "(2 :: i32) <s 3" by code_simp+
  from l(1,2) have n: "itoa 3 num_str m = Some (m(num_str := 51))" for m by (simp add: itoa_def INT_OFFSET_def)
  have d: "num_str \<noteq> str" "num_str \<noteq> str + 1" "num_str \<noteq> str + 2"
    using assms [rule_format, of 0] assms [rule_format, of 1] assms [rule_format, of 2] by simp_all
  show ?thesis using d
    by (simp add: uartTest2_main_def c i n store8_def write_chars.simps l Let_def)
qed

lemma test2_prints: "test2_main pr w = Some (pr (- 2) (pr (- 2) (pr (- 5) (pr 10 w))))"
proof -
  have "divide 10 (- 5) = Some (- 2)"
    using divide_in_range [of 10 "- 5"] by simp
  moreover have "div32 10 (- 5) = - 2" by (simp add: div32_def)
  ultimately show ?thesis by (simp add: test2_main_def)
qed

lemma qsort_main_shows:
  "qsort_main write d = Some (0, write 3 (print 4 (write 2 (print 3 (write 1 (print 2 (write 0 (print 1 d))))))))"
proof -
  have "qsort 4 [3, 4, 2, 1 :: int] = Some [1, 2, 3, 4]"
    using qsort.is_sort [of "[3 :: int, 4, 2, 1]"] by simp
  then show ?thesis by (simp add: qsort_main_def sort_and_output_def sort_output.simps rd_def)
qed

lemma recursive_main_returns: "recursive_main = Some 0"
  by (simp add: recursive_main_def triangular.simps)

text \<open>
  The output of \<^verbatim>\<open>qsort.c\<close> and \<^verbatim>\<open>uartTest2.c\<close> in full, whatever the missing functions do with it; the word
  that \<^verbatim>\<open>addrtest.c\<close> reads is the one \<^verbatim>\<open>kernel.c\<close> reads, wherever its buffer is.
\<close>

theorem unlinked_programs:
  assumes "\<forall>i < 3. num_str \<noteq> str + of_nat i"
  shows "qsort_main write d =
      Some (0, write 3 (print 4 (write 2 (print 3 (write 1 (print 2 (write 0 (print 1 d)))))))) \<and>
    map_option snd (uartTest2_main put str num_str m w) =
      Some (put 56 (put 57 (put 50 (put 56 (put 57 (put 50 (put 51 w))))))) \<and>
    test2_main pr v = Some (pr (- 2) (pr (- 2) (pr (- 5) (pr 10 v)))) \<and>
    addrtest_read_word m buf d = uart_read_word d \<and> recursive_main = Some 0 \<and>
    shows_words d (Some (badfunc d)) [100] \<and> shows_words d (Some (secret_function d)) [0x69]"
  using uartTest2_writes [OF assms, of put m w]
  by (simp add: shows_words_def badfunc_def secret_function_def test2_prints qsort_main_shows
      addrtest_read_word_eq recursive_main_returns)

end
