(* ===== verification/Spec2Isabelle.thy ===== *)
theory Spec2Isabelle
  imports Arith Device Uart Strings Kernel Aes Malloc PageSpec PageAlloc CArray Sorts QSort Radix Bench
    Printf PrintfProps PrintfText Double PrintfFloat FloatText DoubleError FloatExponent
    FloatEnds PageTable PageMap HeapSpec Kmem KmemHeap Boot Demos Serial Programs Overflow Unlinked
begin

text \<open>
  The C software of the Mini-RISC-V processor: the run-time library, drivers, allocators and page
  tables under \<^verbatim>\<open>gcc/\<close>, the small operating system under \<^verbatim>\<open>os/src/\<close>, and the programs that run on
  them.

  \<^bold>\<open>The parts and how they interact.\<close> The programs are compiled for rv32i, which has no multiplication, so the compiler
  calls the software arithmetic. Programs reach the outside through memory-mapped registers: the UART, the SPI port, the
  display, the return-address stack and the cycle counter. The boot loader receives a program over the
  UART and stores it in memory; the sorting and factorial servers receive a request and answer it. The
  operating system prints through its own UART driver, directly or by \<open>printf\<close>. Its page allocator hands
  out runs of pages; the 64-bit version of it also feeds the page tables and the byte heap \<open>kmalloc\<close>.

  \<^bold>\<open>The theories.\<close>
  \<^item> CBase: the machine types, the shared facts on words; Memory: byte memory with the contract \<open>word_memory\<close>
    of an access width, and runs of stores; CArray: arrays with checked access, the contract \<open>sorter\<close>.
  \<^item> Arith: \<^verbatim>\<open>gcc/utils.c\<close>, \<^verbatim>\<open>gcc/multiply.c\<close> and the arithmetic of \<^verbatim>\<open>gcc/stdlib.c\<close>, shown to agree with
    \<open>*\<close>, \<open>sdiv\<close> and \<open>smod\<close> in the stated ranges.
  \<^item> Device: the registers (\<^verbatim>\<open>print.c\<close>, \<^verbatim>\<open>spi.c\<close>, \<^verbatim>\<open>CRAS.c\<close>, \<^verbatim>\<open>counter.c\<close>) and the contract \<open>serial_receiver\<close>;
    Uart: both UART drivers, which meet it, and their string output.
  \<^item> Strings: \<open>readline\<close>, \<open>atoi\<close>, both versions of \<open>itoa\<close>, \<open>strcpy\<close> and the three of \<open>memcpy\<close>.
  \<^item> Kernel: the boot loader \<^verbatim>\<open>gcc/kernel.c\<close> and the transfer of words; Boot: \<^verbatim>\<open>os/src/kmain.c\<close> and the trap
    handlers of \<^verbatim>\<open>os/src/trap.c\<close> and \<^verbatim>\<open>gcc/trap.c\<close>.
  \<^item> HeapSpec: the contract \<open>block_heap\<close> of a heap of bytes and what a client can rely on; Malloc: the
    free-list allocator \<^verbatim>\<open>gcc/malloc.c\<close>; Kmem: the kernel heap \<^verbatim>\<open>gcc/kmem.c\<close> and its refinement of a list of
    chunks; KmemHeap: its clients and its errors. Both allocators are interpretations of \<open>block_heap\<close>.
  \<^item> PageSpec: first fit on a list of page flags, the contracts \<open>page_allocator\<close> and \<open>page_deallocator\<close>;
    PageAlloc: the 32-bit allocators of \<^verbatim>\<open>os/src/page.c\<close> and \<^verbatim>\<open>gcc/stdlib.c\<close>; PageTable: the 64-bit one of
    \<^verbatim>\<open>gcc/page.c\<close> with \<open>dealloc\<close>; PageMap: its page tables.
  \<^item> Printf: \<^verbatim>\<open>os/src/printf.c\<close>; PrintfProps: the contract \<open>sink\<close> of an output function and what every format
    respects; PrintfText: the contract \<open>printer\<close>, the meaning of formats, and that both outputs meet it.
  \<^item> Double: the type \<open>double\<close>, IEEE 754 binary64 in integer arithmetic; PrintfFloat: the floating-point
    conversions of \<^verbatim>\<open>os/src/printf.c\<close> and their bounds; FloatText: what they print; DoubleError: the error of an
    operation, in real numbers; FloatExponent: that the power of ten \<open>_etoa\<close> finds is close; FloatEnds: that both functions return.
  \<^item> Aes: \<^verbatim>\<open>gcc/aes.c\<close>. Sorts, QSort, Radix: \<^verbatim>\<open>quicksort.c\<close>, \<^verbatim>\<open>bubblesort.c\<close>, \<^verbatim>\<open>qsort.c\<close>, \<^verbatim>\<open>rsort.c\<close>, each an
    interpretation of \<open>sorter\<close>. Bench: the other benchmarks. Serial: sessions of the sorting and factorial
    servers. Demos and Programs: the test programs; Overflow: \<^verbatim>\<open>rop1.c\<close>, \<^verbatim>\<open>buffer.c\<close>, \<^verbatim>\<open>ptr.c\<close> and the \<open>malloc\<close> of
    \<^verbatim>\<open>gcc/stdlib.c\<close>, which write outside arrays of the stack or give it away; Unlinked: the programs that call functions
    the repository does not have.

  \<^bold>\<open>State.\<close> A definition has the name of the C function it models, with a prefix (\<open>os_\<close>, \<open>std_\<close>, \<open>fact_\<close>) or the
  suffix \<open>_main\<close> where several have one name; a loop of the function is a definition of its own. Memory is
  a function from addresses to bytes, as the code casts and overlays what it stores. The records
  \<open>heap\<close>, \<open>pages32\<close>, \<open>pages64\<close>, \<open>kmem\<close>, \<open>kernel\<close> and \<open>dev\<close> hold the memory or the device with the global variables of
  the file they stand for. A device is the list of values its next loads return and the trace of its
  accesses; a load for which no value is left is \<open>None\<close>, so that a result is about finite runs and a
  loop that polls ends with the responses.

  \<^bold>\<open>Floating point.\<close> A \<open>double\<close> is not a number, an infinity, or \<open>m * 2 ^ e\<close> for integers \<open>m\<close> and \<open>e\<close>; an operation rounds its
  exact result once, to the nearest number of 53 bits, to the even one on a tie. The conversions are those the
  configuration of \<^verbatim>\<open>printf.c\<close> comments out, with the values of the macros given there; \<open>out_float\<close> is the
  part of the switch that calls them, which the loop over the format, modelled as it is compiled, does not have.
  \<open>_ftoa\<close> and \<open>_etoa\<close> call each other, so they are one partial function; that it returns for every encoding of a \<open>double\<close>
  follows from bounds on the approximation of the decimal exponent: the scaled value is at most 6400 in magnitude, far below
  the \<open>1e9\<close> from which on \<open>_ftoa\<close> calls \<open>_etoa\<close>. The text printed is shown for values whose product with the power of ten is
  exact, and for the values run.

  \<^bold>\<open>Integers.\<close> An \<open>int\<close> or \<open>unsigned\<close> is a 32-bit word, read signed where the code compares it signed, and wraps;
  the code of \<^verbatim>\<open>gcc/page.c\<close> and \<^verbatim>\<open>gcc/kmem.c\<close> has 64-bit words. The sorts index arrays by unbounded integers,
  as their indices stay within the array, which the model checks at each access. Division by 0 and
  access outside an array, undefined in C, are \<open>None\<close>.

  \<^bold>\<open>Loops.\<close> A loop with a bound is a total function with its measure. A loop that may run forever is a partial
  function, for which the results state that it returns: there is no fuel but the responses of
  the device. Four results state that a loop does not return (a request after \<open>kmalloc(0)\<close>, the trap handler of
  the kernel, the wait of \<^verbatim>\<open>photon.c\<close>, repeated subtraction of 0).

  \<^bold>\<open>What is shown.\<close> The properties carry the numbers C1 to C40 in the text before them. The allocators keep their
  invariants and give disjoint blocks that hold what clients write, over every sequence of calls.
  \<open>map\<close> changes the translation of the addresses it is given and of no others. The
  loader, the drivers and the servers do on the line and in memory exactly what their protocol says.
  \<open>printf\<close> puts out the text of its format and stays in its buffer. The cipher is inverted by its
  inverse and agrees with FIPS 197. The sorts sort. The errors found are theorems as well: what the
  code does instead of what it means.

  \<^bold>\<open>Parameters.\<close> The addresses of string literals, of locals whose address is taken, the heap bounds from the
  linker script and the values of locals without initialiser are arguments. \<open>PAGE_SIZE\<close> of the 64-bit code,
  whose header is not in the repository, is an argument too, fixed to 4096 only where the format of the page
  tables requires it. The environment call of \<open>main\<close>, the user function of \<open>fctprintf\<close>, the C library's \<open>printf\<close> and the
  functions that programs call and the repository does not have are functions the definitions take.

  \<^bold>\<open>The stack.\<close> Locals are values, except in Overflow, where arrays of a frame are written outside their bounds: there the
  stack is in memory, a call saves its return address and jumps to what it finds there. Where the arrays and the saved
  address are in the frames of \<^verbatim>\<open>rop1.c\<close> and \<^verbatim>\<open>buffer.c\<close> is read from the listings \<^verbatim>\<open>gcc/rop1.dump\<close> and \<^verbatim>\<open>gcc/buffer.dump\<close>.
  What the processor does with return addresses once \<open>set_CRAS\<close> has turned its check on is not modelled.

  \<^bold>\<open>Not modelled.\<close> The processor itself (SystemVerilog and VHDL), the assembly and linker scripts, and the host-side scripts
  are not C. Left out are \<^verbatim>\<open>multest.c\<close> and \<^verbatim>\<open>arraytest.c\<close>, which do not compile, \<^verbatim>\<open>mtest.c\<close>, which uses the 64-bit heap with the
  32-bit driver and a \<open>malloc\<close> it does not declare, and code in comments. Headers that only declare are not in the map.
  The endless loops without effect at the end of test programs are left out. The depth of the C stack is not
  bounded, and traps do not interrupt the functions they may interrupt on the core.
\<close>

end
